(* ===== verification/Prelude.thy ===== *)
theory Prelude
  imports "HOL-Library.Word"
begin

unbundle bit_operations_syntax

section \<open>Prelude: machine types, failures, the computation type, word lemmas\<close>

text \<open>
  What every component shares: names for the C integer types, the ways a piece
  of kernel code can fail to return, the type of stateful computations with
  sequencing written as plain functions, and the word facts that the address
  arithmetic of the components needs.
\<close>

subsection \<open>C integer types\<close>

type_synonym u8 = "8 word"
type_synonym u16 = "16 word"
type_synonym u32 = "32 word"
type_synonym addr = "32 word"

subsection \<open>Failures\<close>

text \<open>
  \<open>Panic file line func condition\<close> is a failed \<open>ASSERT\<close>: the macro of
  \<open>include/debug.h\<close> calls \<open>panic_spin\<close> with exactly these four arguments, which
  prints them and spins. \<open>Page_Fault\<close> is an access through an address the page
  tables do not map (vector 14 spins in \<open>general_intr_handler\<close>), \<open>Misaligned\<close> a
  \<open>uint32_t\<close> access through an unaligned pointer, \<open>Out_Of_Bounds\<close> a read of a constant
  array outside it, \<open>Signed_Overflow\<close> an \<open>int\<close> that leaves its range,
  \<open>Divide_Error\<close> the processor's exception 0, and \<open>Diverge\<close> a loop that never ends.
\<close>

datatype fail =
    Panic string nat string string
  | Page_Fault addr
  | Misaligned addr
  | Out_Of_Bounds int
  | Signed_Overflow
  | Divide_Error
  | Diverge

subsection \<open>Stateful computations that may fail\<close>

type_synonym ('s, 'a) comp = "'s \<Rightarrow> fail + ('a \<times> 's)"

definition ret :: "'a \<Rightarrow> ('s, 'a) comp" where
  "ret x s = Inr (x, s)"

definition fail_with :: "fail \<Rightarrow> ('s, 'a) comp" where
  "fail_with e s = Inl e"

definition cbind :: "('s, 'a) comp \<Rightarrow> ('a \<Rightarrow> ('s, 'b) comp) \<Rightarrow> ('s, 'b) comp" where
  "cbind m f s = (case m s of Inl e \<Rightarrow> Inl e | Inr (x, s') \<Rightarrow> f x s')"

definition cseq :: "('s, 'a) comp \<Rightarrow> ('s, 'b) comp \<Rightarrow> ('s, 'b) comp" where
  "cseq m n = cbind m (\<lambda>_. n)"

definition gets :: "('s \<Rightarrow> 'a) \<Rightarrow> ('s, 'a) comp" where
  "gets f s = Inr (f s, s)"

definition modify :: "('s \<Rightarrow> 's) \<Rightarrow> ('s, unit) comp" where
  "modify f s = Inr ((), f s)"

definition assert_or :: "bool \<Rightarrow> fail \<Rightarrow> ('s, unit) comp" where
  "assert_or b e s = (if b then Inr ((), s) else Inl e)"

definition when_do :: "bool \<Rightarrow> ('s, unit) comp \<Rightarrow> ('s, unit) comp" where
  "when_do b m = (if b then m else ret ())"

text \<open>An operation run on each element of a list, and run \<open>n\<close> times with its results collected.\<close>

fun run_all :: "('a \<Rightarrow> ('s, unit) comp) \<Rightarrow> 'a list \<Rightarrow> ('s, unit) comp" where
  "run_all f [] = ret ()"
| "run_all f (x # xs) = cseq (f x) (run_all f xs)"

fun run_n :: "('s, 'a) comp \<Rightarrow> nat \<Rightarrow> ('s, 'a list) comp" where
  "run_n f 0 = ret []"
| "run_n f (Suc n) = cbind f (\<lambda>x. cbind (run_n f n) (\<lambda>xs. ret (x # xs)))"

text \<open>
  A loop written with \<^theory_text>\<open>partial_function (option)\<close> yields \<open>None\<close> when it does
  not end; \<open>returning\<close> turns that into the failure \<open>Diverge\<close>.
\<close>

definition returning :: "(fail + 'a) option \<Rightarrow> fail + 'a" where
  "returning r = (case r of None \<Rightarrow> Inl Diverge | Some x \<Rightarrow> x)"

named_theorems comp_simps \<open>unfolding the computation combinators on a state\<close>

lemmas comp_defs [comp_simps] =
  ret_def fail_with_def cseq_def cbind_def gets_def modify_def assert_or_def when_do_def

lemma returning_Some [simp]: "returning (Some x) = x"
  by (simp add: returning_def)

lemma returning_None [simp]: "returning None = Inl Diverge"
  by (simp add: returning_def)

lemma cbind_Inr: "m s = Inr (x, s') \<Longrightarrow> cbind m f s = f x s'"
  by (simp add: cbind_def)

lemma cseq_Inr: "m s = Inr (x, s') \<Longrightarrow> cseq m n s = n s'"
  by (simp add: cseq_def cbind_def)

lemma cbind_Inl: "m s = Inl e \<Longrightarrow> cbind m f s = Inl e"
  by (simp add: cbind_def)

lemma cbind_Inr_iff:
  "cbind m f s = Inr (y, t) \<longleftrightarrow> (\<exists>x s'. m s = Inr (x, s') \<and> f x s' = Inr (y, t))"
  by (auto simp: cbind_def split: sum.splits)

lemma cbind_assoc: "cbind (cbind f g) h = cbind f (\<lambda>x. cbind (g x) h)"
  by (simp add: cbind_def fun_eq_iff split: sum.split)

lemma cseq_assoc: "cseq (cseq a b) c = cseq a (cseq b c)"
  by (rule ext) (simp add: cseq_def cbind_def split: sum.split)

subsection \<open>Alignment and bytes of a word\<close>

definition aligned4 :: "addr \<Rightarrow> bool" where
  "aligned4 a \<longleftrightarrow> a AND 3 = 0"

lemma mask_2_eq: "mask 2 = (3 :: addr)"
  by (simp add: mask_eq_exp_minus_1)

lemma aligned4_take_bit: "aligned4 a \<longleftrightarrow> take_bit 2 a = 0"
  by (simp add: aligned4_def take_bit_eq_mask mask_2_eq)

lemma aligned4_unat: "aligned4 a \<longleftrightarrow> unat a mod 4 = 0"
proof -
  have "take_bit 2 a = 0 \<longleftrightarrow> unat (take_bit 2 a) = 0"
    by (simp add: unat_eq_0)
  also have "unat (take_bit 2 a) = unat a mod 4"
    by (simp only: unsigned_take_bit_eq) (simp add: take_bit_eq_mod)
  finally show ?thesis by (simp add: aligned4_take_bit)
qed

lemma aligned4_add_iff [simp]:
  assumes "aligned4 b"
  shows "aligned4 (a + b) \<longleftrightarrow> aligned4 a"
proof -
  have "unat (a + b) mod 4 = (unat a + unat b) mod 4"
    by (simp add: unat_word_ariths mod_mod_cancel)
  also have "\<dots> = unat a mod 4"
    using assms by (simp add: aligned4_unat mod_add_eq [symmetric, of "unat a"])
  finally show ?thesis by (simp add: aligned4_unat)
qed

lemma aligned4_numeral [simp]: "aligned4 (numeral n) \<longleftrightarrow> (numeral n :: addr) AND 3 = 0"
  by (simp add: aligned4_def)

lemma aligned4_0 [simp]: "aligned4 0"
  by (simp add: aligned4_def)

subsection \<open>Unsigned values of masks and shifts\<close>

lemma unat_drop: "unat (drop_bit n (x :: 'a::len word)) = unat x div 2 ^ n"
  by (subst unat_drop_bit_eq) (rule drop_bit_eq_div)

lemma unat_take: "unat (take_bit n (x :: 'a::len word)) = unat x mod 2 ^ n"
  by (subst unsigned_take_bit_eq) (rule take_bit_eq_mod)

lemma unat_push: "unat (push_bit n (x :: 'a::len word)) = unat x * 2 ^ n mod 2 ^ LENGTH('a)"
  by (subst unsigned_push_bit_eq) (simp add: push_bit_eq_mult take_bit_eq_mod)

lemma page_mask_not: "(0xfffff000 :: u32) = NOT (mask 12)"
  by (simp add: mask_eq_exp_minus_1)

lemma and_page_mask: "(x :: u32) AND 0xfffff000 = push_bit 12 (drop_bit 12 x)"
  unfolding page_mask_not
  by (rule bit_word_eqI) (auto simp: bit_simps)

lemma unat_and_fff: "unat ((x :: u32) AND 0xfff) = unat x mod 4096"
proof -
  have "x AND 0xfff = take_bit 12 x" by (simp add: take_bit_eq_mask mask_eq_exp_minus_1)
  then show ?thesis by (simp only: unat_take) simp
qed

lemma unat_and_3ff: "unat ((x :: u32) AND 0x3ff) = unat x mod 1024"
proof -
  have "x AND 0x3ff = take_bit 10 x" by (simp add: take_bit_eq_mask mask_eq_exp_minus_1)
  then show ?thesis by (simp only: unat_take) simp
qed

lemma unat_u32_less: "unat (x :: u32) < 4294967296"
  using unsigned_less [of x] by simp

lemma unat_u32_of_nat: "n < 4294967296 \<Longrightarrow> unat (of_nat n :: u32) = n"
  by (subst unat_of_nat) simp

lemma unat_and_page_mask: "unat ((x :: u32) AND 0xfffff000) = unat x div 4096 * 4096"
  using unat_u32_less [of x] by (simp only: and_page_mask unat_push unat_drop) simp

lemma drop_page_offset:
  assumes "unat off < 4096"
  shows "drop_bit 12 (((x :: u32) AND 0xfffff000) + off) = drop_bit 12 x"
proof -
  have "unat x div 4096 < 1048576"
    using unat_u32_less [of x] by (simp add: less_mult_imp_div_less)
  then have "unat (x AND 0xfffff000) + unat off < 4294967296"
    using assms by (simp only: unat_and_page_mask)
  then have "unat ((x AND 0xfffff000) + off) = unat x div 4096 * 4096 + unat off"
    by (simp add: unat_word_ariths unat_and_page_mask)
  then have "unat (drop_bit 12 ((x AND 0xfffff000) + off)) = unat (drop_bit 12 x)"
    using assms by (simp only: unat_drop) simp
  then show ?thesis by (simp only: word_unat_eq_iff)
qed

subsection \<open>Invariants of step relations\<close>

locale step_invariant =
  fixes step :: "'s \<Rightarrow> 's \<Rightarrow> bool" and start :: "'s \<Rightarrow> bool" and inv :: "'s \<Rightarrow> bool"
  assumes start_inv: "start s \<Longrightarrow> inv s"
    and step_inv: "step s t \<Longrightarrow> inv s \<Longrightarrow> inv t"
begin

lemma steps_inv: "step\<^sup>*\<^sup>* s t \<Longrightarrow> inv s \<Longrightarrow> inv t"
  by (induction rule: rtranclp_induct) (auto intro: step_inv)

lemma reachable_inv: "start s \<Longrightarrow> step\<^sup>*\<^sup>* s t \<Longrightarrow> inv t"
  by (rule steps_inv [OF _ start_inv])

text \<open>What holds at every state with the invariant holds along every run.\<close>

lemma reachable_all:
  assumes "start s" "step\<^sup>*\<^sup>* s t" "\<And>u. inv u \<Longrightarrow> P u"
  shows "P t"
  using reachable_inv [OF assms(1,2)] assms(3) by blast

end

end
