(* ===== verification/Machine.thy ===== *)
theory Machine
  imports Prelude
begin

section \<open>The machine: physical memory, paging, registers\<close>

text \<open>
  The i386 the kernel runs on, as far as the C code can see it: a byte-addressed
  physical memory, the page directory that CR3 points at, the flags and the registers
  that \<open>kernel/switch.S\<close> saves, the bytes written to I/O ports and the calls made to
  the console. Every access of the kernel through a pointer goes through the two-level
  page walk, so the page tables that \<open>kernel/memory.c\<close> edits through the recursive
  directory entry decide what the next access reaches.
\<close>

subsection \<open>State\<close>

text \<open>Console calls made with literal or computed arguments, in the order of the calls.\<close>

datatype console_call =
    PutStr string
  | PutStrAt addr
  | PutChar u8
  | PutInt u32
  | SetCursor nat
  | Printk string "u32 list"
  | PrintkColor string u8 u8 "u32 list"
  | PrintkDebug

record machine =
  pmem :: "addr \<Rightarrow> u8"
  cr3 :: addr
  eflags :: u32
  esp :: u32
  ebp :: u32
  ebx :: u32
  esi :: u32
  edi :: u32
  eip :: u32
  console :: "console_call list"
  ports_out :: "(u16 \<times> u8) list"

definition log_console :: "console_call \<Rightarrow> ('z machine_scheme, unit) comp" where
  "log_console c s = Inr ((), s\<lparr>console := console s @ [c]\<rparr>)"

subsection \<open>Little-endian words in physical memory\<close>

definition le32 :: "(addr \<Rightarrow> u8) \<Rightarrow> addr \<Rightarrow> u32" where
  "le32 m p = ucast (m p) OR push_bit 8 (ucast (m (p + 1)))
     OR push_bit 16 (ucast (m (p + 2))) OR push_bit 24 (ucast (m (p + 3)))"

definition set_le32 :: "addr \<Rightarrow> u32 \<Rightarrow> (addr \<Rightarrow> u8) \<Rightarrow> (addr \<Rightarrow> u8)" where
  "set_le32 p v m = m(p := ucast v, p + 1 := ucast (drop_bit 8 v),
     p + 2 := ucast (drop_bit 16 v), p + 3 := ucast (drop_bit 24 v))"

subsection \<open>The page walk\<close>

text \<open>
  Page number \<open>vp\<close> (the address without its low twelve bits) selects a directory entry
  with its upper ten bits and a table entry with its lower ten; both must have the present
  bit. The kernel runs in ring 0 with CR0.WP clear, so the other permission bits do not
  restrict it.
\<close>

definition page_mask :: u32 where
  "page_mask = 0xfffff000"

definition pd_entry_addr :: "'z machine_scheme \<Rightarrow> u32 \<Rightarrow> addr" where
  "pd_entry_addr s vp = (cr3 s AND page_mask) + push_bit 2 (drop_bit 10 vp)"

definition pt_entry_addr :: "u32 \<Rightarrow> u32 \<Rightarrow> addr" where
  "pt_entry_addr pde vp = (pde AND page_mask) + push_bit 2 (vp AND 0x3ff)"

definition frame_of :: "'z machine_scheme \<Rightarrow> u32 \<Rightarrow> u32 option" where
  "frame_of s vp =
     (let pde = le32 (pmem s) (pd_entry_addr s vp) in
      if pde AND 1 = 0 then None
      else let pte = le32 (pmem s) (pt_entry_addr pde vp) in
      if pte AND 1 = 0 then None else Some (drop_bit 12 pte))"

definition phys_addr :: "u32 \<Rightarrow> addr \<Rightarrow> addr" where
  "phys_addr f a = push_bit 12 f + (a AND 0xfff)"

definition translate :: "'z machine_scheme \<Rightarrow> addr \<Rightarrow> addr option" where
  "translate s a = (case frame_of s (drop_bit 12 a) of None \<Rightarrow> None | Some f \<Rightarrow> Some (phys_addr f a))"

subsection \<open>Accesses through pointers\<close>

definition load8 :: "addr \<Rightarrow> ('z machine_scheme, u8) comp" where
  "load8 a s = (case translate s a of None \<Rightarrow> Inl (Page_Fault a) | Some p \<Rightarrow> Inr (pmem s p, s))"

definition store8 :: "addr \<Rightarrow> u8 \<Rightarrow> ('z machine_scheme, unit) comp" where
  "store8 a v s = (case translate s a of None \<Rightarrow> Inl (Page_Fault a)
     | Some p \<Rightarrow> Inr ((), s\<lparr>pmem := (pmem s)(p := v)\<rparr>))"

definition load32 :: "addr \<Rightarrow> ('z machine_scheme, u32) comp" where
  "load32 a s = (if aligned4 a
     then (case translate s a of None \<Rightarrow> Inl (Page_Fault a) | Some p \<Rightarrow> Inr (le32 (pmem s) p, s))
     else Inl (Misaligned a))"

definition store32 :: "addr \<Rightarrow> u32 \<Rightarrow> ('z machine_scheme, unit) comp" where
  "store32 a v s = (if aligned4 a
     then (case translate s a of None \<Rightarrow> Inl (Page_Fault a)
       | Some p \<Rightarrow> Inr ((), s\<lparr>pmem := set_le32 p v (pmem s)\<rparr>))
     else Inl (Misaligned a))"

subsection \<open>Kernel data addresses\<close>

text \<open>
  A frame holds page tables when it is the directory's or a present directory entry
  points at it. \<open>kaddr s a\<close>: the address lies in the kernel's part of the address space
  (from \<open>0xc0000000\<close> up), is mapped, its frame holds no page tables, and no other kernel
  page maps the same frame. These are the addresses of ordinary kernel data, for which
  a store changes that datum and nothing else. (The loader maps the low megabyte twice,
  at 0 and at \<open>0xc0000000\<close>; the kernel is linked at and uses the upper copy.)
\<close>

definition table_frame :: "'z machine_scheme \<Rightarrow> u32 \<Rightarrow> bool" where
  "table_frame s f \<longleftrightarrow> f = drop_bit 12 (cr3 s) \<or>
     (\<exists>vp < 0x100000. le32 (pmem s) (pd_entry_addr s vp) AND 1 \<noteq> 0 \<and>
        f = drop_bit 12 (le32 (pmem s) (pd_entry_addr s vp)))"

definition kpage :: "'z machine_scheme \<Rightarrow> u32 \<Rightarrow> bool" where
  "kpage s vp \<longleftrightarrow> 0xc0000 \<le> vp \<and> vp < 0x100000 \<and>
     (\<exists>f. frame_of s vp = Some f \<and> \<not> table_frame s f \<and>
        (\<forall>vq. 0xc0000 \<le> vq \<longrightarrow> vq < 0x100000 \<longrightarrow> frame_of s vq = Some f \<longrightarrow> vq = vp))"

definition kaddr :: "'z machine_scheme \<Rightarrow> addr \<Rightarrow> bool" where
  "kaddr s a \<longleftrightarrow> kpage s (drop_bit 12 a)"

lemma drop_12_less: "drop_bit 12 (a :: u32) < 0x100000"
  using unat_u32_less [of a] by (simp add: word_less_nat_alt unat_drop)

lemma drop_pd_entry:
  assumes "vp < 0x100000" "i < 4"
  shows "drop_bit 12 (pd_entry_addr s vp + i) = drop_bit 12 (cr3 s)"
proof -
  have a: "unat vp < 1048576" "unat i < 4" using assms by (simp_all add: word_less_nat_alt)
  have "unat (push_bit 2 (drop_bit 10 vp)) = unat vp div 1024 * 4"
    using a(1) by (simp only: unat_push unat_drop) simp
  moreover have "unat vp div 1024 < 1024" using a(1) by (simp add: less_mult_imp_div_less)
  ultimately have "unat (push_bit 2 (drop_bit 10 vp) + i) < 4096"
    using a(2) by (simp add: unat_word_ariths)
  then show ?thesis
    unfolding pd_entry_addr_def page_mask_def by (simp only: add.assoc drop_page_offset)
qed

lemma drop_pt_entry:
  assumes "i < 4"
  shows "drop_bit 12 (pt_entry_addr pde vp + i) = drop_bit 12 pde"
proof -
  have a: "unat i < 4" using assms by (simp_all add: word_less_nat_alt)
  have "unat (push_bit 2 (vp AND 0x3ff)) = unat vp mod 1024 * 4"
    by (simp only: unat_push unat_and_3ff) simp
  then have "unat (push_bit 2 (vp AND 0x3ff) + i) < 4096"
    using a by (simp add: unat_word_ariths)
  then show ?thesis
    unfolding pt_entry_addr_def page_mask_def by (simp only: add.assoc drop_page_offset)
qed

lemma le32_cong:
  assumes "\<And>i. i < 4 \<Longrightarrow> m (p + i) = n (p + i)"
  shows "le32 m p = le32 n p"
  using assms [of 0] assms [of 1] assms [of 2] assms [of 3] by (simp add: le32_def)

definition tables_kept :: "'z machine_scheme \<Rightarrow> (addr \<Rightarrow> u8) \<Rightarrow> bool" where
  "tables_kept s m \<longleftrightarrow> (\<forall>p. table_frame s (drop_bit 12 p) \<longrightarrow> m p = pmem s p)"

lemma frame_of_cong:
  assumes kept: "tables_kept s m" and vp: "vp < 0x100000"
  shows "le32 m (pd_entry_addr s vp) = le32 (pmem s) (pd_entry_addr s vp)"
    and "frame_of (s\<lparr>pmem := m\<rparr>) vp = frame_of s vp"
proof -
  have same: "m p = pmem s p" if "table_frame s (drop_bit 12 p)" for p
    using kept that by (simp add: tables_kept_def)
  show pd: "le32 m (pd_entry_addr s vp) = le32 (pmem s) (pd_entry_addr s vp)"
    by (rule le32_cong, rule same) (simp add: drop_pd_entry vp table_frame_def)
  have "le32 m (pt_entry_addr pde vp) = le32 (pmem s) (pt_entry_addr pde vp)"
    if "pde = le32 (pmem s) (pd_entry_addr s vp)" "pde AND 1 \<noteq> 0" for pde
    by (rule le32_cong, rule same, simp only: drop_pt_entry table_frame_def) (use that vp in blast)
  with pd show "frame_of (s\<lparr>pmem := m\<rparr>) vp = frame_of s vp"
    by (simp add: frame_of_def Let_def pd_entry_addr_def)
qed


lemma table_frame_cong:
  assumes kept: "tables_kept s m"
  shows "table_frame (s\<lparr>pmem := m\<rparr>) f \<longleftrightarrow> table_frame s f"
  using frame_of_cong(1) [OF kept] by (auto simp: table_frame_def pd_entry_addr_def)

lemma kaddr_cong:
  assumes kept: "tables_kept s m"
  shows "translate (s\<lparr>pmem := m\<rparr>) a = translate s a"
    and "kaddr (s\<lparr>pmem := m\<rparr>) a \<longleftrightarrow> kaddr s a"
proof -
  note f = frame_of_cong(2) [OF kept]
  show "translate (s\<lparr>pmem := m\<rparr>) a = translate s a"
    by (simp only: translate_def f [OF drop_12_less])
  show "kaddr (s\<lparr>pmem := m\<rparr>) a \<longleftrightarrow> kaddr s a"
    unfolding kaddr_def kpage_def by (simp only: f table_frame_cong [OF kept] cong: conj_cong imp_cong)
qed

lemma frame_of_less: "frame_of s vp = Some f \<Longrightarrow> unat f < 1048576"
  using drop_12_less by (auto simp: frame_of_def Let_def word_less_nat_alt split: if_splits)

lemma unat_phys_addr:
  assumes "unat f < 1048576"
  shows "unat (phys_addr f a) = unat f * 4096 + unat a mod 4096"
proof -
  have "unat a mod 4096 < 4096" by simp
  with assms have "unat f * 4096 + unat a mod 4096 < 4294967296" by linarith
  then show ?thesis
    using assms by (simp add: phys_addr_def unat_word_ariths unat_and_fff unat_push)
qed

lemma drop_phys_addr: "unat f < 1048576 \<Longrightarrow> drop_bit 12 (phys_addr f a) = f"
  by (simp add: word_unat_eq_iff unat_drop unat_phys_addr)

lemma phys_addr_inj:
  assumes "unat f < 1048576" "drop_bit 12 a = drop_bit 12 b" "phys_addr f a = phys_addr f b"
  shows "a = b"
proof -
  have "unat a mod 4096 = unat b mod 4096"
    using assms(1,3) by (metis add_left_cancel unat_phys_addr)
  moreover have "unat a div 4096 = unat b div 4096"
    using arg_cong [OF assms(2), of unat] by (simp add: unat_drop)
  ultimately show ?thesis by (metis div_mult_mod_eq word_unat_eq_iff)
qed

lemma aligned4_phys_addr: "unat f < 1048576 \<Longrightarrow> aligned4 (phys_addr f a) \<longleftrightarrow> aligned4 a"
  by (simp add: aligned4_unat unat_phys_addr mod_add_eq [symmetric, of "_ * _"] mod_mod_cancel)

text \<open>The three facts about a kernel data address that the access laws rest on.\<close>

lemma kaddr_translate:
  assumes "kaddr s a"
  obtains p where "translate s a = Some p" "\<not> table_frame s (drop_bit 12 p)"
    "aligned4 p \<longleftrightarrow> aligned4 a"
proof -
  from assms obtain f where f: "frame_of s (drop_bit 12 a) = Some f" "\<not> table_frame s f"
    by (auto simp: kaddr_def kpage_def)
  from f(1) have "unat f < 1048576" by (rule frame_of_less)
  with f that [of "phys_addr f a"] show thesis
    by (simp add: translate_def drop_phys_addr aligned4_phys_addr)
qed

lemma kaddr_inj:
  assumes "kaddr s a" "kaddr s b" "translate s a = translate s b"
  shows "a = b"
proof -
  from assms obtain f g where f: "frame_of s (drop_bit 12 a) = Some f"
    and g: "frame_of s (drop_bit 12 b) = Some g"
    and u: "\<forall>vq. 0xc0000 \<le> vq \<longrightarrow> vq < 0x100000 \<longrightarrow> frame_of s vq = Some f \<longrightarrow> vq = drop_bit 12 a"
    and b: "0xc0000 \<le> drop_bit 12 b" "drop_bit 12 b < 0x100000"
    by (auto simp: kaddr_def kpage_def)
  from assms(3) f g have p: "phys_addr f a = phys_addr g b" by (simp add: translate_def)
  from p frame_of_less [OF f] frame_of_less [OF g] have "f = g" by (metis drop_phys_addr)
  with g u b have "drop_bit 12 b = drop_bit 12 a" by blast
  with p \<open>f = g\<close> frame_of_less [OF f] show ?thesis by (metis phys_addr_inj)
qed

subsection \<open>Reading and updating mapped memory\<close>

definition peek8 :: "'z machine_scheme \<Rightarrow> addr \<Rightarrow> u8" where
  "peek8 s a = (case translate s a of None \<Rightarrow> 0 | Some p \<Rightarrow> pmem s p)"

definition poke8 :: "addr \<Rightarrow> u8 \<Rightarrow> 'z machine_scheme \<Rightarrow> 'z machine_scheme" where
  "poke8 a v s = (case translate s a of None \<Rightarrow> s | Some p \<Rightarrow> s\<lparr>pmem := (pmem s)(p := v)\<rparr>)"

definition peek32 :: "'z machine_scheme \<Rightarrow> addr \<Rightarrow> u32" where
  "peek32 s a = (case translate s a of None \<Rightarrow> 0 | Some p \<Rightarrow> le32 (pmem s) p)"

definition poke32 :: "addr \<Rightarrow> u32 \<Rightarrow> 'z machine_scheme \<Rightarrow> 'z machine_scheme" where
  "poke32 a v s = (case translate s a of None \<Rightarrow> s | Some p \<Rightarrow> s\<lparr>pmem := set_le32 p v (pmem s)\<rparr>)"

definition kcell :: "'z machine_scheme \<Rightarrow> addr \<Rightarrow> bool" where
  "kcell s a \<longleftrightarrow> aligned4 a \<and> kaddr s a"

text \<open>
  \<open>peek\<close> and \<open>poke\<close> are what a load and a store do on a mapped address; the laws below
  say that they are, and how reads and updates interact on kernel data addresses.
\<close>

lemma load8_kaddr: "kaddr s a \<Longrightarrow> load8 a s = Inr (peek8 s a, s)"
  by (elim kaddr_translate) (simp add: load8_def peek8_def)

lemma store8_kaddr: "kaddr s a \<Longrightarrow> store8 a v s = Inr ((), poke8 a v s)"
  by (elim kaddr_translate) (simp add: store8_def poke8_def)

lemma load32_kcell: "kcell s a \<Longrightarrow> load32 a s = Inr (peek32 s a, s)"
  by (auto simp: kcell_def load32_def peek32_def elim: kaddr_translate)

lemma store32_kcell: "kcell s a \<Longrightarrow> store32 a v s = Inr ((), poke32 a v s)"
  by (auto simp: kcell_def store32_def poke32_def elim: kaddr_translate)

lemma aligned4_bytes:
  assumes "aligned4 p" "i < 4" "aligned4 q" "j < 4" "p + i = q + j"
  shows "p = q \<and> i = j"
proof -
  have off: "unat (p + i) = unat p + unat i \<and> unat p mod 4 = 0 \<and> unat i < 4"
    if "aligned4 p" "i < (4 :: addr)" for p i
  proof -
    have a: "unat p mod 4 = 0" "unat i < 4"
      using that by (simp_all add: aligned4_unat word_less_nat_alt)
    have "unat p < 4294967296" by (rule unat_u32_less)
    with a have "unat p + unat i < 4294967296" by (auto elim!: dvdE simp: mod_eq_0_iff_dvd)
    with a show ?thesis by (simp add: unat_word_ariths)
  qed
  have "(unat p + unat i) mod 4 = (unat q + unat j) mod 4"
    using off [OF assms(1,2)] off [OF assms(3,4)] assms(5) by metis
  then have "unat i = unat j"
    using off [OF assms(1,2)] off [OF assms(3,4)] by (metis add_0 mod_add_left_eq mod_less)
  then have "i = j" by (simp add: word_unat_eq_iff)
  with assms(5) show ?thesis by simp
qed

lemma drop_aligned4_bytes:
  assumes "aligned4 p" "i < 4"
  shows "drop_bit 12 (p + i) = drop_bit 12 p"
proof -
  have a: "unat p mod 4 = 0" "unat i < 4"
    using assms by (simp_all add: aligned4_unat word_less_nat_alt)
  then obtain k where k: "unat p = 4 * k" by (auto simp: mod_eq_0_iff_dvd)
  have "unat p < 4294967296" by (rule unat_u32_less)
  with a k have s: "unat (p + i) = 4 * k + unat i" by (simp add: unat_word_ariths)
  have "(4 * k + unat i) div 4096 = (4 * k + unat i) div 4 div 1024"
    by (simp add: div_mult2_eq [symmetric])
  also have "(4 * k + unat i) div 4 = k" using a by simp
  finally have "unat (p + i) div 4096 = unat p div 4096"
    by (simp add: s k div_mult2_eq [of "4 * k" 4 1024, simplified])
  then show ?thesis by (simp add: word_unat_eq_iff unat_drop)
qed

lemma le32_set_le32_same: "le32 (set_le32 p v m) p = v"
proof -
  have b: "ucast (ucast v :: u8) OR push_bit 8 (ucast (ucast (drop_bit 8 v) :: u8))
      OR push_bit 16 (ucast (ucast (drop_bit 16 v) :: u8))
      OR push_bit 24 (ucast (ucast (drop_bit 24 v) :: u8)) = v" for v :: u32
  proof (rule bit_word_eqI)
    fix n assume "n < LENGTH(32)"
    then consider "n < 8" | "8 \<le> n" "n < 16" | "16 \<le> n" "n < 24" | "24 \<le> n" "n < 32" by fastforce
    then show "bit (ucast (ucast v :: u8) OR push_bit 8 (ucast (ucast (drop_bit 8 v) :: u8))
      OR push_bit 16 (ucast (ucast (drop_bit 16 v) :: u8))
      OR push_bit 24 (ucast (ucast (drop_bit 24 v) :: u8)) :: u32) n \<longleftrightarrow> bit v n"
      by cases (auto simp: bit_simps)
  qed
  show ?thesis unfolding le32_def set_le32_def by (simp add: b)
qed

lemma set_le32_other:
  assumes "aligned4 p" "aligned4 q" "p \<noteq> q"
  shows "le32 (set_le32 p v m) q = le32 m q"
proof (rule le32_cong)
  fix i :: addr assume i: "i < 4"
  have "q + i \<noteq> p + j" if "j < 4" for j
    using aligned4_bytes [OF assms(2) i assms(1) that] assms(3) by blast
  from this [of 0] this [of 1] this [of 2] this [of 3]
  show "set_le32 p v m (q + i) = m (q + i)" by (simp add: set_le32_def)
qed

lemma set_le32_byte_other:
  assumes "\<And>i. i < 4 \<Longrightarrow> q \<noteq> p + i"
  shows "set_le32 p v m q = m q"
  using assms [of 0] assms [of 1] assms [of 2] assms [of 3] by (simp add: set_le32_def)

lemma le32_byte_other:
  assumes "\<And>i. i < 4 \<Longrightarrow> q \<noteq> p + i"
  shows "le32 (m(q := v)) p = le32 m p"
  using assms by (intro le32_cong) auto

lemma kaddr_byte:
  assumes "aligned4 b" "i < 4"
  shows "kaddr s (b + i) \<longleftrightarrow> kaddr s b"
  using assms by (simp only: kaddr_def drop_aligned4_bytes)

lemma phys_addr_byte:
  assumes "unat f < 1048576" "aligned4 b" "i < 4"
  shows "phys_addr f (b + i) = phys_addr f b + i"
proof -
  have p: "aligned4 (phys_addr f b)" using assms by (simp add: aligned4_phys_addr)
  have a: "unat i < 4" using assms(3) by (simp add: word_less_nat_alt)
  have sum: "unat (q + i) = unat q + unat i" if "aligned4 q" for q
  proof -
    obtain k where k: "unat q = 4 * k" using \<open>aligned4 q\<close> by (auto simp: aligned4_unat mod_eq_0_iff_dvd)
    have "unat q < 4294967296" by (rule unat_u32_less)
    with a k show ?thesis by (simp add: unat_word_ariths)
  qed
  have "(unat b + unat i) mod 4096 = unat b mod 4096 + unat i"
  proof -
    obtain k where k: "unat b = 4 * k" using assms(2) by (auto simp: aligned4_unat mod_eq_0_iff_dvd)
    have "4 * k mod 4096 = 4 * (k mod 1024)" by (simp add: mult_mod_right)
    moreover have "k mod 1024 < 1024" by simp
    ultimately have "4 * k mod 4096 + unat i < 4096" using a by linarith
    then show ?thesis by (simp add: k mod_add_left_eq [symmetric, of "4 * k"])
  qed
  then show ?thesis
    using sum [OF p] sum [OF assms(2)] assms(1) by (simp add: word_unat_eq_iff unat_phys_addr)
qed

lemma translate_byte:
  assumes "aligned4 b" "i < 4" "translate s b = Some p"
  shows "translate s (b + i) = Some (p + i)"
proof -
  from assms(3) obtain f where f: "frame_of s (drop_bit 12 b) = Some f" "p = phys_addr f b"
    by (auto simp: translate_def split: option.splits)
  have "drop_bit 12 (b + i) = drop_bit 12 b" using assms(1,2) by (rule drop_aligned4_bytes)
  with f show ?thesis
    using assms(1,2) frame_of_less [OF f(1)] by (simp add: translate_def phys_addr_byte)
qed

lemma tables_kept_byte:
  assumes "\<not> table_frame s (drop_bit 12 p)"
  shows "tables_kept s ((pmem s)(p := v))"
  using assms by (auto simp: tables_kept_def)

lemma tables_kept_le32:
  assumes "\<not> table_frame s (drop_bit 12 p)" "aligned4 p"
  shows "tables_kept s (set_le32 p v (pmem s))"
proof -
  have "q \<noteq> p + i" if "table_frame s (drop_bit 12 q)" "i < 4" for q i
    using assms that drop_aligned4_bytes by metis
  then show ?thesis by (simp add: tables_kept_def set_le32_byte_other)
qed

lemma translate_poke8: "kaddr s a \<Longrightarrow> translate (poke8 a v s) = translate s"
  by (rule ext, elim kaddr_translate) (simp add: poke8_def kaddr_cong tables_kept_byte)

lemma kaddr_poke8: "kaddr s a \<Longrightarrow> kaddr (poke8 a v s) = kaddr s"
  by (rule ext, elim kaddr_translate) (simp add: poke8_def kaddr_cong tables_kept_byte)

lemma translate_poke32: "kcell s a \<Longrightarrow> translate (poke32 a v s) = translate s"
  unfolding kcell_def
  by (rule ext, elim conjE kaddr_translate) (simp add: poke32_def kaddr_cong tables_kept_le32)

lemma kaddr_poke32: "kcell s a \<Longrightarrow> kaddr (poke32 a v s) = kaddr s"
  unfolding kcell_def
  by (rule ext, elim conjE kaddr_translate) (simp add: poke32_def kaddr_cong tables_kept_le32)

lemma kcell_poke8: "kaddr s a \<Longrightarrow> kcell (poke8 a v s) = kcell s"
  by (rule ext) (simp add: kcell_def kaddr_poke8)

lemma kcell_poke32: "kcell s a \<Longrightarrow> kcell (poke32 a v s) = kcell s"
  by (rule ext) (simp add: kcell_def kaddr_poke32)

lemma peek8_poke8:
  assumes a: "kaddr s a" and b: "kaddr s b"
  shows "peek8 (poke8 a v s) b = (if b = a then v else peek8 s b)"
proof -
  from a obtain p where p: "translate s a = Some p" by (rule kaddr_translate)
  from b obtain q where q: "translate s b = Some q" by (rule kaddr_translate)
  have "translate (poke8 a v s) b = Some q" by (simp add: translate_poke8 a q)
  then show ?thesis using kaddr_inj [OF a b] p q by (auto simp: peek8_def poke8_def)
qed

lemma peek32_poke32:
  assumes a: "kcell s a" and b: "kcell s b"
  shows "peek32 (poke32 a v s) b = (if b = a then v else peek32 s b)"
proof -
  from a obtain p where p: "translate s a = Some p" "aligned4 p"
    unfolding kcell_def by (elim conjE kaddr_translate) simp
  from b obtain q where q: "translate s b = Some q" "aligned4 q"
    unfolding kcell_def by (elim conjE kaddr_translate) simp
  have "translate (poke32 a v s) b = Some q" by (simp add: translate_poke32 a q)
  moreover have "p \<noteq> q" if "b \<noteq> a"
    using kaddr_inj [of s a b] a b p q that by (auto simp: kcell_def)
  ultimately show ?thesis
    using p q by (cases "b = a") (simp_all add: peek32_def poke32_def le32_set_le32_same set_le32_other)
qed

lemma phys_bytes_differ:
  assumes a: "kaddr s a" "translate s a = Some p" and b: "kcell s b" "translate s b = Some q"
    and i: "i < 4" and d: "\<not> a - b < 4"
  shows "p \<noteq> q + i"
proof
  assume eq: "p = q + i"
  have "translate s (b + i) = Some (q + i)"
    using b i by (simp add: translate_byte kcell_def)
  moreover have "kaddr s (b + i)" using b i by (simp add: kaddr_byte kcell_def)
  ultimately have "a = b + i" using kaddr_inj [OF a(1)] a(2) eq by metis
  with i d show False by simp
qed

lemma peek32_poke8:
  assumes a: "kaddr s a" and b: "kcell s b" and d: "\<not> a - b < 4"
  shows "peek32 (poke8 a v s) b = peek32 s b"
proof -
  from a obtain p where p: "translate s a = Some p" by (rule kaddr_translate)
  from b obtain q where q: "translate s b = Some q" unfolding kcell_def by (elim conjE kaddr_translate)
  have "translate (poke8 a v s) b = Some q" by (simp add: translate_poke8 a q)
  then show ?thesis
    using phys_bytes_differ [OF a p b q _ d] p q by (simp add: peek32_def poke8_def le32_byte_other)
qed

lemma peek8_poke32:
  assumes a: "kaddr s a" and b: "kcell s b" and d: "\<not> a - b < 4"
  shows "peek8 (poke32 b v s) a = peek8 s a"
proof -
  from a obtain p where p: "translate s a = Some p" by (rule kaddr_translate)
  from b obtain q where q: "translate s b = Some q" unfolding kcell_def by (elim conjE kaddr_translate)
  have "translate (poke32 b v s) a = Some p" by (simp add: translate_poke32 b p)
  then show ?thesis
    using phys_bytes_differ [OF a p b q _ d] p q by (simp add: peek8_def poke32_def set_le32_byte_other)
qed


named_theorems mem_simps \<open>reads, updates and mappings of kernel data addresses\<close>

lemmas mem_laws [mem_simps] =
  load8_kaddr store8_kaddr load32_kcell store32_kcell
  kaddr_poke8 kaddr_poke32 kcell_poke8 kcell_poke32
  peek8_poke8 peek32_poke32 peek32_poke8 peek8_poke32

lemma kcell_kaddr: "kcell s a \<Longrightarrow> kaddr s a"
  by (simp add: kcell_def)

lemma regs_poke [simp]:
  "cr3 (poke8 a v s) = cr3 s" "cr3 (poke32 a w s) = cr3 s"
  "eflags (poke8 a v s) = eflags s" "eflags (poke32 a w s) = eflags s"
  "esp (poke8 a v s) = esp s" "esp (poke32 a w s) = esp s"
  "ebp (poke8 a v s) = ebp s" "ebp (poke32 a w s) = ebp s"
  "ebx (poke8 a v s) = ebx s" "ebx (poke32 a w s) = ebx s"
  "esi (poke8 a v s) = esi s" "esi (poke32 a w s) = esi s"
  "edi (poke8 a v s) = edi s" "edi (poke32 a w s) = edi s"
  "eip (poke8 a v s) = eip s" "eip (poke32 a w s) = eip s"
  "console (poke8 a v s) = console s" "console (poke32 a w s) = console s"
  "ports_out (poke8 a v s) = ports_out s" "ports_out (poke32 a w s) = ports_out s"
  by (simp_all add: poke8_def poke32_def split: option.split)

text \<open>What memory holds depends on the physical bytes and on CR3 only.\<close>

lemma mem_indep:
  fixes s :: "'a machine_scheme" and t :: "'b machine_scheme"
  assumes "pmem t = pmem s" "cr3 t = cr3 s"
  shows "translate t = translate s" "kaddr t = kaddr s" "kcell t = kcell s"
    "peek8 t = peek8 s" "peek32 t = peek32 s"
proof -
  have f: "frame_of t = frame_of s"
    by (rule ext) (simp add: frame_of_def pd_entry_addr_def assms Let_def)
  have g: "table_frame t = table_frame s"
    by (rule ext) (simp add: table_frame_def pd_entry_addr_def assms)
  show tr: "translate t = translate s" by (rule ext) (simp add: translate_def f)
  show k: "kaddr t = kaddr s" by (rule ext) (simp add: kaddr_def kpage_def f g)
  show "kcell t = kcell s" by (rule ext) (simp add: kcell_def k)
  show "peek8 t = peek8 s" by (rule ext) (simp add: peek8_def tr assms split: option.split)
  show "peek32 t = peek32 s" by (rule ext) (simp add: peek32_def tr assms split: option.split)
qed

lemma mem_eflags [simp]:
  "translate (s\<lparr>eflags := x\<rparr>) = translate s"
  "kaddr (s\<lparr>eflags := x\<rparr>) = kaddr s" "kcell (s\<lparr>eflags := x\<rparr>) = kcell s"
  "peek8 (s\<lparr>eflags := x\<rparr>) = peek8 s" "peek32 (s\<lparr>eflags := x\<rparr>) = peek32 s"
  "poke8 a v (s\<lparr>eflags := x\<rparr>) = (poke8 a v s)\<lparr>eflags := x\<rparr>"
  "poke32 a w (s\<lparr>eflags := x\<rparr>) = (poke32 a w s)\<lparr>eflags := x\<rparr>"
  by (simp_all add: mem_indep [of "s\<lparr>eflags := x\<rparr>" s] poke8_def poke32_def split: option.split)

lemma mem_esp [simp]:
  "translate (s\<lparr>esp := x\<rparr>) = translate s"
  "kaddr (s\<lparr>esp := x\<rparr>) = kaddr s" "kcell (s\<lparr>esp := x\<rparr>) = kcell s"
  "peek8 (s\<lparr>esp := x\<rparr>) = peek8 s" "peek32 (s\<lparr>esp := x\<rparr>) = peek32 s"
  "poke8 a v (s\<lparr>esp := x\<rparr>) = (poke8 a v s)\<lparr>esp := x\<rparr>"
  "poke32 a w (s\<lparr>esp := x\<rparr>) = (poke32 a w s)\<lparr>esp := x\<rparr>"
  by (simp_all add: mem_indep [of "s\<lparr>esp := x\<rparr>" s] poke8_def poke32_def split: option.split)

lemma mem_ebp [simp]:
  "translate (s\<lparr>ebp := x\<rparr>) = translate s"
  "kaddr (s\<lparr>ebp := x\<rparr>) = kaddr s" "kcell (s\<lparr>ebp := x\<rparr>) = kcell s"
  "peek8 (s\<lparr>ebp := x\<rparr>) = peek8 s" "peek32 (s\<lparr>ebp := x\<rparr>) = peek32 s"
  "poke8 a v (s\<lparr>ebp := x\<rparr>) = (poke8 a v s)\<lparr>ebp := x\<rparr>"
  "poke32 a w (s\<lparr>ebp := x\<rparr>) = (poke32 a w s)\<lparr>ebp := x\<rparr>"
  by (simp_all add: mem_indep [of "s\<lparr>ebp := x\<rparr>" s] poke8_def poke32_def split: option.split)

lemma mem_ebx [simp]:
  "translate (s\<lparr>ebx := x\<rparr>) = translate s"
  "kaddr (s\<lparr>ebx := x\<rparr>) = kaddr s" "kcell (s\<lparr>ebx := x\<rparr>) = kcell s"
  "peek8 (s\<lparr>ebx := x\<rparr>) = peek8 s" "peek32 (s\<lparr>ebx := x\<rparr>) = peek32 s"
  "poke8 a v (s\<lparr>ebx := x\<rparr>) = (poke8 a v s)\<lparr>ebx := x\<rparr>"
  "poke32 a w (s\<lparr>ebx := x\<rparr>) = (poke32 a w s)\<lparr>ebx := x\<rparr>"
  by (simp_all add: mem_indep [of "s\<lparr>ebx := x\<rparr>" s] poke8_def poke32_def split: option.split)

lemma mem_esi [simp]:
  "translate (s\<lparr>esi := x\<rparr>) = translate s"
  "kaddr (s\<lparr>esi := x\<rparr>) = kaddr s" "kcell (s\<lparr>esi := x\<rparr>) = kcell s"
  "peek8 (s\<lparr>esi := x\<rparr>) = peek8 s" "peek32 (s\<lparr>esi := x\<rparr>) = peek32 s"
  "poke8 a v (s\<lparr>esi := x\<rparr>) = (poke8 a v s)\<lparr>esi := x\<rparr>"
  "poke32 a w (s\<lparr>esi := x\<rparr>) = (poke32 a w s)\<lparr>esi := x\<rparr>"
  by (simp_all add: mem_indep [of "s\<lparr>esi := x\<rparr>" s] poke8_def poke32_def split: option.split)

lemma mem_edi [simp]:
  "translate (s\<lparr>edi := x\<rparr>) = translate s"
  "kaddr (s\<lparr>edi := x\<rparr>) = kaddr s" "kcell (s\<lparr>edi := x\<rparr>) = kcell s"
  "peek8 (s\<lparr>edi := x\<rparr>) = peek8 s" "peek32 (s\<lparr>edi := x\<rparr>) = peek32 s"
  "poke8 a v (s\<lparr>edi := x\<rparr>) = (poke8 a v s)\<lparr>edi := x\<rparr>"
  "poke32 a w (s\<lparr>edi := x\<rparr>) = (poke32 a w s)\<lparr>edi := x\<rparr>"
  by (simp_all add: mem_indep [of "s\<lparr>edi := x\<rparr>" s] poke8_def poke32_def split: option.split)

lemma mem_eip [simp]:
  "translate (s\<lparr>eip := x\<rparr>) = translate s"
  "kaddr (s\<lparr>eip := x\<rparr>) = kaddr s" "kcell (s\<lparr>eip := x\<rparr>) = kcell s"
  "peek8 (s\<lparr>eip := x\<rparr>) = peek8 s" "peek32 (s\<lparr>eip := x\<rparr>) = peek32 s"
  "poke8 a v (s\<lparr>eip := x\<rparr>) = (poke8 a v s)\<lparr>eip := x\<rparr>"
  "poke32 a w (s\<lparr>eip := x\<rparr>) = (poke32 a w s)\<lparr>eip := x\<rparr>"
  by (simp_all add: mem_indep [of "s\<lparr>eip := x\<rparr>" s] poke8_def poke32_def split: option.split)

lemma mem_console [simp]:
  "translate (s\<lparr>console := x\<rparr>) = translate s"
  "kaddr (s\<lparr>console := x\<rparr>) = kaddr s" "kcell (s\<lparr>console := x\<rparr>) = kcell s"
  "peek8 (s\<lparr>console := x\<rparr>) = peek8 s" "peek32 (s\<lparr>console := x\<rparr>) = peek32 s"
  "poke8 a v (s\<lparr>console := x\<rparr>) = (poke8 a v s)\<lparr>console := x\<rparr>"
  "poke32 a w (s\<lparr>console := x\<rparr>) = (poke32 a w s)\<lparr>console := x\<rparr>"
  by (simp_all add: mem_indep [of "s\<lparr>console := x\<rparr>" s] poke8_def poke32_def split: option.split)

lemma mem_ports_out [simp]:
  "translate (s\<lparr>ports_out := x\<rparr>) = translate s"
  "kaddr (s\<lparr>ports_out := x\<rparr>) = kaddr s" "kcell (s\<lparr>ports_out := x\<rparr>) = kcell s"
  "peek8 (s\<lparr>ports_out := x\<rparr>) = peek8 s" "peek32 (s\<lparr>ports_out := x\<rparr>) = peek32 s"
  "poke8 a v (s\<lparr>ports_out := x\<rparr>) = (poke8 a v s)\<lparr>ports_out := x\<rparr>"
  "poke32 a w (s\<lparr>ports_out := x\<rparr>) = (poke32 a w s)\<lparr>ports_out := x\<rparr>"
  by (simp_all add: mem_indep [of "s\<lparr>ports_out := x\<rparr>" s] poke8_def poke32_def split: option.split)

subsection \<open>The interface the data structures use\<close>

text \<open>
  A store of 32-bit cells: what the linked lists and the structures of the kernel need of
  memory, whatever the paging underneath.
\<close>

locale cell_store =
  fixes rd :: "'s \<Rightarrow> addr \<Rightarrow> u32"
    and wr :: "addr \<Rightarrow> u32 \<Rightarrow> 's \<Rightarrow> 's"
    and cell :: "'s \<Rightarrow> addr \<Rightarrow> bool"
  assumes rd_wr: "cell s a \<Longrightarrow> cell s b \<Longrightarrow> rd (wr a v s) b = (if b = a then v else rd s b)"
    and cell_wr: "cell s a \<Longrightarrow> cell (wr a v s) b = cell s b"

interpretation ram: cell_store peek32 poke32 kcell
  by unfold_locales (simp_all add: peek32_poke32 kcell_poke32)

subsection \<open>Frames: which bytes a step may change\<close>

text \<open>\<open>tables_same s t\<close>: \<open>t\<close> is \<open>s\<close> with some bytes changed, none in a page table.\<close>

definition tables_same :: "'z machine_scheme \<Rightarrow> 'z machine_scheme \<Rightarrow> bool" where
  "tables_same s t \<longleftrightarrow> (\<exists>m. t = s\<lparr>pmem := m\<rparr> \<and> tables_kept s m)"

lemma tables_same_refl: "tables_same s s"
  unfolding tables_same_def tables_kept_def by (intro exI [of _ "pmem s"]) simp

lemma tables_same_trans: "tables_same s t \<Longrightarrow> tables_same t u \<Longrightarrow> tables_same s u"
proof -
  assume "tables_same s t" "tables_same t u"
  then obtain m n where m: "t = s\<lparr>pmem := m\<rparr>" "tables_kept s m" and n: "u = t\<lparr>pmem := n\<rparr>" "tables_kept t n"
    by (auto simp: tables_same_def)
  have "tables_kept s n"
    using m(2) n(2) table_frame_cong [OF m(2)] by (simp add: tables_kept_def m(1))
  with m(1) n(1) show ?thesis unfolding tables_same_def by (intro exI [of _ n]) simp
qed

text \<open>Stores to kernel data leave the page tables alone.\<close>

lemma poke32_tables:
  assumes "kcell s a"
  shows "\<exists>m. poke32 a v s = s\<lparr>pmem := m\<rparr> \<and> tables_kept s m"
proof -
  from assms obtain p where p: "translate s a = Some p" "\<not> table_frame s (drop_bit 12 p)" "aligned4 p"
    unfolding kcell_def by (metis kaddr_translate)
  then show ?thesis using tables_kept_le32 [of s p v] by (auto simp: poke32_def)
qed

lemma poke8_tables:
  assumes "kaddr s a"
  shows "\<exists>m. poke8 a v s = s\<lparr>pmem := m\<rparr> \<and> tables_kept s m"
proof -
  from assms obtain p where p: "translate s a = Some p" "\<not> table_frame s (drop_bit 12 p)"
    by (rule kaddr_translate)
  then show ?thesis using tables_kept_byte [of s p v] by (auto simp: poke8_def)
qed

text \<open>
  \<open>upd_within B s t\<close>: \<open>t\<close> is \<open>s\<close> with some bytes of memory changed, the mapping is
  the same, and of the kernel data only bytes at addresses in \<open>B\<close> differ.
\<close>

definition upd_within :: "addr set \<Rightarrow> 'z machine_scheme \<Rightarrow> 'z machine_scheme \<Rightarrow> bool" where
  "upd_within B s t \<longleftrightarrow> tables_same s t \<and> translate t = translate s \<and> kaddr t = kaddr s \<and>
     (\<forall>a. kaddr s a \<longrightarrow> a \<notin> B \<longrightarrow> peek8 t a = peek8 s a)"

definition bytes4 :: "addr \<Rightarrow> addr set" where
  "bytes4 c = {c, c + 1, c + 2, c + 3}"

lemma upd_within_refl [intro]: "upd_within B s s"
  by (simp add: upd_within_def tables_same_refl)

lemma upd_within_trans [trans]:
  "upd_within B s t \<Longrightarrow> upd_within B t u \<Longrightarrow> upd_within B s u"
  using tables_same_trans [of s t u] by (auto simp: upd_within_def)

lemma upd_within_mono: "upd_within B s t \<Longrightarrow> B \<subseteq> C \<Longrightarrow> upd_within C s t"
  by (fastforce simp: upd_within_def)

lemma upd_within_trans2:
  "upd_within B s t \<Longrightarrow> upd_within C t u \<Longrightarrow> upd_within (B \<union> C) s u"
  by (meson Un_upper1 Un_upper2 upd_within_mono upd_within_trans)

lemma upd_within_tables: "upd_within B s t \<Longrightarrow> tables_same s t"
  by (simp add: upd_within_def)

lemma upd_within_kaddr: "upd_within B s t \<Longrightarrow> kaddr t = kaddr s"
  by (simp add: upd_within_def)

lemma upd_within_kcell: "upd_within B s t \<Longrightarrow> kcell t = kcell s"
  by (rule ext) (simp add: upd_within_def kcell_def)

lemma upd_within_peek8: "upd_within B s t \<Longrightarrow> kaddr s a \<Longrightarrow> a \<notin> B \<Longrightarrow> peek8 t a = peek8 s a"
  by (simp add: upd_within_def)

lemma peek32_bytes:
  assumes "kcell s c"
  shows "peek32 s c = ucast (peek8 s c) OR push_bit 8 (ucast (peek8 s (c + 1)))
     OR push_bit 16 (ucast (peek8 s (c + 2))) OR push_bit 24 (ucast (peek8 s (c + 3)))"
proof -
  from assms obtain p where p: "translate s c = Some p" and c: "aligned4 c"
    unfolding kcell_def by (elim conjE kaddr_translate)
  from translate_byte [OF c _ p, of 1] translate_byte [OF c _ p, of 2] translate_byte [OF c _ p, of 3] p
  show ?thesis by (simp add: peek32_def peek8_def le32_def)
qed

lemma upd_within_peek32:
  assumes "upd_within B s t" "kcell s c" "bytes4 c \<inter> B = {}"
  shows "peek32 t c = peek32 s c"
proof -
  have k: "kaddr s (c + i)" if "i < 4" for i
    using assms(2) that by (simp add: kcell_def kaddr_byte)
  have b: "peek8 t (c + i) = peek8 s (c + i)" if "i < 4" "c + i \<notin> B" for i
    using assms(1) k [OF that(1)] that(2) by (rule upd_within_peek8)
  from b [of 0] b [of 1] b [of 2] b [of 3] assms(3)
  have "peek8 t c = peek8 s c" "peek8 t (c + 1) = peek8 s (c + 1)"
    "peek8 t (c + 2) = peek8 s (c + 2)" "peek8 t (c + 3) = peek8 s (c + 3)"
    by (auto simp: bytes4_def)
  moreover have "kcell t c" using assms(2) upd_within_kcell [OF assms(1)] by simp
  ultimately show ?thesis using assms(2) by (simp add: peek32_bytes)
qed

lemma poke8_pmem: "\<exists>m. poke8 a v s = s\<lparr>pmem := m\<rparr>"
  unfolding poke8_def by (cases "translate s a") (auto intro: exI [of _ "pmem s"])

lemma poke32_pmem: "\<exists>m. poke32 a v s = s\<lparr>pmem := m\<rparr>"
  unfolding poke32_def by (cases "translate s a") (auto intro: exI [of _ "pmem s"])

lemma upd_within_poke8: "kaddr s a \<Longrightarrow> a \<in> B \<Longrightarrow> upd_within B s (poke8 a v s)"
  using poke8_tables [of s a v]
  by (auto simp: upd_within_def tables_same_def translate_poke8 kaddr_poke8 peek8_poke8)

lemma word_less_4: "(x :: addr) < 4 \<longleftrightarrow> x = 0 \<or> x = 1 \<or> x = 2 \<or> x = 3"
proof
  assume "x < 4"
  then have "unat x < 4" by (simp add: word_less_nat_alt)
  then have "unat x \<in> {0, 1, 2, 3}" by auto
  then show "x = 0 \<or> x = 1 \<or> x = 2 \<or> x = 3" by (auto simp: word_unat_eq_iff)
qed auto

lemma in_bytes4: "a \<in> bytes4 c \<longleftrightarrow> a - c < 4"
  by (auto simp: bytes4_def word_less_4 algebra_simps)

lemma upd_within_poke32: "kcell s a \<Longrightarrow> bytes4 a \<subseteq> B \<Longrightarrow> upd_within B s (poke32 a v s)"
proof -
  assume a: "kcell s a" "bytes4 a \<subseteq> B"
  have "peek8 (poke32 a v s) b = peek8 s b" if "kaddr s b" "b \<notin> B" for b
    by (rule peek8_poke32) (use a that in_bytes4 [of b a] in auto)
  with a(1) poke32_tables [of s a v] show ?thesis
    by (auto simp: upd_within_def tables_same_def translate_poke32 kaddr_poke32)
qed

lemma bytes4_disjoint:
  assumes "aligned4 a" "aligned4 b" "a \<noteq> b"
  shows "bytes4 a \<inter> bytes4 b = {}"
proof -
  have "a + i \<noteq> b + j" if "i < 4" "j < 4" for i j
    using aligned4_bytes [OF assms(1) that(1) assms(2) that(2)] assms(3) by blast
  then show ?thesis
    by (auto simp: in_bytes4) (metis add.commute diff_add_cancel)
qed

text \<open>Changes of the other parts of the machine commute with changes of memory.\<close>

lemma upd_within_map:
  assumes u: "upd_within B s t" and f: "\<And>x m. f (x\<lparr>pmem := m\<rparr>) = (f x)\<lparr>pmem := m\<rparr>" "\<And>x. pmem (f x) = pmem x" "\<And>x. cr3 (f x) = cr3 x"
  shows "upd_within B (f s) (f t)"
proof -
  obtain m where m: "t = s\<lparr>pmem := m\<rparr>" "tables_kept s m" using u by (auto simp: upd_within_def tables_same_def)
  note i = mem_indep [of "f s" s, OF f(2,3)] and j = mem_indep [of "f t" t, OF f(2,3)]
  have g: "table_frame (f s) = table_frame s" by (rule ext) (simp add: table_frame_def pd_entry_addr_def f)
  have "tables_kept (f s) m" using m(2) by (simp add: tables_kept_def pd_entry_addr_def g f)
  then have "tables_same (f s) (f t)" unfolding m(1) f(1) by (auto simp: tables_same_def)
  then show ?thesis using u by (simp add: upd_within_def i j)
qed

end
