(* ===== verification/Interrupt.thy ===== *)
theory Interrupt
  imports Machine
begin

unbundle bit_operations_syntax

section \<open>The interrupt flag (kernel/interrupt.c, include/interrupt.h)\<close>

text \<open>
  Reading, setting and restoring EFLAGS.IF. Every structure shared with interrupt
  handlers brackets its updates with \<open>intr_disable\<close> and \<open>intr_set_status\<close>; the lemmas
  at the end say that such a bracket leaves the flags as they were, which is what the
  proofs of its users need.
\<close>

datatype intr_status = INTR_OFF | INTR_ON

definition EFLAGS_IF :: u32 where
  "EFLAGS_IF = 0x00000200"

definition sti :: "('z machine_scheme, unit) comp" where
  "sti = modify (\<lambda>s. s\<lparr>eflags := eflags s OR EFLAGS_IF\<rparr>)"

definition cli :: "('z machine_scheme, unit) comp" where
  "cli = modify (\<lambda>s. s\<lparr>eflags := eflags s AND NOT EFLAGS_IF\<rparr>)"

definition intr_get_status :: "('z machine_scheme, intr_status) comp" where
  "intr_get_status = gets (\<lambda>s. if EFLAGS_IF AND eflags s \<noteq> 0 then INTR_ON else INTR_OFF)"

definition intr_enable :: "('z machine_scheme, intr_status) comp" where
  "intr_enable = cbind intr_get_status (\<lambda>st.
     if st = INTR_ON then ret INTR_ON else cseq sti (ret INTR_OFF))"

definition intr_disable :: "('z machine_scheme, intr_status) comp" where
  "intr_disable = cbind intr_get_status (\<lambda>st.
     if st = INTR_OFF then ret INTR_OFF else cseq cli (ret INTR_ON))"

definition intr_set_status :: "intr_status \<Rightarrow> ('z machine_scheme, intr_status) comp" where
  "intr_set_status st = (if st = INTR_ON then intr_enable else intr_disable)"

subsection \<open>Interrupt-free sections\<close>

definition intr_status_of :: "u32 \<Rightarrow> intr_status" where
  "intr_status_of e = (if EFLAGS_IF AND e \<noteq> 0 then INTR_ON else INTR_OFF)"

definition intr_off :: "'z machine_scheme \<Rightarrow> bool" where
  "intr_off s \<longleftrightarrow> EFLAGS_IF AND eflags s = 0"

definition irq_off :: "'z machine_scheme \<Rightarrow> 'z machine_scheme" where
  "irq_off s = s\<lparr>eflags := eflags s AND NOT EFLAGS_IF\<rparr>"

lemma EFLAGS_IF_bit: "EFLAGS_IF = push_bit 9 1"
  by (simp add: EFLAGS_IF_def)

lemma bit_EFLAGS_IF: "bit EFLAGS_IF n \<longleftrightarrow> n = 9"
  unfolding EFLAGS_IF_bit by (auto simp only: bit_push_bit_iff bit_1_iff possible_bit_word) simp

lemma flag_clear_iff: "EFLAGS_IF AND e = 0 \<longleftrightarrow> \<not> bit e 9"
proof
  assume "EFLAGS_IF AND e = 0"
  then have "\<not> bit (EFLAGS_IF AND e) 9" by simp
  then show "\<not> bit e 9" by (simp add: bit_and_iff bit_EFLAGS_IF)
next
  assume "\<not> bit e 9"
  then show "EFLAGS_IF AND e = 0"
    by (intro bit_word_eqI) (auto simp: bit_and_iff bit_EFLAGS_IF)
qed

lemma flag_off: "EFLAGS_IF AND (e AND NOT EFLAGS_IF) = 0"
  by (simp only: flag_clear_iff bit_and_iff bit_not_iff bit_EFLAGS_IF) simp

lemma flag_already_off: "EFLAGS_IF AND e = 0 \<Longrightarrow> e AND NOT EFLAGS_IF = e"
  by (rule bit_word_eqI) (auto simp: bit_simps flag_clear_iff bit_EFLAGS_IF)

lemma flag_restored: "EFLAGS_IF AND e \<noteq> 0 \<Longrightarrow> (e AND NOT EFLAGS_IF) OR EFLAGS_IF = e"
  by (rule bit_word_eqI) (auto simp: bit_simps flag_clear_iff bit_EFLAGS_IF)

lemma intr_disable_eq: "intr_disable s = Inr (intr_status_of (eflags s), irq_off s)"
  by (simp add: intr_disable_def intr_get_status_def intr_status_of_def irq_off_def cli_def
    comp_simps flag_already_off)

text \<open>Restoring after \<open>intr_disable\<close>: the flags are those before it.\<close>

lemma intr_set_status_restores:
  assumes "eflags t = eflags s AND NOT EFLAGS_IF"
  shows "intr_set_status (intr_status_of (eflags s)) t =
    Inr (INTR_OFF, t\<lparr>eflags := eflags s\<rparr>)"
  using assms
  by (simp add: intr_set_status_def intr_status_of_def intr_enable_def intr_disable_def sti_def cli_def
    intr_get_status_def comp_simps flag_off flag_restored flag_already_off)

lemma irq_off_mem [simp]:
  "kaddr (irq_off s) = kaddr s" "kcell (irq_off s) = kcell s"
  "peek8 (irq_off s) = peek8 s" "peek32 (irq_off s) = peek32 s"
  "poke8 a v (irq_off s) = irq_off (poke8 a v s)" "poke32 a w (irq_off s) = irq_off (poke32 a w s)"
  by (simp_all add: irq_off_def)

lemma intr_restore_irq_off:
  assumes "eflags t = eflags s"
  shows "intr_set_status (intr_status_of (eflags s)) (irq_off t) = Inr (INTR_OFF, t)"
  using intr_set_status_restores [of "irq_off t" s] assms by (simp add: irq_off_def)

lemma intr_off_status: "intr_off s \<Longrightarrow> intr_get_status s = Inr (INTR_OFF, s)"
  by (simp add: intr_off_def intr_get_status_def gets_def)

lemma intr_off_irq_off [simp]: "intr_off (irq_off s)"
  by (simp add: intr_off_def irq_off_def flag_off)

lemma irq_off_idem: "intr_off s \<Longrightarrow> irq_off s = s"
  by (simp add: intr_off_def irq_off_def flag_already_off)

end
