(* ===== verification/Boot.thy ===== *)
theory Boot
  imports Machine
begin

unbundle bit_operations_syntax

section \<open>The page tables the loader leaves behind (mbr/loader.S, setup\_page)\<close>

text \<open>
  The kernel starts with the page directory at physical \<open>0x100000\<close>: entries 0 and 768
  point at the table at \<open>0x101000\<close>, whose first 256 entries map the low megabyte;
  entries 769 to 1022 point at the 254 tables reserved for the kernel, still empty;
  entry 1023 points at the directory itself. \<open>boot_machine\<close> is that machine, with the
  stack the loader sets up; the lemmas show that \<open>0xc0000000\<close> to \<open>0xc00fffff\<close> are kernel
  data addresses of it. The witnesses of the other theories run on it.
\<close>

definition PAGE_DIR_TABLE_POS :: nat where
  "PAGE_DIR_TABLE_POS = 0x100000"

text \<open>The 32-bit entry at a (4-aligned) physical address; 7 is \<open>PG_US_U | PG_RW_W | PG_P\<close>.\<close>

definition boot_entry :: "nat \<Rightarrow> u32" where
  "boot_entry n =
     (if n = PAGE_DIR_TABLE_POS \<or> n = PAGE_DIR_TABLE_POS + 0xc00 then 0x101007
      else if n = PAGE_DIR_TABLE_POS + 4092 then 0x100007
      else if PAGE_DIR_TABLE_POS + 0xc04 \<le> n \<and> n < PAGE_DIR_TABLE_POS + 4092
        then of_nat ((n - (PAGE_DIR_TABLE_POS + 0xc04)) div 4 * 0x1000 + 0x102007)
      else if PAGE_DIR_TABLE_POS + 0x1000 \<le> n \<and> n < PAGE_DIR_TABLE_POS + 0x1400
        then of_nat ((n - (PAGE_DIR_TABLE_POS + 0x1000)) div 4 * 0x1000 + 7)
      else 0)"

definition boot_pmem :: "addr \<Rightarrow> u8" where
  "boot_pmem p = ucast (drop_bit (8 * (unat p mod 4)) (boot_entry (unat p div 4 * 4)))"

definition boot_machine :: machine where
  "boot_machine = \<lparr>pmem = boot_pmem, cr3 = 0x100000, eflags = 2, esp = 0xc009f000,
     ebp = 0, ebx = 0, esi = 0, edi = 0, eip = 0xc0001500, console = [], ports_out = []\<rparr>"

lemma le32_ucasts:
  "ucast (ucast (v :: u32) :: u8) OR push_bit 8 (ucast (ucast (drop_bit 8 v) :: u8))
     OR push_bit 16 (ucast (ucast (drop_bit 16 v) :: u8))
     OR push_bit 24 (ucast (ucast (drop_bit 24 v) :: u8)) = v"
  using le32_set_le32_same [of 0 v "\<lambda>_. 0"] by (simp add: le32_def set_le32_def)

lemma le32_boot:
  assumes "aligned4 q"
  shows "le32 boot_pmem q = boot_entry (unat q)"
proof -
  obtain k where k: "unat q = 4 * k" using assms by (auto simp: aligned4_unat mod_eq_0_iff_dvd)
  have "unat q < 4294967296" by (rule unat_u32_less)
  then have u: "unat (q + 1) = 4 * k + 1" "unat (q + 2) = 4 * k + 2" "unat (q + 3) = 4 * k + 3"
    using k by (simp_all add: unat_word_ariths)
  have m: "(4 * k + i) mod 4 = i \<and> (4 * k + i) div 4 = k" if "i < 4" for i
    using that by simp
  have "boot_pmem q = ucast (boot_entry (4 * k))"
    "boot_pmem (q + 1) = ucast (drop_bit 8 (boot_entry (4 * k)))"
    "boot_pmem (q + 2) = ucast (drop_bit 16 (boot_entry (4 * k)))"
    "boot_pmem (q + 3) = ucast (drop_bit 24 (boot_entry (4 * k)))"
    using m [of 1] m [of 2] m [of 3] unfolding boot_pmem_def u k
    by (simp_all add: mult.commute del: mod_mult_self1)
  then show ?thesis unfolding le32_def k by (simp only: le32_ucasts)
qed

lemma unat_boot_pd:
  assumes "vp < 0x100000"
  shows "unat (pd_entry_addr boot_machine vp) = 0x100000 + 4 * (unat vp div 1024)"
proof -
  have v: "unat vp < 1048576" using assms by (simp add: word_less_nat_alt)
  then have d: "unat vp div 1024 < 1024" by (simp add: less_mult_imp_div_less)
  have "unat (push_bit 2 (drop_bit 10 vp)) = 4 * (unat vp div 1024)"
    using d by (simp only: unat_push unat_drop) simp
  then show ?thesis
    using d by (simp add: pd_entry_addr_def boot_machine_def page_mask_def unat_word_ariths)
qed

lemma aligned4_boot_pd: "vp < 0x100000 \<Longrightarrow> aligned4 (pd_entry_addr boot_machine vp)"
  by (simp add: aligned4_unat unat_boot_pd mod_add_eq [symmetric, of "1048576"])

lemma unat_boot_pt:
  assumes "unat pde < 0x300000"
  shows "unat (pt_entry_addr pde vp) = unat pde div 4096 * 4096 + 4 * (unat vp mod 1024)"
proof -
  have m: "unat vp mod 1024 < 1024" by simp
  have "unat (push_bit 2 (vp AND 0x3ff)) = 4 * (unat vp mod 1024)"
    using m by (simp only: unat_push unat_and_3ff) simp
  moreover have "unat pde div 4096 * 4096 + 4 * (unat vp mod 1024) < 4294967296"
    using assms m div_times_less_eq_dividend [of "unat pde" 4096] by linarith
  ultimately show ?thesis
    by (simp add: pt_entry_addr_def page_mask_def unat_word_ariths unat_and_page_mask)
qed

lemma aligned4_pt: "aligned4 (pt_entry_addr pde vp)"
proof -
  have "unat (push_bit 2 (vp AND 0x3ff)) = 4 * (unat vp mod 1024)"
    by (simp only: unat_push unat_and_3ff) simp
  then have "aligned4 (push_bit 2 (vp AND 0x3ff))" by (simp add: aligned4_unat)
  moreover have "aligned4 (pde AND 0xfffff000)"
    by (simp add: aligned4_unat unat_and_page_mask)
  ultimately show ?thesis by (simp add: pt_entry_addr_def page_mask_def)
qed

lemma frame_of_boot:
  assumes "vp < 0x100000"
  shows "frame_of boot_machine vp =
    (let pde = boot_entry (0x100000 + 4 * (unat vp div 1024)) in
     if pde AND 1 = 0 then None
     else let pte = boot_entry (unat (pt_entry_addr pde vp)) in
     if pte AND 1 = 0 then None else Some (drop_bit 12 pte))"
proof -
  have p: "pmem boot_machine = boot_pmem" by (simp add: boot_machine_def)
  show ?thesis
    unfolding frame_of_def p
    by (simp only: le32_boot aligned4_boot_pd [OF assms] aligned4_pt unat_boot_pd [OF assms])
qed

lemma odd_word: "(x :: u32) AND 1 = 0 \<longleftrightarrow> unat x mod 2 = 0"
proof -
  have "x AND 1 = take_bit 1 x" by (simp add: take_bit_eq_mask mask_eq_exp_minus_1)
  then have "unat (x AND 1) = unat x mod 2" by (simp only: unat_take) simp
  then show ?thesis by (metis unat_eq_0)
qed

lemma boot_dir_cases:
  assumes "d < 1024" "768 \<le> d"
  shows "boot_entry (0x100000 + 4 * d) =
    (if d = 768 then 0x101007 else if d = 1023 then 0x100007 else of_nat ((d - 769) * 0x1000 + 0x102007))"
proof -
  consider "d = 768" | "d = 1023" | "769 \<le> d" "d < 1023" using assms by linarith
  then show ?thesis
  proof cases
    case 3
    then have "(1048576 + 4 * d - 1051652) div 4 = d - 769" by simp
    with 3 show ?thesis by (simp add: boot_entry_def PAGE_DIR_TABLE_POS_def)
  qed (simp_all add: boot_entry_def PAGE_DIR_TABLE_POS_def)
qed

lemma boot_dir_ge:
  assumes "i < 1024" "boot_entry (0x100000 + 4 * i) \<noteq> 0"
  shows "0x100000 \<le> unat (boot_entry (0x100000 + 4 * i))"
proof (cases "768 \<le> i")
  case True
  have "unat (of_nat ((i - 769) * 0x1000 + 0x102007) :: u32) = (i - 769) * 0x1000 + 0x102007"
    by (rule unat_u32_of_nat) (use assms(1) in simp)
  with True assms(1) show ?thesis by (simp add: boot_dir_cases del: of_nat_add of_nat_mult)
next
  case False
  with assms(2) show ?thesis by (auto simp: boot_entry_def PAGE_DIR_TABLE_POS_def split: if_splits)
qed

lemma boot_machine_pmem: "pmem boot_machine = boot_pmem"
  by (simp add: boot_machine_def)

lemma boot_table_entry:
  assumes "i < 1024"
  shows "boot_entry (0x101000 + 4 * i) = (if i < 256 then of_nat (i * 4096 + 7) else 0)"
  using assms by (simp add: boot_entry_def PAGE_DIR_TABLE_POS_def)

lemma boot_entry_high: "0x101400 \<le> n \<Longrightarrow> boot_entry n = 0"
  by (simp add: boot_entry_def PAGE_DIR_TABLE_POS_def)

lemma frame_boot_low:
  assumes "unat vp div 1024 = 768"
  shows "frame_of boot_machine vp =
    (if unat vp mod 1024 < 256 then Some (of_nat (unat vp mod 1024)) else None)"
proof -
  let ?i = "unat vp mod 1024"
  have "unat vp = 768 * 1024 + ?i" using assms by (metis div_mult_mod_eq)
  moreover have "?i < 1024" by simp
  ultimately have vp: "vp < 0x100000" by (simp add: word_less_nat_alt)
  have pt: "unat (pt_entry_addr 0x101007 vp) = 0x101000 + 4 * ?i" by (simp add: unat_boot_pt)
  have e: "boot_entry (0x101000 + 4 * ?i) = (if ?i < 256 then of_nat (?i * 4096 + 7) else 0)"
    by (rule boot_table_entry) simp
  have u: "unat (of_nat (?i * 4096 + 7) :: u32) = ?i * 4096 + 7" if "?i < 256"
    by (rule unat_u32_of_nat) (use that in simp)
  have o: "drop_bit 12 (of_nat (?i * 4096 + 7) :: u32) = of_nat ?i" if "?i < 256"
    using u [OF that] that unat_u32_of_nat [of ?i] by (simp add: word_unat_eq_iff unat_drop del: of_nat_add of_nat_mult)
  have d: "boot_entry (0x100000 + 4 * 768) = 0x101007"
    by (simp add: boot_entry_def PAGE_DIR_TABLE_POS_def)
  show ?thesis
    unfolding frame_of_boot [OF vp] assms d Let_def pt e
    using u o by (auto simp: odd_word simp del: of_nat_add of_nat_mult)
qed


lemma frame_boot_high:
  assumes "unat vp div 1024 \<noteq> 768" "0xc0000 \<le> vp" "vp < 0x100000" "frame_of boot_machine vp = Some f"
  shows "0x100 \<le> unat f"
proof -
  let ?d = "unat vp div 1024"
  let ?i = "unat vp mod 1024"
  have v: "unat vp < 1048576" "786432 \<le> unat vp"
    using assms(2,3) by (simp_all add: word_less_nat_alt word_le_nat_alt)
  have d: "?d < 1024" "768 \<le> ?d"
    using v by (simp_all add: less_mult_imp_div_less)
  let ?pde = "boot_entry (0x100000 + 4 * ?d)"
  have i: "?i < 1024" by simp
  consider (self) "?d = 1023" | (tab) "769 \<le> ?d" "?d < 1023" using d assms(1) by linarith
  then show ?thesis
  proof cases
    case self
    have pde: "?pde = 0x100007" unfolding self by (simp add: boot_entry_def PAGE_DIR_TABLE_POS_def)
    have pt: "unat (pt_entry_addr 0x100007 vp) = 0x100000 + 4 * ?i" by (simp add: unat_boot_pt)
    have f: "f = drop_bit 12 (boot_entry (0x100000 + 4 * ?i))"
      and nz: "boot_entry (0x100000 + 4 * ?i) \<noteq> 0"
      using assms(4) unfolding frame_of_boot [OF assms(3)] pde Let_def pt
      by (auto split: if_splits)
    have "0x100000 \<le> unat (boot_entry (0x100000 + 4 * ?i))" using i nz by (rule boot_dir_ge)
    then show ?thesis unfolding f by (simp add: unat_drop div_le_mono [of "0x100000" _ 4096, simplified])
  next
    case tab
    have b: "(?d - 769) * 0x1000 + 0x102007 < 0x300000" using tab by simp
    have pde: "?pde = of_nat ((?d - 769) * 0x1000 + 0x102007)" using tab by (simp add: boot_dir_cases)
    have u: "unat (of_nat ((?d - 769) * 0x1000 + 0x102007) :: u32) = (?d - 769) * 0x1000 + 0x102007"
      by (rule unat_u32_of_nat) (use b in linarith)
    have "0x102000 \<le> unat (pt_entry_addr ?pde vp)"
      using unat_boot_pt [of ?pde vp] b unfolding pde u by simp
    then have "boot_entry (unat (pt_entry_addr ?pde vp)) = 0" by (simp add: boot_entry_high)
    with assms(4) show ?thesis unfolding frame_of_boot [OF assms(3)] Let_def by (auto split: if_splits)
  qed
qed


lemma boot_page:
  assumes "0xc0000 \<le> vp" "vp < 0xc0100"
  shows "frame_of boot_machine vp = Some (vp - 0xc0000)" "unat (vp - 0xc0000) < 256"
proof -
  have v: "786432 \<le> unat vp" "unat vp < 786688"
    using assms by (simp_all add: word_less_nat_alt word_le_nat_alt)
  then obtain i where i: "unat vp = 786432 + i" "i < 256"
    using le_Suc_ex [of 786432 "unat vp"] by auto
  have s: "unat (vp - 0xc0000) = i"
    using i assms(1) by (simp add: unat_sub)
  with i show "unat (vp - 0xc0000) < 256" by simp
  have "vp - 0xc0000 = of_nat i" using s i unat_u32_of_nat [of i] by (simp add: word_unat_eq_iff)
  moreover have "(786432 + i) div 1024 = 768" "(786432 + i) mod 1024 = i"
    using mod_mult_self3 [of 768 1024 i] div_mult_self3 [of 1024 i 768] i(2) by simp_all
  ultimately show "frame_of boot_machine vp = Some (vp - 0xc0000)"
    using i by (simp add: frame_boot_low)
qed

lemma table_frame_boot:
  assumes "table_frame boot_machine f"
  shows "0x100 \<le> unat f"
proof -
  have c: "unat (drop_bit 12 (cr3 boot_machine)) = 0x100" by (simp add: boot_machine_def)
  have "0x100 \<le> unat (drop_bit 12 (le32 (pmem boot_machine) (pd_entry_addr boot_machine vp)))"
    if "vp < 0x100000" "le32 (pmem boot_machine) (pd_entry_addr boot_machine vp) AND 1 \<noteq> 0" for vp
  proof -
    have v: "unat vp div 1024 < 1024" using that(1) by (simp add: word_less_nat_alt less_mult_imp_div_less)
    have e: "le32 (pmem boot_machine) (pd_entry_addr boot_machine vp) = boot_entry (0x100000 + 4 * (unat vp div 1024))"
      using that(1) by (simp add: le32_boot aligned4_boot_pd unat_boot_pd boot_machine_pmem)
    from boot_dir_ge [OF v] that(2) have "0x100000 \<le> unat (boot_entry (0x100000 + 4 * (unat vp div 1024)))"
      unfolding e by fastforce
    then show ?thesis unfolding e by (simp add: unat_drop div_le_mono [of "0x100000" _ 4096, simplified])
  qed
  with c assms show ?thesis unfolding table_frame_def by auto
qed

lemma boot_kpage:
  assumes "0xc0000 \<le> vp" "vp < 0xc0100"
  shows "kpage boot_machine vp"
proof -
  have uniq: "vq = vp" if "0xc0000 \<le> vq" "vq < 0x100000" "frame_of boot_machine vq = Some (vp - 0xc0000)" for vq
  proof (cases "unat vq div 1024 = 768")
    case True
    with that(3) have "unat vq mod 1024 < 256 \<and> of_nat (unat vq mod 1024) = vp - 0xc0000"
      by (auto simp: frame_boot_low split: if_splits)
    then have "unat vq mod 1024 = unat (vp - 0xc0000)" using unat_u32_of_nat [of "unat vq mod 1024"] by simp
    moreover have "unat (vp - 0xc0000) = unat vp - 786432" using assms(1) by (simp add: unat_sub)
    moreover have "unat vq = 786432 + unat vq mod 1024" using div_mult_mod_eq [of "unat vq" 1024] True by simp
    moreover have "786432 \<le> unat vp" using assms(1) by (simp add: word_le_nat_alt)
    ultimately show ?thesis by (simp add: word_unat_eq_iff)
  next
    case False
    from frame_boot_high [OF False that] boot_page(2) [OF assms] show ?thesis by simp
  qed
  have "vp < 0x100000" using assms(2) by (simp add: word_less_nat_alt)
  moreover have "\<not> table_frame boot_machine (vp - 0xc0000)"
    using table_frame_boot boot_page(2) [OF assms] by fastforce
  ultimately show ?thesis
    using assms(1) boot_page(1) [OF assms] uniq unfolding kpage_def by blast
qed

lemma boot_kaddr:
  assumes "0xc0000000 \<le> a" "a < 0xc0100000"
  shows "kaddr boot_machine a"
proof -
  have u: "3221225472 \<le> unat a" "unat a < 3222274048"
    using assms by (simp_all add: word_le_nat_alt word_less_nat_alt)
  have "786432 \<le> unat a div 4096" using div_le_mono [OF u(1), of 4096] by simp
  moreover have "unat a div 4096 < 786688" using u(2) by (simp add: less_mult_imp_div_less)
  ultimately show ?thesis
    unfolding kaddr_def by (intro boot_kpage) (simp_all add: word_le_nat_alt word_less_nat_alt unat_drop)
qed

lemma boot_kcell: "0xc0000000 \<le> a \<Longrightarrow> a < 0xc0100000 \<Longrightarrow> aligned4 a \<Longrightarrow> kcell boot_machine a"
  by (simp add: kcell_def boot_kaddr)

end
