(* ===== verification/KList.thy ===== *)
theory KList
  imports Interrupt Boot
begin

unbundle bit_operations_syntax

section \<open>Doubly linked lists (include/kernel/list.h, include/kernel/list.c)\<close>

text \<open>
  A node is \<open>{prev, next}\<close>, two pointers at offsets 0 and 4; a \<open>struct list\<close> at \<open>l\<close>
  is the head node at \<open>l\<close> and the tail node at \<open>l + 8\<close>. The ready queue, the list of
  all threads and the waiters of every semaphore are such lists, threaded through the
  thread control blocks. The operations below are the C functions on memory; the
  predicate \<open>dlist\<close> says which list of nodes a \<open>struct list\<close> holds, and the lemmas
  show each operation to be the corresponding one on HOL lists.
\<close>

subsection \<open>Layout\<close>

definition NULL :: addr where
  "NULL = 0"

definition next_field :: "addr \<Rightarrow> addr" where
  "next_field e = e + 4"

definition list_tail :: "addr \<Rightarrow> addr" where
  "list_tail l = l + 8"

subsection \<open>Operations\<close>

definition list_init :: "addr \<Rightarrow> ('z machine_scheme, unit) comp" where
  "list_init l =
     cseq (store32 l NULL)
    (cseq (store32 (next_field l) (list_tail l))
    (cseq (store32 (next_field (list_tail l)) NULL)
          (store32 (list_tail l) l)))"

definition list_insert_before :: "addr \<Rightarrow> addr \<Rightarrow> ('z machine_scheme, unit) comp" where
  "list_insert_before before elem =
     cbind intr_disable (\<lambda>old_status.
     cbind (load32 before) (\<lambda>prev.
     cseq (store32 (next_field prev) elem)
    (cbind (load32 before) (\<lambda>prev'.
     cseq (store32 elem prev')
    (cseq (store32 (next_field elem) before)
    (cseq (store32 before elem)
    (cseq (intr_set_status old_status) (ret ()))))))))"

definition list_push :: "addr \<Rightarrow> addr \<Rightarrow> ('z machine_scheme, unit) comp" where
  "list_push l elem = cbind (load32 (next_field l)) (\<lambda>first. list_insert_before first elem)"

definition list_append :: "addr \<Rightarrow> addr \<Rightarrow> ('z machine_scheme, unit) comp" where
  "list_append l elem = list_insert_before (list_tail l) elem"

definition list_remove :: "addr \<Rightarrow> ('z machine_scheme, unit) comp" where
  "list_remove elem =
     cbind intr_disable (\<lambda>old_status.
     cbind (load32 elem) (\<lambda>prev.
     cbind (load32 (next_field elem)) (\<lambda>nxt.
     cseq (store32 (next_field prev) nxt)
    (cbind (load32 (next_field elem)) (\<lambda>nxt'.
     cbind (load32 elem) (\<lambda>prev'.
     cseq (store32 nxt' prev')
    (cseq (intr_set_status old_status) (ret ()))))))))"

definition list_pop :: "addr \<Rightarrow> ('z machine_scheme, addr) comp" where
  "list_pop l = cbind (load32 (next_field l)) (\<lambda>result. cseq (list_remove result) (ret result))"

partial_function (option) list_find_loop ::
  "addr \<Rightarrow> addr \<Rightarrow> addr \<Rightarrow> 'z machine_scheme \<Rightarrow> (fail + (int \<times> 'z machine_scheme)) option" where
  "list_find_loop tn elem e s =
     (if e \<noteq> tn then
        if e = elem then Some (Inr (1, s))
        else (case load32 (next_field e) s of
                Inl f \<Rightarrow> Some (Inl f)
              | Inr (e', s') \<Rightarrow> list_find_loop tn elem e' s')
      else Some (Inr (0, s)))"

definition list_find :: "addr \<Rightarrow> addr \<Rightarrow> ('z machine_scheme, int) comp" where
  "list_find l elem = cbind (load32 (next_field l))
     (\<lambda>e s. returning (list_find_loop (list_tail l) elem e s))"

definition list_empty :: "addr \<Rightarrow> ('z machine_scheme, int) comp" where
  "list_empty l = cbind (load32 (next_field l)) (\<lambda>e. ret (if e = list_tail l then 1 else 0))"

partial_function (option) list_length_loop ::
  "addr \<Rightarrow> addr \<Rightarrow> u32 \<Rightarrow> 'z machine_scheme \<Rightarrow> (fail + (u32 \<times> 'z machine_scheme)) option" where
  "list_length_loop tn e len s =
     (if e \<noteq> tn then
        (case load32 (next_field e) s of
           Inl f \<Rightarrow> Some (Inl f)
         | Inr (e', s') \<Rightarrow> list_length_loop tn e' (len + 1) s')
      else Some (Inr (len, s)))"

definition list_length :: "addr \<Rightarrow> ('z machine_scheme, u32) comp" where
  "list_length l = cbind (load32 (next_field l))
     (\<lambda>e s. returning (list_length_loop (list_tail l) e 0 s))"

partial_function (option) list_traversal_loop ::
  "(addr \<Rightarrow> int \<Rightarrow> ('z machine_scheme, int) comp) \<Rightarrow> int \<Rightarrow> addr \<Rightarrow> addr \<Rightarrow> 'z machine_scheme \<Rightarrow>
   (fail + (addr \<times> 'z machine_scheme)) option" where
  "list_traversal_loop f arg tn e s =
     (if e \<noteq> tn then
        (case f e arg s of
           Inl x \<Rightarrow> Some (Inl x)
         | Inr (r, s1) \<Rightarrow>
             (if r \<noteq> 0 then Some (Inr (e, s1))
              else (case load32 (next_field e) s1 of
                      Inl x \<Rightarrow> Some (Inl x)
                    | Inr (e', s2) \<Rightarrow> list_traversal_loop f arg tn e' s2)))
      else Some (Inr (NULL, s)))"

definition list_traversal ::
  "addr \<Rightarrow> (addr \<Rightarrow> int \<Rightarrow> ('z machine_scheme, int) comp) \<Rightarrow> int \<Rightarrow> ('z machine_scheme, addr) comp" where
  "list_traversal l f arg =
     cbind (list_empty l) (\<lambda>empty.
       if empty \<noteq> 0 then ret NULL
       else cbind (load32 (next_field l))
              (\<lambda>e s. returning (list_traversal_loop f arg (list_tail l) e s)))"

subsection \<open>Which list a \<open>struct list\<close> holds\<close>

text \<open>
  \<open>linked rd ns\<close>: consecutive nodes of \<open>ns\<close> point at each other. \<open>dlist rd cell l xs\<close>:
  the head node, the nodes \<open>xs\<close> and the tail node are linked in this order, their cells
  are distinct memory cells, and the two ends hold NULL.
\<close>

fun linked :: "(addr \<Rightarrow> u32) \<Rightarrow> addr list \<Rightarrow> bool" where
  "linked rd (a # b # xs) \<longleftrightarrow> rd (a + 4) = b \<and> rd b = a \<and> linked rd (b # xs)"
| "linked rd _ \<longleftrightarrow> True"

definition node_cells :: "addr list \<Rightarrow> addr list" where
  "node_cells xs = concat (map (\<lambda>a. [a, a + 4]) xs)"

definition list_nodes :: "addr \<Rightarrow> addr list \<Rightarrow> addr list" where
  "list_nodes l xs = l # xs @ [l + 8]"

definition dlist :: "(addr \<Rightarrow> u32) \<Rightarrow> (addr \<Rightarrow> bool) \<Rightarrow> addr \<Rightarrow> addr list \<Rightarrow> bool" where
  "dlist rd cell l xs \<longleftrightarrow> linked rd (list_nodes l xs) \<and>
     distinct (node_cells (list_nodes l xs)) \<and>
     (\<forall>c \<in> set (node_cells (list_nodes l xs)). cell c) \<and> rd l = NULL \<and> rd (12 + l) = NULL"

fun link_cells :: "addr list \<Rightarrow> addr list" where
  "link_cells (a # b # xs) = (a + 4) # b # link_cells (b # xs)"
| "link_cells _ = []"

lemma node_cells_simps [simp]:
  "node_cells [] = []"
  "node_cells (a # xs) = a # (a + 4) # node_cells xs"
  "node_cells (xs @ ys) = node_cells xs @ node_cells ys"
  by (simp_all add: node_cells_def)

lemma set_node_cells: "set (node_cells xs) = (\<Union>a\<in>set xs. {a, a + 4})"
  by (induction xs) auto

lemma linked_append: "linked rd (xs @ a # ys) \<longleftrightarrow> linked rd (xs @ [a]) \<and> linked rd (a # ys)"
proof (induction xs)
  case (Cons x xs)
  then show ?case by (cases xs) auto
qed simp

lemma linked_cong: "(\<And>c. c \<in> set (link_cells xs) \<Longrightarrow> rd c = rd' c) \<Longrightarrow> linked rd xs \<longleftrightarrow> linked rd' xs"
  by (induction rd xs rule: linked.induct) auto

lemma link_cells_subset: "set (link_cells xs) \<subseteq> set (node_cells xs)"
  by (induction xs rule: link_cells.induct) auto

lemma link_cells_last: "distinct (node_cells (xs @ [p])) \<Longrightarrow> p + 4 \<notin> set (link_cells (xs @ [p]))"
proof (induction xs)
  case (Cons x xs)
  then show ?case by (cases xs) auto
qed simp

lemma link_cells_hd: "distinct (node_cells (b # ys)) \<Longrightarrow> b \<notin> set (link_cells (b # ys))"
proof (cases ys)
  case (Cons a zs)
  moreover assume "distinct (node_cells (b # ys))"
  ultimately show ?thesis using link_cells_subset [of "a # zs"] by auto
qed simp

context cell_store begin

lemma linked_wr:
  assumes "linked (rd s) xs" "\<forall>c \<in> set (node_cells xs). cell s c" "cell s a"
    and "a \<notin> set (link_cells xs)"
  shows "linked (rd (wr a v s)) xs"
proof -
  have "rd (wr a v s) c = rd s c" if "c \<in> set (link_cells xs)" for c
    using assms(2-4) that link_cells_subset [THEN subsetD, OF that] by (auto simp: rd_wr)
  with assms(1) show ?thesis by (simp add: linked_cong [of xs "rd (wr a v s)" "rd s"])
qed

lemma linked_insert:
  assumes lk: "linked (rd s) (xs @ p # b # ys)"
    and d: "distinct (node_cells (xs @ p # e # b # ys))"
    and c: "\<forall>c \<in> set (node_cells (xs @ p # e # b # ys)). cell s c"
  defines "t \<equiv> wr b e (wr (e + 4) b (wr e p (wr (p + 4) e s)))"
  shows "linked (rd t) (xs @ p # e # b # ys)"
proof -
  note w = rd_wr cell_wr
  have l: "linked (rd s) (xs @ [p])" and r: "linked (rd s) (b # ys)"
    using lk linked_append [of "rd s" xs p "b # ys"] by auto
  have nl: "{p + 4, e, e + 4, b} \<inter> set (link_cells (xs @ [p])) = {}"
    using d link_cells_last [of xs p] link_cells_subset [of "xs @ [p]"] by auto
  have nr: "{p + 4, e, e + 4, b} \<inter> set (link_cells (b # ys)) = {}"
    using d link_cells_hd [of b ys] link_cells_subset [of "b # ys"] by auto
  have cl: "\<forall>c \<in> set (node_cells (xs @ [p])). cell s c" and cr: "\<forall>c \<in> set (node_cells (b # ys)). cell s c"
    and cs: "cell s (p + 4)" "cell s e" "cell s (e + 4)" "cell s b"
    using c by auto
  have "linked (rd t) (xs @ [p])" unfolding t_def
    using l nl cl cs by (intro linked_wr) (auto simp: cell_wr)
  moreover have "linked (rd t) (b # ys)" unfolding t_def
    using r nr cr cs by (intro linked_wr) (auto simp: cell_wr)
  moreover have "rd t (p + 4) = e" "rd t e = p" "rd t (e + 4) = b" "rd t b = e"
    using d cs unfolding t_def by (simp_all add: w)
  ultimately show ?thesis using linked_append [of "rd t" xs p "e # b # ys"] by simp
qed

lemma linked_remove:
  assumes lk: "linked (rd s) (xs @ p # e # b # ys)"
    and d: "distinct (node_cells (xs @ p # e # b # ys))"
    and c: "\<forall>c \<in> set (node_cells (xs @ p # e # b # ys)). cell s c"
  defines "t \<equiv> wr b p (wr (p + 4) b s)"
  shows "linked (rd t) (xs @ p # b # ys)"
proof -
  have l: "linked (rd s) (xs @ [p])" and r: "linked (rd s) (b # ys)"
    using lk linked_append [of "rd s" xs p "e # b # ys"] by auto
  have nl: "{p + 4, b} \<inter> set (link_cells (xs @ [p])) = {}"
    using d link_cells_last [of xs p] link_cells_subset [of "xs @ [p]"] by auto
  have nr: "{p + 4, b} \<inter> set (link_cells (b # ys)) = {}"
    using d link_cells_hd [of b ys] link_cells_subset [of "b # ys"] by auto
  have cl: "\<forall>c \<in> set (node_cells (xs @ [p])). cell s c" and cr: "\<forall>c \<in> set (node_cells (b # ys)). cell s c"
    and cs: "cell s (p + 4)" "cell s b"
    using c by auto
  have "linked (rd t) (xs @ [p])" unfolding t_def
    using l nl cl cs by (intro linked_wr) (auto simp: cell_wr)
  moreover have "linked (rd t) (b # ys)" unfolding t_def
    using r nr cr cs by (intro linked_wr) (auto simp: cell_wr)
  moreover have "rd t (p + 4) = b" "rd t b = p"
    using d cs unfolding t_def by (simp_all add: rd_wr cell_wr)
  ultimately show ?thesis using linked_append [of "rd t" xs p "b # ys"] by simp
qed

end

subsection \<open>The operations on memory\<close>

definition klist :: "'z machine_scheme \<Rightarrow> addr \<Rightarrow> addr list \<Rightarrow> bool" where
  "klist s l xs \<longleftrightarrow> dlist (peek32 s) (kcell s) l xs"

text \<open>\<open>e\<close> can be linked into the list: its two cells are kernel memory outside the list.\<close>

definition klist_free :: "'z machine_scheme \<Rightarrow> addr \<Rightarrow> addr list \<Rightarrow> addr \<Rightarrow> bool" where
  "klist_free s l xs e \<longleftrightarrow> kcell s e \<and> kcell s (e + 4) \<and>
     {e, e + 4} \<inter> set (node_cells (list_nodes l xs)) = {}"

definition list_bytes :: "addr \<Rightarrow> addr list \<Rightarrow> addr set" where
  "list_bytes l xs = (\<Union>c \<in> set (node_cells (list_nodes l xs)). bytes4 c)"

lemmas klist_defs = klist_def dlist_def list_nodes_def

lemma upd_within_step:
  assumes "upd_within B s t" "kcell s a" "bytes4 a \<subseteq> B"
  shows "upd_within B s (poke32 a v t)"
  using upd_within_trans [OF assms(1) upd_within_poke32] assms upd_within_kcell [OF assms(1)] by simp

lemma link_cells_mid: "set (link_cells ys) \<subseteq> set (link_cells (us @ ys))"
proof (induction us)
  case (Cons u us)
  then show ?case by (cases "us @ ys") auto
qed simp

lemma list_ends_not_linked:
  assumes "distinct (node_cells (list_nodes l xs))"
  shows "l \<notin> set (link_cells (list_nodes l xs))" "12 + l \<notin> set (link_cells (list_nodes l xs))"
  using link_cells_hd [of l "xs @ [l + 8]"] link_cells_last [of "l # xs" "l + 8"] assms
  by (simp_all add: list_nodes_def)

lemma insert_before_run:
  assumes "kcell s b" "kcell s e" "kcell s (e + 4)" "kcell s (p + 4)" "peek32 s b = p" "b \<noteq> p + 4"
  shows "list_insert_before b e s =
    Inr ((), poke32 b e (poke32 (e + 4) b (poke32 e p (poke32 (p + 4) e s))))"
  using assms intr_restore_irq_off [of "poke32 b e (poke32 (e + 4) b (poke32 e p (poke32 (p + 4) e s)))" s]
  by (simp add: list_insert_before_def next_field_def cbind_Inr [OF intr_disable_eq]
    cbind_def cseq_def mem_simps ret_def)

lemma remove_run:
  assumes "kcell s b" "kcell s e" "kcell s (e + 4)" "kcell s (p + 4)"
    "peek32 s e = p" "peek32 s (e + 4) = b" "e \<noteq> p + 4" "p \<noteq> e"
  shows "list_remove e s = Inr ((), poke32 b p (poke32 (p + 4) b s))"
  using assms intr_restore_irq_off [of "poke32 b p (poke32 (p + 4) b s)" s]
  by (simp add: list_remove_def next_field_def cbind_Inr [OF intr_disable_eq]
    cbind_def cseq_def mem_simps ret_def)

lemma insert_before_spec:
  assumes nodes: "list_nodes l xs = us @ p # b # vs" and kl: "klist s l xs" and fr: "klist_free s l xs e"
    and new: "list_nodes l ys = us @ p # e # b # vs"
  shows "\<exists>t. list_insert_before b e s = Inr ((), t) \<and> klist t l ys \<and> upd_within (list_bytes l ys) s t"
proof -
  define t where "t = poke32 b e (poke32 (e + 4) b (poke32 e p (poke32 (p + 4) e s)))"
  have lk: "linked (peek32 s) (us @ p # b # vs)" and d0: "distinct (node_cells (us @ p # b # vs))"
    and c0: "\<forall>c \<in> set (node_cells (us @ p # b # vs)). kcell s c"
    and ends: "peek32 s l = NULL" "peek32 s (12 + l) = NULL"
    using kl unfolding klist_def dlist_def nodes by auto
  have d: "distinct (node_cells (us @ p # e # b # vs))"
    and c: "\<forall>c \<in> set (node_cells (us @ p # e # b # vs)). kcell s c"
    using d0 c0 fr unfolding klist_free_def nodes by auto
  have pb: "peek32 s b = p" using lk by (simp add: linked_append [of _ us p "b # vs"])
  have run: "list_insert_before b e s = Inr ((), t)" unfolding t_def
    by (rule insert_before_run) (use c d pb in auto)
  have kc: "kcell t = kcell s" unfolding t_def using c by (simp add: kcell_poke32)
  have "{p + 4, e, e + 4, b} \<subseteq> set (link_cells (list_nodes l ys))"
    using link_cells_mid [of "p # e # b # vs" us] by (simp add: new)
  moreover have "l \<in> set (node_cells (us @ p # b # vs))" "12 + l \<in> set (node_cells (us @ p # b # vs))"
    unfolding nodes [symmetric] by (simp_all add: list_nodes_def)
  ultimately have nl: "{l, 12 + l} \<inter> {p + 4, e, e + 4, b} = {}" "kcell s l" "kcell s (12 + l)"
    using list_ends_not_linked [of l ys] d c0 by (auto simp: new)
  have "linked (peek32 t) (us @ p # e # b # vs)"
    unfolding t_def by (rule ram.linked_insert) (use lk d c in auto)
  moreover have "peek32 t l = NULL" "peek32 t (12 + l) = NULL"
    using ends nl c unfolding t_def by (auto simp: mem_simps)
  ultimately have "klist t l ys"
    using d c unfolding klist_def dlist_def new kc by simp
  moreover have "upd_within (list_bytes l ys) s t"
  proof -
    have "bytes4 x \<subseteq> list_bytes l ys" if "x \<in> {p + 4, e, e + 4, b}" for x
      using that unfolding list_bytes_def new by auto
    then show ?thesis unfolding t_def
      using c by (intro upd_within_step upd_within_refl) auto
  qed
  ultimately show ?thesis using run by blast
qed


lemma remove_spec:
  assumes nodes: "list_nodes l xs = us @ p # e # b # vs" and kl: "klist s l xs"
    and new: "list_nodes l ys = us @ p # b # vs"
  shows "\<exists>t. list_remove e s = Inr ((), t) \<and> klist t l ys \<and> klist_free t l ys e \<and>
    upd_within (list_bytes l ys) s t"
proof -
  define t where "t = poke32 b p (poke32 (p + 4) b s)"
  have lk: "linked (peek32 s) (us @ p # e # b # vs)" and d: "distinct (node_cells (us @ p # e # b # vs))"
    and c: "\<forall>c \<in> set (node_cells (us @ p # e # b # vs)). kcell s c"
    and ends: "peek32 s l = NULL" "peek32 s (12 + l) = NULL"
    using kl unfolding klist_def dlist_def nodes by auto
  have pe: "peek32 s e = p" "peek32 s (e + 4) = b"
    using lk by (simp_all add: linked_append [of _ us p "e # b # vs"])
  have run: "list_remove e s = Inr ((), t)" unfolding t_def
    by (rule remove_run) (use c d pe in auto)
  have kc: "kcell t = kcell s" unfolding t_def using c by (simp add: kcell_poke32)
  have "{p + 4, b} \<subseteq> set (link_cells (list_nodes l ys))"
    using link_cells_mid [of "p # b # vs" us] by (simp add: new)
  moreover have "l \<in> set (node_cells (us @ p # b # vs))" "12 + l \<in> set (node_cells (us @ p # b # vs))"
    unfolding new [symmetric] by (simp_all add: list_nodes_def)
  ultimately have nl: "{l, 12 + l} \<inter> {p + 4, b} = {}" "kcell s l" "kcell s (12 + l)"
    using list_ends_not_linked [of l ys] d c by (auto simp: new)
  have "linked (peek32 t) (us @ p # b # vs)"
    unfolding t_def by (rule ram.linked_remove) (use lk d c in auto)
  moreover have "peek32 t l = NULL" "peek32 t (12 + l) = NULL"
    using ends nl c unfolding t_def by (auto simp: mem_simps)
  ultimately have "klist t l ys"
    using d c unfolding klist_def dlist_def new kc by simp
  moreover have "klist_free t l ys e"
    using d c unfolding klist_free_def new kc by auto
  moreover have "upd_within (list_bytes l ys) s t"
  proof -
    have "bytes4 x \<subseteq> list_bytes l ys" if "x \<in> {p + 4, b}" for x
      using that unfolding list_bytes_def new by auto
    then show ?thesis unfolding t_def
      using c by (intro upd_within_step upd_within_refl) auto
  qed
  ultimately show ?thesis using run by blast
qed

lemma nodes_split_last: "l # xs @ ys = butlast (l # xs) @ last (l # xs) # ys"
  by (induction xs arbitrary: l) auto

lemma list_append_spec:
  assumes "klist s l xs" "klist_free s l xs e"
  shows "\<exists>t. list_append l e s = Inr ((), t) \<and> klist t l (xs @ [e]) \<and>
    upd_within (list_bytes l (xs @ [e])) s t"
proof -
  have n: "list_nodes l xs = butlast (l # xs) @ last (l # xs) # (l + 8) # []"
    "list_nodes l (xs @ [e]) = butlast (l # xs) @ last (l # xs) # e # (l + 8) # []"
    unfolding list_nodes_def by (simp_all only: nodes_split_last append.assoc append.simps)
  show ?thesis unfolding list_append_def list_tail_def
    by (rule insert_before_spec [OF n(1) assms n(2)])
qed

lemma klist_first:
  assumes "klist s l xs"
  shows "load32 (next_field l) s = Inr (hd (xs @ [l + 8]), s)"
  using assms by (cases xs) (auto simp: klist_defs next_field_def load32_kcell)

lemma list_push_spec:
  assumes "klist s l xs" "klist_free s l xs e"
  shows "\<exists>t. list_push l e s = Inr ((), t) \<and> klist t l (e # xs) \<and>
    upd_within (list_bytes l (e # xs)) s t"
proof -
  have n: "list_nodes l xs = [] @ l # hd (xs @ [l + 8]) # tl (xs @ [l + 8])"
    "list_nodes l (e # xs) = [] @ l # e # hd (xs @ [l + 8]) # tl (xs @ [l + 8])"
    by (simp_all add: list_nodes_def)
  from insert_before_spec [OF n(1) assms n(2)] show ?thesis
    by (simp add: list_push_def cbind_def klist_first [OF assms(1)])
qed

lemma list_remove_spec:
  assumes "klist s l (as @ e # zs)"
  shows "\<exists>t. list_remove e s = Inr ((), t) \<and> klist t l (as @ zs) \<and> klist_free t l (as @ zs) e \<and>
    upd_within (list_bytes l (as @ zs)) s t"
proof -
  have n: "list_nodes l (as @ e # zs) = butlast (l # as) @ last (l # as) # e # hd (zs @ [l + 8]) # tl (zs @ [l + 8])"
    "list_nodes l (as @ zs) = butlast (l # as) @ last (l # as) # hd (zs @ [l + 8]) # tl (zs @ [l + 8])"
    unfolding list_nodes_def nodes_split_last [symmetric] by simp_all
  show ?thesis by (rule remove_spec [OF n(1) assms n(2)])
qed

lemma list_pop_spec:
  assumes "klist s l (e # xs)"
  shows "\<exists>t. list_pop l s = Inr (e, t) \<and> klist t l xs \<and> klist_free t l xs e \<and>
    upd_within (list_bytes l xs) s t"
  using list_remove_spec [of s l "[]" e xs] assms
  by (auto simp: list_pop_def klist_first [OF assms] cseq_def cbind_def ret_def)

lemma list_init_spec:
  assumes "\<forall>c \<in> {l, l + 4, l + 8, 12 + l}. kcell s c"
  shows "\<exists>t. list_init l s = Inr ((), t) \<and> klist t l [] \<and> upd_within (list_bytes l []) s t"
proof -
  define t where "t = poke32 (l + 8) l (poke32 (12 + l) NULL (poke32 (l + 4) (l + 8) (poke32 l NULL s)))"
  have run: "list_init l s = Inr ((), t)"
    using assms unfolding list_init_def t_def next_field_def list_tail_def
    by (simp add: comp_simps mem_simps add.commute)
  moreover have "klist t l []"
    using assms unfolding klist_def dlist_def list_nodes_def t_def by (simp add: mem_simps NULL_def)
  moreover have "bytes4 x \<subseteq> list_bytes l []" if "x \<in> {l, l + 4, l + 8, 12 + l}" for x
    using that unfolding list_bytes_def list_nodes_def by auto
  then have "upd_within (list_bytes l []) s t"
    unfolding t_def using assms by (intro upd_within_step upd_within_refl) auto
  ultimately show ?thesis by blast
qed

lemma klist_next:
  assumes "klist s l (us @ y # ys)"
  shows "load32 (next_field y) s = Inr (hd (ys @ [l + 8]), s)" "y \<noteq> l + 8"
proof -
  have nodes: "list_nodes l (us @ y # ys) = (l # us) @ y # ys @ [l + 8]" by (simp add: list_nodes_def)
  note kl = assms [unfolded klist_def dlist_def nodes]
  have lk: "linked (peek32 s) ((l # us) @ y # ys @ [l + 8])" using kl by (rule conjunct1)
  have d: "distinct (node_cells ((l # us) @ y # ys @ [l + 8]))" using kl by blast
  have c: "kcell s (y + 4)" using kl by (simp add: ball_Un)
  from lk have "linked (peek32 s) (y # ys @ [l + 8])" by (rule linked_append [THEN iffD1, THEN conjunct2])
  then have "peek32 s (y + 4) = hd (ys @ [l + 8])" by (cases ys) auto
  with c show "load32 (next_field y) s = Inr (hd (ys @ [l + 8]), s)"
    by (simp add: next_field_def load32_kcell)
  from d show "y \<noteq> l + 8" by auto
qed

lemma list_find_loop_spec:
  "klist s l (us @ ys) \<Longrightarrow> list_find_loop (l + 8) e (hd (ys @ [l + 8])) s =
     Some (Inr (if e \<in> set ys then 1 else 0, s))"
proof (induction ys arbitrary: us)
  case Nil
  then show ?case by (simp add: list_find_loop.simps [of "l + 8" e "l + 8"])
next
  case (Cons y ys)
  from Cons.IH [of "us @ [y]"] Cons.prems klist_next [of s l us y ys] show ?case
    by (simp add: list_find_loop.simps [of "l + 8" e y])
qed

lemma list_find_spec:
  "klist s l xs \<Longrightarrow> list_find l e s = Inr (if e \<in> set xs then 1 else 0, s)"
  using list_find_loop_spec [of s l "[]" xs e]
  by (simp add: list_find_def cbind_def klist_first list_tail_def)

lemma list_empty_spec:
  "klist s l xs \<Longrightarrow> list_empty l s = Inr (if xs = [] then 1 else 0, s)"
  using klist_next(2) [of s l "[]" "hd xs" "tl xs"]
  by (cases xs) (simp_all add: list_empty_def cbind_def klist_first list_tail_def ret_def)

lemma list_length_loop_spec:
  "klist s l (us @ ys) \<Longrightarrow> list_length_loop (l + 8) (hd (ys @ [l + 8])) n s =
     Some (Inr (n + of_nat (length ys), s))"
proof (induction ys arbitrary: us n)
  case Nil
  then show ?case by (simp add: list_length_loop.simps [of "l + 8" "l + 8"])
next
  case (Cons y ys)
  from Cons.IH [of "us @ [y]" "n + 1"] Cons.prems klist_next [of s l us y ys] show ?case
    by (simp add: list_length_loop.simps [of "l + 8" y])
qed

lemma list_length_spec:
  "klist s l xs \<Longrightarrow> list_length l s = Inr (of_nat (length xs), s)"
  using list_length_loop_spec [of s l "[]" xs 0]
  by (simp add: list_length_def cbind_def klist_first list_tail_def)

lemma list_traversal_loop_spec:
  assumes "\<forall>x \<in> set ys. f x arg s = Inr (g x, s)"
  shows "klist s l (us @ ys) \<Longrightarrow> list_traversal_loop f arg (l + 8) (hd (ys @ [l + 8])) s =
     Some (Inr (case find (\<lambda>x. g x \<noteq> 0) ys of None \<Rightarrow> NULL | Some x \<Rightarrow> x, s))"
  using assms
proof (induction ys arbitrary: us)
  case Nil
  then show ?case by (simp add: list_traversal_loop.simps [of f arg "l + 8" "l + 8"])
next
  case (Cons y ys)
  from Cons.IH [of "us @ [y]"] Cons.prems klist_next [of s l us y ys] show ?case
    by (simp add: list_traversal_loop.simps [of f arg "l + 8" y])
qed

lemma list_traversal_spec:
  assumes "klist s l xs" "\<forall>x \<in> set xs. f x arg s = Inr (g x, s)"
  shows "list_traversal l f arg s =
     Inr (case find (\<lambda>x. g x \<noteq> 0) xs of None \<Rightarrow> NULL | Some x \<Rightarrow> x, s)"
  using list_traversal_loop_spec [of xs f arg s g l "[]", OF assms(2)] assms(1)
  by (simp add: list_traversal_def cbind_def list_empty_spec klist_first list_tail_def ret_def)

subsection \<open>Framing: other memory, other lists\<close>

lemma klist_frame:
  assumes "upd_within B s t" "klist s l xs" "B \<inter> list_bytes l xs = {}"
  shows "klist t l xs"
proof -
  have c: "\<forall>c \<in> set (node_cells (list_nodes l xs)). kcell s c" using assms(2) by (simp add: klist_def dlist_def)
  have eq: "peek32 t x = peek32 s x" if "x \<in> set (node_cells (list_nodes l xs))" for x
    by (rule upd_within_peek32 [OF assms(1)]) (use c that assms(3) in \<open>auto simp: list_bytes_def\<close>)
  have "linked (peek32 t) (list_nodes l xs) = linked (peek32 s) (list_nodes l xs)"
    by (rule linked_cong, rule eq) (use link_cells_subset in blast)
  moreover have "l \<in> set (node_cells (list_nodes l xs))" "12 + l \<in> set (node_cells (list_nodes l xs))"
    by (simp_all add: list_nodes_def)
  ultimately show ?thesis
    using assms(2) eq upd_within_kcell [OF assms(1)] by (simp add: klist_def dlist_def)
qed

lemma klist_free_frame:
  "upd_within B s t \<Longrightarrow> klist_free t l xs e \<longleftrightarrow> klist_free s l xs e"
  by (simp add: klist_free_def upd_within_kcell)

lemma klist_free_append: "klist_free s l (xs @ ys) e \<longleftrightarrow>
    klist_free s l xs e \<and> {e, e + 4} \<inter> set (node_cells ys) = {}"
  by (auto simp: klist_free_def list_nodes_def)

lemma list_bytes_simps: "list_bytes l (xs @ ys) = list_bytes l xs \<union> (\<Union>c \<in> set (node_cells ys). bytes4 c)"
  by (auto simp: list_bytes_def list_nodes_def)

subsection \<open>The queue contract\<close>

text \<open>
  What the scheduler and the semaphores rely on: a queue of nodes in memory with
  operations at both ends. \<open>apart\<close> says that two nodes do not overlap.
\<close>

locale node_queue =
  fixes holds :: "'s \<Rightarrow> addr \<Rightarrow> addr list \<Rightarrow> bool"
    and free :: "'s \<Rightarrow> addr \<Rightarrow> addr list \<Rightarrow> addr \<Rightarrow> bool"
    and apart :: "addr \<Rightarrow> addr \<Rightarrow> bool"
    and append :: "addr \<Rightarrow> addr \<Rightarrow> ('s, unit) comp"
    and push :: "addr \<Rightarrow> addr \<Rightarrow> ('s, unit) comp"
    and pop :: "addr \<Rightarrow> ('s, addr) comp"
  assumes append_law: "holds s l xs \<Longrightarrow> free s l xs e \<Longrightarrow>
      \<exists>t. append l e s = Inr ((), t) \<and> holds t l (xs @ [e]) \<and>
        (\<forall>e'. free s l xs e' \<longrightarrow> apart e e' \<longrightarrow> free t l (xs @ [e]) e')"
    and push_law: "holds s l xs \<Longrightarrow> free s l xs e \<Longrightarrow>
      \<exists>t. push l e s = Inr ((), t) \<and> holds t l (e # xs) \<and>
        (\<forall>e'. free s l xs e' \<longrightarrow> apart e e' \<longrightarrow> free t l (e # xs) e')"
    and pop_law: "holds s l (e # xs) \<Longrightarrow>
      \<exists>t. pop l s = Inr (e, t) \<and> holds t l xs \<and> free t l xs e"

context node_queue begin

lemma append_all_law:
  "holds s l xs \<Longrightarrow> \<forall>e \<in> set es. free s l xs e \<Longrightarrow> sorted_wrt apart es \<Longrightarrow>
    \<exists>t. run_all (append l) es s = Inr ((), t) \<and> holds t l (xs @ es)"
proof (induction es arbitrary: s xs)
  case Nil
  then show ?case by (simp add: ret_def)
next
  case (Cons e es)
  from append_law [of s l xs e] Cons.prems obtain t where
    t: "append l e s = Inr ((), t)" "holds t l (xs @ [e])" "\<forall>e' \<in> set es. free t l (xs @ [e]) e'"
    by fastforce
  from Cons.IH [OF t(2,3)] Cons.prems(3) show ?case by (auto simp: cseq_def cbind_def t(1))
qed

lemma pop_n_law:
  "holds s l (es @ xs) \<Longrightarrow> \<exists>t. run_n (pop l) (length es) s = Inr (es, t) \<and> holds t l xs"
proof (induction es arbitrary: s)
  case Nil
  then show ?case by (simp add: ret_def)
next
  case (Cons e es)
  from pop_law [of s l e "es @ xs"] Cons.prems obtain t where
    t: "pop l s = Inr (e, t)" "holds t l (es @ xs)" by auto
  from Cons.IH [OF t(2)] show ?case by (auto simp: cbind_def ret_def t(1))
qed

text \<open>First in, first out.\<close>

lemma fifo:
  assumes "holds s l []" "\<forall>e \<in> set es. free s l [] e" "sorted_wrt apart es"
  shows "\<exists>t. cseq (run_all (append l) es) (run_n (pop l) (length es)) s = Inr (es, t) \<and> holds t l []"
proof -
  from append_all_law [OF assms] obtain t where
    t: "run_all (append l) es s = Inr ((), t)" "holds t l (es @ [])" by auto
  from pop_n_law [OF t(2)] show ?thesis by (simp add: cseq_def cbind_def t(1))
qed

text \<open>A pushed node is the next one popped, ahead of those waiting.\<close>

lemma push_pop:
  assumes "holds s l xs" "free s l xs e"
  shows "\<exists>t. cseq (push l e) (pop l) s = Inr (e, t) \<and> holds t l xs"
  using push_law [OF assms] pop_law by (fastforce simp: cseq_def cbind_def)

end

definition nodes_apart :: "addr \<Rightarrow> addr \<Rightarrow> bool" where
  "nodes_apart e e' \<longleftrightarrow> {e', e' + 4} \<inter> {e, e + 4} = {}"

lemma klist_free_insert:
  assumes "klist_free s l xs e'" "nodes_apart e e'"
  shows "klist_free s l (xs @ [e]) e'" "klist_free s l (e # xs) e'"
  using assms by (auto simp: klist_free_def nodes_apart_def list_nodes_def)

interpretation kq: node_queue klist klist_free nodes_apart list_append list_push list_pop
proof
  fix s :: "'a machine_scheme" and l xs e
  assume a: "klist s l xs" "klist_free s l xs e"
  show "\<exists>t. list_append l e s = Inr ((), t) \<and> klist t l (xs @ [e]) \<and>
      (\<forall>e'. klist_free s l xs e' \<longrightarrow> nodes_apart e e' \<longrightarrow> klist_free t l (xs @ [e]) e')"
    using list_append_spec [OF a] klist_free_frame klist_free_insert by blast
  show "\<exists>t. list_push l e s = Inr ((), t) \<and> klist t l (e # xs) \<and>
      (\<forall>e'. klist_free s l xs e' \<longrightarrow> nodes_apart e e' \<longrightarrow> klist_free t l (e # xs) e')"
    using list_push_spec [OF a] klist_free_frame klist_free_insert by blast
next
  fix s :: "'a machine_scheme" and l xs e
  assume "klist s l (e # xs)"
  from list_pop_spec [OF this]
  show "\<exists>t. list_pop l s = Inr (e, t) \<and> klist t l xs \<and> klist_free t l xs e" by blast
qed

subsection \<open>Properties\<close>

lemma boot_klist:
  "\<exists>s :: machine. klist s 0xc0010000 [] \<and> kcell s = kcell boot_machine"
proof -
  have "\<forall>c \<in> {0xc0010000, 0xc0010000 + 4, 0xc0010000 + 8, 12 + 0xc0010000}. kcell boot_machine c"
    by (simp add: boot_kcell)
  from list_init_spec [OF this] upd_within_kcell show ?thesis by blast
qed

lemma boot_klist_free:
  assumes "kcell s = kcell boot_machine" "0xc0020000 \<le> e" "e < 0xc00ffff0" "aligned4 e"
  shows "klist_free s 0xc0010000 [] e"
proof -
  have u: "3221356544 \<le> unat e" "unat e < 3222274032"
    using assms(2,3) by (simp_all add: word_le_nat_alt word_less_nat_alt)
  then have v: "unat (e + 4) = unat e + 4" by (simp add: unat_word_ariths)
  have "0xc0000000 \<le> e" "e < 0xc0100000" "0xc0000000 \<le> e + 4" "e + 4 < 0xc0100000"
    using u v by (simp_all add: word_le_nat_alt word_less_nat_alt)
  then have "kcell s e" "kcell s (e + 4)" using assms(1,4) by (simp_all add: boot_kcell)
  moreover have "c < e \<and> c < e + 4" if "c \<in> {0xc0010000, 0xc0010004, 0xc0010008, 0xc001000c}" for c
    using that u v by (auto simp: word_less_nat_alt)
  ultimately show ?thesis by (force simp: klist_free_def list_nodes_def)
qed

text \<open>
  C35: inserting at either end of a list that holds \<open>xs\<close> yields the list extended at that
  end; only the cells of the list and of the new node change, and EFLAGS.IF is restored.
\<close>

theorem list_insertion_correct:
  assumes "klist s l xs" "klist_free s l xs e"
  shows "(\<exists>t. list_append l e s = Inr ((), t) \<and> klist t l (xs @ [e]) \<and> upd_within (list_bytes l (xs @ [e])) s t) \<and>
    (\<exists>t. list_push l e s = Inr ((), t) \<and> klist t l (e # xs) \<and> upd_within (list_bytes l (e # xs)) s t)"
  using list_append_spec [OF assms] list_push_spec [OF assms] by simp


theorem list_insertion_correct_witness:
  "\<exists>s t :: machine. klist s 0xc0010000 [] \<and> list_append 0xc0010000 0xc0020000 s = Inr ((), t) \<and>
     klist t 0xc0010000 [0xc0020000]"
proof -
  obtain s :: machine where s: "klist s 0xc0010000 []" "kcell s = kcell boot_machine"
    using boot_klist by blast
  have "klist_free s 0xc0010000 [] 0xc0020000" by (rule boot_klist_free [OF s(2)]) simp_all
  from list_insertion_correct [OF s(1) this] s(1) show ?thesis by auto
qed

text \<open>
  C36: removing a node gives the list without it and leaves the node free for another
  list; popping yields the first node.
\<close>

theorem list_removal_correct:
  assumes "klist s l (as @ e # zs)"
  shows "(\<exists>t. list_remove e s = Inr ((), t) \<and> klist t l (as @ zs) \<and> klist_free t l (as @ zs) e \<and>
      upd_within (list_bytes l (as @ zs)) s t) \<and>
    (as = [] \<longrightarrow> (\<exists>t. list_pop l s = Inr (e, t) \<and> klist t l zs \<and> klist_free t l zs e \<and>
      upd_within (list_bytes l zs) s t))"
  using list_remove_spec [OF assms] list_pop_spec [of s l e zs] assms by auto

theorem list_removal_correct_witness:
  "\<exists>s t :: machine. klist s 0xc0010000 [0xc0020000] \<and> list_pop 0xc0010000 s = Inr (0xc0020000, t) \<and>
     klist t 0xc0010000 []"
proof -
  obtain s0 :: machine where s0: "klist s0 0xc0010000 []" "kcell s0 = kcell boot_machine"
    using boot_klist by blast
  have "klist_free s0 0xc0010000 [] 0xc0020000" by (rule boot_klist_free [OF s0(2)]) simp_all
  from list_append_spec [OF s0(1) this] obtain s :: machine where s: "klist s 0xc0010000 ([] @ 0xc0020000 # [])" by auto
  from list_removal_correct [OF s] s show ?thesis by auto
qed

text \<open>
  The queries leave the machine unchanged and terminate; \<open>list_find\<close> decides
  membership, \<open>list_empty\<close> emptiness, \<open>list_length\<close> counts modulo \<open>2 ^ 32\<close>, and
  \<open>list_traversal\<close> returns the first node its callback accepts, or NULL.
\<close>

theorem list_queries_correct:
  assumes "klist s l xs" "\<forall>x \<in> set xs. f x arg s = Inr (g x, s)"
  shows "list_find l e s = Inr (if e \<in> set xs then 1 else 0, s) \<and>
    list_empty l s = Inr (if xs = [] then 1 else 0, s) \<and>
    list_length l s = Inr (of_nat (length xs), s) \<and>
    list_traversal l f arg s = Inr (case find (\<lambda>x. g x \<noteq> 0) xs of None \<Rightarrow> NULL | Some x \<Rightarrow> x, s)"
  using list_find_spec [OF assms(1)] list_empty_spec [OF assms(1)] list_length_spec [OF assms(1)]
    list_traversal_spec [of s l xs f arg g, OF assms] by simp

theorem list_queries_correct_witness:
  "\<exists>s :: machine. klist s 0xc0010000 [] \<and> list_find 0xc0010000 0xc0020000 s = Inr (0, s) \<and>
     list_length 0xc0010000 s = Inr (0, s)"
proof -
  obtain s :: machine where s: "klist s 0xc0010000 []" using boot_klist by blast
  from list_queries_correct [of s "0xc0010000" "[]" "\<lambda>_ _. ret 0" 0 "\<lambda>_. 0" "0xc0020000", OF s] s
  show ?thesis by auto
qed

text \<open>
  C37: the list is a queue: appending distinct free nodes to an empty list and popping as
  many gives them back in the order of insertion; a pushed node overtakes those waiting.
\<close>

theorem list_fifo:
  assumes "klist s l []" "\<forall>e \<in> set es. klist_free s l [] e" "sorted_wrt nodes_apart es"
  shows "\<exists>t. cseq (run_all (list_append l) es) (run_n (list_pop l) (length es)) s = Inr (es, t) \<and>
    klist t l []"
  using assms by (rule kq.fifo)

theorem list_fifo_witness:
  "\<exists>s t :: machine. cseq (run_all (list_append 0xc0010000) [0xc0020000, 0xc0030000])
     (run_n (list_pop 0xc0010000) 2) s = Inr ([0xc0020000, 0xc0030000], t)"
proof -
  obtain s :: machine where s: "klist s 0xc0010000 []" "kcell s = kcell boot_machine"
    using boot_klist by blast
  have "klist_free s 0xc0010000 [] e" if "e \<in> {0xc0020000, 0xc0030000}" for e
    using that by (auto intro!: boot_klist_free [OF s(2)])
  moreover have "sorted_wrt nodes_apart [0xc0020000, 0xc0030000]" by (simp add: nodes_apart_def)
  ultimately show ?thesis using list_fifo [of s "0xc0010000" "[0xc0020000, 0xc0030000]", OF s(1)]
    by (auto simp: numeral_2_eq_2)
qed

end
