(* ===== verification/CString.thy ===== *)
theory CString
  imports Machine Boot "HOL-Library.Signed_Division"
begin

unbundle bit_operations_syntax

section \<open>Memory and string functions (libs/string.c)\<close>

text \<open>
  The byte loops of \<open>libs/string.c\<close> on memory. A counted loop recurses on the count; a
  loop that runs to a NUL is a \<^theory_text>\<open>partial_function (option)\<close>, since nothing
  bounds it but the data. \<open>char\<close> is signed in this build (gcc, i386), so a comparison of
  a \<open>char\<close> goes through \<open>sint\<close>; \<open>uint8_t\<close> values go through \<open>unat\<close>. The static and
  local arrays whose address is passed on live in memory; where, is the linker's and
  the compiler's choice, a \<open>string_objs\<close> record.
\<close>

definition string_assert :: "bool \<Rightarrow> nat \<Rightarrow> string \<Rightarrow> string \<Rightarrow> ('s, unit) comp" where
  "string_assert b line fn cond = assert_or b (Panic ''libs/string.c'' line fn cond)"

subsection \<open>Blocks of bytes\<close>

fun memcpy_loop :: "nat \<Rightarrow> addr \<Rightarrow> addr \<Rightarrow> ('z machine_scheme, unit) comp" where
  "memcpy_loop 0 dest src = ret ()"
| "memcpy_loop (Suc len) dest src =
     cbind (load8 src) (\<lambda>c. cseq (store8 dest c) (memcpy_loop len (dest + 1) (src + 1)))"

definition memcpy :: "addr \<Rightarrow> addr \<Rightarrow> u32 \<Rightarrow> ('z machine_scheme, unit) comp" where
  "memcpy dest src len =
     cseq (string_assert (dest \<noteq> 0 \<and> src \<noteq> 0) 56 ''memcpy'' ''dest != NULL && src != NULL'')
          (memcpy_loop (unat len) dest src)"

fun memset_loop :: "nat \<Rightarrow> addr \<Rightarrow> u8 \<Rightarrow> ('z machine_scheme, unit) comp" where
  "memset_loop 0 dst val = ret ()"
| "memset_loop (Suc len) dst val = cseq (store8 dst val) (memset_loop len (dst + 1) val)"

definition memset :: "addr \<Rightarrow> u8 \<Rightarrow> u32 \<Rightarrow> ('z machine_scheme, unit) comp" where
  "memset dest val len =
     cseq (string_assert (dest \<noteq> 0) 67 ''memset'' ''dest != NULL'')
          (memset_loop (unat len) dest val)"

fun memcmp_loop :: "nat \<Rightarrow> addr \<Rightarrow> addr \<Rightarrow> ('z machine_scheme, int) comp" where
  "memcmp_loop 0 a b = ret 0"
| "memcmp_loop (Suc n) a b =
     cbind (load8 a) (\<lambda>x. cbind (load8 b) (\<lambda>y.
       if x \<noteq> y then ret (int (unat x) - int (unat y)) else memcmp_loop n (a + 1) (b + 1)))"

definition memcmp :: "addr \<Rightarrow> addr \<Rightarrow> u32 \<Rightarrow> ('z machine_scheme, int) comp" where
  "memcmp a b sz =
     cseq (string_assert (a \<noteq> 0 \<and> b \<noteq> 0) 77 ''memcmp'' ''a_ != NULL && b_ != NULL'')
          (memcmp_loop (unat sz) a b)"

definition bzero :: "addr \<Rightarrow> u32 \<Rightarrow> ('z machine_scheme, unit) comp" where
  "bzero dest len = memset dest 0 len"

subsection \<open>NUL-terminated strings\<close>

definition char_int :: "u8 \<Rightarrow> int" where
  "char_int c = sint c"

partial_function (option) strcmp_loop ::
  "addr \<Rightarrow> addr \<Rightarrow> 'z machine_scheme \<Rightarrow> (fail + (int \<times> 'z machine_scheme)) option" where
  "strcmp_loop str1 str2 s =
     (case load8 str1 s of Inl f \<Rightarrow> Some (Inl f) | Inr (x, s1) \<Rightarrow>
     (case load8 str2 s1 of Inl f \<Rightarrow> Some (Inl f) | Inr (y, s2) \<Rightarrow>
       if x = 0 \<and> y = 0 then Some (Inr (0, s2))
       else if char_int x > char_int y then Some (Inr (1, s2))
       else if char_int x < char_int y then Some (Inr (- 1, s2))
       else strcmp_loop (str1 + 1) (str2 + 1) s2))"

definition strcmp :: "addr \<Rightarrow> addr \<Rightarrow> ('z machine_scheme, int) comp" where
  "strcmp str1 str2 =
     cseq (string_assert (str1 \<noteq> 0 \<and> str2 \<noteq> 0) 98 ''strcmp'' ''str1 != NULL && str2 != NULL'')
          (\<lambda>s. returning (strcmp_loop str1 str2 s))"

partial_function (option) strlen_loop ::
  "addr \<Rightarrow> nat \<Rightarrow> 'z machine_scheme \<Rightarrow> (fail + (nat \<times> 'z machine_scheme)) option" where
  "strlen_loop src i s =
     (case load8 (src + of_nat i) s of Inl f \<Rightarrow> Some (Inl f) | Inr (c, s1) \<Rightarrow>
       if c \<noteq> 0 then
         (if Suc i < 2 ^ 31 then strlen_loop src (Suc i) s1 else Some (Inl Signed_Overflow))
       else Some (Inr (i, s1)))"

definition strlen :: "addr \<Rightarrow> ('z machine_scheme, nat) comp" where
  "strlen src =
     cseq (string_assert (src \<noteq> 0) 117 ''strlen'' ''src != NULL'')
          (\<lambda>s. returning (strlen_loop src 0 s))"

partial_function (option) strcpy_loop ::
  "addr \<Rightarrow> addr \<Rightarrow> 'z machine_scheme \<Rightarrow> (fail + (unit \<times> 'z machine_scheme)) option" where
  "strcpy_loop dest src s =
     (case load8 src s of Inl f \<Rightarrow> Some (Inl f) | Inr (c, s1) \<Rightarrow>
       if c \<noteq> 0 then
         (case store8 dest c s1 of Inl f \<Rightarrow> Some (Inl f)
          | Inr (_, s2) \<Rightarrow> strcpy_loop (dest + 1) (src + 1) s2)
       else Some (store8 dest 0 s1))"

definition strcpy :: "addr \<Rightarrow> addr \<Rightarrow> ('z machine_scheme, addr) comp" where
  "strcpy dest src =
     cseq (string_assert (dest \<noteq> 0 \<and> src \<noteq> 0) 126 ''strcpy'' ''dest != NULL && src != NULL'')
    (cseq (\<lambda>s. returning (strcpy_loop dest src s)) (ret dest))"

partial_function (option) str_end ::
  "addr \<Rightarrow> 'z machine_scheme \<Rightarrow> (fail + (addr \<times> 'z machine_scheme)) option" where
  "str_end pointer s =
     (case load8 pointer s of Inl f \<Rightarrow> Some (Inl f) | Inr (c, s1) \<Rightarrow>
       if c \<noteq> 0 then str_end (pointer + 1) s1 else Some (Inr (pointer, s1)))"

definition strcat :: "addr \<Rightarrow> addr \<Rightarrow> ('z machine_scheme, addr) comp" where
  "strcat dest src =
     cseq (string_assert (dest \<noteq> 0 \<and> src \<noteq> 0) 141 ''strcat'' ''dest != NULL && src != NULL'')
    (cbind (\<lambda>s. returning (str_end dest s)) (\<lambda>pointer. cseq (strcpy pointer src) (ret dest)))"

partial_function (option) strchr_loop ::
  "addr \<Rightarrow> u8 \<Rightarrow> 'z machine_scheme \<Rightarrow> (fail + (addr \<times> 'z machine_scheme)) option" where
  "strchr_loop str ch s =
     (case load8 str s of Inl f \<Rightarrow> Some (Inl f) | Inr (c, s1) \<Rightarrow>
       if c \<noteq> 0 then
         (if char_int c = int (unat ch) then Some (Inr (str, s1)) else strchr_loop (str + 1) ch s1)
       else Some (Inr (0, s1)))"

definition strchr :: "addr \<Rightarrow> u8 \<Rightarrow> ('z machine_scheme, addr) comp" where
  "strchr str ch =
     cseq (string_assert (str \<noteq> 0) 150 ''strchr'' ''str != NULL'')
          (\<lambda>s. returning (strchr_loop str ch s))"

partial_function (option) strrchr_loop ::
  "addr \<Rightarrow> u8 \<Rightarrow> addr \<Rightarrow> 'z machine_scheme \<Rightarrow> (fail + (addr \<times> 'z machine_scheme)) option" where
  "strrchr_loop str ch last_char s =
     (case load8 str s of Inl f \<Rightarrow> Some (Inl f) | Inr (c, s1) \<Rightarrow>
       if c \<noteq> 0 then
         strrchr_loop (str + 1) ch (if char_int c = int (unat ch) then str else last_char) s1
       else Some (Inr (last_char, s1)))"

definition strrchr :: "addr \<Rightarrow> u8 \<Rightarrow> ('z machine_scheme, addr) comp" where
  "strrchr str ch =
     cseq (string_assert (str \<noteq> 0) 162 ''strrchr'' ''str != NULL'')
          (\<lambda>s. returning (strrchr_loop str ch 0 s))"

partial_function (option) strchrs_loop ::
  "addr \<Rightarrow> u8 \<Rightarrow> u32 \<Rightarrow> 'z machine_scheme \<Rightarrow> (fail + (u32 \<times> 'z machine_scheme)) option" where
  "strchrs_loop p ch count s =
     (case load8 p s of Inl f \<Rightarrow> Some (Inl f) | Inr (c, s1) \<Rightarrow>
       if c \<noteq> 0 then
         strchrs_loop (p + 1) ch (if char_int c = int (unat ch) then count + 1 else count) s1
       else Some (Inr (count, s1)))"

definition strchrs :: "addr \<Rightarrow> u8 \<Rightarrow> ('z machine_scheme, u32) comp" where
  "strchrs str ch =
     cseq (string_assert (str \<noteq> 0) 174 ''strchrs'' ''str != NULL'')
          (\<lambda>s. returning (strchrs_loop str ch 0 s))"

subsection \<open>Numbers to strings\<close>

text \<open>
  \<open>string_objs\<close>: the addresses of the objects whose address \<open>num2hexstr\<close> and
  \<open>uintTostring\<close> hand to other functions or return: the static buffers, the local
  arrays of \<open>num2hexstr\<close> on the stack, and the two string literals.
\<close>

record string_objs =
  static_hexstr :: addr
  temp_arry :: addr
  temp_arry2 :: addr
  static_m :: addr
  lit_0x00000000 :: addr
  lit_00000000 :: addr
  lit_empty :: addr

definition array_get :: "'a list \<Rightarrow> int \<Rightarrow> ('s, 'a) comp" where
  "array_get xs i = (if 0 \<le> i \<and> i < int (length xs) then ret (xs ! nat i) else fail_with (Out_Of_Bounds i))"

definition bit_digits :: "u8 list" where
  "bit_digits = [48, 49, 50, 51, 52, 53, 54, 55, 56, 57, 65, 66, 67, 68, 69, 70, 0]"

text \<open>
  \<open>func\<close> divides as C does, toward zero. The string \<open>""\<close> it copies is the literal at
  \<open>lit_empty\<close>.
\<close>

partial_function (option) func ::
  "string_objs \<Rightarrow> addr \<Rightarrow> int \<Rightarrow> int \<Rightarrow> 'z machine_scheme \<Rightarrow> (fail + (int \<times> 'z machine_scheme)) option" where
  "func so s n i st =
     (if n = 0 then Some (cseq (strcpy s (lit_empty so)) (ret 0) st)
      else if i = 0 \<or> n sdiv i > 0x7fffffff then Some (Inl Divide_Error)
      else Option.bind (func so s (n sdiv i) i st) (\<lambda>r. Some (case r of
          Inl f \<Rightarrow> Inl f
        | Inr (_, st1) \<Rightarrow>
            cbind (strlen s) (\<lambda>len.
            cbind (array_get bit_digits (n smod i)) (\<lambda>c.
            cseq (store8 (s + of_nat len) c)
           (cseq (store8 (s + of_nat len + 1) 0) (ret 1)))) st1)))"

fun fill_zeros :: "nat \<Rightarrow> addr \<Rightarrow> ('z machine_scheme, unit) comp" where
  "fill_zeros 0 p = ret ()"
| "fill_zeros (Suc k) p = cseq (store8 p 48) (fill_zeros k (p + 1))"

definition num2hexstr :: "string_objs \<Rightarrow> int \<Rightarrow> bool \<Rightarrow> ('z machine_scheme, addr) comp" where
  "num2hexstr so number need0x =
     (if number \<noteq> 0 then
        cseq (store8 (static_hexstr so) 48)
       (cseq (store8 (static_hexstr so + 1) 120)
       (cseq (memset_loop 9 (temp_arry so) 0)
       (cseq (\<lambda>s. returning (func so (temp_arry so) number 16 s))
       (cseq (memset_loop 9 (temp_arry2 so) 0)
       (cseq (strcpy (temp_arry2 so) (temp_arry so))
       (cbind (strlen (temp_arry so)) (\<lambda>len. let offset = 8 - int len in
        cseq (strcpy (temp_arry so + of_int offset) (temp_arry2 so))
       (cseq (fill_zeros (nat offset) (temp_arry so))
       (cseq (if need0x then strcpy (static_hexstr so + 2) (temp_arry so)
              else strcpy (static_hexstr so) (temp_arry so))
             (ret (static_hexstr so)))))))))))
      else ret (if need0x then lit_0x00000000 so else lit_00000000 so))"

definition i2stable :: "u8 list" where
  "i2stable = [48, 49, 50, 51, 52, 53, 54, 55, 56, 57]"

lemma u32_div_10_less: "\<not> num < 10 \<Longrightarrow> unat (num div 10 :: u32) < unat num"
  by (simp add: word_less_nat_alt unat_div)

function uint_loop :: "u32 \<Rightarrow> addr \<Rightarrow> ('z machine_scheme, u32 \<times> addr) comp" where
  "uint_loop num str_ptr =
     (if num < 10 then ret (num, str_ptr)
      else let num' = num div 10; index = num - num' * 10 in
        cbind (array_get i2stable (uint index)) (\<lambda>c.
        cseq (store8 str_ptr c) (uint_loop num' (str_ptr + 1))))"
  by auto
termination
  by (relation "measure (\<lambda>(num, _). unat num)") (auto simp: u32_div_10_less)

declare uint_loop.simps [simp del]

function strrevers_loop :: "addr \<Rightarrow> int \<Rightarrow> int \<Rightarrow> ('z machine_scheme, unit) comp" where
  "strrevers_loop str_head ptr_h ptr_t =
     (if ptr_h < ptr_t then
        cbind (load8 (str_head + of_int ptr_t)) (\<lambda>temp.
        cbind (load8 (str_head + of_int ptr_h)) (\<lambda>c.
        cseq (store8 (str_head + of_int ptr_t) c)
       (cseq (store8 (str_head + of_int ptr_h) temp)
             (strrevers_loop str_head (ptr_h + 1) (ptr_t - 1)))))
      else ret ())"
  by auto
termination
  by (relation "measure (\<lambda>(_, h, t). nat (t - h))") auto

declare strrevers_loop.simps [simp del]

definition strrevers :: "addr \<Rightarrow> ('z machine_scheme, addr) comp" where
  "strrevers str =
     cbind (strlen str) (\<lambda>lenth. cseq (strrevers_loop str 0 (int lenth - 1)) (ret str))"

definition uintTostring :: "string_objs \<Rightarrow> u32 \<Rightarrow> ('z machine_scheme, addr) comp" where
  "uintTostring so num =
     cbind (uint_loop num (static_m so)) (\<lambda>(num, str_ptr).
     cbind (array_get i2stable (uint num)) (\<lambda>c.
     cseq (store8 str_ptr c)
    (cseq (store8 (str_ptr + 1) 0) (strrevers (static_m so)))))"

subsection \<open>Blocks, rooms and strings in memory\<close>

text \<open>
  \<open>blk s p bs\<close>: the kernel data bytes from \<open>p\<close> on are \<open>bs\<close>; \<open>room s p n\<close>: the \<open>n\<close>
  bytes from \<open>p\<close> on, the set \<open>span p n\<close>, are kernel data; \<open>cstr s p cs\<close>: at \<open>p\<close> there
  is a string with the characters \<open>cs\<close>, none of them NUL, and a NUL.
\<close>

primrec blk :: "'z machine_scheme \<Rightarrow> addr \<Rightarrow> u8 list \<Rightarrow> bool" where
  "blk s p [] \<longleftrightarrow> True"
| "blk s p (b # bs) \<longleftrightarrow> kaddr s p \<and> peek8 s p = b \<and> blk s (p + 1) bs"

primrec span :: "addr \<Rightarrow> nat \<Rightarrow> addr set" where
  "span p 0 = {}"
| "span p (Suc n) = insert p (span (p + 1) n)"

definition room :: "'z machine_scheme \<Rightarrow> addr \<Rightarrow> nat \<Rightarrow> bool" where
  "room s p n \<longleftrightarrow> (\<forall>a \<in> span p n. kaddr s a)"

definition cstr :: "'z machine_scheme \<Rightarrow> addr \<Rightarrow> u8 list \<Rightarrow> bool" where
  "cstr s p cs \<longleftrightarrow> blk s p (cs @ [0]) \<and> 0 \<notin> set cs"

lemma span_iff: "a \<in> span p n \<longleftrightarrow> (\<exists>i < n. a = p + of_nat i)"
proof (induction n arbitrary: p)
  case (Suc n)
  have "(\<exists>i < Suc n. a = p + of_nat i) \<longleftrightarrow> a = p \<or> (\<exists>i < n. a = p + 1 + of_nat i)"
    by (auto simp: less_Suc_eq_0_disj add.assoc)
  then show ?case by (simp add: Suc.IH)
qed simp

lemma span_mono: "m \<le> n \<Longrightarrow> span p m \<subseteq> span p n"
proof
  fix a assume "m \<le> n" "a \<in> span p m"
  then obtain i where "a = p + of_nat i" "i < n" unfolding span_iff by (blast intro: less_le_trans)
  then show "a \<in> span p n" unfolding span_iff by blast
qed

lemma span_shift: "i + m \<le> n \<Longrightarrow> span (p + of_nat i) m \<subseteq> span p n"
proof
  fix a assume "i + m \<le> n" "a \<in> span (p + of_nat i) m"
  then obtain j where "j < m" "a = p + of_nat i + of_nat j" unfolding span_iff by blast
  with \<open>i + m \<le> n\<close> have "i + j < n" "a = p + of_nat (i + j)" by (simp_all add: add.assoc)
  then show "a \<in> span p n" unfolding span_iff by blast
qed

lemma room_Suc [simp]: "room s p (Suc n) \<longleftrightarrow> kaddr s p \<and> room s (p + 1) n"
  by (simp add: room_def)

lemma room_0 [simp]: "room s p 0"
  by (simp add: room_def)

lemma blk_room: "blk s p bs \<Longrightarrow> room s p (length bs)"
  by (induction bs arbitrary: p) auto

lemma cstr_room: "cstr s p cs \<Longrightarrow> room s p (Suc (length cs))"
  using blk_room [of s p "cs @ [0]"] by (simp only: cstr_def) simp

lemma blk_append: "blk s p (as @ bs) \<longleftrightarrow> blk s p as \<and> blk s (p + of_nat (length as)) bs"
  by (induction as arbitrary: p) (auto simp: algebra_simps)

lemma cstr_Nil [simp]: "cstr s p [] \<longleftrightarrow> kaddr s p \<and> peek8 s p = 0"
  by (simp add: cstr_def)

lemma cstr_Cons [simp]: "cstr s p (c # cs) \<longleftrightarrow> kaddr s p \<and> peek8 s p = c \<and> c \<noteq> 0 \<and> cstr s (p + 1) cs"
  by (auto simp: cstr_def)

lemma cstr_append: "cstr s p (as @ bs) \<longleftrightarrow> blk s p as \<and> 0 \<notin> set as \<and> cstr s (p + of_nat (length as)) bs"
  by (auto simp: cstr_def blk_append)

lemma kaddr_not_low: "kaddr s a \<Longrightarrow> 0xc0000000 \<le> a"
proof -
  assume "kaddr s a"
  then have "unat (drop_bit 12 a) \<ge> 786432" by (auto simp: kaddr_def kpage_def word_le_nat_alt)
  then have "unat a \<ge> 786432 * 4096" by (simp add: unat_drop)
  then show ?thesis by (simp add: word_le_nat_alt)
qed

lemma kaddr_not_0 [simp]: "\<not> kaddr s 0"
  using kaddr_not_low [of s 0] by auto

text \<open>Kernel data lies in the upper gigabyte, so a block is never longer than that.\<close>

lemma room_less:
  assumes "room s p n"
  shows "n \<le> 2 ^ 30"
proof (rule ccontr)
  assume "\<not> n \<le> 2 ^ 30"
  then have n: "n > 1073741824" by simp
  with assms have "kaddr s p" by (cases n) simp_all
  then have p: "unat p \<ge> 3221225472" using kaddr_not_low [of s p] by (simp add: word_le_nat_alt)
  let ?i = "4294967296 - unat p"
  have i: "?i < n" using n p by linarith
  have "p + of_nat ?i = 0"
  proof -
    have "unat p + ?i = 2 ^ 32" using unat_u32_less [of p] by simp
    then have "(of_nat (unat p + ?i) :: u32) = of_nat (2 ^ 32)" by simp
    then show ?thesis by simp
  qed
  with i have "0 \<in> span p n" by (auto simp: span_iff intro!: exI [of _ ?i])
  with assms show False using kaddr_not_0 [of s] by (auto simp only: room_def)
qed

lemma span_inj:
  assumes "i < 2 ^ 30" "j < 2 ^ 30" "p + of_nat i = p + (of_nat j :: addr)"
  shows "i = j"
proof -
  have "(of_nat i :: addr) = of_nat j" using assms(3) by simp
  then have "unat (of_nat i :: addr) = unat (of_nat j :: addr)" by simp
  then show ?thesis using assms(1,2) by (simp add: unat_u32_of_nat)
qed

lemma room_not_in:
  assumes "room s p (Suc n)"
  shows "p \<notin> span (p + 1) n"
proof
  assume "p \<in> span (p + 1) n"
  then obtain i where i: "i < n" "p + of_nat 0 = p + of_nat (Suc i)" by (auto simp: span_iff algebra_simps)
  have "n < 2 ^ 30" using room_less [OF assms] by simp
  with i show False using span_inj [of 0 "Suc i" p] by simp
qed

lemma upd_within_room: "upd_within B s t \<Longrightarrow> room t p n = room s p n"
  by (simp add: room_def upd_within_kaddr)

lemma upd_within_blk:
  assumes "upd_within B s t" "span p (length bs) \<inter> B = {}"
  shows "blk s p bs \<Longrightarrow> blk t p bs"
  using assms(2) by (induction bs arbitrary: p) (auto simp: upd_within_peek8 [OF assms(1)] upd_within_kaddr [OF assms(1)])

lemma upd_within_cstr:
  assumes "upd_within B s t" "span p (Suc (length cs)) \<inter> B = {}"
  shows "cstr s p cs \<Longrightarrow> cstr t p cs"
  using upd_within_blk [OF assms(1), of p "cs @ [0]"] assms(2) by (simp add: cstr_def)

lemma blk_poke8:
  assumes "room s p (Suc n)" "length bs = n"
  shows "blk s (p + 1) bs \<Longrightarrow> blk (poke8 p v s) (p + 1) bs"
  using room_not_in [OF assms(1)] assms upd_within_blk [OF upd_within_poke8 [of s p "{p}" v]] by auto

subsection \<open>What the block functions do\<close>

lemma memcpy_loop_spec:
  "blk s src bs \<Longrightarrow> room s dest (length bs) \<Longrightarrow> span dest (length bs) \<inter> span src (length bs) = {} \<Longrightarrow>
    \<exists>t. memcpy_loop (length bs) dest src s = Inr ((), t) \<and> blk t dest bs \<and>
      upd_within (span dest (length bs)) s t"
proof (induction bs arbitrary: s dest src)
  case Nil
  then show ?case by (auto simp: ret_def)
next
  case (Cons b bs)
  let ?s = "poke8 dest b s"
  have k: "kaddr s src" "peek8 s src = b" "kaddr s dest" using Cons.prems by simp_all
  have u: "upd_within {dest} s ?s" by (simp add: k upd_within_poke8)
  have "blk ?s (src + 1) bs" using Cons.prems by (intro upd_within_blk [OF u]) auto
  moreover have "room ?s (dest + 1) (length bs)" using Cons.prems by (simp add: upd_within_room [OF u])
  moreover have "span (dest + 1) (length bs) \<inter> span (src + 1) (length bs) = {}" using Cons.prems by auto
  ultimately obtain t where t: "memcpy_loop (length bs) (dest + 1) (src + 1) ?s = Inr ((), t)"
    "blk t (dest + 1) bs" "upd_within (span (dest + 1) (length bs)) ?s t"
    using Cons.IH by blast
  have "peek8 t dest = b"
    using room_not_in [of s dest "length bs"] Cons.prems(2) upd_within_peek8 [OF t(3), of dest] k
    by (simp add: upd_within_kaddr [OF u] peek8_poke8)
  moreover have "kaddr t dest" using k by (simp add: upd_within_kaddr [OF u] upd_within_kaddr [OF t(3)])
  moreover have "upd_within (span dest (length (b # bs))) s t"
    using upd_within_trans2 [OF u t(3)] by simp
  ultimately show ?case using t k by (simp add: cbind_def cseq_def load8_kaddr store8_kaddr)
qed

lemma memset_loop_spec:
  "room s dst n \<Longrightarrow> \<exists>t. memset_loop n dst val s = Inr ((), t) \<and> blk t dst (replicate n val) \<and>
    upd_within (span dst n) s t"
proof (induction n arbitrary: s dst)
  case 0
  then show ?case by (auto simp: ret_def)
next
  case (Suc n)
  let ?s = "poke8 dst val s"
  have k: "kaddr s dst" using Suc.prems by simp
  have u: "upd_within {dst} s ?s" by (simp add: k upd_within_poke8)
  from Suc.IH [of ?s "dst + 1"] Suc.prems obtain t where t: "memset_loop n (dst + 1) val ?s = Inr ((), t)"
    "blk t (dst + 1) (replicate n val)" "upd_within (span (dst + 1) n) ?s t"
    by (auto simp: upd_within_room [OF u])
  have "peek8 t dst = val"
    using room_not_in [OF Suc.prems] upd_within_peek8 [OF t(3), of dst] k
    by (simp add: upd_within_kaddr [OF u] peek8_poke8)
  moreover have "kaddr t dst" using k by (simp add: upd_within_kaddr [OF u] upd_within_kaddr [OF t(3)])
  moreover have "upd_within (span dst (Suc n)) s t" using upd_within_trans2 [OF u t(3)] by simp
  ultimately show ?case using t k by (simp add: cseq_def cbind_def store8_kaddr)
qed

text \<open>\<open>memcmp\<close> returns the difference of the first bytes that differ, 0 if none do.\<close>

primrec byte_diff :: "(u8 \<times> u8) list \<Rightarrow> int" where
  "byte_diff [] = 0"
| "byte_diff (p # ps) = (if fst p \<noteq> snd p then int (unat (fst p)) - int (unat (snd p)) else byte_diff ps)"

lemma memcmp_loop_spec:
  "blk s a xs \<Longrightarrow> blk s b ys \<Longrightarrow> length xs = length ys \<Longrightarrow>
    memcmp_loop (length xs) a b s = Inr (byte_diff (zip xs ys), s)"
proof (induction xs arbitrary: a b ys)
  case (Cons x xs)
  then obtain y zs where ys: "ys = y # zs" by (cases ys) auto
  with Cons show ?case by (auto simp: ret_def cbind_def load8_kaddr)
qed (simp add: ret_def)

lemma byte_diff_0: "length xs = length ys \<Longrightarrow> byte_diff (zip xs ys) = 0 \<longleftrightarrow> xs = ys"
  by (induction xs ys rule: list_induct2) (auto simp: word_uint_eq_iff)

lemma memcpy_spec:
  assumes "blk s src bs" "room s dest (length bs)" "span dest (length bs) \<inter> span src (length bs) = {}"
    "dest \<noteq> 0" "src \<noteq> 0"
  shows "\<exists>t. memcpy dest src (of_nat (length bs)) s = Inr ((), t) \<and> blk t dest bs \<and>
      upd_within (span dest (length bs)) s t"
  using memcpy_loop_spec [OF assms(1-3)] room_less [OF assms(2)] assms(4,5)
  by (simp add: memcpy_def string_assert_def comp_simps unat_u32_of_nat)

lemma memset_spec:
  assumes "room s dest n" "dest \<noteq> 0"
  shows "\<exists>t. memset dest val (of_nat n) s = Inr ((), t) \<and> blk t dest (replicate n val) \<and>
      upd_within (span dest n) s t"
  using memset_loop_spec [OF assms(1)] room_less [OF assms(1)] assms(2)
  by (simp add: memset_def string_assert_def comp_simps unat_u32_of_nat)

lemma memcmp_spec:
  assumes "blk s a xs" "blk s b ys" "length xs = length ys" "a \<noteq> 0" "b \<noteq> 0"
  shows "memcmp a b (of_nat (length xs)) s = Inr (byte_diff (zip xs ys), s)"
  using memcmp_loop_spec [OF assms(1-3)] room_less [OF blk_room [OF assms(1)]] assms(4,5)
  by (simp add: memcmp_def string_assert_def comp_simps unat_u32_of_nat)

subsection \<open>What the string functions do\<close>

lemma strlen_loop_spec:
  "cstr s (src + of_nat i) cs \<Longrightarrow> i + length cs < 2 ^ 31 \<Longrightarrow>
    strlen_loop src i s = Some (Inr (i + length cs, s))"
proof (induction cs arbitrary: i)
  case Nil
  then show ?case by (simp add: strlen_loop.simps load8_kaddr)
next
  case (Cons c cs)
  have "cstr s (src + of_nat (Suc i)) cs" using Cons.prems(1) by (simp add: algebra_simps)
  from Cons.IH [OF this] Cons.prems show ?case
    by (simp add: strlen_loop.simps [of src i] load8_kaddr)
qed

lemma cstr_not_0: "cstr s p cs \<Longrightarrow> p \<noteq> 0"
  by (cases cs) auto

lemma cstr_length: "cstr s p cs \<Longrightarrow> length cs < 2 ^ 30"
  using room_less [OF cstr_room] by fastforce

lemma strlen_spec:
  assumes "cstr s src cs"
  shows "strlen src s = Inr (length cs, s)"
  using strlen_loop_spec [of s src 0 cs] assms cstr_length [OF assms] cstr_not_0 [OF assms]
  by (simp add: strlen_def string_assert_def comp_simps)

lemma strcpy_loop_spec:
  "cstr s src cs \<Longrightarrow> room s dest (Suc (length cs)) \<Longrightarrow>
    span dest (Suc (length cs)) \<inter> span src (Suc (length cs)) = {} \<Longrightarrow>
    \<exists>t. strcpy_loop dest src s = Some (Inr ((), t)) \<and> cstr t dest cs \<and>
      upd_within (span dest (Suc (length cs))) s t"
proof (induction cs arbitrary: s dest src)
  case Nil
  then have "kaddr s dest" by simp
  then show ?case using Nil upd_within_poke8 [of s dest "{dest}" 0]
    by (auto simp: strcpy_loop.simps load8_kaddr store8_kaddr kaddr_poke8 peek8_poke8)
next
  case (Cons c cs)
  let ?s = "poke8 dest c s"
  have k: "kaddr s src" "peek8 s src = c" "kaddr s dest" "c \<noteq> 0" using Cons.prems by simp_all
  have u: "upd_within {dest} s ?s" by (simp add: k upd_within_poke8)
  have "cstr ?s (src + 1) cs" using Cons.prems by (intro upd_within_cstr [OF u]) auto
  moreover have "room ?s (dest + 1) (Suc (length cs))" using Cons.prems by (simp only: upd_within_room [OF u]) simp
  moreover have "span (dest + 1) (Suc (length cs)) \<inter> span (src + 1) (Suc (length cs)) = {}" using Cons.prems by auto
  ultimately obtain t where t: "strcpy_loop (dest + 1) (src + 1) ?s = Some (Inr ((), t))"
    "cstr t (dest + 1) cs" "upd_within (span (dest + 1) (Suc (length cs))) ?s t"
    using Cons.IH by blast
  have r: "room s dest (Suc (Suc (length cs)))" using Cons.prems(2) by simp
  have "peek8 t dest = c"
    using room_not_in [OF r] upd_within_peek8 [OF t(3), of dest] k
    by (simp only: upd_within_kaddr [OF u] peek8_poke8) simp
  moreover have "kaddr t dest" using k by (simp add: upd_within_kaddr [OF u] upd_within_kaddr [OF t(3)])
  moreover have "upd_within (span dest (Suc (length (c # cs)))) s t"
    using upd_within_trans2 [OF u t(3)] by (simp add: insert_commute)
  ultimately show ?case using t k by (simp add: strcpy_loop.simps [of dest src] load8_kaddr store8_kaddr)
qed

lemma strcpy_spec:
  assumes "cstr s src cs" "room s dest (Suc (length cs))"
    "span dest (Suc (length cs)) \<inter> span src (Suc (length cs)) = {}"
  shows "\<exists>t. strcpy dest src s = Inr (dest, t) \<and> cstr t dest cs \<and>
      upd_within (span dest (Suc (length cs))) s t"
proof -
  have "dest \<noteq> 0" using assms(2) by auto
  then show ?thesis
    using strcpy_loop_spec [OF assms] cstr_not_0 [OF assms(1)]
    by (auto simp: strcpy_def string_assert_def comp_simps)
qed

lemma str_end_spec: "cstr s p cs \<Longrightarrow> str_end p s = Some (Inr (p + of_nat (length cs), s))"
  by (induction cs arbitrary: p) (simp_all add: str_end.simps load8_kaddr algebra_simps)

lemma strcat_spec:
  assumes d: "cstr s dest as" and s: "cstr s src cs"
    and room: "room s dest (Suc (length as + length cs))"
    and apart: "span dest (Suc (length as + length cs)) \<inter> span src (Suc (length cs)) = {}"
  shows "\<exists>t. strcat dest src s = Inr (dest, t) \<and> cstr t dest (as @ cs) \<and>
      upd_within (span dest (Suc (length as + length cs))) s t"
proof -
  let ?p = "dest + of_nat (length as)"
  have sub: "span ?p (Suc (length cs)) \<subseteq> span dest (Suc (length as + length cs))"
    by (rule span_shift) simp
  have "room s ?p (Suc (length cs))" using room sub unfolding room_def by blast
  moreover have "span ?p (Suc (length cs)) \<inter> span src (Suc (length cs)) = {}" using apart sub by blast
  ultimately obtain t where t: "strcpy ?p src s = Inr (?p, t)" "cstr t ?p cs"
    "upd_within (span ?p (Suc (length cs))) s t" using strcpy_spec [OF s] by blast
  have lt: "length as + length cs < 2 ^ 30" using room_less [OF room] by linarith
  have "span dest (length as) \<inter> span ?p (Suc (length cs)) = {}"
  proof -
    have False if "i < length as" "j < Suc (length cs)" "dest + of_nat i = ?p + of_nat j" for i j
      using span_inj [of i "length as + j" dest] that lt by (simp add: algebra_simps)
    then show ?thesis by (auto simp only: span_iff disjoint_iff)
  qed
  moreover have "blk s dest as" "0 \<notin> set as" using d by (simp_all add: cstr_def blk_append)
  ultimately have "cstr t dest (as @ cs)"
    using upd_within_blk [OF t(3)] t(2) by (simp add: cstr_append)
  then show ?thesis using t(1) upd_within_mono [OF t(3) sub] str_end_spec [OF d] cstr_not_0 [OF d] cstr_not_0 [OF s]
    by (auto simp: strcat_def string_assert_def comp_simps)
qed

text \<open>
  \<open>char\<close> is signed, so \<open>strcmp\<close> orders characters from 128 on before all others, even
  the NUL; a \<open>uint8_t\<close> compared with a \<open>char\<close> is never equal to one of them.
\<close>

lemma unat_u8_less: "unat (c :: u8) < 256"
  using unsigned_less [of c] by simp

lemma char_int_eq: "char_int c = (if unat c < 128 then int (unat c) else int (unat c) - 256)"
proof -
  let ?k = "int (unat c)"
  have c: "char_int c = (?k + 128) mod 256 - 128"
    unfolding char_int_def sint_uint
    by (simp add: signed_take_bit_eq_take_bit_shift take_bit_eq_mod)
  have "(?k + 128) mod 256 = ?k + 128 - 256" if "\<not> unat c < 128"
    using that unat_u8_less [of c] by (simp add: mod_pos_geq del: of_nat_unat)
  with c unat_u8_less [of c] show ?thesis by (simp del: of_nat_unat)
qed

lemma char_int_inj: "char_int x = char_int y \<longleftrightarrow> x = y"
  unfolding char_int_def by (auto intro: signed_word_eqI)

lemma char_match: "char_int c = int (unat ch) \<longleftrightarrow> c = ch \<and> ch < 0x80"
  using unat_u8_less [of c] unat_u8_less [of ch]
  by (auto simp: char_int_eq word_unat_eq_iff word_less_nat_alt simp del: of_nat_unat split: if_splits)

lemma char_match_uint: "char_int c = uint ch \<longleftrightarrow> c = ch \<and> ch < 0x80"
  using char_match [of c ch] by simp

fun str_order :: "u8 list \<Rightarrow> u8 list \<Rightarrow> int" where
  "str_order [] [] = 0"
| "str_order [] (y # ys) = (if char_int y > 0 then - 1 else 1)"
| "str_order (x # xs) [] = (if char_int x > 0 then 1 else - 1)"
| "str_order (x # xs) (y # ys) =
     (if x = y then str_order xs ys else if char_int x > char_int y then 1 else - 1)"

lemma char_int_0 [simp]: "char_int 0 = 0"
  by (simp add: char_int_def)

lemma char_int_zero_iff: "char_int x = 0 \<longleftrightarrow> x = 0"
  using char_int_inj [of x 0] by simp

lemma strcmp_loop_spec:
  "cstr s p xs \<Longrightarrow> cstr s q ys \<Longrightarrow> strcmp_loop p q s = Some (Inr (str_order xs ys, s))"
proof (induction xs ys arbitrary: p q rule: str_order.induct)
  case (4 x xs y ys)
  have "x \<noteq> y \<Longrightarrow> char_int x \<noteq> char_int y" by (simp add: char_int_inj)
  with 4 show ?case by (auto simp: strcmp_loop.simps [of p q] load8_kaddr)
qed (auto simp: strcmp_loop.simps load8_kaddr dest: iffD1 [OF char_int_zero_iff])

lemma strcmp_spec:
  assumes "cstr s p xs" "cstr s q ys"
  shows "strcmp p q s = Inr (str_order xs ys, s)"
  using strcmp_loop_spec [OF assms] cstr_not_0 [OF assms(1)] cstr_not_0 [OF assms(2)]
  by (simp add: strcmp_def string_assert_def comp_simps)

lemma str_order_0: "str_order xs ys = 0 \<longleftrightarrow> xs = ys"
  by (induction xs ys rule: str_order.induct) auto

lemma str_order_minus: "0 \<notin> set xs \<Longrightarrow> 0 \<notin> set ys \<Longrightarrow> str_order ys xs = - str_order xs ys"
proof (induction xs ys rule: str_order.induct)
  case (4 x xs y ys)
  then show ?case using char_int_inj [of x y] by auto
qed auto

lemma str_order_ascii:
  assumes "\<forall>c \<in> set xs \<union> set ys. 0 < c \<and> c < 0x80"
  shows "str_order xs ys = - 1 \<longleftrightarrow> ord_class.lexordp xs ys"
  using assms
proof (induction xs ys rule: str_order.induct)
  case (4 x xs y ys)
  then have "char_int x > char_int y \<longleftrightarrow> y < x" by (auto simp: char_int_eq word_less_nat_alt simp del: of_nat_unat)
  with 4 show ?case by auto
qed (auto simp: char_int_eq word_less_nat_alt simp del: of_nat_unat)

lemma strchr_loop_spec:
  "cstr s p cs \<Longrightarrow> strchr_loop p ch s =
    Some (Inr (if ch \<in> set cs \<and> ch < 0x80 then p + of_nat (length (takeWhile (\<lambda>c. c \<noteq> ch) cs)) else 0, s))"
proof (induction cs arbitrary: p)
  case (Cons c cs)
  then show ?case by (auto simp: strchr_loop.simps [of p] load8_kaddr char_match_uint algebra_simps)
qed (simp add: strchr_loop.simps load8_kaddr)

definition last_index :: "'a \<Rightarrow> 'a list \<Rightarrow> nat" where
  "last_index c cs = length cs - 1 - length (takeWhile (\<lambda>d. d \<noteq> c) (rev cs))"

lemma last_index_Cons: "last_index c (d # cs) = (if c \<in> set cs then Suc (last_index c cs) else 0)"
proof (cases "c \<in> set cs")
  case True
  then have t: "takeWhile (\<lambda>d. d \<noteq> c) (rev cs @ [d]) = takeWhile (\<lambda>d. d \<noteq> c) (rev cs)"
    by (intro takeWhile_append1 [where x = c]) auto
  have "length (takeWhile (\<lambda>d. d \<noteq> c) (rev cs)) \<noteq> length (rev cs)"
  proof
    assume "length (takeWhile (\<lambda>d. d \<noteq> c) (rev cs)) = length (rev cs)"
    then have "takeWhile (\<lambda>d. d \<noteq> c) (rev cs) = rev cs" by (metis takeWhile_eq_take take_all_iff order_refl)
    then have "\<forall>d \<in> set (rev cs). d \<noteq> c" by (simp only: takeWhile_eq_all_conv)
    with True show False by auto
  qed
  then have "length (takeWhile (\<lambda>d. d \<noteq> c) (rev cs)) < length cs"
    using length_takeWhile_le [of "\<lambda>d. d \<noteq> c" "rev cs"] by simp
  with True show ?thesis by (simp add: last_index_def t)
next
  case False
  then have "takeWhile (\<lambda>d. d \<noteq> c) (rev cs @ [d]) = rev cs @ takeWhile (\<lambda>d. d \<noteq> c) [d]"
    by (intro takeWhile_append2) auto
  with False show ?thesis by (simp add: last_index_def)
qed

lemma strrchr_loop_spec:
  "cstr s p cs \<Longrightarrow> strrchr_loop p ch l s =
    Some (Inr (if ch \<in> set cs \<and> ch < 0x80 then p + of_nat (last_index ch cs) else l, s))"
proof (induction cs arbitrary: p l)
  case (Cons c cs)
  from Cons.prems have "strrchr_loop p ch l s = strrchr_loop (p + 1) ch (if c = ch \<and> ch < 0x80 then p else l) s"
    by (subst strrchr_loop.simps) (simp add: load8_kaddr char_match_uint)
  also have "\<dots> = Some (Inr (if ch \<in> set cs \<and> ch < 0x80 then p + 1 + of_nat (last_index ch cs)
      else if c = ch \<and> ch < 0x80 then p else l, s))"
    using Cons.prems by (intro Cons.IH) simp
  finally show ?case by (auto simp: last_index_Cons add.assoc)
qed (simp add: strrchr_loop.simps load8_kaddr)

lemma strchrs_loop_spec:
  "cstr s p cs \<Longrightarrow> strchrs_loop p ch n s =
    Some (Inr (if ch < 0x80 then n + of_nat (count_list cs ch) else n, s))"
proof (induction cs arbitrary: p n)
  case (Cons c cs)
  then show ?case by (auto simp: strchrs_loop.simps [of p] load8_kaddr char_match_uint algebra_simps)
qed (simp add: strchrs_loop.simps load8_kaddr)

subsection \<open>Numbers as strings\<close>

text \<open>
  \<open>digits b n\<close>: the characters of the digits of \<open>n\<close> to base \<open>b\<close>, the last first;
  \<open>digits_value\<close> reads them back.
\<close>

fun digits :: "nat \<Rightarrow> nat \<Rightarrow> u8 list" where
  "digits b n = (if n < b \<or> b < 2 then [bit_digits ! n] else bit_digits ! (n mod b) # digits b (n div b))"

declare digits.simps [simp del]

definition digit_value :: "u8 \<Rightarrow> nat" where
  "digit_value c = (if c < 58 then unat c - 48 else unat c - 55)"

primrec digits_value :: "nat \<Rightarrow> u8 list \<Rightarrow> nat" where
  "digits_value b [] = 0"
| "digits_value b (c # cs) = digit_value c + b * digits_value b cs"

lemma digit_table: "\<forall>n \<in> set [0..<16]. digit_value (bit_digits ! n) = n \<and> bit_digits ! n \<noteq> 0"
  by code_simp

lemma digit_value_digit: "n < 16 \<Longrightarrow> digit_value (bit_digits ! n) = n"
  and digit_not_0: "n < 16 \<Longrightarrow> bit_digits ! n \<noteq> 0"
  using digit_table by simp_all

lemma digits_value_digits: "2 \<le> b \<Longrightarrow> b \<le> 16 \<Longrightarrow> digits_value b (digits b n) = n"
proof (induction b n rule: digits.induct)
  case (1 b n)
  show ?case
  proof (cases "n < b")
    case True
    with 1 show ?thesis by (simp add: digits.simps [of b n] digit_value_digit)
  next
    case False
    have "n mod b < b" using 1(2) by simp
    then have "n mod b < 16" using 1(3) by simp
    with 1 False show ?thesis by (simp add: digits.simps [of b n] digit_value_digit)
  qed
qed

lemma digits_not_0: "2 \<le> b \<Longrightarrow> b \<le> 16 \<Longrightarrow> 0 \<notin> set (digits b n)"
proof (induction b n rule: digits.induct)
  case (1 b n)
  have "n mod b < b" using 1(2) by simp
  then have "n mod b < 16" using 1(3) by simp
  with 1 show ?case using digit_not_0 [of n] digit_not_0 [of "n mod b"]
    by (auto simp: digits.simps [of b n])
qed

lemma digits_length: "2 \<le> b \<Longrightarrow> n < b ^ Suc k \<Longrightarrow> length (digits b n) \<le> Suc k"
proof (induction k arbitrary: n)
  case (Suc k)
  then have "n div b < b ^ Suc k" by (simp add: less_mult_imp_div_less mult.commute)
  with Suc show ?case by (simp add: digits.simps [of b n])
qed (simp add: digits.simps)

lemma digits_Nil [simp]: "digits b n \<noteq> []"
  by (simp add: digits.simps)

subsection \<open>Reversing in place\<close>

lemma strrevers_loop_spec:
  "blk s (p + of_nat h) ms \<Longrightarrow>
    \<exists>t. strrevers_loop p (int h) (int h + int (length ms) - 1) s = Inr ((), t) \<and>
      blk t (p + of_nat h) (rev ms) \<and> upd_within (span (p + of_nat h) (length ms)) s t"
proof (induction "length ms" arbitrary: ms h s rule: less_induct)
  case less
  show ?case
  proof (cases "length ms < 2")
    case True
    then have "rev ms = ms" by (cases ms) auto
    with less.prems True show ?thesis by (auto simp: strrevers_loop.simps ret_def)
  next
    case False
    then obtain x zs where "ms = x # zs" "zs \<noteq> []" by (cases ms) auto
    then obtain y ns where ms: "ms = x # ns @ [y]" by (cases zs rule: rev_cases) auto
    let ?p = "p + of_nat h" and ?n = "length ns"
    let ?q = "?p + of_nat (Suc ?n)"
    have k: "kaddr s ?p" "peek8 s ?p = x" "kaddr s ?q" "peek8 s ?q = y" and ns: "blk s (?p + 1) ns"
      using less.prems by (simp_all add: ms blk_append algebra_simps)
    have len: "Suc (Suc ?n) \<le> 2 ^ 30" using room_less [OF blk_room [OF less.prems]] by (simp add: ms)
    have off: "?p + of_nat i = ?p + of_nat j \<longleftrightarrow> i = j" if "i \<le> Suc ?n" "j \<le> Suc ?n" for i j
      using span_inj [of i j ?p] that len by auto
    have pq: "?p \<noteq> ?q" using off [of 0 "Suc ?n"] by simp
    have out: "?p \<notin> span (?p + 1) ?n" "?q \<notin> span (?p + 1) ?n"
    proof -
      have "?p + of_nat j \<notin> span (?p + 1) ?n" if "j = 0 \<or> j = Suc ?n" for j
      proof
        assume "?p + of_nat j \<in> span (?p + 1) ?n"
        then obtain i where "i < ?n" "?p + of_nat j = ?p + of_nat (Suc i)" by (auto simp: span_iff algebra_simps)
        with off [of j "Suc i"] that show False by auto
      qed
      from this [of 0] this [of "Suc ?n"] show "?p \<notin> span (?p + 1) ?n" "?q \<notin> span (?p + 1) ?n" by simp_all
    qed
    let ?s = "poke8 ?p y (poke8 ?q x s)"
    have u: "upd_within {?p, ?q} s ?s"
      using k by (intro upd_within_trans [OF upd_within_poke8 upd_within_poke8]) (simp_all add: kaddr_poke8)
    have "blk ?s (?p + 1) ns" by (rule upd_within_blk [OF u _ ns]) (use out in auto)
    then have "blk ?s (p + of_nat (Suc h)) ns" by (simp add: algebra_simps)
    from less.hyps [OF _ this] ms obtain t where
      t: "strrevers_loop p (int (Suc h)) (int (Suc h) + int ?n - 1) ?s = Inr ((), t)"
        "blk t (?p + 1) (rev ns)" "upd_within (span (?p + 1) ?n) ?s t"
      by (auto simp: algebra_simps)
    have pt: "peek8 t ?p = y" "peek8 t ?q = x"
      using k pq out by (simp_all add: upd_within_peek8 [OF t(3)] upd_within_kaddr [OF u] peek8_poke8 kaddr_poke8)
    have kt: "kaddr t a = kaddr s a" for a
      using upd_within_kaddr [OF u] upd_within_kaddr [OF t(3)] by metis
    have "blk t ?p (rev ms)" using k t(2) pt kt by (simp add: ms blk_append algebra_simps)
    moreover have "upd_within (span ?p (length ms)) s t"
    proof (rule upd_within_mono [OF upd_within_trans2 [OF u t(3)]])
      have "?p \<in> span ?p (length ms)" by (simp add: ms)
      moreover have "?q \<in> span ?p (length ms)" unfolding span_iff by (intro exI [of _ "Suc ?n"]) (simp add: ms)
      moreover have "span (?p + 1) ?n \<subseteq> span ?p (length ms)"
        using span_shift [of 1 ?n "length ms" ?p] by (simp add: ms)
      ultimately show "{?p, ?q} \<union> span (?p + 1) ?n \<subseteq> span ?p (length ms)" by blast
    qed
    moreover have "strrevers_loop p (int h) (int h + int (length ms) - 1) s =
      strrevers_loop p (int (Suc h)) (int (Suc h) + int ?n - 1) ?s"
      by (subst strrevers_loop.simps)
        (use k in \<open>simp add: ms comp_simps load8_kaddr store8_kaddr kaddr_poke8 algebra_simps\<close>)
    ultimately show ?thesis using t(1) by auto
  qed
qed

lemma strrevers_spec:
  assumes "cstr s p cs"
  shows "\<exists>t. strrevers p s = Inr (p, t) \<and> cstr t p (rev cs) \<and> upd_within (span p (length cs)) s t"
proof -
  have b: "blk s p cs" "kaddr s (p + of_nat (length cs))" "peek8 s (p + of_nat (length cs)) = 0" "0 \<notin> set cs"
    using assms by (simp_all add: cstr_def blk_append)
  from strrevers_loop_spec [of s p 0 cs] b(1) obtain t where
    t: "strrevers_loop p 0 (int (length cs) - 1) s = Inr ((), t)" "blk t p (rev cs)"
      "upd_within (span p (length cs)) s t" by auto
  have "p + of_nat (length cs) \<notin> span p (length cs)"
  proof
    assume "p + of_nat (length cs) \<in> span p (length cs)"
    then obtain i where "i < length cs" "p + of_nat (length cs) = p + of_nat i" unfolding span_iff by blast
    with span_inj [of "length cs" i p] cstr_length [OF assms] show False by linarith
  qed
  then have "peek8 t (p + of_nat (length cs)) = 0" using b upd_within_peek8 [OF t(3)] by metis
  then have "cstr t p (rev cs)"
    using b(2,4) t(2) upd_within_kaddr [OF t(3)] by (simp add: cstr_def blk_append)
  then show ?thesis using t by (simp add: strrevers_def comp_simps strlen_spec [OF assms])
qed

subsection \<open>Decimal and hexadecimal conversion\<close>

lemma room_mono: "room s p n \<Longrightarrow> m \<le> n \<Longrightarrow> room s p m"
  using span_mono [of m n p] unfolding room_def by blast

lemma span_at: "i < n \<Longrightarrow> p + of_nat i \<in> span p n"
  by (auto simp only: span_iff)

lemma room_at: "room s p n \<Longrightarrow> i < n \<Longrightarrow> kaddr s (p + of_nat i)"
  unfolding room_def using span_at by blast

lemma room_shift: "room s p n \<Longrightarrow> i + m \<le> n \<Longrightarrow> room s (p + of_nat i) m"
  unfolding room_def using span_shift by blast

lemma span_apart:
  assumes "n \<le> i" "i + m \<le> 2 ^ 30"
  shows "span p n \<inter> span (p + of_nat i) m = {}"
proof -
  have False if "a < n" "b < m" "p + of_nat a = p + of_nat i + of_nat b" for a b
    using span_inj [of a "i + b" p] that assms by (simp add: add.assoc)
  then show ?thesis by (auto simp only: span_iff disjoint_iff)
qed

lemma span_sep:
  assumes "unat p + n \<le> unat q" "unat q + m \<le> 2 ^ 32"
  shows "span p n \<inter> span q m = {}"
proof -
  have off: "unat (r + of_nat i) = unat r + i" if "unat r + i < 2 ^ 32" for r :: u32 and i
    using that by (simp add: unat_word_ariths unat_of_nat)
  have False if i: "i < n" and j: "j < m" and e: "p + of_nat i = q + of_nat j" for i j
  proof -
    have "unat (p + of_nat i) = unat p + i" "unat (q + of_nat j) = unat q + j"
      using assms i j by (simp_all add: off)
    with e assms(1) i show False by simp
  qed
  then show ?thesis by (auto simp only: span_iff disjoint_iff)
qed

lemma array_get_digit: "n < 10 \<Longrightarrow> array_get i2stable (int n) s = Inr (bit_digits ! n, s)"
proof -
  assume n: "n < 10"
  have "\<forall>n \<in> set [0..<10]. i2stable ! n = bit_digits ! n" by code_simp
  with n show ?thesis by (simp add: array_get_def comp_simps i2stable_def)
qed

lemma uint_loop_spec:
  "room s p (length (digits 10 (unat num))) \<Longrightarrow> \<exists>lead t ds.
    uint_loop num p s = Inr ((lead, p + of_nat (length ds)), t) \<and> unat lead < 10 \<and>
    digits 10 (unat num) = ds @ [bit_digits ! unat lead] \<and> blk t p ds \<and> upd_within (span p (length ds)) s t"
proof (induction num p arbitrary: s rule: uint_loop.induct)
  case (1 num p)
  show ?case
  proof (cases "num < 10")
    case True
    then have "unat num < 10" by (simp add: word_less_nat_alt)
    with True show ?thesis by (auto simp: uint_loop.simps [of num] ret_def digits.simps)
  next
    case False
    let ?n = "num div 10" and ?c = "bit_digits ! (unat num mod 10)"
    let ?s = "poke8 p ?c s"
    have n: "unat ?n = unat num div 10" by (simp add: unat_div)
    have d: "digits 10 (unat num) = ?c # digits 10 (unat ?n)"
      using False by (simp add: digits.simps [of 10 "unat num"] n word_less_nat_alt)
    have idx: "uint (num - ?n * 10) = int (unat num mod 10)"
    proof -
      have "num - ?n * 10 = num mod 10" by (simp add: minus_div_mult_eq_mod)
      then show ?thesis by (simp add: uint_mod zmod_int)
    qed
    have k: "kaddr s p" and r: "room s p (Suc (length (digits 10 (unat ?n))))" using 1(2) by (simp_all add: d)
    have u: "upd_within {p} s ?s" by (simp add: k upd_within_poke8)
    have "room ?s (p + 1) (length (digits 10 (unat ?n)))" using r by (simp add: upd_within_room [OF u])
    from 1(1) [OF False refl refl this] obtain lead t ds where
      t: "uint_loop ?n (p + 1) ?s = Inr ((lead, p + 1 + of_nat (length ds)), t)" "unat lead < 10"
        "digits 10 (unat ?n) = ds @ [bit_digits ! unat lead]" "blk t (p + 1) ds"
        "upd_within (span (p + 1) (length ds)) ?s t" by blast
    have "room s p (Suc (length ds))" by (rule room_mono [OF r]) (simp add: t(3))
    then have "p \<notin> span (p + 1) (length ds)" by (rule room_not_in)
    then have "peek8 t p = ?c" "kaddr t p"
      using k by (simp_all add: upd_within_peek8 [OF t(5)] upd_within_kaddr [OF t(5)] kaddr_poke8 peek8_poke8)
    then have "blk t p (?c # ds)" using t(4) by simp
    moreover have "upd_within (span p (length (?c # ds))) s t" using upd_within_trans2 [OF u t(5)] by simp
    moreover have "uint_loop num p s = uint_loop ?n (p + 1) ?s"
      by (subst uint_loop.simps)
        (use False k array_get_digit [of "unat num mod 10" s] in \<open>simp add: Let_def idx comp_simps store8_kaddr\<close>)
    ultimately show ?thesis using t(1,2,3) by (intro exI [of _ lead] exI [of _ t] exI [of _ "?c # ds"]) (simp add: d add.assoc)
  qed
qed

lemma uintTostring_spec:
  assumes r: "room s (static_m so) 32"
  shows "\<exists>t. uintTostring so num s = Inr (static_m so, t) \<and>
    cstr t (static_m so) (rev (digits 10 (unat num))) \<and> upd_within (span (static_m so) 32) s t"
proof -
  let ?p = "static_m so" and ?D = "digits 10 (unat num)"
  have len: "length ?D \<le> 10" using digits_length [of 10 "unat num" 9] unat_u32_less [of num] by simp
  have sub: "span ?p n \<subseteq> span ?p 32" if "n \<le> 32" for n using that by (rule span_mono)
  have rm: "room s ?p n" if "n \<le> 32" for n using r that by (rule room_mono)
  from uint_loop_spec [OF rm [of "length ?D"]] len obtain lead t ds where
    t: "uint_loop num ?p s = Inr ((lead, ?p + of_nat (length ds)), t)" "unat lead < 10"
      "?D = ds @ [bit_digits ! unat lead]" "blk t ?p ds" "upd_within (span ?p (length ds)) s t" by auto
  let ?c = "bit_digits ! unat lead" and ?q = "?p + of_nat (length ds)"
  let ?u = "poke8 (?q + 1) 0 (poke8 ?q ?c t)"
  have q: "?q \<in> span ?p 32" "?q + 1 \<in> span ?p 32" "?q \<noteq> ?q + 1"
    and out: "?q \<notin> span ?p (length ds)" "?q + 1 \<notin> span ?p (length ds)"
  proof -
    have l: "length ds < 10" using len t(3) by simp
    have q1: "?q + 1 = ?p + of_nat (Suc (length ds))" by simp
    show "?q \<in> span ?p 32" "?q + 1 \<in> span ?p 32"
      unfolding span_iff q1 using l by (auto intro: exI [of _ "length ds"] exI [of _ "Suc (length ds)"])
    show "?q \<noteq> ?q + 1" by simp
    have "?p + of_nat j \<notin> span ?p (length ds)" if "length ds \<le> j" "j < 12" for j
    proof
      assume "?p + of_nat j \<in> span ?p (length ds)"
      then obtain i where "i < length ds" "?p + of_nat j = ?p + of_nat i" unfolding span_iff by blast
      with that span_inj [of j i ?p] l show False by simp
    qed
    from this [of "length ds"] this [of "Suc (length ds)"] l
    show "?q \<notin> span ?p (length ds)" "?q + 1 \<notin> span ?p (length ds)" by (simp_all add: q1)
  qed
  have k: "kaddr t ?q" "kaddr t (?q + 1)" using r q by (simp_all add: room_def upd_within_kaddr [OF t(5)])
  have u: "upd_within {?q, ?q + 1} t ?u"
    using k by (intro upd_within_trans [OF upd_within_poke8 upd_within_poke8]) (simp_all add: kaddr_poke8)
  have b: "blk ?u ?p ds" by (rule upd_within_blk [OF u _ t(4)]) (use out in auto)
  have v: "peek8 ?u ?q = ?c" "peek8 ?u (?q + 1) = 0" "kaddr ?u ?q" "kaddr ?u (?q + 1)"
    using k q(3) by (simp_all add: peek8_poke8 kaddr_poke8)
  have c: "cstr ?u ?p ?D"
    using b v digits_not_0 [of 10 "unat num"] by (simp add: cstr_def blk_append t(3))
  from strrevers_spec [OF c] obtain w where
    w: "strrevers ?p ?u = Inr (?p, w)" "cstr w ?p (rev ?D)" "upd_within (span ?p (length ?D)) ?u w" by blast
  have "upd_within (span ?p 32) s w"
  proof (rule upd_within_trans [OF upd_within_trans])
    show "upd_within (span ?p 32) s t" using t(3) len by (intro upd_within_mono [OF t(5) sub]) simp
    show "upd_within (span ?p 32) t ?u" using u q by (auto intro: upd_within_mono)
    show "upd_within (span ?p 32) ?u w" using len by (intro upd_within_mono [OF w(3) sub]) simp
  qed
  moreover have "uintTostring so num s = Inr (?p, w)"
    using array_get_digit [OF t(2), of t] t(1) k w(1)
    by (simp add: uintTostring_def comp_simps store8_kaddr kaddr_poke8)
  ultimately show ?thesis using w(2) by blast
qed

text \<open>Extending a string by a character, as \<open>func\<close> does.\<close>

lemma cstr_extend:
  assumes c: "cstr s p cs" and k: "kaddr s (p + of_nat (length cs) + 1)" and x: "x \<noteq> 0"
  defines "q \<equiv> p + of_nat (length cs)"
  defines "u \<equiv> poke8 (q + 1) 0 (poke8 q x s)"
  shows "cstr u p (cs @ [x])" "upd_within (span p (length cs + 2)) s u"
    "cseq (store8 q x) (cseq (store8 (q + 1) 0) (ret r)) s = Inr (r, u)"
proof -
  have b: "blk s p cs" "kaddr s q" "0 \<notin> set cs" using c by (simp_all add: cstr_def blk_append q_def)
  have k1: "kaddr s (q + 1)" using k by (simp add: q_def)
  have w: "upd_within {q, q + 1} s u" unfolding u_def
    using b(2) k1 by (intro upd_within_trans [OF upd_within_poke8 upd_within_poke8]) (simp_all add: kaddr_poke8)
  have lt: "length cs < 2 ^ 30" by (rule cstr_length [OF c])
  have q1: "q + 1 = p + of_nat (Suc (length cs))" by (simp add: q_def)
  have "room s p (Suc (Suc (length cs)))"
  proof -
    have "blk s p ((cs @ [0]) @ [peek8 s (q + 1)])"
      using c k1 by (simp only: cstr_def blk_append) (simp add: q_def ac_simps)
    from blk_room [OF this] show ?thesis by simp
  qed
  then have lt2: "length cs + 2 \<le> 2 ^ 30" using room_less by fastforce
  have out: "q \<notin> span p (length cs)" "q + 1 \<notin> span p (length cs)"
  proof -
    have "p + of_nat j \<notin> span p (length cs)" if "length cs \<le> j" "j < length cs + 2" for j
    proof
      assume "p + of_nat j \<in> span p (length cs)"
      then obtain i where "i < length cs" "p + of_nat j = p + of_nat i" unfolding span_iff by blast
      with that span_inj [of j i p] lt2 show False by simp
    qed
    from this [of "length cs"] this [of "Suc (length cs)"]
    show "q \<notin> span p (length cs)" "q + 1 \<notin> span p (length cs)" unfolding q1 by (simp_all add: q_def)
  qed
  have "blk u p cs" by (rule upd_within_blk [OF w _ b(1)]) (use out in auto)
  moreover have "peek8 u q = x" "peek8 u (q + 1) = 0" "kaddr u q" "kaddr u (q + 1)"
    using b(2) k1 by (simp_all add: u_def peek8_poke8 kaddr_poke8)
  ultimately show "cstr u p (cs @ [x])"
    using b(3) x by (simp add: cstr_def blk_append q_def add.assoc)
  have "q \<in> span p (length cs + 2)" "q + 1 \<in> span p (length cs + 2)"
    unfolding span_iff q1 by (auto simp: q_def intro: exI [of _ "length cs"] exI [of _ "Suc (length cs)"])
  then show "upd_within (span p (length cs + 2)) s u" by (intro upd_within_mono [OF w]) simp
  show "cseq (store8 q x) (cseq (store8 (q + 1) 0) (ret r)) s = Inr (r, u)"
    using b(2) k1 by (simp add: comp_simps store8_kaddr kaddr_poke8 u_def)
qed

lemma sdiv_pos: "int n sdiv 16 = int (n div 16)" "int n smod 16 = int (n mod 16)"
  by (simp_all add: signed_divide_int_def signed_modulo_int_def zdiv_int zmod_int sgn_if
      minus_div_mult_eq_mod)

lemma array_get_hex: "n < 16 \<Longrightarrow> array_get bit_digits (int n) s = Inr (bit_digits ! n, s)"
  by (simp add: array_get_def comp_simps bit_digits_def)

lemma func_spec:
  assumes "0 < n" "n < 2 ^ 31" "cstr s (lit_empty so) []" "room s p (Suc (length (digits 16 n)))"
    "lit_empty so \<notin> span p (Suc (length (digits 16 n)))"
  shows "\<exists>t. func so p (int n) 16 s = Some (Inr (1, t)) \<and> cstr t p (rev (digits 16 n)) \<and>
    upd_within (span p (Suc (length (digits 16 n)))) s t"
  using assms
proof (induction n rule: less_induct)
  case (less n)
  let ?D = "digits 16 n" and ?P = "if n < 16 then [] else digits 16 (n div 16)"
  have D: "?D = bit_digits ! (n mod 16) # ?P" by (simp add: digits.simps [of 16 n])
  have "\<exists>t r. func so p (int (n div 16)) 16 s = Some (Inr (r, t)) \<and> cstr t p (rev ?P) \<and>
      upd_within (span p (Suc (length ?P))) s t"
  proof (cases "n < 16")
    case True
    have "kaddr s p" "lit_empty so \<noteq> p" using less.prems(4,5) by (simp_all add: D)
    then obtain t where "strcpy p (lit_empty so) s = Inr (p, t)" "cstr t p []" "upd_within (span p 1) s t"
      using strcpy_spec [OF less.prems(3), of p] by auto
    with True show ?thesis by (simp add: func.simps comp_simps)
  next
    case False
    have "room s p (Suc (length ?P))" by (rule room_mono [OF less.prems(4)]) (simp add: D)
    moreover have "lit_empty so \<notin> span p (Suc (length ?P))"
      using less.prems(5) span_mono [of "Suc (length ?P)" "Suc (length ?D)" p] by (auto simp: D)
    moreover have "0 < n div 16" using False by (simp add: div_greater_zero_iff)
    moreover have "n div 16 < n" "n div 16 < 2 ^ 31" using less.prems(1,2) by simp_all
    ultimately show ?thesis using less.IH [of "n div 16"] less.prems(3) False by fastforce
  qed
  then obtain t r where t: "func so p (int (n div 16)) 16 s = Some (Inr (r, t))" "cstr t p (rev ?P)"
    "upd_within (span p (Suc (length ?P))) s t" by blast
  let ?x = "bit_digits ! (n mod 16)"
  have q: "p + of_nat (length (rev ?P)) + 1 = p + of_nat (Suc (length ?P))" by simp
  have "kaddr s (p + of_nat (length (rev ?P)) + 1)"
    unfolding q by (rule room_at [OF less.prems(4)]) (simp add: D)
  then have k: "kaddr t (p + of_nat (length (rev ?P)) + 1)" by (simp only: upd_within_kaddr [OF t(3)])
  have x: "?x \<noteq> 0" by (simp add: digit_not_0)
  note e = cstr_extend [OF t(2) k x]
  have "int n \<noteq> 0" "\<not> int n sdiv 16 > 0x7fffffff" using less.prems(1,2) by (simp_all add: sdiv_pos)
  then have "func so p (int n) 16 s = Some (Inr (1, poke8 (p + of_nat (length (rev ?P)) + 1) 0
      (poke8 (p + of_nat (length (rev ?P))) ?x t)))"
    using e(3) [of 1] t(1) array_get_hex [of "n mod 16" t] strlen_spec [OF t(2)]
    by (simp only: func.simps [of so p "int n"] sdiv_pos) (simp add: cbind_def)
  moreover have "cstr (poke8 (p + of_nat (length (rev ?P)) + 1) 0
      (poke8 (p + of_nat (length (rev ?P))) ?x t)) p (rev ?D)" using e(1) by (simp add: D)
  moreover have "upd_within (span p (Suc (length ?D))) s (poke8 (p + of_nat (length (rev ?P)) + 1) 0
      (poke8 (p + of_nat (length (rev ?P))) ?x t))"
  proof (rule upd_within_trans)
    show "upd_within (span p (Suc (length ?D))) s t"
      by (rule upd_within_mono [OF t(3) span_mono]) (simp add: D)
    have "length (rev ?P) + 2 = Suc (length ?D)" by (simp add: D)
    with e(2) show "upd_within (span p (Suc (length ?D))) t (poke8 (p + of_nat (length (rev ?P)) + 1) 0
      (poke8 (p + of_nat (length (rev ?P))) ?x t))" by metis
  qed
  ultimately show ?case by blast
qed

lemma fill_zeros_eq: "fill_zeros k p = memset_loop k p 48"
  by (induction k arbitrary: p) simp_all

text \<open>The buffers of \<open>num2hexstr\<close>: mapped, apart from each other and from the literal.\<close>

definition hex_objs :: "string_objs \<Rightarrow> 'z machine_scheme \<Rightarrow> bool" where
  "hex_objs so s \<longleftrightarrow> room s (static_hexstr so) 11 \<and> room s (temp_arry so) 9 \<and> room s (temp_arry2 so) 9 \<and>
     span (static_hexstr so) 11 \<inter> span (temp_arry so) 9 = {} \<and>
     span (static_hexstr so) 11 \<inter> span (temp_arry2 so) 9 = {} \<and>
     span (temp_arry so) 9 \<inter> span (temp_arry2 so) 9 = {} \<and>
     cstr s (lit_empty so) [] \<and> lit_empty so \<notin> span (static_hexstr so) 11 \<union> span (temp_arry so) 9"

definition hex_bytes :: "string_objs \<Rightarrow> addr set" where
  "hex_bytes so = span (static_hexstr so) 11 \<union> span (temp_arry so) 9 \<union> span (temp_arry2 so) 9"

definition hex8 :: "nat \<Rightarrow> u8 list" where
  "hex8 n = replicate (8 - length (digits 16 n)) 48 @ rev (digits 16 n)"

definition hex_pad :: "string_objs \<Rightarrow> int \<Rightarrow> ('z machine_scheme, unit) comp" where
  "hex_pad so number =
       (cseq (memset_loop 9 (temp_arry so) 0)
       (cseq (\<lambda>s. returning (func so (temp_arry so) number 16 s))
       (cseq (memset_loop 9 (temp_arry2 so) 0)
       (cseq (strcpy (temp_arry2 so) (temp_arry so))
       (cbind (strlen (temp_arry so)) (\<lambda>len. let offset = 8 - int len in
        cseq (strcpy (temp_arry so + of_int offset) (temp_arry2 so))
             (fill_zeros (nat offset) (temp_arry so))))))))"

lemma num2hexstr_pad:
  "num2hexstr so number need0x =
     (if number \<noteq> 0 then
        cseq (store8 (static_hexstr so) 48)
       (cseq (store8 (static_hexstr so + 1) 120)
       (cseq (hex_pad so number)
       (cseq (if need0x then strcpy (static_hexstr so + 2) (temp_arry so)
              else strcpy (static_hexstr so) (temp_arry so))
             (ret (static_hexstr so)))))
      else ret (if need0x then lit_0x00000000 so else lit_00000000 so))"
  by (auto simp: fun_eq_iff num2hexstr_def hex_pad_def comp_simps Let_def split: sum.split)

lemma hex_pad_spec:
  assumes n: "0 < n" "n < 2 ^ 31" and o: "hex_objs so s"
  shows "\<exists>t. hex_pad so (int n) s = Inr ((), t) \<and> cstr t (temp_arry so) (hex8 n) \<and>
    upd_within (span (temp_arry so) 9 \<union> span (temp_arry2 so) 9) s t"
proof -
  let ?a = "temp_arry so" and ?b = "temp_arry2 so" and ?h = "rev (digits 16 n)"
  let ?off = "8 - length ?h"
  have len: "length ?h \<le> 8" using digits_length [of 16 n 7] n(2) by simp
  have ra: "room s ?a 9" and rb: "room s ?b 9" and ab: "span ?a 9 \<inter> span ?b 9 = {}"
    and lit: "cstr s (lit_empty so) []" "lit_empty so \<notin> span ?a 9"
    using o by (simp_all only: hex_objs_def) auto
  have sub: "span p (Suc (length ?h)) \<subseteq> span p 9" for p by (rule span_mono) (use len in simp)
  obtain s1 where s1: "memset_loop 9 ?a 0 s = Inr ((), s1)" "upd_within (span ?a 9) s s1"
    using memset_loop_spec [OF ra] by blast
  have "cstr s1 (lit_empty so) []" by (rule upd_within_cstr [OF s1(2) _ lit(1)]) (use lit(2) in simp)
  moreover have "room s1 ?a (Suc (length (digits 16 n)))"
    by (rule room_mono [of _ _ 9]) (use len ra in \<open>simp_all add: upd_within_room [OF s1(2)]\<close>)
  moreover have "lit_empty so \<notin> span ?a (Suc (length (digits 16 n)))" using lit(2) sub [of ?a] by auto
  ultimately obtain s2 where s2: "func so ?a (int n) 16 s1 = Some (Inr (1, s2))" "cstr s2 ?a ?h"
    "upd_within (span ?a (Suc (length (digits 16 n)))) s1 s2"
    using func_spec [OF n] by blast
  have u2: "upd_within (span ?a 9) s1 s2" by (rule upd_within_mono [OF s2(3)]) (use sub [of ?a] in simp)
  have "room s2 ?b 9" using rb by (simp only: upd_within_room [OF u2] upd_within_room [OF s1(2)])
  then obtain s3 where s3: "memset_loop 9 ?b 0 s2 = Inr ((), s3)" "upd_within (span ?b 9) s2 s3"
    using memset_loop_spec by blast
  have a3: "cstr s3 ?a ?h" by (rule upd_within_cstr [OF s3(2) _ s2(2)]) (use ab sub [of ?a] in blast)
  have "room s3 ?b (Suc (length ?h))"
    by (rule room_mono [of _ _ 9]) (use len \<open>room s2 ?b 9\<close> in \<open>simp_all add: upd_within_room [OF s3(2)]\<close>)
  moreover have "span ?b (Suc (length ?h)) \<inter> span ?a (Suc (length ?h)) = {}"
    using ab sub [of ?a] sub [of ?b] by blast
  ultimately obtain s4 where s4: "strcpy ?b ?a s3 = Inr (?b, s4)" "cstr s4 ?b ?h"
    "upd_within (span ?b (Suc (length ?h))) s3 s4" using strcpy_spec [OF a3] by blast
  have u4: "upd_within (span ?b 9) s3 s4" by (rule upd_within_mono [OF s4(3) sub])
  have a4: "cstr s4 ?a ?h" by (rule upd_within_cstr [OF u4 _ a3]) (use ab sub [of ?a] in blast)
  let ?p = "?a + of_nat ?off"
  have subp: "span ?p (Suc (length ?h)) \<subseteq> span ?a 9" by (rule span_shift) (use len in simp)
  have ra4: "room s4 ?a 9"
    using ra by (simp only: upd_within_room [OF u4] upd_within_room [OF s3(2)] upd_within_room [OF u2] upd_within_room [OF s1(2)])
  have "room s4 ?p (Suc (length ?h))" by (rule room_shift [OF ra4]) (use len in simp)
  moreover have "span ?p (Suc (length ?h)) \<inter> span ?b (Suc (length ?h)) = {}"
    using ab subp sub [of ?b] by blast
  ultimately obtain s5 where s5: "strcpy ?p ?b s4 = Inr (?p, s5)" "cstr s5 ?p ?h"
    "upd_within (span ?p (Suc (length ?h))) s4 s5" using strcpy_spec [OF s4(2)] by blast
  have u5: "upd_within (span ?a 9) s4 s5" by (rule upd_within_mono [OF s5(3) subp])
  have ra5: "room s5 ?a ?off" by (rule room_mono [of _ _ 9]) (use ra4 in \<open>simp_all add: upd_within_room [OF u5]\<close>)
  obtain s6 where s6: "memset_loop ?off ?a 48 s5 = Inr ((), s6)" "blk s6 ?a (replicate ?off 48)"
    "upd_within (span ?a ?off) s5 s6" using memset_loop_spec [OF ra5] by blast
  have u6: "upd_within (span ?a 9) s5 s6" by (rule upd_within_mono [OF s6(3) span_mono]) simp
  have "span ?p (Suc (length ?h)) \<inter> span ?a ?off = {}"
    using span_apart [of ?off ?off "Suc (length ?h)" ?a] len by (simp only: Int_commute) simp
  then have "cstr s6 ?p ?h" by (rule upd_within_cstr [OF s6(3) _ s5(2)])
  then have fin: "cstr s6 ?a (hex8 n)"
    using s6(2) by (simp add: hex8_def cstr_append)
  have "upd_within (span ?a 9 \<union> span ?b 9) s s6"
    by (rule upd_within_mono [OF upd_within_trans2 [OF s1(2) upd_within_trans2 [OF u2
      upd_within_trans2 [OF s3(2) upd_within_trans2 [OF u4 upd_within_trans2 [OF u5 u6]]]]]]) blast
  moreover have "hex_pad so (int n) s = Inr ((), s6)"
  proof -
    have o1: "nat (8 - int (length ?h)) = ?off" by (simp add: nat_diff_distrib)
    have o2: "?a + of_int (8 - int (length ?h)) = ?p" using len by (simp only: of_nat_diff) simp
    show ?thesis
      unfolding hex_pad_def Let_def fill_zeros_eq
      by (simp only: cseq_def cbind_def s1(1) s2(1) s3(1) s4(1) s5(1) s6(1) strlen_spec [OF a4]
        returning_Some sum.case prod.case o1 o2)
  qed
  ultimately show ?thesis using fin by blast
qed

lemma hex8_length: "n < 2 ^ 31 \<Longrightarrow> length (hex8 n) = 8"
  using digits_length [of 16 n 7] by (simp add: hex8_def)

lemma hex8_not_0: "0 \<notin> set (hex8 n)"
  using digits_not_0 [of 16 n] by (simp add: hex8_def)

lemma num2hexstr_spec:
  assumes n: "0 < n" "n < 2 ^ 31" and o: "hex_objs so s"
  shows "\<exists>t. num2hexstr so (int n) need0x s = Inr (static_hexstr so, t) \<and>
    cstr t (static_hexstr so) (if need0x then 48 # 120 # hex8 n else hex8 n) \<and>
    upd_within (hex_bytes so) s t"
proof -
  let ?p = "static_hexstr so" and ?a = "temp_arry so" and ?b = "temp_arry2 so"
  let ?AB = "span ?a 9 \<union> span ?b 9"
  let ?s = "poke8 (?p + 1) 120 (poke8 ?p 48 s)"
  have rp: "room s ?p 11" and dis: "span ?p 11 \<inter> ?AB = {}" and lit: "lit_empty so \<notin> span ?p 11"
    using o by (auto simp only: hex_objs_def)
  have k: "kaddr s ?p" "kaddr s (?p + 1)" using room_at [OF rp, of 0] room_at [OF rp, of 1] by simp_all
  have pin: "?p \<in> span ?p 11" "?p + 1 \<in> span ?p 11"
    using span_at [of 0 11 ?p] span_at [of 1 11 ?p] by simp_all
  have u: "upd_within {?p, ?p + 1} s ?s"
    using k by (intro upd_within_trans [OF upd_within_poke8 upd_within_poke8]) (simp_all add: kaddr_poke8)
  have "cstr ?s (lit_empty so) []"
    by (rule upd_within_cstr [OF u]) (use o lit pin in \<open>auto simp only: hex_objs_def list.size span.simps\<close>)
  then have o2: "hex_objs so ?s" using o by (simp only: hex_objs_def upd_within_room [OF u]) simp
  from hex_pad_spec [OF n o2] obtain t where t: "hex_pad so (int n) ?s = Inr ((), t)"
    "cstr t ?a (hex8 n)" "upd_within ?AB ?s t" by blast
  have lp: "peek8 t ?p = 48" "peek8 t (?p + 1) = 120" "kaddr t ?p" "kaddr t (?p + 1)"
  proof -
    have out: "?p \<notin> ?AB" "?p + 1 \<notin> ?AB" using dis pin by blast+
    have ks: "kaddr ?s ?p" "kaddr ?s (?p + 1)" using k by (simp_all add: kaddr_poke8)
    show "peek8 t ?p = 48" "peek8 t (?p + 1) = 120" "kaddr t ?p" "kaddr t (?p + 1)"
      using k ks by (simp_all only: upd_within_peek8 [OF t(3) ks(1) out(1)]
        upd_within_peek8 [OF t(3) ks(2) out(2)] upd_within_kaddr [OF t(3)])
        (simp_all add: peek8_poke8 kaddr_poke8)
  qed
  have rt: "room t ?p 11" using rp by (simp only: upd_within_room [OF t(3)] upd_within_room [OF u])
  let ?d = "if need0x then 2 else 0 :: nat"
  have subq: "span (?p + of_nat ?d) 9 \<subseteq> span ?p 11" by (rule span_shift) simp
  have l9: "Suc (length (hex8 n)) = 9" using hex8_length [OF n(2)] by simp
  have "room t (?p + of_nat ?d) 9" by (rule room_shift [OF rt]) simp
  moreover have "span (?p + of_nat ?d) 9 \<inter> span ?a 9 = {}" using subq dis by blast
  ultimately obtain w where w: "strcpy (?p + of_nat ?d) ?a t = Inr (?p + of_nat ?d, w)"
    "cstr w (?p + of_nat ?d) (hex8 n)" "upd_within (span (?p + of_nat ?d) 9) t w"
    using strcpy_spec [OF t(2), of "?p + of_nat ?d", unfolded l9] by blast
  have "cstr w ?p (if need0x then 48 # 120 # hex8 n else hex8 n)"
  proof (cases need0x)
    case True
    have sep: "span ?p 2 \<inter> span (?p + of_nat 2) 9 = {}" by (rule span_apart) simp_all
    have "blk t ?p [48, 120]" using lp by simp
    then have "blk w ?p [48, 120]"
      by (rule upd_within_blk [OF w(3), rotated]) (use sep True in \<open>simp add: numeral_2_eq_2 del: span.simps\<close>)
    moreover have "(48 :: u8) \<noteq> 0" "(120 :: u8) \<noteq> 0" by simp_all
    ultimately show ?thesis using w(2) True by (simp only: cstr_Cons blk.simps if_True) (simp add: add.commute)
  next
    case False
    with w(2) show ?thesis by simp
  qed
  moreover have "upd_within (hex_bytes so) s w"
    by (rule upd_within_mono [OF upd_within_trans2 [OF u upd_within_trans2 [OF t(3) w(3)]]])
      (use subq pin in \<open>auto simp only: hex_bytes_def\<close>)
  moreover have "num2hexstr so (int n) need0x s = Inr (?p, w)"
    using n(1) k t(1) w(1) by (auto simp: num2hexstr_pad comp_simps store8_kaddr kaddr_poke8)
  ultimately show ?thesis by blast
qed

text \<open>
  A negative number: the innermost call of \<open>func\<close> reads \<open>bit\<close> at the (negative) leading
  digit, because C's remainder has the sign of the dividend.
\<close>

lemma sdiv_neg: "- int n sdiv 16 = - int (n div 16)" "- int n smod 16 = - int (n mod 16)"
  by (auto simp: signed_divide_int_def signed_modulo_int_def sgn_if zdiv_int zmod_int minus_div_mult_eq_mod algebra_simps)

fun leading16 :: "nat \<Rightarrow> nat" where
  "leading16 n = (if n < 16 then n else leading16 (n div 16))"

declare leading16.simps [simp del]

lemma leading16_range: "0 < n \<Longrightarrow> 0 < leading16 n \<and> leading16 n < 16"
  by (induction n rule: leading16.induct) (auto simp: leading16.simps div_greater_zero_iff)

lemma func_negative:
  assumes "0 < n" "cstr s (lit_empty so) []" "kaddr s p" "lit_empty so \<noteq> p"
  shows "func so p (- int n) 16 s = Some (Inl (Out_Of_Bounds (- int (leading16 n))))"
  using assms
proof (induction n rule: less_induct)
  case (less n)
  obtain t where t: "strcpy p (lit_empty so) s = Inr (p, t)" "cstr t p []"
    using strcpy_spec [OF less.prems(2), of p] less.prems(3,4) by auto
  have neg: "- int n \<noteq> 0" "\<not> - int n sdiv 16 > 0x7fffffff" using less.prems(1) by (simp_all only: sdiv_neg)
  show ?case
  proof (cases "n < 16")
    case True
    then have "func so p (- int n sdiv 16) 16 s = Some (Inr (0, t))"
      using t(1) by (simp only: sdiv_neg) (simp add: func.simps comp_simps)
    moreover have "array_get bit_digits (- int n smod 16) t = Inl (Out_Of_Bounds (- int n))"
      using True less.prems(1) by (simp only: sdiv_neg) (simp add: array_get_def fail_with_def)
    ultimately show ?thesis using neg True strlen_spec [OF t(2)]
      by (simp only: func.simps [of so p "- int n"]) (simp add: cbind_def leading16.simps)
  next
    case False
    have "func so p (- int n sdiv 16) 16 s = Some (Inl (Out_Of_Bounds (- int (leading16 (n div 16)))))"
      unfolding sdiv_neg using less.IH [of "n div 16"] less.prems False by (simp add: div_greater_zero_iff)
    then show ?thesis using neg False
      by (simp only: func.simps [of so p "- int n"]) (simp add: leading16.simps [of n])
  qed
qed

subsection \<open>Properties\<close>

lemma boot_room:
  assumes "0xc0000000 \<le> p" "unat p + n \<le> 0xc0100000"
  shows "room boot_machine p n"
  unfolding room_def
proof
  fix a assume "a \<in> span p n"
  then obtain i where i: "i < n" "a = p + of_nat i" unfolding span_iff by blast
  then have "unat a = unat p + i" using assms(2) by (simp add: unat_word_ariths unat_of_nat)
  with i assms show "kaddr boot_machine a"
    by (intro boot_kaddr) (simp_all add: word_le_nat_alt word_less_nat_alt)
qed

lemma put_blk: "room s p (length bs) \<Longrightarrow> \<exists>t. blk t p bs \<and> upd_within (span p (length bs)) s t"
proof (induction bs arbitrary: p s)
  case (Cons b bs)
  let ?s = "poke8 p b s"
  have k: "kaddr s p" using Cons.prems by simp
  have u: "upd_within {p} s ?s" by (simp add: k upd_within_poke8)
  from Cons.IH [of ?s "p + 1"] Cons.prems obtain t where
    t: "blk t (p + 1) bs" "upd_within (span (p + 1) (length bs)) ?s t"
    by (auto simp: upd_within_room [OF u])
  have "p \<notin> span (p + 1) (length bs)" by (rule room_not_in) (use Cons.prems in simp)
  then have "peek8 t p = b" "kaddr t p"
    using k by (simp_all add: upd_within_peek8 [OF t(2)] upd_within_kaddr [OF t(2)] kaddr_poke8 peek8_poke8)
  with t upd_within_trans2 [OF u t(2)] show ?case by auto
qed (auto simp: room_def)

text \<open>A state with two strings in memory, for the witnesses.\<close>

lemma two_strings:
  assumes "length xs < 32" "length ys < 32" "0 \<notin> set xs" "0 \<notin> set ys"
  shows "\<exists>s :: machine. cstr s 0xc0020000 xs \<and> cstr s 0xc0030000 ys \<and> room s 0xc0040000 64"
proof -
  have r: "room boot_machine 0xc0020000 (length (xs @ [0]))" "room boot_machine 0xc0030000 (length (ys @ [0]))"
    "room boot_machine 0xc0040000 64"
    by (rule boot_room; use assms in simp)+
  from put_blk [OF r(1)] obtain s where s: "blk s 0xc0020000 (xs @ [0])"
    "upd_within (span 0xc0020000 (length (xs @ [0]))) boot_machine s" by blast
  have "room s 0xc0030000 (length (ys @ [0]))" using r(2) by (simp only: upd_within_room [OF s(2)])
  from put_blk [OF this] obtain t where t: "blk t 0xc0030000 (ys @ [0])"
    "upd_within (span 0xc0030000 (length (ys @ [0]))) s t" by blast
  have "span 0xc0020000 (length (xs @ [0])) \<inter> span 0xc0030000 (length (ys @ [0])) = {}"
    by (rule span_sep) (use assms in simp_all)
  then have "blk t 0xc0020000 (xs @ [0])" by (rule upd_within_blk [OF t(2) _ s(1)])
  moreover have "room t 0xc0040000 64"
    using r(3) by (simp only: upd_within_room [OF s(2)] upd_within_room [OF t(2)])
  ultimately show ?thesis using t(1) assms by (auto simp: cstr_def)
qed

text \<open>
  C38: \<open>memcpy\<close> copies a block to a block apart from it, \<open>memset\<close> fills one, and \<open>memcmp\<close>
  returns 0 exactly when two blocks of equal length agree and otherwise the difference of
  the first bytes that differ; nothing else changes.
\<close>

theorem block_functions_correct:
  assumes "blk s a xs" "blk s b ys" "length xs = length ys" "span a (length xs) \<inter> span b (length xs) = {}"
    "a \<noteq> 0" "b \<noteq> 0"
  shows "(\<exists>t. memcpy a b (of_nat (length ys)) s = Inr ((), t) \<and> blk t a ys \<and> blk t b ys \<and>
      upd_within (span a (length ys)) s t) \<and>
    (\<exists>t. memset a v (of_nat (length xs)) s = Inr ((), t) \<and> blk t a (replicate (length xs) v) \<and>
      upd_within (span a (length xs)) s t) \<and>
    (\<exists>d. memcmp a b (of_nat (length xs)) s = Inr (d, s) \<and> (d = 0 \<longleftrightarrow> xs = ys) \<and>
      (\<forall>ps x y us vs. xs = ps @ x # us \<longrightarrow> ys = ps @ y # vs \<longrightarrow> x \<noteq> y \<longrightarrow> d = int (unat x) - int (unat y)))"
proof (intro conjI)
  have ra: "room s a (length ys)" using blk_room [OF assms(1)] assms(3) by simp
  have dis: "span a (length ys) \<inter> span b (length ys) = {}" using assms(3,4) by simp
  from memcpy_spec [OF assms(2) ra dis assms(5,6)] obtain t where
    t: "memcpy a b (of_nat (length ys)) s = Inr ((), t)" "blk t a ys" "upd_within (span a (length ys)) s t" by blast
  have "blk t b ys" by (rule upd_within_blk [OF t(3) _ assms(2)]) (use dis in blast)
  with t show "\<exists>t. memcpy a b (of_nat (length ys)) s = Inr ((), t) \<and> blk t a ys \<and> blk t b ys \<and>
      upd_within (span a (length ys)) s t" by blast
  show "\<exists>t. memset a v (of_nat (length xs)) s = Inr ((), t) \<and> blk t a (replicate (length xs) v) \<and>
      upd_within (span a (length xs)) s t"
    using memset_spec [of s a "length xs" v] blk_room [OF assms(1)] assms(5) by blast
  have "byte_diff (zip (ps @ x # us) (ps @ y # vs)) = int (unat x) - int (unat y)" if "x \<noteq> y" for ps x y us vs
    using that by (induction ps) simp_all
  then show "\<exists>d. memcmp a b (of_nat (length xs)) s = Inr (d, s) \<and> (d = 0 \<longleftrightarrow> xs = ys) \<and>
      (\<forall>ps x y us vs. xs = ps @ x # us \<longrightarrow> ys = ps @ y # vs \<longrightarrow> x \<noteq> y \<longrightarrow> d = int (unat x) - int (unat y))"
    using memcmp_spec [OF assms(1,2,3,5,6)] byte_diff_0 [OF assms(3)] by blast
qed

theorem block_functions_correct_witness:
  "\<exists>s :: machine. \<exists>t. blk s 0xc0020000 [1, 2, 0] \<and> blk s 0xc0030000 [3, 4, 0] \<and>
     memcpy 0xc0020000 0xc0030000 3 s = Inr ((), t) \<and> blk t 0xc0020000 [3, 4, 0]"
proof -
  obtain s :: machine where "cstr s 0xc0020000 [1, 2]" "cstr s 0xc0030000 [3, 4]"
    using two_strings [of "[1, 2]" "[3, 4]"] by auto
  then have b: "blk s 0xc0020000 [1, 2, 0]" "blk s 0xc0030000 [3, 4, 0]" by (simp_all add: cstr_def)
  have "span (0xc0020000 :: addr) 3 \<inter> span 0xc0030000 3 = {}" by (rule span_sep) simp_all
  then obtain t where "memcpy 0xc0020000 0xc0030000 3 s = Inr ((), t)" "blk t 0xc0020000 [3, 4, 0]"
    using conjunct1 [OF block_functions_correct [OF b]] by (auto simp: numeral_3_eq_3 simp del: blk.simps)
  with b show ?thesis by blast
qed

text \<open>
  C39: \<open>strlen\<close> measures a string, \<open>strcpy\<close> copies one to where there is room apart from it,
  \<open>strcat\<close> appends one; each returns, and changes no byte outside its destination.
\<close>

theorem string_functions_correct:
  assumes "cstr s src cs" "cstr s dest as" "room s dest (Suc (length as + length cs))"
    "span dest (Suc (length as + length cs)) \<inter> span src (Suc (length cs)) = {}"
  shows "strlen src s = Inr (length cs, s) \<and>
    (\<exists>t. strcpy dest src s = Inr (dest, t) \<and> cstr t dest cs \<and> upd_within (span dest (Suc (length cs))) s t) \<and>
    (\<exists>t. strcat dest src s = Inr (dest, t) \<and> cstr t dest (as @ cs) \<and>
      upd_within (span dest (Suc (length as + length cs))) s t)"
proof (intro conjI)
  show "strlen src s = Inr (length cs, s)" by (rule strlen_spec [OF assms(1)])
  have "span dest (Suc (length cs)) \<subseteq> span dest (Suc (length as + length cs))" by (rule span_mono) simp
  then show "\<exists>t. strcpy dest src s = Inr (dest, t) \<and> cstr t dest cs \<and> upd_within (span dest (Suc (length cs))) s t"
    using strcpy_spec [OF assms(1) room_mono [OF assms(3)]] assms(4) by auto
  show "\<exists>t. strcat dest src s = Inr (dest, t) \<and> cstr t dest (as @ cs) \<and>
      upd_within (span dest (Suc (length as + length cs))) s t"
    by (rule strcat_spec [OF assms(2,1,3,4)])
qed

theorem string_functions_correct_witness:
  "\<exists>s :: machine. \<exists>t. cstr s 0xc0020000 [65] \<and> strlen 0xc0020000 s = Inr (1, s) \<and>
     strcpy 0xc0040000 0xc0020000 s = Inr (0xc0040000, t) \<and> cstr t 0xc0040000 [65]"
proof -
  obtain s0 :: machine where s0: "cstr s0 0xc0020000 [65]" "room s0 0xc0040000 64"
    using two_strings [of "[65]" "[]"] by auto
  have k: "kaddr s0 0xc0040000" using room_at [OF s0(2), of 0] by simp
  let ?s = "poke8 0xc0040000 0 s0"
  have u: "upd_within {0xc0040000} s0 ?s" by (simp add: k upd_within_poke8)
  have s: "cstr ?s 0xc0020000 [65]" by (rule upd_within_cstr [OF u _ s0(1)]) simp
  have d: "cstr ?s 0xc0040000 []" using k by (simp add: kaddr_poke8 peek8_poke8)
  have "room ?s 0xc0040000 2" using room_mono [OF s0(2), of 2] by (simp add: upd_within_room [OF u])
  then have "room ?s 0xc0040000 (Suc (length ([] :: u8 list) + length [65 :: u8]))" by (simp add: numeral_2_eq_2)
  from string_functions_correct [OF s d this] s show ?thesis by fastforce
qed

text \<open>
  \<open>strcmp\<close> returns 0 exactly for equal strings and is antisymmetric; on ASCII strings
  its result is the lexicographic order. (Characters from 128 on are negative.)
\<close>

theorem strcmp_correct:
  assumes "cstr s p xs" "cstr s q ys"
  shows "\<exists>d. strcmp p q s = Inr (d, s) \<and> strcmp q p s = Inr (- d, s) \<and> d \<in> {- 1, 0, 1} \<and> (d = 0 \<longleftrightarrow> xs = ys) \<and>
    ((\<forall>c \<in> set xs \<union> set ys. c < 0x80) \<longrightarrow> (d = - 1 \<longleftrightarrow> ord_class.lexordp xs ys))"
proof -
  have nz: "0 \<notin> set xs" "0 \<notin> set ys" using assms by (simp_all add: cstr_def)
  have "str_order xs ys \<in> {- 1, 0, 1}" by (induction xs ys rule: str_order.induct) auto
  moreover have "\<forall>c \<in> set xs \<union> set ys. 0 < c" using nz word_neq_0_conv by blast
  ultimately show ?thesis
    using strcmp_spec [OF assms] strcmp_spec [OF assms(2,1)] str_order_minus [OF nz] str_order_0 str_order_ascii
    by auto
qed

theorem strcmp_correct_witness:
  "\<exists>s :: machine. cstr s 0xc0020000 [65] \<and> cstr s 0xc0030000 [66] \<and>
     strcmp 0xc0020000 0xc0030000 s = Inr (- 1, s)"
proof -
  obtain s :: machine where s: "cstr s 0xc0020000 [65]" "cstr s 0xc0030000 [66]"
    using two_strings [of "[65]" "[66]"] by auto
  from strcmp_correct [OF s] have "strcmp 0xc0020000 0xc0030000 s = Inr (- 1, s)" by auto
  with s show ?thesis by blast
qed

text \<open>
  The searches: for a character below 128 \<open>strchr\<close> finds its first and \<open>strrchr\<close> its
  last occurrence and \<open>strchrs\<close> counts them; for any other value of the \<open>uint8_t\<close> they
  find nothing, whatever the string holds, because \<open>char\<close> is signed.
\<close>

theorem string_search_correct:
  assumes "cstr s p cs"
  shows "(ch < 0x80 \<longrightarrow>
      strchr p ch s = Inr (if ch \<in> set cs then p + of_nat (length (takeWhile (\<lambda>c. c \<noteq> ch) cs)) else 0, s) \<and>
      strrchr p ch s = Inr (if ch \<in> set cs then p + of_nat (last_index ch cs) else 0, s) \<and>
      strchrs p ch s = Inr (of_nat (count_list cs ch), s)) \<and>
    (0x80 \<le> ch \<longrightarrow> strchr p ch s = Inr (0, s) \<and> strrchr p ch s = Inr (0, s) \<and> strchrs p ch s = Inr (0, s))"
  using strchr_loop_spec [OF assms, of ch] strrchr_loop_spec [OF assms, of ch 0]
    strchrs_loop_spec [OF assms, of ch 0] cstr_not_0 [OF assms]
  by (auto simp: strchr_def strrchr_def strchrs_def string_assert_def comp_simps)

theorem string_search_correct_witness:
  "\<exists>s :: machine. cstr s 0xc0020000 [65, 200, 65] \<and> strchr 0xc0020000 65 s = Inr (0xc0020000, s) \<and>
     strrchr 0xc0020000 65 s = Inr (0xc0020002, s) \<and> strchrs 0xc0020000 65 s = Inr (2, s) \<and>
     strchr 0xc0020000 200 s = Inr (0, s)"
proof -
  obtain s :: machine where s: "cstr s 0xc0020000 [65, 200, 65]"
    using two_strings [of "[65, 200, 65]" "[]"] by auto
  from string_search_correct [OF s, of 65] string_search_correct [OF s, of 200] s show ?thesis
    by (auto simp: last_index_def simp del: cstr_Cons)
qed

text \<open>
  C40: \<open>uintTostring\<close> returns its buffer with the decimal digits of any 32-bit number, first
  digit first; reading the digits back gives the number.
\<close>

theorem uintTostring_correct:
  assumes "room s (static_m so) 32"
  shows "\<exists>t cs. uintTostring so num s = Inr (static_m so, t) \<and> cstr t (static_m so) cs \<and>
    digits_value 10 (rev cs) = unat num \<and> (\<forall>c \<in> set cs. 48 \<le> c \<and> c \<le> 57) \<and> (hd cs = 48 \<longrightarrow> num = 0) \<and>
    upd_within (span (static_m so) 32) s t"
proof -
  have "(\<forall>c \<in> set (digits 10 n). 48 \<le> c \<and> c \<le> 57) \<and> (last (digits 10 n) = 48 \<longrightarrow> n = 0)" for n
  proof (induction "10 :: nat" n rule: digits.induct)
    case (1 n)
    have t: "\<forall>n \<in> set [0..<10]. 48 \<le> bit_digits ! n \<and> bit_digits ! n \<le> 57 \<and> (bit_digits ! n = 48 \<longrightarrow> n = 0)"
      by code_simp
    have "48 \<le> bit_digits ! n \<and> bit_digits ! n \<le> 57 \<and> (bit_digits ! n = 48 \<longrightarrow> n = 0)" if "n < 10" for n
      using t that by simp
    from this [of n] this [of "n mod 10"] 1 show ?case by (auto simp: digits.simps [of 10 n])
  qed
  from this [of "unat num"] uintTostring_spec [OF assms, of num] digits_value_digits [of 10 "unat num"]
  show ?thesis by (fastforce simp: hd_rev unat_eq_0)
qed

definition boot_objs :: string_objs where
  "boot_objs = \<lparr>static_hexstr = 0xc0010000, temp_arry = 0xc0010020, temp_arry2 = 0xc0010040,
     static_m = 0xc0010060, lit_0x00000000 = 0xc0010080, lit_00000000 = 0xc00100a0, lit_empty = 0xc00100c0\<rparr>"

theorem uintTostring_correct_witness:
  "\<exists>t cs. uintTostring boot_objs 4294967295 boot_machine = Inr (0xc0010060, t) \<and>
     cstr t 0xc0010060 cs \<and> digits_value 10 (rev cs) = 4294967295"
proof -
  have "room boot_machine (static_m boot_objs) 32" by (rule boot_room) (simp_all add: boot_objs_def)
  from uintTostring_correct [OF this, of 4294967295] show ?thesis by (fastforce simp: boot_objs_def)
qed

lemma digits_value_zeros: "digits_value b (ds @ replicate k 48) = digits_value b ds"
proof -
  have "digits_value b (replicate k 48) = 0" by (induction k) (simp_all add: digit_value_def)
  then show ?thesis by (induction ds) simp_all
qed

text \<open>
  For a positive \<open>int\<close> \<open>num2hexstr\<close> returns its buffer with eight hexadecimal digits,
  zeros in front, that read back as the number, after \<open>"0x"\<close> when asked for; for 0 it
  returns the literal.
\<close>

theorem num2hexstr_correct:
  assumes "0 \<le> number" "number < 2 ^ 31" "hex_objs so s"
  shows "if number = 0 then num2hexstr so number need0x s =
      Inr (if need0x then lit_0x00000000 so else lit_00000000 so, s)
    else \<exists>t cs. num2hexstr so number need0x s = Inr (static_hexstr so, t) \<and>
      cstr t (static_hexstr so) ((if need0x then [48, 120] else []) @ cs) \<and> length cs = 8 \<and>
      digits_value 16 (rev cs) = nat number \<and> upd_within (hex_bytes so) s t"
proof (cases "number = 0")
  case True
  then show ?thesis by (simp add: num2hexstr_def ret_def)
next
  case False
  then obtain n where n: "number = int n" "0 < n" "n < 2 ^ 31"
    using assms(1,2) by (metis le_neq_trans nat_less_numeral_power_cancel_iff zero_less_imp_eq_int of_nat_less_numeral_power_cancel_iff)
  have "digits_value 16 (rev (hex8 n)) = n" by (simp add: hex8_def digits_value_zeros digits_value_digits)
  with num2hexstr_spec [OF n(2,3) assms(3), of need0x] hex8_length [OF n(3)] n(1,2)
  show ?thesis by (auto split: if_splits)
qed

lemma boot_hex_objs: "\<exists>s :: machine. hex_objs boot_objs s"
proof -
  have "room boot_machine 0xc00100c0 1" by (rule boot_room) simp_all
  then obtain s where s: "blk s 0xc00100c0 [0]" "upd_within (span 0xc00100c0 1) boot_machine s"
    using put_blk [of boot_machine "0xc00100c0" "[0]"] by auto
  have "room s 0xc0010000 11" "room s 0xc0010020 9" "room s 0xc0010040 9"
    by (simp_all only: upd_within_room [OF s(2)]) (rule boot_room; simp)+
  moreover have "span (0xc0010000 :: addr) 11 \<inter> span 0xc0010020 9 = {}"
    "span (0xc0010000 :: addr) 11 \<inter> span 0xc0010040 9 = {}" "span (0xc0010020 :: addr) 9 \<inter> span 0xc0010040 9 = {}"
    by (rule span_sep; simp)+
  moreover have "span (0xc0010000 :: addr) 11 \<inter> span 0xc00100c0 1 = {}" "span (0xc0010020 :: addr) 9 \<inter> span 0xc00100c0 1 = {}"
    by (rule span_sep; simp)+
  then have "0xc00100c0 \<notin> span (0xc0010000 :: addr) 11 \<union> span 0xc0010020 9" by simp
  ultimately show ?thesis using s(1)
    by (intro exI [of _ s]) (simp only: hex_objs_def boot_objs_def string_objs.simps, simp)
qed

theorem num2hexstr_correct_witness:
  "\<exists>s t :: machine. \<exists>cs. num2hexstr boot_objs 0xb8000 True s = Inr (0xc0010000, t) \<and>
     cstr t 0xc0010000 (48 # 120 # cs) \<and> digits_value 16 (rev cs) = 0xb8000"
proof -
  obtain s :: machine where s: "hex_objs boot_objs s" using boot_hex_objs by blast
  have "(0 :: int) \<le> 0xb8000" "(0xb8000 :: int) < 2 ^ 31" by simp_all
  from num2hexstr_correct [OF this s, of True] show ?thesis
    by (simp only: boot_objs_def string_objs.simps) (fastforce simp del: cstr_Cons)
qed

text \<open>
  A negative \<open>int\<close> makes \<open>num2hexstr\<close> read its digit table before its start, at the
  negated leading digit; no string is produced.
\<close>

theorem num2hexstr_negative:
  assumes "number < 0" "hex_objs so s"
  shows "\<exists>d. 1 \<le> d \<and> d \<le> 15 \<and> num2hexstr so number need0x s = Inl (Out_Of_Bounds (- d))"
proof -
  obtain n where n: "number = - int n" "0 < n" using assms(1) by (metis neg_int_cases)
  let ?p = "static_hexstr so" and ?a = "temp_arry so"
  let ?s = "poke8 (?p + 1) 120 (poke8 ?p 48 s)"
  have o: "room s ?p 11" "room s ?a 9" "lit_empty so \<notin> span ?p 11" "lit_empty so \<notin> span ?a 9"
    "cstr s (lit_empty so) []" using assms(2) by (auto simp only: hex_objs_def)
  have k: "kaddr s ?p" "kaddr s (?p + 1)" using room_at [OF o(1), of 0] room_at [OF o(1), of 1] by simp_all
  have pin: "?p \<in> span ?p 11" "?p + 1 \<in> span ?p 11" using span_at [of 0 11 ?p] span_at [of 1 11 ?p] by simp_all
  have u: "upd_within {?p, ?p + 1} s ?s"
    using k by (intro upd_within_trans [OF upd_within_poke8 upd_within_poke8]) (simp_all add: kaddr_poke8)
  have "cstr ?s (lit_empty so) []"
    by (rule upd_within_cstr [OF u _ o(5)]) (use o(3) pin in \<open>auto simp only: list.size span.simps\<close>)
  have "room ?s ?a 9" using o(2) by (simp only: upd_within_room [OF u])
  from memset_loop_spec [OF this] obtain t where t: "memset_loop 9 ?a 0 ?s = Inr ((), t)"
    "upd_within (span ?a 9) ?s t" by blast
  have "cstr t (lit_empty so) []"
    by (rule upd_within_cstr [OF t(2) _ \<open>cstr ?s (lit_empty so) []\<close>]) (use o(4) in simp)
  moreover have "kaddr t ?a" using room_at [OF \<open>room ?s ?a 9\<close>, of 0] upd_within_kaddr [OF t(2)] by simp
  moreover have "lit_empty so \<noteq> ?a" using o(4) span_at [of 0 9 ?a] by auto
  ultimately have "func so ?a number 16 t = Some (Inl (Out_Of_Bounds (- int (leading16 n))))"
    unfolding n(1) using func_negative [OF n(2)] by blast
  then have "num2hexstr so number need0x s = Inl (Out_Of_Bounds (- int (leading16 n)))"
    using assms(1) k t(1) by (simp add: num2hexstr_def comp_simps store8_kaddr kaddr_poke8)
  with leading16_range [OF n(2)] show ?thesis by (intro exI [of _ "int (leading16 n)"]) simp
qed

theorem num2hexstr_negative_witness:
  "\<exists>s :: machine. \<exists>d. 1 \<le> d \<and> num2hexstr boot_objs (- 1) True s = Inl (Out_Of_Bounds (- d))"
proof -
  obtain s :: machine where s: "hex_objs boot_objs s" using boot_hex_objs by blast
  have "(- 1 :: int) < 0" by simp
  from num2hexstr_negative [OF this s, of True] show ?thesis by blast
qed

end
