(* ===== verification/Bitmap.thy ===== *)
theory Bitmap
  imports CString
begin

unbundle bit_operations_syntax

section \<open>Bitmaps (kernel/bitmap.c, include/bitmap.h)\<close>

text \<open>
  A \<open>struct bitmap\<close> at address \<open>b\<close>: the length in bytes at offset 0, the pointer to the
  bytes at offset 4. The loops read the two fields through the pointer in every iteration,
  as the code does. \<open>bitmap_holds\<close> relates the structure to the list of its bytes; the
  lemmas show what the operations do to the bits.
\<close>

definition bits_field :: "addr \<Rightarrow> addr" where
  "bits_field btmp = btmp + 4"

definition BITMAP_MASK :: u32 where
  "BITMAP_MASK = 1"

definition bitmap_assert :: "bool \<Rightarrow> nat \<Rightarrow> string \<Rightarrow> string \<Rightarrow> ('s, unit) comp" where
  "bitmap_assert b line fn cond = assert_or b (Panic ''kernel/bitmap.c'' line fn cond)"

definition bitmap_init :: "addr \<Rightarrow> ('z machine_scheme, unit) comp" where
  "bitmap_init btmp =
     cbind (load32 (bits_field btmp)) (\<lambda>bits.
     cbind (load32 btmp) (\<lambda>btmp_bytes_len. memset bits 0 btmp_bytes_len))"

text \<open>The value of \<open>btmp->bits[i]\<close>.\<close>

definition bits_at :: "addr \<Rightarrow> u32 \<Rightarrow> ('z machine_scheme, u8) comp" where
  "bits_at btmp i = cbind (load32 (bits_field btmp)) (\<lambda>bits. load8 (bits + i))"

definition bitmap_scan_test :: "addr \<Rightarrow> u32 \<Rightarrow> ('z machine_scheme, u32) comp" where
  "bitmap_scan_test btmp bit_idx =
     (let byte_idx = bit_idx div 8; bit_odd = bit_idx mod 8 in
      cbind (bits_at btmp byte_idx) (\<lambda>c. ret (ucast c AND push_bit (unat bit_odd) BITMAP_MASK)))"

definition bitmap_set :: "addr \<Rightarrow> u32 \<Rightarrow> u8 \<Rightarrow> ('z machine_scheme, unit) comp" where
  "bitmap_set btmp bit_idx value =
     cseq (bitmap_assert (value = 0 \<or> value = 1) 69 ''bitmap_set'' ''(value == 0) || (value == 1)'')
     (let byte_idx = bit_idx div 8; bit_odd = bit_idx mod 8 in
      cbind (load32 (bits_field btmp)) (\<lambda>bits.
      cbind (load8 (bits + byte_idx)) (\<lambda>c.
      if value \<noteq> 0
      then store8 (bits + byte_idx) (ucast (ucast c OR push_bit (unat bit_odd) BITMAP_MASK))
      else store8 (bits + byte_idx) (ucast (ucast c AND NOT (push_bit (unat bit_odd) BITMAP_MASK))))))"

subsection \<open>The scan\<close>

text \<open>The byte is read before the index is compared with the length.\<close>

partial_function (option) scan_bytes ::
  "addr \<Rightarrow> u32 \<Rightarrow> 'z machine_scheme \<Rightarrow> (fail + (u32 \<times> 'z machine_scheme)) option" where
  "scan_bytes btmp idx_byte s =
     (case bits_at btmp idx_byte s of Inl f \<Rightarrow> Some (Inl f) | Inr (c, s1) \<Rightarrow>
       if c = 0xff then
         (case load32 btmp s1 of Inl f \<Rightarrow> Some (Inl f) | Inr (btmp_bytes_len, s2) \<Rightarrow>
           if idx_byte < btmp_bytes_len then scan_bytes btmp (idx_byte + 1) s2
           else Some (Inr (idx_byte, s2)))
       else Some (Inr (idx_byte, s1)))"

partial_function (option) scan_bits ::
  "addr \<Rightarrow> u32 \<Rightarrow> nat \<Rightarrow> 'z machine_scheme \<Rightarrow> (fail + (nat \<times> 'z machine_scheme)) option" where
  "scan_bits btmp idx_byte idx_bit s =
     (case bits_at btmp idx_byte s of Inl f \<Rightarrow> Some (Inl f) | Inr (c, s1) \<Rightarrow>
       if ucast (push_bit idx_bit BITMAP_MASK) AND c \<noteq> 0
       then scan_bits btmp idx_byte (idx_bit + 1) s1
       else Some (Inr (idx_bit, s1)))"

text \<open>
  The second phase: \<open>bit_left\<close>, \<open>next_bit\<close> and \<open>count\<close> are unsigned; the result goes
  through the \<open>int\<close> variable \<open>bit_idx_start\<close>, which holds \<open>-1\<close> when the loop ends.
\<close>

fun scan_run :: "addr \<Rightarrow> u32 \<Rightarrow> nat \<Rightarrow> u32 \<Rightarrow> u32 \<Rightarrow> ('z machine_scheme, int) comp" where
  "scan_run btmp cnt 0 next_bit count = ret (- 1)"
| "scan_run btmp cnt (Suc bit_left) next_bit count =
     cbind (bitmap_scan_test btmp next_bit) (\<lambda>t.
       let count' = (if t = 0 then count + 1 else 0) in
       if count' = cnt then ret (sint (next_bit - cnt + 1))
       else scan_run btmp cnt bit_left (next_bit + 1) count')"

definition bitmap_scan :: "addr \<Rightarrow> u32 \<Rightarrow> ('z machine_scheme, int) comp" where
  "bitmap_scan btmp cnt =
     cbind (\<lambda>s. returning (scan_bytes btmp 0 s)) (\<lambda>idx_byte.
     cbind (load32 btmp) (\<lambda>btmp_bytes_len.
     cseq (bitmap_assert (idx_byte < btmp_bytes_len) 29 ''bitmap_scan'' ''idx_byte < btmp->btmp_bytes_len'')
     (if idx_byte = btmp_bytes_len then ret (- 1)
      else
        cbind (\<lambda>s. returning (scan_bits btmp idx_byte 0 s)) (\<lambda>idx_bit.
        let bit_idx_start = idx_byte * 8 + of_nat idx_bit in
        if cnt = 1 then ret (sint bit_idx_start)
        else
          let bit_left = (btmp_bytes_len - bit_idx_start) * 8 - of_nat idx_bit;
              next_bit = bit_idx_start + 1 in
          scan_run btmp cnt (unat bit_left) next_bit 1))))"

subsection \<open>The bits a bitmap holds\<close>

definition bitmap_holds :: "'z machine_scheme \<Rightarrow> addr \<Rightarrow> addr \<Rightarrow> u8 list \<Rightarrow> bool" where
  "bitmap_holds s b p bs \<longleftrightarrow> kcell s b \<and> kcell s (bits_field b) \<and> peek32 s b = of_nat (length bs) \<and>
     peek32 s (bits_field b) = p \<and> blk s p bs \<and> (bytes4 b \<union> bytes4 (bits_field b)) \<inter> span p (length bs) = {}"

definition bm_bit :: "u8 list \<Rightarrow> nat \<Rightarrow> bool" where
  "bm_bit bs i = bit (bs ! (i div 8)) (i mod 8)"

definition bm_update :: "u8 list \<Rightarrow> nat \<Rightarrow> bool \<Rightarrow> u8 list" where
  "bm_update bs i v = bs[i div 8 := (if v then bs ! (i div 8) OR push_bit (i mod 8) 1
     else bs ! (i div 8) AND NOT (push_bit (i mod 8) 1))]"

lemma blk_nth: "blk s p bs \<Longrightarrow> i < length bs \<Longrightarrow> kaddr s (p + of_nat i) \<and> peek8 s (p + of_nat i) = bs ! i"
proof (induction bs arbitrary: p i)
  case (Cons b bs)
  show ?case
  proof (cases i)
    case (Suc j)
    with Cons.IH [of "p + 1" j] Cons.prems show ?thesis by (simp add: algebra_simps)
  qed (use Cons.prems in simp)
qed simp

lemma blk_iff_nth: "blk s p bs \<longleftrightarrow> (\<forall>i < length bs. kaddr s (p + of_nat i) \<and> peek8 s (p + of_nat i) = bs ! i)"
proof (induction bs arbitrary: p)
  case (Cons b bs)
  have "(\<forall>i < Suc (length bs). P i) \<longleftrightarrow> P 0 \<and> (\<forall>i < length bs. P (Suc i))" for P
    by (metis less_Suc_eq_0_disj)
  with Cons show ?case by (simp add: algebra_simps)
qed simp

text \<open>What the reads of bits need: the pointer, and bytes behind it (perhaps more than the length).\<close>

definition bits_hold :: "'z machine_scheme \<Rightarrow> addr \<Rightarrow> addr \<Rightarrow> u8 list \<Rightarrow> bool" where
  "bits_hold s b p bs \<longleftrightarrow> kcell s (bits_field b) \<and> peek32 s (bits_field b) = p \<and> blk s p bs"

lemma bitmap_bits_hold: "bitmap_holds s b p bs \<Longrightarrow> bits_hold s b p bs"
  by (simp add: bitmap_holds_def bits_hold_def)

lemma bits_at_hold: "bits_hold s b p bs \<Longrightarrow> i < length bs \<Longrightarrow> bits_at b (of_nat i) s = Inr (bs ! i, s)"
  using blk_nth [of s p bs i] by (simp add: bits_hold_def bits_at_def comp_simps load32_kcell load8_kaddr)

lemmas bits_at_holds = bits_at_hold [OF bitmap_bits_hold]

lemma bitmap_len: "bitmap_holds s b p bs \<Longrightarrow> length bs \<le> 2 ^ 30"
  using room_less [OF blk_room] by (auto simp: bitmap_holds_def)

lemma unat_index: "unat i < 8 * length bs \<Longrightarrow> unat i div 8 < length bs"
  by (simp add: less_mult_imp_div_less mult.commute)

lemma bit_byte_AND: "n < 8 \<Longrightarrow> ucast (c :: u8) AND push_bit n (1 :: u32) = 0 \<longleftrightarrow> \<not> bit c n"
proof -
  assume n: "n < 8"
  have "ucast c AND push_bit n (1 :: u32) = (if bit c n then push_bit n 1 else 0)"
    by (rule bit_word_eqI) (use n in \<open>auto simp: bit_simps bit_1_iff\<close>)
  moreover have "push_bit n (1 :: u32) \<noteq> 0"
  proof -
    have "n \<in> {0, 1, 2, 3, 4, 5, 6, 7}" using n by auto
    then show ?thesis by auto
  qed
  ultimately show ?thesis by simp
qed

lemma word_div_8: "(i :: u32) div 8 = of_nat (unat i div 8)"
proof -
  have "unat i div 8 < 4294967296" using unat_u32_less [of i] by simp
  then show ?thesis by (simp add: unat_div word_unat_eq_iff unat_u32_of_nat)
qed

lemma scan_test_holds:
  assumes "bits_hold s b p bs" "unat i < 8 * length bs"
  shows "\<exists>r. bitmap_scan_test b i s = Inr (r, s) \<and> (r = 0 \<longleftrightarrow> \<not> bm_bit bs (unat i))"
proof -
  have d: "i div 8 = of_nat (unat i div 8)" by (rule word_div_8)
  have m: "unat (i mod 8) = unat i mod 8" by (simp add: unat_mod)
  show ?thesis
    using bits_at_hold [OF assms(1) unat_index [OF assms(2)]] bit_byte_AND [of "unat i mod 8" "bs ! (unat i div 8)"]
    by (simp add: bitmap_scan_test_def Let_def d m comp_simps BITMAP_MASK_def bm_bit_def)
qed

subsection \<open>Setting bits\<close>

lemma bit_update_byte:
  assumes "n < 8"
  shows "ucast (ucast c OR push_bit n (1 :: u32)) = (c :: u8) OR push_bit n 1"
    "ucast (ucast c AND NOT (push_bit n (1 :: u32))) = (c :: u8) AND NOT (push_bit n 1)"
  by (rule bit_word_eqI; use assms in \<open>auto simp: bit_simps\<close>)+

lemma bm_bit_update:
  assumes "i < 8 * length bs"
  shows "bm_bit (bm_update bs i v) j = (if j = i then v else bm_bit bs j)"
proof -
  have i: "i div 8 < length bs" using assms by (simp add: less_mult_imp_div_less mult.commute)
  have m: "i mod 8 < 8" "j mod 8 < 8" by simp_all
  have e: "j = i \<longleftrightarrow> j div 8 = i div 8 \<and> j mod 8 = i mod 8" by (metis div_mult_mod_eq)
  have b: "bit (c OR push_bit (i mod 8) 1) (k mod 8) = (k mod 8 = i mod 8 \<or> bit c (k mod 8))"
    "bit (c AND NOT (push_bit (i mod 8) 1)) (k mod 8) = (k mod 8 \<noteq> i mod 8 \<and> bit c (k mod 8))" for c :: u8 and k
    by (auto simp: bit_simps)
  show ?thesis using i by (cases "j div 8 = i div 8") (simp_all add: bm_bit_def bm_update_def e b del: push_bit_of_1)
qed

lemma bm_update_length [simp]: "length (bm_update bs i v) = length bs"
  by (simp add: bm_update_def)

lemma upd_within_bitmap_fields:
  assumes "bitmap_holds s b p bs" "upd_within (span p (length bs)) s t" "blk t p bs'" "length bs' = length bs"
  shows "bitmap_holds t b p bs'"
proof -
  have "bytes4 b \<inter> span p (length bs) = {}" "bytes4 (bits_field b) \<inter> span p (length bs) = {}"
    using assms(1) by (auto simp: bitmap_holds_def)
  then show ?thesis
    using assms upd_within_peek32 [OF assms(2)] upd_within_kcell [OF assms(2)] by (simp add: bitmap_holds_def)
qed

lemma bitmap_set_spec:
  assumes h: "bitmap_holds s b p bs" and i: "unat i < 8 * length bs" and v: "v = 0 \<or> v = 1"
  shows "\<exists>t. bitmap_set b i v s = Inr ((), t) \<and> bitmap_holds t b p (bm_update bs (unat i) (v = 1)) \<and>
    upd_within (span p (length bs)) s t"
proof -
  let ?n = "unat i div 8" and ?m = "unat i mod 8"
  let ?q = "p + of_nat ?n"
  let ?c = "bm_update bs (unat i) (v = 1) ! ?n"
  let ?t = "poke8 ?q ?c s"
  have n: "?n < length bs" by (rule unat_index [OF i])
  have q: "kaddr s ?q" "peek8 s ?q = bs ! ?n" using h blk_nth [of s p bs ?n] n by (auto simp: bitmap_holds_def)
  have c: "?c = (if v = 1 then bs ! ?n OR push_bit ?m 1 else bs ! ?n AND NOT (push_bit ?m 1))"
    using n by (simp add: bm_update_def)
  have u: "upd_within (span p (length bs)) s ?t" using q(1) span_at [OF n] by (rule upd_within_poke8)
  have "blk ?t p (bm_update bs (unat i) (v = 1))" unfolding blk_iff_nth
  proof (intro allI impI)
    fix j assume j: "j < length (bm_update bs (unat i) (v = 1))"
    have k: "kaddr s (p + of_nat j)" "peek8 s (p + of_nat j) = bs ! j"
      using h blk_nth [of s p bs j] j by (auto simp: bitmap_holds_def)
    have "p + of_nat j = ?q \<longleftrightarrow> j = ?n"
      using span_inj [of j ?n p] bitmap_len [OF h] j n by fastforce
    then show "kaddr ?t (p + of_nat j) \<and> peek8 ?t (p + of_nat j) = bm_update bs (unat i) (v = 1) ! j"
      using k q by (auto simp: kaddr_poke8 peek8_poke8 bm_update_def)
  qed
  with upd_within_bitmap_fields [OF h u] have "bitmap_holds ?t b p (bm_update bs (unat i) (v = 1))" by simp
  moreover have "bitmap_set b i v s = Inr ((), ?t)"
  proof -
    have f: "kcell s (bits_field b)" "peek32 s (bits_field b) = p" using h by (simp_all add: bitmap_holds_def)
    have m: "?m < 8" "unat (i mod 8) = ?m" by (simp_all add: unat_mod)
    show ?thesis using v f q m bit_update_byte [OF m(1), of "bs ! ?n"] c
      by (auto simp: bitmap_set_def bitmap_assert_def comp_simps Let_def load32_kcell load8_kaddr
        store8_kaddr word_div_8 BITMAP_MASK_def)
  qed
  ultimately show ?thesis using u by blast
qed

lemma bitmap_init_spec:
  assumes h: "bitmap_holds s b p bs" and p: "p \<noteq> 0"
  shows "\<exists>t. bitmap_init b s = Inr ((), t) \<and> bitmap_holds t b p (replicate (length bs) 0) \<and>
    upd_within (span p (length bs)) s t"
proof -
  have "room s p (length bs)" using h blk_room by (auto simp: bitmap_holds_def)
  from memset_spec [OF this p, of 0] obtain t where
    t: "memset p 0 (of_nat (length bs)) s = Inr ((), t)" "blk t p (replicate (length bs) 0)"
      "upd_within (span p (length bs)) s t" by blast
  have "bitmap_holds t b p (replicate (length bs) 0)"
    using t(2,3) by (intro upd_within_bitmap_fields [OF h]) simp_all
  with t h show ?thesis by (simp add: bitmap_init_def comp_simps load32_kcell bitmap_holds_def)
qed

subsection \<open>Scanning for one bit\<close>

text \<open>The byte loop stops at the first byte that is not full, at the length if all are.\<close>

lemma takeWhile_prop: "i < length (takeWhile P xs) \<Longrightarrow> P (xs ! i)"
proof (induction xs arbitrary: i)
  case (Cons x xs)
  then show ?case by (cases i) (auto split: if_splits)
qed simp

definition first_byte :: "u8 list \<Rightarrow> nat" where
  "first_byte bs = length (takeWhile (\<lambda>c. c = 0xff) bs)"

definition first_bit :: "u8 \<Rightarrow> nat" where
  "first_bit c = length (takeWhile (bit c) [0..<8])"

lemma scan_bytes_holds:
  assumes h: "bitmap_holds s b p bs" and e: "kaddr s (p + of_nat (length bs))"
  shows "i + first_byte (drop i bs) = n \<Longrightarrow> i \<le> length bs \<Longrightarrow>
    scan_bytes b (of_nat i) s = Some (Inr (of_nat n, s))"
proof (induction "length bs - i" arbitrary: i)
  case 0
  then have i: "i = length bs" "n = length bs" by (simp_all add: first_byte_def)
  have f: "kcell s (bits_field b)" "peek32 s (bits_field b) = p" "kcell s b" "peek32 s b = of_nat (length bs)"
    using h by (simp_all add: bitmap_holds_def)
  have "bits_at b (of_nat i) s = Inr (peek8 s (p + of_nat (length bs)), s)"
    using f e by (simp add: i bits_at_def comp_simps load32_kcell load8_kaddr)
  with f i show ?case by (simp add: scan_bytes.simps [of b] load32_kcell)
next
  case (Suc k)
  then have i: "i < length bs" by simp
  have f: "kcell s b" "peek32 s b = of_nat (length bs)" using h by (simp_all add: bitmap_holds_def)
  have d: "drop i bs = bs ! i # drop (Suc i) bs" by (rule Cons_nth_drop_Suc [OF i, symmetric])
  have lt: "(of_nat i :: u32) < of_nat (length bs)"
    using i bitmap_len [OF h] by (simp add: word_less_nat_alt unat_u32_of_nat)
  show ?case
  proof (cases "bs ! i = 0xff")
    case True
    with Suc.prems d have "Suc i + first_byte (drop (Suc i) bs) = n" by (simp add: first_byte_def)
    with Suc i have "scan_bytes b (of_nat (Suc i)) s = Some (Inr (of_nat n, s))" by (intro Suc.hyps(1)) simp_all
    with True f lt show ?thesis
      by (simp add: scan_bytes.simps [of b "of_nat i"] bits_at_holds [OF h i] load32_kcell algebra_simps)
  next
    case False
    with Suc.prems d have "n = i" by (simp add: first_byte_def)
    with False show ?thesis by (simp add: scan_bytes.simps [of b "of_nat i"] bits_at_holds [OF h i])
  qed
qed

text \<open>Where a byte is not full, the byte past the end is not read.\<close>

lemma scan_bytes_found:
  assumes h: "bitmap_holds s b p bs" and n: "n = first_byte bs" "n < length bs"
  shows "i \<le> n \<Longrightarrow> scan_bytes b (of_nat i) s = Some (Inr (of_nat n, s))"
proof (induction "n - i" arbitrary: i)
  case 0
  then have i: "i = n" by simp
  have "bs ! n \<noteq> 0xff" using n nth_length_takeWhile [of "\<lambda>c. c = 0xff" bs] by (simp add: first_byte_def)
  then show ?case by (simp add: i scan_bytes.simps [of b] bits_at_holds [OF h n(2)])
next
  case (Suc k)
  then have i: "i < n" by simp
  then have full: "bs ! i = 0xff"
    using n(1) takeWhile_prop [of i "\<lambda>c. c = 0xff" bs] by (simp add: first_byte_def)
  have f: "kcell s b" "peek32 s b = of_nat (length bs)" using h by (simp_all add: bitmap_holds_def)
  have lt: "(of_nat i :: u32) < of_nat (length bs)"
    using i n bitmap_len [OF h] by (simp add: word_less_nat_alt unat_u32_of_nat)
  have "scan_bytes b (of_nat (Suc i)) s = Some (Inr (of_nat n, s))" using Suc i by (intro Suc.hyps(1)) simp_all
  with full f lt i n show ?case
    by (simp add: scan_bytes.simps [of b "of_nat i"] bits_at_holds [OF h] load32_kcell algebra_simps)
qed

lemma first_bit_less: "c \<noteq> 0xff \<Longrightarrow> first_bit c < 8 \<and> \<not> bit c (first_bit c) \<and> (\<forall>j < first_bit c. bit c j)"
proof -
  assume c: "c \<noteq> 0xff"
  have "\<exists>j < 8. \<not> bit c j"
  proof (rule ccontr)
    assume "\<not> (\<exists>j < 8. \<not> bit c j)"
    then have "c = - 1" by (intro bit_word_eqI) (auto simp: bit_simps)
    with c show False by simp
  qed
  then obtain j where j: "j < 8" "\<not> bit c j" by blast
  have "first_bit c < 8"
  proof (rule ccontr)
    assume "\<not> first_bit c < 8"
    then have "length (takeWhile (bit c) [0..<8]) = length [0..<8]"
      using length_takeWhile_le [of "bit c" "[0..<8]"] by (simp add: first_bit_def)
    then have "takeWhile (bit c) [0..<8] = [0..<8]" by (metis takeWhile_eq_take take_all_iff order_refl)
    then have "\<forall>i \<in> set [0..<8]. bit c i" by (simp only: takeWhile_eq_all_conv)
    with j show False by auto
  qed
  moreover from this have "\<not> bit c (first_bit c)"
    using nth_length_takeWhile [of "bit c" "[0..<8]"] by (simp add: first_bit_def)
  moreover have "bit c i" if "i < first_bit c" for i
    using that \<open>first_bit c < 8\<close> takeWhile_prop [of i "bit c" "[0..<8]"] by (simp add: first_bit_def)
  ultimately show ?thesis by blast
qed

lemma ucast_mask_bit: "n < 8 \<Longrightarrow> ucast (push_bit n (1 :: u32)) AND (c :: u8) \<noteq> 0 \<longleftrightarrow> bit c n"
proof -
  assume n: "n < 8"
  have "ucast (push_bit n (1 :: u32)) AND c = (if bit c n then push_bit n 1 else 0)"
    by (rule bit_word_eqI) (use n in \<open>auto simp: bit_simps\<close>)
  moreover have "push_bit n (1 :: u8) \<noteq> 0"
  proof -
    have "n \<in> {0, 1, 2, 3, 4, 5, 6, 7}" using n by auto
    then show ?thesis by auto
  qed
  ultimately show ?thesis by simp
qed

lemma scan_bits_holds:
  assumes h: "bitmap_holds s b p bs" and n: "n < length bs" "bs ! n \<noteq> 0xff"
  shows "j \<le> first_bit (bs ! n) \<Longrightarrow> scan_bits b (of_nat n) j s = Some (Inr (first_bit (bs ! n), s))"
proof (induction "first_bit (bs ! n) - j" arbitrary: j)
  case 0
  then have "j = first_bit (bs ! n)" by simp
  with first_bit_less [OF n(2)] ucast_mask_bit [of j "bs ! n"] show ?case
    by (simp add: scan_bits.simps [of b] bits_at_holds [OF h n(1)] BITMAP_MASK_def)
next
  case (Suc k)
  then have j: "j < first_bit (bs ! n)" by simp
  have step: "scan_bits b (of_nat n) (j + 1) s = Some (Inr (first_bit (bs ! n), s))"
    by (rule Suc.hyps(1)) (use Suc.hyps(2) j in simp_all)
  have "ucast (push_bit j (1 :: u32)) AND bs ! n \<noteq> 0"
    using j first_bit_less [OF n(2)] ucast_mask_bit [of j "bs ! n"] by simp
  with step show ?case
    by (subst scan_bits.simps) (simp add: bits_at_holds [OF h n(1)] BITMAP_MASK_def)
qed

definition first_free :: "u8 list \<Rightarrow> nat" where
  "first_free bs = first_byte bs * 8 + first_bit (bs ! first_byte bs)"

lemma bm_bit_full: "i < 8 * length bs \<Longrightarrow> bs ! (i div 8) = 0xff \<Longrightarrow> bm_bit bs i"
proof -
  assume "bs ! (i div 8) = 0xff"
  then have "bs ! (i div 8) = - 1" by simp
  then show "bm_bit bs i" by (simp add: bm_bit_def del: One_nat_def)
qed

lemma first_free_props:
  assumes "\<exists>i < 8 * length bs. \<not> bm_bit bs i"
  shows "first_byte bs < length bs" "bs ! first_byte bs \<noteq> 0xff" "first_free bs < 8 * length bs"
    "\<not> bm_bit bs (first_free bs)" "\<forall>j < first_free bs. bm_bit bs j"
proof -
  from assms obtain i where i: "i < 8 * length bs" "\<not> bm_bit bs i" by blast
  have d: "i div 8 < length bs" using i(1) by (simp add: less_mult_imp_div_less mult.commute)
  show fb: "first_byte bs < length bs"
  proof (rule ccontr)
    assume "\<not> first_byte bs < length bs"
    with d have "i div 8 < length (takeWhile (\<lambda>c. c = 0xff) bs)" by (simp add: first_byte_def)
    then have "bs ! (i div 8) = 0xff" by (rule takeWhile_prop)
    with bm_bit_full [OF i(1)] i(2) show False by simp
  qed
  show nf: "bs ! first_byte bs \<noteq> 0xff"
    using fb nth_length_takeWhile [of "\<lambda>c. c = 0xff" bs] by (simp add: first_byte_def)
  note fbit = first_bit_less [OF nf]
  have dm: "first_free bs div 8 = first_byte bs" "first_free bs mod 8 = first_bit (bs ! first_byte bs)"
    using fbit by (simp_all add: first_free_def)
  show "first_free bs < 8 * length bs" using fb fbit by (simp add: first_free_def)
  show "\<not> bm_bit bs (first_free bs)" using fbit by (simp add: bm_bit_def dm)
  show "\<forall>j < first_free bs. bm_bit bs j"
  proof (intro allI impI)
    fix j assume j: "j < first_free bs"
    show "bm_bit bs j"
    proof (cases "j div 8 = first_byte bs")
      case True
      then have "j mod 8 < first_bit (bs ! first_byte bs)"
        using j div_mult_mod_eq [of j 8] by (simp add: first_free_def)
      with fbit True show ?thesis by (simp add: bm_bit_def)
    next
      case False
      have "j < (first_byte bs + 1) * 8" using j fbit by (simp add: first_free_def)
      then have "j div 8 < first_byte bs + 1" by (simp add: less_mult_imp_div_less)
      with False have lt: "j div 8 < first_byte bs" by simp
      then have "bs ! (j div 8) = 0xff" using takeWhile_prop [of "j div 8" "\<lambda>c. c = 0xff" bs] by (simp add: first_byte_def)
      moreover have "j < 8 * length bs" using lt fb div_less_iff_less_mult [of 8 j "length bs"] by simp
      ultimately show ?thesis using bm_bit_full by blast
    qed
  qed
qed

lemma sint_small: "n < 2 ^ 31 \<Longrightarrow> sint (of_nat n :: u32) = int n"
proof -
  assume n: "n < 2 ^ 31"
  then have "int n < 2 ^ 31" by simp
  then show ?thesis
    by (simp add: sint_uint signed_take_bit_int_eq_self uint_nat unat_u32_of_nat unsigned_of_nat take_bit_nat_eq_self)
qed

text \<open>The first phase of the scan, on a bitmap with a free bit.\<close>

lemma scan_first:
  assumes h: "bitmap_holds s b p bs" and f: "\<exists>i < 8 * length bs. \<not> bm_bit bs i"
  shows "scan_bytes b 0 s = Some (Inr (of_nat (first_byte bs), s))"
    "scan_bits b (of_nat (first_byte bs)) 0 s = Some (Inr (first_bit (bs ! first_byte bs), s))"
    "(of_nat (first_byte bs) :: u32) < of_nat (length bs)"
    "(of_nat (first_byte bs) :: u32) * 8 + of_nat (first_bit (bs ! first_byte bs)) = of_nat (first_free bs)"
  using scan_bytes_found [OF h refl first_free_props(1) [OF f], of 0]
    scan_bits_holds [OF h first_free_props(1,2) [OF f], of 0] first_free_props(1) [OF f] bitmap_len [OF h]
  by (simp_all add: word_less_nat_alt unat_u32_of_nat first_free_def)

lemma bitmap_scan_step:
  assumes h: "bitmap_holds s b p bs" and f: "\<exists>i < 8 * length bs. \<not> bm_bit bs i"
  shows "bitmap_scan b cnt s =
    (if cnt = 1 then Inr (sint (of_nat (first_free bs) :: u32), s)
     else scan_run b cnt (unat ((of_nat (length bs) - of_nat (first_free bs)) * 8
         - of_nat (first_bit (bs ! first_byte bs)) :: u32)) (of_nat (first_free bs) + 1) 1 s)"
proof -
  note sf = scan_first [OF h f]
  have len: "load32 b s = Inr (of_nat (length bs), s)" using h by (simp add: bitmap_holds_def load32_kcell)
  have ne: "(of_nat (first_byte bs) :: u32) \<noteq> of_nat (length bs)" using sf(3) by simp
  show ?thesis
    unfolding bitmap_scan_def bitmap_assert_def comp_simps Let_def
    by (cases "cnt = 1")
      (simp_all only: sf len ne returning_Some sum.case prod.case if_True if_False simp_thms)
qed

lemma bitmap_scan_one:
  assumes h: "bitmap_holds s b p bs" and f: "\<exists>i < 8 * length bs. \<not> bm_bit bs i" and l: "8 * length bs < 2 ^ 31"
  shows "bitmap_scan b 1 s = Inr (int (first_free bs), s)"
  using bitmap_scan_step [OF h f, of 1] sint_small [of "first_free bs"] first_free_props(3) [OF f] l by simp

lemma bitmap_scan_full:
  assumes h: "bitmap_holds s b p bs" and e: "kaddr s (p + of_nat (length bs))" and f: "\<forall>c \<in> set bs. c = 0xff"
  shows "bitmap_scan b cnt s = Inl (Panic ''kernel/bitmap.c'' 29 ''bitmap_scan'' ''idx_byte < btmp->btmp_bytes_len'')"
proof -
  have "first_byte bs = length bs" using f by (simp add: first_byte_def takeWhile_eq_all_conv [THEN iffD2])
  with scan_bytes_holds [OF h e, of 0 "length bs"] h show ?thesis
    by (simp add: bitmap_scan_def bitmap_assert_def comp_simps bitmap_holds_def load32_kcell)
qed

subsection \<open>Scanning for a run\<close>

text \<open>The run phase on the bits alone.\<close>

fun run_scan :: "(nat \<Rightarrow> bool) \<Rightarrow> nat \<Rightarrow> nat \<Rightarrow> nat \<Rightarrow> nat \<Rightarrow> nat option" where
  "run_scan f cnt 0 nx count = None"
| "run_scan f cnt (Suc left) nx count =
     (let count' = (if f nx then 0 else count + 1) in
      if count' = cnt then Some (nx + 1 - cnt) else run_scan f cnt left (nx + 1) count')"

definition free_run :: "(nat \<Rightarrow> bool) \<Rightarrow> nat \<Rightarrow> nat \<Rightarrow> bool" where
  "free_run f i cnt \<longleftrightarrow> (\<forall>j < cnt. \<not> f (i + j))"

definition run_inv :: "(nat \<Rightarrow> bool) \<Rightarrow> nat \<Rightarrow> nat \<Rightarrow> nat \<Rightarrow> nat \<Rightarrow> bool" where
  "run_inv f cnt start nx count \<longleftrightarrow> count < cnt \<and> start + count \<le> nx \<and> (\<forall>j. nx - count \<le> j \<longrightarrow> j < nx \<longrightarrow> \<not> f j) \<and>
     (nx - count = start \<or> f (nx - count - 1)) \<and> (\<forall>i \<ge> start. i + cnt \<le> nx \<longrightarrow> \<not> free_run f i cnt)"

lemma run_inv_step:
  assumes i: "run_inv f cnt start nx count" and c: "count' = (if f nx then 0 else count + 1)" and n: "count' \<noteq> cnt"
  shows "run_inv f cnt start (nx + 1) count'"
proof -
  have "\<not> free_run f i cnt" if "i \<ge> start" "i + cnt \<le> nx + 1" for i
  proof (cases "i + cnt \<le> nx")
    case True
    with i that show ?thesis by (simp add: run_inv_def)
  next
    case False
    then have e: "i + cnt = nx + 1" using that by simp
    show ?thesis
    proof (cases "f nx")
      case True
      then have "f (i + (cnt - 1))" "cnt - 1 < cnt" using e i by (simp_all add: run_inv_def)
      then show ?thesis unfolding free_run_def by blast
    next
      case False
      with n c i have lt: "count + 1 < cnt" by (simp add: run_inv_def)
      with e that i have "nx - count \<noteq> start" by (auto simp: run_inv_def)
      with i have "f (nx - count - 1)" by (simp add: run_inv_def)
      moreover have "nx - count - 1 = i + (nx - count - 1 - i)" "nx - count - 1 - i < cnt" using e lt by simp_all
      ultimately show ?thesis unfolding free_run_def by metis
    qed
  qed
  moreover have "\<not> f j" if "nx + 1 - count' \<le> j" "j < nx + 1" for j
  proof (cases "j = nx")
    case True
    with that c show ?thesis by (auto split: if_splits)
  next
    case False
    with that c i show ?thesis by (auto simp: run_inv_def split: if_splits)
  qed
  moreover have "count' < cnt" "start + count' \<le> nx + 1" using i c n by (simp_all add: run_inv_def split: if_splits)
  moreover have "nx + 1 - count' = start \<or> f (nx + 1 - count' - 1)" using i c by (simp add: run_inv_def)
  ultimately show ?thesis unfolding run_inv_def by blast
qed

lemma run_scan_spec:
  "run_inv f cnt start nx count \<Longrightarrow>
    (case run_scan f cnt left nx count of
      None \<Rightarrow> \<forall>i \<ge> start. i + cnt \<le> nx + left \<longrightarrow> \<not> free_run f i cnt
    | Some r \<Rightarrow> start \<le> r \<and> r + cnt \<le> nx + left \<and> free_run f r cnt \<and> (\<forall>i \<ge> start. i < r \<longrightarrow> \<not> free_run f i cnt))"
proof (induction left arbitrary: nx count)
  case 0
  then show ?case by (simp add: run_inv_def)
next
  case (Suc left)
  let ?c = "if f nx then 0 else count + 1"
  show ?case
  proof (cases "?c = cnt")
    case True
    have nf: "\<not> f nx" "count + 1 = cnt" using True Suc.prems by (auto simp: run_inv_def split: if_splits)
    have "free_run f (nx + 1 - cnt) cnt" unfolding free_run_def
    proof (intro allI impI)
      fix j assume "j < cnt"
      with nf Suc.prems show "\<not> f (nx + 1 - cnt + j)"
        by (cases "nx + 1 - cnt + j = nx") (auto simp: run_inv_def)
    qed
    moreover have "start \<le> nx + 1 - cnt" "cnt \<le> nx + 1" using Suc.prems nf by (auto simp: run_inv_def)
    moreover have "\<not> free_run f i cnt" if "i \<ge> start" "i < nx + 1 - cnt" for i
      using Suc.prems that by (simp add: run_inv_def)
    moreover have "run_scan f cnt (Suc left) nx count = Some (nx + 1 - cnt)" using True by (simp add: Let_def)
    ultimately show ?thesis by auto
  next
    case False
    have "run_scan f cnt (Suc left) nx count = run_scan f cnt left (nx + 1) ?c" using False by (simp add: Let_def)
    moreover have "nx + 1 + left = nx + Suc left" by simp
    ultimately show ?thesis using Suc.IH [OF run_inv_step [OF Suc.prems refl False]] by metis
  qed
qed

lemma scan_run_eq:
  assumes h: "bits_hold s b p bs" and l: "8 * length bs < 2 ^ 31" and c: "unat cnt = n"
  shows "nx + left \<le> 8 * length bs \<Longrightarrow> count < n \<Longrightarrow> count \<le> nx \<Longrightarrow>
    scan_run b cnt left (of_nat nx) (of_nat count) s =
      Inr (case run_scan (bm_bit bs) n left nx count of None \<Rightarrow> - 1 | Some r \<Rightarrow> int r, s)"
proof (induction left arbitrary: nx count)
  case 0
  then show ?case by (simp add: ret_def)
next
  case (Suc left)
  have nx: "unat (of_nat nx :: u32) = nx" using Suc.prems l by (simp add: unat_u32_of_nat)
  obtain r where r: "bitmap_scan_test b (of_nat nx) s = Inr (r, s)" "r = 0 \<longleftrightarrow> \<not> bm_bit bs nx"
    using scan_test_holds [OF h, of "of_nat nx"] Suc.prems(1) by (auto simp: nx)
  let ?c = "if bm_bit bs nx then 0 else count + 1"
  have w: "(if r = 0 then of_nat count + 1 else 0) = (of_nat ?c :: u32)" using r(2) by simp
  have n: "n < 2 ^ 32" using c unat_u32_less [of cnt] by simp
  have cw: "(of_nat ?c :: u32) = cnt \<longleftrightarrow> ?c = n"
  proof -
    have "?c < 4294967296" using Suc.prems(2) n by simp
    then have "unat (of_nat ?c :: u32) = ?c" by (rule unat_u32_of_nat)
    then show ?thesis using c word_unat_eq_iff [of "of_nat ?c :: u32" cnt] by metis
  qed
  show ?case
  proof (cases "?c = n")
    case True
    have nf: "\<not> bm_bit bs nx" "count + 1 = n" using True Suc.prems(2) by (auto split: if_splits)
    have "(of_nat nx - cnt + 1 :: u32) = of_nat (nx + 1 - n)"
    proof -
      have "cnt = of_nat n" using c by auto
      then show ?thesis using nf(2) Suc.prems(3) by (simp add: of_nat_diff)
    qed
    moreover have "sint (of_nat (nx + 1 - n) :: u32) = int (nx + 1 - n)"
      by (rule sint_small) (use Suc.prems l in simp)
    ultimately have "sint (of_nat nx - cnt + 1 :: u32) = int (nx + 1 - n)" by simp
    then show ?thesis using True cw w r(1) by (simp add: cbind_def Let_def ret_def)
  next
    case False
    have step: "scan_run b cnt left (of_nat (nx + 1)) (of_nat ?c) s =
        Inr (case run_scan (bm_bit bs) n left (nx + 1) ?c of None \<Rightarrow> - 1 | Some r \<Rightarrow> int r, s)"
      by (rule Suc.IH) (use Suc.prems False in auto)
    have "scan_run b cnt (Suc left) (of_nat nx) (of_nat count) s = scan_run b cnt left (of_nat nx + 1) (of_nat ?c) s"
      using False cw w r(1) by (simp only: scan_run.simps cbind_def Let_def sum.case prod.case if_False)
    with step False show ?thesis by (simp add: Let_def add.commute)
  qed
qed

text \<open>
  The number of bits the second phase looks at is computed as
  \<open>(btmp_bytes_len - bit_idx_start) * 8 - idx_bit\<close>, which mixes bytes and bits. It stays in
  range when the first free bit is not bit 0 and \<open>8 * start + idx_bit\<close> does not exceed the
  number of bits; then the scan finds the first run in that window.
\<close>

definition scan_window :: "u8 list \<Rightarrow> nat" where
  "scan_window bs = 8 * length bs - 8 * first_free bs - first_bit (bs ! first_byte bs)"

lemma bitmap_scan_run:
  assumes h: "bitmap_holds s b p bs" and f: "\<exists>i < 8 * length bs. \<not> bm_bit bs i" and l: "8 * length bs < 2 ^ 31"
    and n: "2 \<le> unat cnt" and z: "0 < first_free bs"
    and w: "8 * first_free bs + first_bit (bs ! first_byte bs) \<le> 8 * length bs"
  shows "\<exists>r. bitmap_scan b cnt s = Inr (r, s) \<and>
    (if r = - 1 then \<forall>i. i + unat cnt \<le> first_free bs + 1 + scan_window bs \<longrightarrow> \<not> free_run (bm_bit bs) i (unat cnt)
     else 0 \<le> r \<and> nat r + unat cnt \<le> 8 * length bs \<and> free_run (bm_bit bs) (nat r) (unat cnt) \<and>
       (\<forall>i < nat r. \<not> free_run (bm_bit bs) i (unat cnt)))"
proof -
  let ?f = "bm_bit bs" and ?n = "unat cnt" and ?st = "first_free bs" and ?bit = "first_bit (bs ! first_byte bs)"
  note ff = first_free_props [OF f]
  have left: "unat ((of_nat (length bs) - of_nat ?st) * 8 - of_nat ?bit :: u32) = scan_window bs"
  proof -
    have "?st \<le> length bs" using w by simp
    then have "((of_nat (length bs) - of_nat ?st) * 8 - of_nat ?bit :: u32) = of_nat (scan_window bs)"
      using w by (simp add: scan_window_def of_nat_diff right_diff_distrib')
    moreover have "scan_window bs < 4294967296" using l by (simp add: scan_window_def)
    ultimately show ?thesis by (simp add: unat_u32_of_nat)
  qed
  have rng: "?st + 1 + scan_window bs \<le> 8 * length bs" using w z by (simp add: scan_window_def)
  have "run_inv ?f ?n ?st (?st + 1) 1"
    unfolding run_inv_def using n ff(4) by (auto simp: less_Suc_eq_le)
  note sp = run_scan_spec [OF this, of "scan_window bs"]
  have c1: "cnt \<noteq> 1" using n by auto
  have "bitmap_scan b cnt s =
      Inr (case run_scan ?f ?n (scan_window bs) (?st + 1) 1 of None \<Rightarrow> - 1 | Some r \<Rightarrow> int r, s)"
    using bitmap_scan_step [OF h f, of cnt] c1 left
      scan_run_eq [OF bitmap_bits_hold [OF h] l refl, of "?st + 1" "scan_window bs" 1 cnt] rng n z by (simp add: add.commute)
  moreover have low: "\<not> free_run ?f i ?n" if "i < ?st" for i
  proof
    assume "free_run ?f i ?n"
    then have "\<not> ?f (i + 0)" using n unfolding free_run_def by (metis less_le_trans zero_less_numeral)
    with ff(5) that show False by simp
  qed
  ultimately show ?thesis
  proof (cases "run_scan ?f ?n (scan_window bs) (?st + 1) 1")
    case None
    with sp low \<open>bitmap_scan b cnt s = _\<close> show ?thesis by (auto simp: not_le intro!: exI [of _ "- 1"]) (metis not_le)
  next
    case (Some r)
    with sp low rng \<open>bitmap_scan b cnt s = _\<close> show ?thesis
      by (intro exI [of _ "int r"]) (auto simp: not_le, metis not_le)
  qed
qed

subsection \<open>Properties\<close>

lemma boot_bitmap:
  assumes "length bs + length ex < 32"
  shows "\<exists>s :: machine. bitmap_holds s 0xc0010000 0xc0030000 bs \<and> blk s 0xc0030000 (bs @ ex)"
proof -
  let ?s = "poke32 0xc0010004 0xc0030000 (poke32 0xc0010000 (of_nat (length bs)) boot_machine)"
  have k: "kcell boot_machine 0xc0010000" "kcell boot_machine 0xc0010004" by (simp_all add: boot_kcell)
  have u: "upd_within (bytes4 0xc0010000 \<union> bytes4 0xc0010004) boot_machine ?s"
    by (intro upd_within_trans [OF upd_within_poke32 upd_within_poke32]) (use k in \<open>auto simp: kcell_poke32\<close>)
  have r: "room boot_machine 0xc0030000 (length (bs @ ex))"
    by (rule boot_room) (use assms in simp_all)
  have rs: "room ?s 0xc0030000 (length (bs @ ex))" using r by (simp only: upd_within_room [OF u])
  from put_blk [OF rs] obtain t where t: "blk t 0xc0030000 (bs @ ex)"
    "upd_within (span 0xc0030000 (length (bs @ ex))) ?s t" by blast
  have d: "bytes4 c \<inter> span 0xc0030000 n = {}" if "c \<in> {0xc0010000, 0xc0010004}" "n < 32" for c n
  proof -
    have "span c 4 \<inter> span 0xc0030000 n = {}" by (rule span_sep) (use that in auto)
    moreover have "bytes4 c = span c 4" by (auto simp: bytes4_def eval_nat_numeral add.assoc)
    ultimately show ?thesis by simp
  qed
  have ks: "kcell ?s 0xc0010000" "kcell ?s 0xc0010004" using k by (simp_all add: kcell_poke32)
  have "peek32 t 0xc0010000 = peek32 ?s 0xc0010000" "peek32 t 0xc0010004 = peek32 ?s 0xc0010004"
    by (rule upd_within_peek32 [OF t(2)]; use ks d assms in simp)+
  moreover have "peek32 ?s 0xc0010000 = of_nat (length bs)" "peek32 ?s 0xc0010004 = 0xc0030000"
    using k by (simp_all add: peek32_poke32 kcell_poke32)
  moreover have "kcell t = kcell ?s" by (rule upd_within_kcell [OF t(2)])
  moreover have "blk t 0xc0030000 bs" using t(1) by (simp add: blk_append)
  moreover have "(bytes4 0xc0010000 \<union> bytes4 0xc0010004) \<inter> span 0xc0030000 (length bs) = {}"
    using d [of "0xc0010000" "length bs"] d [of "0xc0010004" "length bs"] assms by auto
  ultimately have "bitmap_holds t 0xc0010000 0xc0030000 bs"
    using ks by (simp add: bitmap_holds_def bits_field_def)
  with t(1) show ?thesis by blast
qed

text \<open>
  C28: setting a bit of the bitmap to 0 or 1 changes that bit and no other, testing a bit
  reads it, initialising clears all; a value other than 0 and 1 fails the assertion.
\<close>

theorem bitmap_set_test_correct:
  assumes "bitmap_holds s b p bs" "unat i < 8 * length bs"
  shows "(\<forall>v. v = 0 \<or> v = 1 \<longrightarrow> (\<exists>t bs'. bitmap_set b i v s = Inr ((), t) \<and> bitmap_holds t b p bs' \<and>
      length bs' = length bs \<and> (\<forall>j. bm_bit bs' j = (if j = unat i then v = 1 else bm_bit bs j)) \<and>
      upd_within (span p (length bs)) s t)) \<and>
    (\<exists>r. bitmap_scan_test b i s = Inr (r, s) \<and> (r \<noteq> 0 \<longleftrightarrow> bm_bit bs (unat i))) \<and>
    (\<exists>t bs'. bitmap_init b s = Inr ((), t) \<and> bitmap_holds t b p bs' \<and> length bs' = length bs \<and>
      (\<forall>j < 8 * length bs. \<not> bm_bit bs' j) \<and> upd_within (span p (length bs)) s t) \<and>
    (\<forall>v. v \<noteq> 0 \<longrightarrow> v \<noteq> 1 \<longrightarrow> bitmap_set b i v s =
      Inl (Panic ''kernel/bitmap.c'' 69 ''bitmap_set'' ''(value == 0) || (value == 1)''))"
proof (intro conjI allI impI)
  fix v :: u8 assume v: "v = 0 \<or> v = 1"
  from bitmap_set_spec [OF assms v] obtain t where "bitmap_set b i v s = Inr ((), t)"
    "bitmap_holds t b p (bm_update bs (unat i) (v = 1))" "upd_within (span p (length bs)) s t" by blast
  moreover have "\<forall>j. bm_bit (bm_update bs (unat i) (v = 1)) j = (if j = unat i then v = 1 else bm_bit bs j)"
    by (intro allI bm_bit_update [OF assms(2)])
  ultimately show "\<exists>t bs'. bitmap_set b i v s = Inr ((), t) \<and> bitmap_holds t b p bs' \<and> length bs' = length bs \<and>
      (\<forall>j. bm_bit bs' j = (if j = unat i then v = 1 else bm_bit bs j)) \<and> upd_within (span p (length bs)) s t"
    by (intro exI [of _ t] exI [of _ "bm_update bs (unat i) (v = 1)"] conjI bm_update_length)
next
  show "\<exists>r. bitmap_scan_test b i s = Inr (r, s) \<and> (r \<noteq> 0 \<longleftrightarrow> bm_bit bs (unat i))"
    using scan_test_holds [OF bitmap_bits_hold [OF assms(1)] assms(2)] by auto
  have "blk s p bs" "bs \<noteq> []" using assms by (auto simp: bitmap_holds_def)
  then have "p \<noteq> 0" by (cases bs) auto
  from bitmap_init_spec [OF assms(1) this]
  show "\<exists>t bs'. bitmap_init b s = Inr ((), t) \<and> bitmap_holds t b p bs' \<and> length bs' = length bs \<and>
      (\<forall>j < 8 * length bs. \<not> bm_bit bs' j) \<and> upd_within (span p (length bs)) s t"
    by (elim exE conjE) (force simp: bm_bit_def less_mult_imp_div_less mult.commute)
next
  fix v :: u8 assume "v \<noteq> 0" "v \<noteq> 1"
  then show "bitmap_set b i v s =
      Inl (Panic ''kernel/bitmap.c'' 69 ''bitmap_set'' ''(value == 0) || (value == 1)'')"
    by (simp add: bitmap_set_def bitmap_assert_def comp_simps)
qed

theorem bitmap_set_test_correct_witness:
  "\<exists>s :: machine. \<exists>t. bitmap_holds s 0xc0010000 0xc0030000 [0xfd, 1] \<and>
     bitmap_set 0xc0010000 9 1 s = Inr ((), t) \<and> bitmap_scan_test 0xc0010000 9 s = Inr (0, s)"
proof -
  obtain s :: machine where s: "bitmap_holds s 0xc0010000 0xc0030000 [0xfd, 1]"
    using boot_bitmap [of "[0xfd, 1]" "[]"] by auto
  have i: "unat (9 :: u32) < 8 * length [0xfd, 1 :: u8]" by simp
  have "\<not> bm_bit [0xfd, 1] 9" by (simp add: bm_bit_def)
  moreover have "unat (9 :: u32) = 9" by simp
  ultimately obtain r where "bitmap_scan_test 0xc0010000 9 s = Inr (r, s)" "r = 0"
    using conjunct1 [OF conjunct2 [OF bitmap_set_test_correct [OF s i]]] by metis
  moreover obtain t where "bitmap_set 0xc0010000 9 1 s = Inr ((), t)"
    using conjunct1 [OF bitmap_set_test_correct [OF s i]] by blast
  ultimately show ?thesis using s by blast
qed

text \<open>
  C27: asked for one bit, the scan returns the index of the first clear bit and changes
  nothing; on a full bitmap the assertion fails (the byte after the bitmap being readable),
  so the documented result -1 never comes back.
\<close>

theorem bitmap_scan_one_correct:
  assumes "bitmap_holds s b p bs" "8 * length bs < 2 ^ 31" "kaddr s (p + of_nat (length bs))"
  shows "if \<forall>i < 8 * length bs. bm_bit bs i
    then bitmap_scan b cnt s = Inl (Panic ''kernel/bitmap.c'' 29 ''bitmap_scan'' ''idx_byte < btmp->btmp_bytes_len'')
    else \<exists>r. bitmap_scan b 1 s = Inr (int r, s) \<and> r < 8 * length bs \<and> \<not> bm_bit bs r \<and> (\<forall>j < r. bm_bit bs j)"
proof (cases "\<forall>i < 8 * length bs. bm_bit bs i")
  case True
  have "\<forall>c \<in> set bs. c = 0xff"
  proof
    fix c assume "c \<in> set bs"
    then obtain n where n: "n < length bs" "bs ! n = c" by (auto simp: in_set_conv_nth)
    have "bit c k" if "k < 8" for k
    proof -
      have "bm_bit bs (n * 8 + k)" using True n(1) that by simp
      with n that show ?thesis by (simp add: bm_bit_def)
    qed
    then have "c = - 1" by (intro bit_word_eqI) (auto simp: bit_simps)
    then show "c = 0xff" by simp
  qed
  with True bitmap_scan_full [OF assms(1,3)] show ?thesis by simp
next
  case False
  then have "\<exists>i < 8 * length bs. \<not> bm_bit bs i" by blast
  with False bitmap_scan_one [OF assms(1) _ assms(2)] first_free_props [of bs] show ?thesis by auto
qed

theorem bitmap_scan_one_correct_witness:
  "\<exists>s :: machine. bitmap_holds s 0xc0010000 0xc0030000 [0xff, 0x0b] \<and>
     (\<exists>r. bitmap_scan 0xc0010000 1 s = Inr (int r, s) \<and> r < 16)"
proof -
  obtain s :: machine where s: "bitmap_holds s 0xc0010000 0xc0030000 [0xff, 0x0b]"
    "blk s 0xc0030000 ([0xff, 0x0b] @ [0])"
    using boot_bitmap [of "[0xff, 0x0b]" "[0]"] by auto
  have "kaddr s (0xc0030000 + of_nat (length [0xff, 0x0b :: u8]))" using s(2) by simp
  moreover have "\<not> (\<forall>i < 8 * length [0xff, 0x0b :: u8]. bm_bit [0xff, 0x0b] i)"
    by (intro notI, elim allE [of _ 10]) (simp add: bm_bit_def)
  moreover have "8 * length [0xff, 0x0b :: u8] < 2 ^ 31" by simp
  ultimately have "\<exists>r. bitmap_scan 0xc0010000 1 s = Inr (int r, s) \<and> r < 8 * length [0xff, 0x0b :: u8]"
    using bitmap_scan_one_correct [OF s(1), of 1] by (metis (no_types, lifting))
  with s(1) show ?thesis by (intro exI [of _ s]) simp
qed

text \<open>
  C29: asked for a run of two or more, the scan (when its window \<open>bit_left\<close> does not wrap)
  terminates, changes nothing, and returns the start of the first run of free bits, which
  lies inside the bitmap; -1 means that no run ends inside the window.
\<close>

theorem bitmap_scan_run_correct:
  assumes "bitmap_holds s b p bs" "8 * length bs < 2 ^ 31" "2 \<le> unat cnt" "bm_bit bs 0"
    "\<exists>i < 8 * length bs. \<not> bm_bit bs i" "8 * first_free bs + first_free bs mod 8 \<le> 8 * length bs"
  shows "\<exists>r. bitmap_scan b cnt s = Inr (r, s) \<and>
    (if r = - 1 then \<forall>i. i + unat cnt \<le> first_free bs + 1 + scan_window bs \<longrightarrow> \<not> free_run (bm_bit bs) i (unat cnt)
     else 0 \<le> r \<and> nat r + unat cnt \<le> 8 * length bs \<and> free_run (bm_bit bs) (nat r) (unat cnt) \<and>
       (\<forall>i < nat r. \<not> free_run (bm_bit bs) i (unat cnt)))"
proof (rule bitmap_scan_run [OF assms(1,5,2,3)])
  note ff = first_free_props [OF assms(5)]
  show "0 < first_free bs" using ff(4) assms(4) by (cases "first_free bs = 0") auto
  have "first_free bs mod 8 = first_bit (bs ! first_byte bs)"
    using first_bit_less [OF ff(2)] by (simp add: first_free_def)
  with assms(6) show "8 * first_free bs + first_bit (bs ! first_byte bs) \<le> 8 * length bs" by simp
qed

theorem bitmap_scan_run_correct_witness:
  "\<exists>s :: machine. \<exists>r. bitmap_holds s 0xc0010000 0xc0030000 [0x05, 0, 0, 0] \<and>
     bitmap_scan 0xc0010000 3 s = Inr (r, s) \<and> r \<noteq> - 1"
proof -
  let ?bs = "[0x05, 0, 0, 0] :: u8 list"
  obtain s :: machine where s: "bitmap_holds s 0xc0010000 0xc0030000 ?bs"
    using boot_bitmap [of ?bs "[]"] by auto
  have ff: "first_free ?bs = 1" by code_simp
  have w: "scan_window ?bs = 23" by code_simp
  have b: "bm_bit ?bs 0" "\<not> bm_bit ?bs 1" by (simp_all add: bm_bit_def)
  have "free_run (bm_bit ?bs) 3 3" by code_simp
  then have n: "\<exists>i. i + 3 \<le> first_free ?bs + 1 + scan_window ?bs \<and> free_run (bm_bit ?bs) i 3"
    unfolding ff w by (intro exI [of _ 3]) simp
  have a: "8 * length ?bs < 2 ^ 31" "2 \<le> unat (3 :: u32)" "8 * first_free ?bs + first_free ?bs mod 8 \<le> 8 * length ?bs"
    unfolding ff by simp_all
  have e: "\<exists>i < 8 * length ?bs. \<not> bm_bit ?bs i" using b(2) by (intro exI [of _ 1]) simp
  from bitmap_scan_run_correct [OF s a(1,2) b(1) e a(3)] n s show ?thesis by (auto split: if_splits)
qed

lemma scan_two:
  assumes "bits_hold s b p bs" "8 * length bs < 2 ^ 31" "unat cnt = n" "nx + left \<le> 8 * length bs" "1 < n" "1 < nx"
  shows "scan_run b cnt left (of_nat nx) 1 s =
    Inr (case run_scan (bm_bit bs) n left nx 1 of None \<Rightarrow> - 1 | Some r \<Rightarrow> int r, s)"
  using scan_run_eq [OF assms(1-4), of 1] assms(5,6) by simp

text \<open>
  C30: the window is computed from the length in bytes minus a bit index. With bits 0, 2
  and 8 taken out of 16, a request for two bits is refused although the last seven are free.
\<close>

theorem bitmap_scan_misses_run:
  assumes "bitmap_holds s b p [0xfd, 0x01]"
  shows "bitmap_scan b 2 s = Inr (- 1, s) \<and> free_run (bm_bit [0xfd, 0x01]) 9 2"
proof
  let ?bs = "[0xfd, 0x01] :: u8 list"
  have ff: "first_free ?bs = 1" "first_bit (?bs ! first_byte ?bs) = 1"
    by code_simp+
  have f: "\<exists>i < 8 * length ?bs. \<not> bm_bit ?bs i" by (intro exI [of _ 1]) (simp add: bm_bit_def)
  have "run_scan (bm_bit ?bs) 2 7 2 1 = None" by code_simp
  with scan_two [OF bitmap_bits_hold [OF assms], of 2 2 2 7] bitmap_scan_step [OF assms f, of 2] ff
  show "bitmap_scan b 2 s = Inr (- 1, s)" by simp
  show "free_run (bm_bit ?bs) 9 2" by code_simp
qed

theorem bitmap_scan_misses_run_witness:
  "\<exists>s :: machine. bitmap_holds s 0xc0010000 0xc0030000 [0xfd, 0x01] \<and> bitmap_scan 0xc0010000 2 s = Inr (- 1, s)"
proof -
  obtain s :: machine where s: "bitmap_holds s 0xc0010000 0xc0030000 [0xfd, 0x01]"
    using boot_bitmap [of "[0xfd, 0x01]" "[]"] by auto
  from bitmap_scan_misses_run [OF s] s show ?thesis by blast
qed

text \<open>
  With bit 0 free the window is one bit too long, and the scan reads past the end: a
  bitmap of 8 bits followed by a zero byte grants a run of 9.
\<close>

theorem bitmap_scan_overruns:
  assumes "bitmap_holds s b p [0]" "kaddr s (p + 1)" "peek8 s (p + 1) = 0"
  shows "bitmap_scan b 9 s = Inr (0, s)"
proof -
  let ?bs = "[0] :: u8 list"
  have ff: "first_free ?bs = 0" "first_bit (?bs ! first_byte ?bs) = 0"
    by code_simp+
  have f: "\<exists>i < 8 * length ?bs. \<not> bm_bit ?bs i" by (intro exI [of _ 0]) (simp add: bm_bit_def)
  have h: "bits_hold s b p [0, 0]" using assms by (simp add: bitmap_holds_def bits_hold_def)
  have "run_scan (bm_bit [0, 0]) 9 8 1 1 = Some 0" by code_simp
  with scan_run_eq [OF h, of 9 9 1 8 1] bitmap_scan_step [OF assms(1) f, of 9] ff
  show ?thesis by simp
qed

theorem bitmap_scan_overruns_witness:
  "\<exists>s :: machine. bitmap_holds s 0xc0010000 0xc0030000 [0] \<and> bitmap_scan 0xc0010000 9 s = Inr (0, s)"
proof -
  obtain s :: machine where s: "bitmap_holds s 0xc0010000 0xc0030000 [0]" "blk s 0xc0030000 ([0] @ [0])"
    using boot_bitmap [of "[0]" "[0]"] by auto
  then have "kaddr s (0xc0030000 + 1)" "peek8 s (0xc0030000 + 1) = 0" by simp_all
  from bitmap_scan_overruns [OF s(1) this] s(1) show ?thesis by blast
qed

end
