(* ===== verification/Paging.thy ===== *)
theory Paging
  imports Machine
begin

unbundle bit_operations_syntax

section \<open>Page tables that map themselves\<close>

text \<open>
  \<open>paging_ok\<close>: the last directory entry points at the directory, every other present kernel
  entry points at a table of its own. Under it the kernel reaches its page tables
  through the top 4 MB of its address space, and writing one absent entry maps one page
  and disturbs no other mapping and no kernel data; that is the content of this theory.
\<close>

definition pde_of :: "'z machine_scheme \<Rightarrow> u32 \<Rightarrow> u32" where
  "pde_of s vp = le32 (pmem s) (pd_entry_addr s vp)"

definition dir_frame :: "'z machine_scheme \<Rightarrow> u32" where
  "dir_frame s = drop_bit 12 (cr3 s)"

definition paging_ok :: "'z machine_scheme \<Rightarrow> bool" where
  "paging_ok s \<longleftrightarrow> pde_of s 0xfffff AND 1 \<noteq> 0 \<and> drop_bit 12 (pde_of s 0xfffff) = dir_frame s \<and>
     (\<forall>vp. 0xc0000 \<le> vp \<longrightarrow> vp < 0xffc00 \<longrightarrow> pde_of s vp AND 1 \<noteq> 0 \<longrightarrow> drop_bit 12 (pde_of s vp) \<noteq> dir_frame s) \<and>
     (\<forall>vp vq. 0xc0000 \<le> vp \<longrightarrow> vp < 0xffc00 \<longrightarrow> 0xc0000 \<le> vq \<longrightarrow> vq < 0xffc00 \<longrightarrow>
        pde_of s vp AND 1 \<noteq> 0 \<longrightarrow> pde_of s vq AND 1 \<noteq> 0 \<longrightarrow>
        drop_bit 12 (pde_of s vp) = drop_bit 12 (pde_of s vq) \<longrightarrow> drop_bit 10 vp = drop_bit 10 vq)"

lemma paging_ok_self:
  assumes "paging_ok s"
  shows "pde_of s 0xfffff AND 1 \<noteq> 0" "drop_bit 12 (pde_of s 0xfffff) = dir_frame s"
  using assms unfolding paging_ok_def by blast+

lemma paging_ok_own:
  "paging_ok s \<Longrightarrow> 0xc0000 \<le> vp \<Longrightarrow> vp < 0xffc00 \<Longrightarrow> pde_of s vp AND 1 \<noteq> 0 \<Longrightarrow> drop_bit 12 (pde_of s vp) \<noteq> dir_frame s"
  unfolding paging_ok_def by blast

lemma paging_ok_distinct:
  "paging_ok s \<Longrightarrow> 0xc0000 \<le> vp \<Longrightarrow> vp < 0xffc00 \<Longrightarrow> 0xc0000 \<le> vq \<Longrightarrow> vq < 0xffc00 \<Longrightarrow>
    pde_of s vp AND 1 \<noteq> 0 \<Longrightarrow> pde_of s vq AND 1 \<noteq> 0 \<Longrightarrow>
    drop_bit 12 (pde_of s vp) = drop_bit 12 (pde_of s vq) \<Longrightarrow> drop_bit 10 vp = drop_bit 10 vq"
  unfolding paging_ok_def by blast

lemma frame_of_pde:
  "frame_of s vp = (if pde_of s vp AND 1 = 0 then None
     else if le32 (pmem s) (pt_entry_addr (pde_of s vp) vp) AND 1 = 0 then None
     else Some (drop_bit 12 (le32 (pmem s) (pt_entry_addr (pde_of s vp) vp))))"
  by (simp add: frame_of_def pde_of_def Let_def)

lemma pd_entry_cong: "drop_bit 10 vp = drop_bit 10 vq \<Longrightarrow> pd_entry_addr s vp = pd_entry_addr s vq"
  by (simp add: pd_entry_addr_def)

lemma pde_of_cong: "drop_bit 10 vp = drop_bit 10 vq \<Longrightarrow> pde_of s vp = pde_of s vq"
  by (simp only: pde_of_def pd_entry_addr_def)

lemma pd_entry_phys:
  assumes "vp < 0x100000"
  shows "pd_entry_addr s vp = phys_addr (dir_frame s) (push_bit 2 (drop_bit 10 vp))"
proof -
  have "unat vp < 1048576" using assms by (simp add: word_less_nat_alt)
  then obtain k where k: "unat vp div 1024 = k" "k < 1024" by (simp add: less_mult_imp_div_less)
  have "unat (drop_bit 10 vp) = k" by (simp only: unat_drop) (simp add: k(1))
  then have "unat (push_bit 2 (drop_bit 10 vp)) = k * 2 ^ 2 mod 2 ^ LENGTH(32)" by (simp only: unat_push)
  with k(2) have l: "unat (push_bit 2 (drop_bit 10 vp)) < 4096" by simp
  have "push_bit 2 (drop_bit 10 vp) AND 0xfff = push_bit 2 (drop_bit 10 vp)"
    by (subst word_unat_eq_iff, subst unat_and_fff, rule mod_less [OF l])
  then show ?thesis
    by (simp only: pd_entry_addr_def phys_addr_def dir_frame_def page_mask_def and_page_mask)
qed

lemma pt_entry_phys: "pt_entry_addr pde vp = phys_addr (drop_bit 12 pde) (push_bit 2 (vp AND 0x3ff))"
proof -
  have l: "unat (push_bit 2 (vp AND 0x3ff)) < 4096" by (simp only: unat_push unat_and_3ff) simp
  have "push_bit 2 (vp AND 0x3ff) AND 0xfff = push_bit 2 (vp AND 0x3ff)"
    by (subst word_unat_eq_iff, subst unat_and_fff, rule mod_less [OF l])
  then show ?thesis by (simp add: pt_entry_addr_def phys_addr_def page_mask_def and_page_mask)
qed

lemma aligned4_pt_entry: "aligned4 (pt_entry_addr pde vp)"
proof -
  have "unat (drop_bit 12 pde) < 1048576" using drop_12_less [of pde] by (simp add: word_less_nat_alt)
  moreover have "aligned4 (push_bit 2 (vp AND 0x3ff))"
    unfolding aligned4_unat by (simp only: unat_push unat_and_3ff) simp
  ultimately show ?thesis by (simp add: pt_entry_phys aligned4_phys_addr)
qed

lemma pt_entry_inj:
  assumes "pt_entry_addr d vp = pt_entry_addr d' vq"
  shows "drop_bit 12 d = drop_bit 12 d'" "vp AND 0x3ff = vq AND 0x3ff"
proof -
  have f: "unat (drop_bit 12 x) < 1048576" for x :: u32 using drop_12_less [of x] by (simp add: word_less_nat_alt)
  have u: "unat (pt_entry_addr d vp) = unat (drop_bit 12 d) * 4096 + unat vp mod 1024 * 4" for d vp
    unfolding pt_entry_phys unat_phys_addr [OF f] by (simp only: unat_push unat_and_3ff) simp
  have e: "unat (drop_bit 12 d) * 1024 + unat vp mod 1024 = unat (drop_bit 12 d') * 1024 + unat vq mod 1024"
    using arg_cong [OF assms, of unat] unfolding u by simp
  from arg_cong [OF e, of "\<lambda>x. x div 1024"] show "drop_bit 12 d = drop_bit 12 d'" by (simp add: word_unat_eq_iff)
  from arg_cong [OF e, of "\<lambda>x. x mod 1024"] show "vp AND 0x3ff = vq AND 0x3ff"
    by (simp only: word_unat_eq_iff unat_and_3ff) simp
qed

lemma page_eq:
  assumes "drop_bit 10 (vp :: u32) = drop_bit 10 vq" "vp AND 0x3ff = vq AND 0x3ff"
  shows "vp = vq"
proof -
  have "unat vp div 1024 = unat vq div 1024" using arg_cong [OF assms(1), of unat] by (simp only: unat_drop) simp
  moreover have "unat vp mod 1024 = unat vq mod 1024" using arg_cong [OF assms(2), of unat] by (simp only: unat_and_3ff)
  ultimately show ?thesis by (metis div_mult_mod_eq word_unat_eq_iff)
qed

text \<open>In which frame the entry of a page lies.\<close>

lemma drop_pt_entry_addr: "drop_bit 12 (pt_entry_addr pde vp) = drop_bit 12 pde"
  using drop_pt_entry [of 0 pde vp] by simp

lemma le32_set_other_frame:
  assumes "drop_bit 12 p \<noteq> drop_bit 12 q" "aligned4 q" "\<forall>i < 4. drop_bit 12 (p + i) = drop_bit 12 p"
  shows "le32 (set_le32 q v m) p = le32 m p"
proof (rule le32_cong)
  fix i :: addr assume i: "i < 4"
  have "p + i \<noteq> q + j" if "j < 4" for j
    using assms i that drop_aligned4_bytes [OF assms(2) that] by metis
  then show "set_le32 q v m (p + i) = m (p + i)" by (rule set_le32_byte_other)
qed

text \<open>
  The step: the entry of page \<open>vp\<close>, whose table is present, is written.
\<close>

definition entry_ok :: "'z machine_scheme \<Rightarrow> u32 \<Rightarrow> bool" where
  "entry_ok s vp \<longleftrightarrow> paging_ok s \<and> 0xc0000 \<le> vp \<and> vp < 0xffc00 \<and> pde_of s vp AND 1 \<noteq> 0"

definition entry_addr :: "'z machine_scheme \<Rightarrow> u32 \<Rightarrow> addr" where
  "entry_addr s vp = pt_entry_addr (pde_of s vp) vp"

definition set_entry :: "u32 \<Rightarrow> u32 \<Rightarrow> 'z machine_scheme \<Rightarrow> 'z machine_scheme" where
  "set_entry vp pte s = s\<lparr>pmem := set_le32 (entry_addr s vp) pte (pmem s)\<rparr>"

lemma entry_page_less: "vp < 0xffc00 \<Longrightarrow> vp < (0x100000 :: u32)"
  by (simp add: word_less_nat_alt)

lemma entry_frame:
  assumes "entry_ok s vp"
  shows "drop_bit 12 (entry_addr s vp) = drop_bit 12 (pde_of s vp)" "drop_bit 12 (entry_addr s vp) \<noteq> dir_frame s"
proof -
  show f: "drop_bit 12 (entry_addr s vp) = drop_bit 12 (pde_of s vp)"
    by (simp add: entry_addr_def drop_pt_entry_addr)
  show "drop_bit 12 (entry_addr s vp) \<noteq> dir_frame s"
    unfolding f using assms by (intro paging_ok_own) (simp_all add: entry_ok_def)
qed

lemma set_entry_regs [simp]:
  "cr3 (set_entry vp pte s) = cr3 s" "pd_entry_addr (set_entry vp pte s) = pd_entry_addr s"
  "dir_frame (set_entry vp pte s) = dir_frame s" "esp (set_entry vp pte s) = esp s"
  "eflags (set_entry vp pte s) = eflags s" "console (set_entry vp pte s) = console s"
  by (simp_all add: set_entry_def pd_entry_addr_def dir_frame_def fun_eq_iff)

lemma pde_of_set_entry:
  assumes e: "entry_ok s vp" and vq: "vq < 0x100000"
  shows "pde_of (set_entry vp pte s) vq = pde_of s vq"
proof -
  have d: "drop_bit 12 (pd_entry_addr s vq + i) = dir_frame s" if "i < 4" for i
    using drop_pd_entry [OF vq that] by (simp add: dir_frame_def)
  have d0: "drop_bit 12 (pd_entry_addr s vq) = dir_frame s" using d [of 0] by simp
  have "le32 (set_le32 (entry_addr s vp) pte (pmem s)) (pd_entry_addr s vq) = le32 (pmem s) (pd_entry_addr s vq)"
  proof (rule le32_set_other_frame)
    show "drop_bit 12 (pd_entry_addr s vq) \<noteq> drop_bit 12 (entry_addr s vp)"
      using entry_frame(2) [OF e] d0 by metis
    show "aligned4 (entry_addr s vp)" by (simp add: entry_addr_def aligned4_pt_entry)
    show "\<forall>i < 4. drop_bit 12 (pd_entry_addr s vq + i) = drop_bit 12 (pd_entry_addr s vq)" using d d0 by metis
  qed
  moreover have "pmem (set_entry vp pte s) = set_le32 (entry_addr s vp) pte (pmem s)" by (simp add: set_entry_def)
  ultimately show ?thesis by (simp only: pde_of_def set_entry_regs)
qed

lemma table_frame_set_entry:
  assumes "entry_ok s vp"
  shows "table_frame (set_entry vp pte s) f = table_frame s f"
  using pde_of_set_entry [OF assms, unfolded pde_of_def set_entry_regs] unfolding table_frame_def set_entry_regs
  by (metis (no_types, lifting))

lemma paging_ok_set_entry:
  assumes "entry_ok s vp"
  shows "paging_ok (set_entry vp pte s)"
proof -
  let ?t = "set_entry vp pte s"
  have p: "pde_of (set_entry vp pte s) vq = pde_of s vq" if "vq < 0xffc00" for vq
    using pde_of_set_entry [OF assms entry_page_less [OF that]] .
  have "pde_of (set_entry vp pte s) 0xfffff = pde_of s 0xfffff" by (rule pde_of_set_entry [OF assms]) simp
  moreover have ok: "paging_ok s" using assms by (simp add: entry_ok_def)
  ultimately have self: "pde_of ?t 0xfffff AND 1 \<noteq> 0" "drop_bit 12 (pde_of ?t 0xfffff) = dir_frame s"
    using paging_ok_self [OF ok] by simp_all
  show ?thesis
    unfolding paging_ok_def set_entry_regs
  proof (intro conjI allI impI self)
    fix v assume v: "0xc0000 \<le> v" "v < 0xffc00" "pde_of ?t v AND 1 \<noteq> 0"
    show "drop_bit 12 (pde_of ?t v) \<noteq> dir_frame s"
      using paging_ok_own [OF ok v(1,2)] v(3) unfolding p [OF v(2)] .
  next
    fix v w assume v: "0xc0000 \<le> v" "v < 0xffc00" "0xc0000 \<le> w" "w < 0xffc00" "pde_of ?t v AND 1 \<noteq> 0"
      "pde_of ?t w AND 1 \<noteq> 0" "drop_bit 12 (pde_of ?t v) = drop_bit 12 (pde_of ?t w)"
    show "drop_bit 10 v = drop_bit 10 w"
      using paging_ok_distinct [OF ok v(1-4)] v(5-7) unfolding p [OF v(2)] p [OF v(4)] .
  qed
qed

lemma frame_of_set_entry_same:
  assumes "entry_ok s vp" "pte AND 1 \<noteq> 0"
  shows "frame_of (set_entry vp pte s) vp = Some (drop_bit 12 pte)"
proof -
  have l: "vp < 0x100000" using assms(1) entry_page_less by (simp add: entry_ok_def)
  have "le32 (pmem (set_entry vp pte s)) (pt_entry_addr (pde_of s vp) vp) = pte"
    by (simp add: set_entry_def entry_addr_def le32_set_le32_same)
  then show ?thesis
    using assms by (simp add: frame_of_pde pde_of_set_entry [OF assms(1) l] entry_ok_def)
qed

lemma frame_of_set_entry_other:
  assumes e: "entry_ok s vp" and r: "0xc0000 \<le> vq" "vq < 0x100000" and n: "vq \<noteq> vp"
  shows "frame_of (set_entry vp pte s) vq = frame_of s vq"
proof (cases "pde_of s vq AND 1 = 0")
  case True
  then show ?thesis by (simp add: frame_of_pde pde_of_set_entry [OF e r(2)])
next
  case False
  have ok: "paging_ok s" and rng: "0xc0000 \<le> vp" "vp < 0xffc00" and pde: "pde_of s vp AND 1 \<noteq> 0"
    using e by (simp_all add: entry_ok_def)
  have "pt_entry_addr (pde_of s vq) vq \<noteq> entry_addr s vp"
  proof
    assume q: "pt_entry_addr (pde_of s vq) vq = entry_addr s vp"
    from pt_entry_inj [OF q [unfolded entry_addr_def]]
    have f: "drop_bit 12 (pde_of s vq) = drop_bit 12 (pde_of s vp)" and i: "vq AND 0x3ff = vp AND 0x3ff" by simp_all
    show False
    proof (cases "vq < 0xffc00")
      case True
      have "drop_bit 10 vq = drop_bit 10 vp"
        using paging_ok_distinct [OF ok r(1) True rng False pde f] .
      with page_eq i n show False by blast
    next
      case high: False
      have v: "1047552 \<le> unat vq" "unat vq < 1048576" using high r(2) by (simp_all add: word_less_nat_alt)
      have "unat vq div 2 ^ 10 = 1023" using v by simp
      moreover have "unat (0xfffff :: u32) div 2 ^ 10 = 1023" by simp
      ultimately have "unat (drop_bit 10 vq) = unat (drop_bit 10 (0xfffff :: u32))" by (simp only: unat_drop)
      then have "drop_bit 10 vq = drop_bit 10 0xfffff" by (simp only: word_unat_eq_iff)
      then have "pde_of s vq = pde_of s 0xfffff" by (rule pde_of_cong)
      then have "drop_bit 12 (pde_of s vq) = dir_frame s" using paging_ok_self(2) [OF ok] by simp
      with f entry_frame [OF e] show False by metis
    qed
  qed
  then have "le32 (pmem (set_entry vp pte s)) (pt_entry_addr (pde_of s vq) vq) = le32 (pmem s) (pt_entry_addr (pde_of s vq) vq)"
    by (simp add: set_entry_def set_le32_other aligned4_pt_entry entry_addr_def)
  then show ?thesis by (simp only: frame_of_pde pde_of_set_entry [OF e r(2)])
qed

text \<open>The page becomes kernel data when its frame is no table and not mapped elsewhere.\<close>

definition frame_fresh :: "'z machine_scheme \<Rightarrow> u32 \<Rightarrow> bool" where
  "frame_fresh s f \<longleftrightarrow> \<not> table_frame s f \<and>
     (\<forall>vq. 0xc0000 \<le> vq \<longrightarrow> vq < 0x100000 \<longrightarrow> frame_of s vq \<noteq> Some f)"

lemma kpage_set_entry:
  assumes e: "entry_ok s vp" and p: "pte AND 1 \<noteq> 0" and f: "frame_fresh s (drop_bit 12 pte)"
  shows "kpage (set_entry vp pte s) vp" "kpage s vq \<Longrightarrow> vq \<noteq> vp \<Longrightarrow> kpage (set_entry vp pte s) vq"
proof -
  let ?t = "set_entry vp pte s"
  have rng: "0xc0000 \<le> vp" "vp < 0x100000" using e entry_page_less by (simp_all add: entry_ok_def)
  note same = frame_of_set_entry_same [OF e p] and other = frame_of_set_entry_other [OF e]
  have u: "\<forall>vq. 0xc0000 \<le> vq \<longrightarrow> vq < 0x100000 \<longrightarrow> frame_of ?t vq = Some (drop_bit 12 pte) \<longrightarrow> vq = vp"
    using f other unfolding frame_fresh_def by metis
  have "\<not> table_frame ?t (drop_bit 12 pte)" using f by (simp add: table_frame_set_entry [OF e] frame_fresh_def)
  then show "kpage ?t vp"
    unfolding kpage_def using rng same u by (intro conjI exI [of _ "drop_bit 12 pte"])
  assume k: "kpage s vq" "vq \<noteq> vp"
  then obtain g where g: "0xc0000 \<le> vq" "vq < 0x100000" "frame_of s vq = Some g" "\<not> table_frame s g"
    "\<forall>vr. 0xc0000 \<le> vr \<longrightarrow> vr < 0x100000 \<longrightarrow> frame_of s vr = Some g \<longrightarrow> vr = vq" unfolding kpage_def by blast
  have ng: "g \<noteq> drop_bit 12 pte" using f g(1-3) unfolding frame_fresh_def by blast
  have "vr = vq" if "0xc0000 \<le> vr" "vr < 0x100000" "frame_of ?t vr = Some g" for vr
  proof (cases "vr = vp")
    case True
    with that(3) same ng show ?thesis by simp
  next
    case False
    then have "frame_of s vr = Some g" using that(3) other [OF that(1,2)] by simp
    with that(1,2) g(5) show ?thesis by blast
  qed
  moreover have "frame_of ?t vq = Some g" using other [OF g(1,2) k(2)] g(3) by simp
  moreover have "\<not> table_frame ?t g" using g(4) by (simp add: table_frame_set_entry [OF e])
  ultimately show "kpage ?t vq" unfolding kpage_def using g(1,2) by blast
qed

lemma table_frame_entry: "entry_ok s vp \<Longrightarrow> table_frame s (drop_bit 12 (entry_addr s vp))"
  using entry_page_less [of vp] entry_frame(1) [of s vp] by (auto simp: table_frame_def pde_of_def entry_ok_def)

lemma kaddr_set_entry:
  assumes e: "entry_ok s vp" and a: "kaddr s a" "drop_bit 12 a \<noteq> vp"
  shows "translate (set_entry vp pte s) a = translate s a" "peek8 (set_entry vp pte s) a = peek8 s a"
proof -
  have r: "0xc0000 \<le> drop_bit 12 a" "drop_bit 12 a < 0x100000" using a(1) by (simp_all add: kaddr_def kpage_def)
  show tr: "translate (set_entry vp pte s) a = translate s a"
    by (simp only: translate_def frame_of_set_entry_other [OF e r a(2)])
  obtain p where p: "translate s a = Some p" "\<not> table_frame s (drop_bit 12 p)" using a(1) by (rule kaddr_translate)
  have "p \<noteq> entry_addr s vp + i" if "i < 4" for i
    using p(2) table_frame_entry [OF e] drop_aligned4_bytes [of "entry_addr s vp" i] that
    by (auto simp: entry_addr_def aligned4_pt_entry)
  then show "peek8 (set_entry vp pte s) a = peek8 s a"
    using tr p(1) by (simp add: peek8_def set_entry_def set_le32_byte_other)
qed

end
