(* ===== verification/KSpace.thy ===== *)
theory KSpace
  imports Paging CString
begin

unbundle bit_operations_syntax

section \<open>The kernel's address space as it grows\<close>

text \<open>
  What the clients of the page allocator need: a state that has more mapped kernel pages
  than another and keeps the data of the other, and the facts about page tables that
  updates of kernel data keep.
\<close>

subsection \<open>Growing the kernel's address space\<close>

text \<open>
  \<open>extends_within B s t\<close>: only memory differs; every kernel data address of \<open>s\<close> is one of
  \<open>t\<close>, at the same physical address, and holds the same byte unless it is in \<open>B\<close>. Unlike
  \<open>upd_within\<close>, \<open>t\<close> may have more of them.
\<close>

definition extends_within :: "addr set \<Rightarrow> 'z machine_scheme \<Rightarrow> 'z machine_scheme \<Rightarrow> bool" where
  "extends_within B s t \<longleftrightarrow> (\<exists>m. t = s\<lparr>pmem := m\<rparr>) \<and>
     (\<forall>a. kaddr s a \<longrightarrow> kaddr t a \<and> translate t a = translate s a \<and> (a \<notin> B \<longrightarrow> peek8 t a = peek8 s a))"

lemma extends_upd: "upd_within B s t \<Longrightarrow> extends_within B s t"
  by (auto simp: extends_within_def upd_within_def tables_same_def)

lemma extends_trans [trans]:
  "extends_within B s t \<Longrightarrow> extends_within B t u \<Longrightarrow> extends_within B s u"
  by (fastforce simp: extends_within_def)

lemma extends_mono: "extends_within B s t \<Longrightarrow> B \<subseteq> C \<Longrightarrow> extends_within C s t"
  by (fastforce simp: extends_within_def)

lemma extends_kaddr: "extends_within B s t \<Longrightarrow> kaddr s a \<Longrightarrow> kaddr t a"
  by (simp add: extends_within_def)

lemma extends_kcell: "extends_within B s t \<Longrightarrow> kcell s a \<Longrightarrow> kcell t a"
  by (simp add: extends_within_def kcell_def)

lemma extends_peek8: "extends_within B s t \<Longrightarrow> kaddr s a \<Longrightarrow> a \<notin> B \<Longrightarrow> peek8 t a = peek8 s a"
  by (simp add: extends_within_def)

lemma extends_peek32:
  assumes e: "extends_within B s t" and c: "kcell s c" and d: "bytes4 c \<inter> B = {}"
  shows "peek32 t c = peek32 s c"
proof -
  have "kaddr s (c + i)" if "i < 4" for i using c that by (simp add: kcell_def kaddr_byte)
  then have b: "peek8 t (c + i) = peek8 s (c + i)" if "i < 4" "c + i \<notin> B" for i
    using that extends_peek8 [OF e] by blast
  from b [of 0] b [of 1] b [of 2] b [of 3] d
  have "peek8 t c = peek8 s c" "peek8 t (c + 1) = peek8 s (c + 1)"
    "peek8 t (c + 2) = peek8 s (c + 2)" "peek8 t (c + 3) = peek8 s (c + 3)" by (auto simp: bytes4_def)
  then show ?thesis using c extends_kcell [OF e c] by (simp add: peek32_bytes)
qed

lemma extends_room: "extends_within B s t \<Longrightarrow> room s p n \<Longrightarrow> room t p n"
  by (simp add: room_def extends_within_def)

lemma extends_blk:
  assumes "extends_within B s t" "span p (length bs) \<inter> B = {}"
  shows "blk s p bs \<Longrightarrow> blk t p bs"
  using assms(2) by (induction bs arbitrary: p) (auto simp: extends_peek8 [OF assms(1)] extends_kaddr [OF assms(1)])

lemma tables_same_pde: "tables_same s t \<Longrightarrow> vp < 0x100000 \<Longrightarrow> pde_of t vp = pde_of s vp"
  using frame_of_cong(1) unfolding tables_same_def pde_of_def by (auto simp: pd_entry_addr_def)

lemma tables_same_frame: "tables_same s t \<Longrightarrow> vp < 0x100000 \<Longrightarrow> frame_of t vp = frame_of s vp"
  using frame_of_cong(2) unfolding tables_same_def by auto

lemma tables_same_table: "tables_same s t \<Longrightarrow> table_frame t f = table_frame s f"
  using table_frame_cong unfolding tables_same_def by auto

lemma tables_same_fresh: "tables_same s t \<Longrightarrow> frame_fresh t f = frame_fresh s f"
  unfolding frame_fresh_def
  by (simp add: tables_same_table tables_same_frame cong: imp_cong)

lemma tables_same_paging:
  assumes "tables_same s t"
  shows "paging_ok t = paging_ok s"
proof -
  have p: "pde_of t v = pde_of s v" if "v < 0xffc00" for v
    using tables_same_pde [OF assms entry_page_less [OF that]] .
  have q: "pde_of t 0xfffff = pde_of s 0xfffff" by (rule tables_same_pde [OF assms]) simp
  have "dir_frame t = dir_frame s" using assms by (auto simp: tables_same_def dir_frame_def)
  then show ?thesis unfolding paging_ok_def by (simp only: p q cong: imp_cong)
qed

text \<open>Mapping a page that was absent.\<close>

lemma extends_set_entry:
  assumes e: "entry_ok s vp" and p: "pte AND 1 \<noteq> 0" and f: "frame_fresh s (drop_bit 12 pte)"
    and n: "frame_of s vp = None"
  shows "extends_within {} s (set_entry vp pte s)"
    "drop_bit 12 a = vp \<Longrightarrow> kaddr (set_entry vp pte s) a" "drop_bit 12 a = vp \<Longrightarrow> \<not> kaddr s a"
proof -
  have np: "\<not> kpage s vp" using n by (simp add: kpage_def)
  then show "drop_bit 12 a = vp \<Longrightarrow> \<not> kaddr s a" by (simp add: kaddr_def)
  show "drop_bit 12 a = vp \<Longrightarrow> kaddr (set_entry vp pte s) a"
    using kpage_set_entry(1) [OF e p f] by (simp add: kaddr_def)
  have "kaddr (set_entry vp pte s) a \<and> translate (set_entry vp pte s) a = translate s a \<and>
      peek8 (set_entry vp pte s) a = peek8 s a" if "kaddr s a" for a
  proof -
    have ne: "drop_bit 12 a \<noteq> vp" using that np by (auto simp: kaddr_def)
    then have "kaddr (set_entry vp pte s) a"
      using kpage_set_entry(2) [OF e p f _ ne] that by (simp add: kaddr_def)
    with kaddr_set_entry [OF e that ne] show ?thesis by blast
  qed
  moreover have "\<exists>m. set_entry vp pte s = s\<lparr>pmem := m\<rparr>" by (auto simp: set_entry_def)
  ultimately show "extends_within {} s (set_entry vp pte s)" unfolding extends_within_def by blast
qed

lemma kcell_set_entry:
  assumes "entry_ok s vp" "frame_of s vp = None" "pte AND 1 \<noteq> 0" "frame_fresh s (drop_bit 12 pte)"
  shows "\<forall>c. kcell s c \<longrightarrow> kcell (set_entry vp pte s) c \<and> peek32 (set_entry vp pte s) c = peek32 s c"
  using extends_kcell extends_peek32 extends_set_entry(1) [OF assms(1,3,4,2)] by fastforce

end
