(* ===== verification/Memory.thy ===== *)
theory Memory
  imports Bitmap KSpace
begin

unbundle bit_operations_syntax

section \<open>Memory management (kernel/memory.c, include/memory.h)\<close>

text \<open>
  Two pools of physical pages and one pool of kernel virtual pages, each a bitmap; a page
  is mapped by writing its entry through the recursive directory entry. The pools are
  structures in memory: \<open>mem_objs\<close> has the addresses of the three globals, a \<open>struct pool\<close>
  has its bitmap at offset 0, \<open>phy_addr_start\<close> at 8 and \<open>pool_size\<close> at 12, and
  \<open>kernel_addr\<close> its bitmap at 0 and \<open>vaddr_start\<close> at 8.
\<close>

record mem_objs =
  kernel_pool :: addr
  user_pool :: addr
  kernel_addr :: addr

datatype pool_flags = PF_KERNEL | PF_USER

definition PAGE_SIZE :: u32 where
  "PAGE_SIZE = 4096"

definition MEM_BITMAP_BASE :: u32 where
  "MEM_BITMAP_BASE = 0xc009a000"

definition K_HEAD_START :: u32 where
  "K_HEAD_START = 0xc0100000"

text \<open>\<open>PG_US_U | PG_RW_W | PG_P_1\<close>\<close>

definition PG_ATTR :: u32 where
  "PG_ATTR = 4 OR 2 OR 1"

definition phy_addr_start :: "addr \<Rightarrow> addr" where
  "phy_addr_start pool = pool + 8"

definition pool_size :: "addr \<Rightarrow> addr" where
  "pool_size pool = pool + 12"

definition vaddr_start :: "addr \<Rightarrow> addr" where
  "vaddr_start va = va + 8"

definition memory_assert :: "bool \<Rightarrow> nat \<Rightarrow> string \<Rightarrow> string \<Rightarrow> ('s, unit) comp" where
  "memory_assert b line fn cond = assert_or b (Panic ''kernel/memory.c'' line fn cond)"

subsection \<open>Initialisation\<close>

definition printPoolInfo :: "string \<Rightarrow> string \<Rightarrow> addr \<Rightarrow> ('z machine_scheme, unit) comp" where
  "printPoolInfo fmt1 fmt2 p =
     cbind (load32 (bits_field p)) (\<lambda>bits.
     cseq (log_console (Printk fmt1 [bits]))
    (cbind (load32 (phy_addr_start p)) (\<lambda>start. log_console (Printk fmt2 [start]))))"

definition printKernelPoolInfo :: "addr \<Rightarrow> ('z machine_scheme, unit) comp" where
  "printKernelPoolInfo = printPoolInfo ''Kernel pool bitmap address: %d\<newline>'' ''Kernel pool physical address: %d\<newline>''"

definition printUserPoolInfo :: "addr \<Rightarrow> ('z machine_scheme, unit) comp" where
  "printUserPoolInfo = printPoolInfo ''User pool bitmap address: %d\<newline>'' ''User pool physical address: %d\<newline>''"

text \<open>The sizes the initialisation computes, at the widths of the variables.\<close>

definition used_mem :: u32 where
  "used_mem = PAGE_SIZE * 256 + 0x100000"

definition free_pages :: "u32 \<Rightarrow> u16" where
  "free_pages all_memory = ucast ((all_memory - used_mem) div PAGE_SIZE)"

definition kernel_free_pages :: "u32 \<Rightarrow> u16" where
  "kernel_free_pages all_memory = drop_bit 1 (free_pages all_memory)"

definition user_free_pages :: "u32 \<Rightarrow> u16" where
  "user_free_pages all_memory = free_pages all_memory - kernel_free_pages all_memory"

definition kernel_bitmap_length :: "u32 \<Rightarrow> u32" where
  "kernel_bitmap_length all_memory = ucast (kernel_free_pages all_memory) div 8"

definition user_bitmap_length :: "u32 \<Rightarrow> u32" where
  "user_bitmap_length all_memory = ucast (user_free_pages all_memory) div 8"

definition mem_pool_init :: "mem_objs \<Rightarrow> u32 \<Rightarrow> ('z machine_scheme, unit) comp" where
  "mem_pool_init mo all_memory =
     cseq (log_console (PutStr ''Start init Memory pool...\<newline>''))
    (cseq (store32 (phy_addr_start (kernel_pool mo)) used_mem)
    (cseq (store32 (phy_addr_start (user_pool mo)) (used_mem + ucast (kernel_free_pages all_memory) * PAGE_SIZE))
    (cseq (store32 (pool_size (kernel_pool mo)) (ucast (kernel_free_pages all_memory) * PAGE_SIZE))
    (cseq (store32 (pool_size (user_pool mo)) (ucast (user_free_pages all_memory) * PAGE_SIZE))
    (cseq (store32 (kernel_pool mo) (kernel_bitmap_length all_memory))
    (cseq (store32 (user_pool mo) (user_bitmap_length all_memory))
    (cseq (store32 (bits_field (kernel_pool mo)) MEM_BITMAP_BASE)
    (cseq (store32 (bits_field (user_pool mo)) (MEM_BITMAP_BASE + kernel_bitmap_length all_memory))
    (cseq (printKernelPoolInfo (kernel_pool mo))
    (cseq (printUserPoolInfo (user_pool mo))
    (cseq (bitmap_init (kernel_pool mo))
    (cseq (bitmap_init (user_pool mo))
    (cseq (store32 (kernel_addr mo) (kernel_bitmap_length all_memory))
    (cseq (store32 (bits_field (kernel_addr mo))
        (MEM_BITMAP_BASE + kernel_bitmap_length all_memory + user_bitmap_length all_memory))
    (cseq (store32 (vaddr_start (kernel_addr mo)) K_HEAD_START)
    (cseq (bitmap_init (kernel_addr mo))
          (log_console (PutStr ''Init memory pool done.\<newline>''))))))))))))))))))"

definition mem_init :: "mem_objs \<Rightarrow> ('z machine_scheme, unit) comp" where
  "mem_init mo =
     cseq (log_console (PutStr ''Init memory start.\<newline>''))
    (cbind (load32 0xb00) (\<lambda>total_memory.
     cseq (mem_pool_init mo total_memory)
          (log_console (PutStr ''Init memory done.\<newline>''))))"

subsection \<open>Allocation\<close>

text \<open>A product of two \<open>int\<close>s.\<close>

definition int_mult :: "int \<Rightarrow> int \<Rightarrow> ('s, int) comp" where
  "int_mult x y = (if - (2 ^ 31) \<le> x * y \<and> x * y < 2 ^ 31 then ret (x * y) else fail_with Signed_Overflow)"

fun vaddr_set_bits :: "addr \<Rightarrow> int \<Rightarrow> u32 \<Rightarrow> nat \<Rightarrow> ('z machine_scheme, unit) comp" where
  "vaddr_set_bits b bit_idx_start count 0 = ret ()"
| "vaddr_set_bits b bit_idx_start count (Suc left) =
     cseq (bitmap_set b (of_int bit_idx_start + count) 1) (vaddr_set_bits b bit_idx_start (count + 1) left)"

definition vaddr_get :: "mem_objs \<Rightarrow> pool_flags \<Rightarrow> u32 \<Rightarrow> ('z machine_scheme, u32) comp" where
  "vaddr_get mo pf pg_count =
     (if pf = PF_KERNEL then
        cbind (bitmap_scan (kernel_addr mo) pg_count) (\<lambda>bit_idx_start.
        if bit_idx_start = - 1 then ret 0
        else
          cseq (vaddr_set_bits (kernel_addr mo) bit_idx_start 0 (unat pg_count))
         (cbind (load32 (vaddr_start (kernel_addr mo))) (\<lambda>start.
          cbind (int_mult bit_idx_start 4096) (\<lambda>off. ret (start + of_int off)))))
      else ret 0)"

definition PDE_INDEX :: "u32 \<Rightarrow> u32" where
  "PDE_INDEX a = drop_bit 22 (a AND 0xffc00000)"

definition PTE_INDEX :: "u32 \<Rightarrow> u32" where
  "PTE_INDEX a = drop_bit 12 (a AND 0x003ff000)"

definition pte_ptr :: "u32 \<Rightarrow> addr" where
  "pte_ptr vaddr = 0xffc00000 + drop_bit 10 (vaddr AND 0xffc00000) + push_bit 2 (PTE_INDEX vaddr)"

definition pde_ptr :: "u32 \<Rightarrow> addr" where
  "pde_ptr vaddr = 0xfffff000 + push_bit 2 (PDE_INDEX vaddr)"

definition palloc :: "addr \<Rightarrow> ('z machine_scheme, u32) comp" where
  "palloc m_pool =
     cbind (bitmap_scan m_pool 1) (\<lambda>bit_index.
     if bit_index = - 1 then ret 0
     else
       cseq (bitmap_set m_pool (of_int bit_index) 1)
      (cbind (int_mult bit_index 4096) (\<lambda>off.
       cbind (load32 (phy_addr_start m_pool)) (\<lambda>start. ret (of_int off + start)))))"

definition page_table_add :: "mem_objs \<Rightarrow> u32 \<Rightarrow> u32 \<Rightarrow> ('z machine_scheme, unit) comp" where
  "page_table_add mo vaddr page_phyaddr =
     (let pde = pde_ptr vaddr; pte = pte_ptr vaddr in
      cbind (load32 pde) (\<lambda>d.
      if d AND 1 \<noteq> 0 then
        cbind (load32 pte) (\<lambda>t.
        if t AND 1 = 0 then store32 pte (page_phyaddr OR PG_ATTR) else ret ())
      else
        cbind (palloc (kernel_pool mo)) (\<lambda>pde_phyaddr.
        cseq (store32 pde (pde_phyaddr OR PG_ATTR))
       (cseq (memset (pte AND 0xfffff000) 0 PAGE_SIZE)
             (store32 pte (page_phyaddr OR PG_ATTR))))))"

fun malloc_loop :: "mem_objs \<Rightarrow> addr \<Rightarrow> nat \<Rightarrow> u32 \<Rightarrow> ('z machine_scheme, bool) comp" where
  "malloc_loop mo mem_pool 0 vaddr = ret True"
| "malloc_loop mo mem_pool (Suc count) vaddr =
     cbind (palloc mem_pool) (\<lambda>page_phyaddr.
     if page_phyaddr = 0 then ret False
     else cseq (page_table_add mo vaddr page_phyaddr)
               (malloc_loop mo mem_pool count (vaddr + PAGE_SIZE)))"

definition malloc_page :: "mem_objs \<Rightarrow> pool_flags \<Rightarrow> u32 \<Rightarrow> ('z machine_scheme, u32) comp" where
  "malloc_page mo pf page_count =
     cseq (memory_assert (page_count > 0 \<and> page_count < 3840) 188 ''malloc_page''
            ''page_count > 0 && page_count < 3840'')
    (cbind (vaddr_get mo pf page_count) (\<lambda>start.
     if start = 0 then ret 0
     else
       cbind (malloc_loop mo (if pf = PF_KERNEL then kernel_pool mo else user_pool mo) (unat page_count) start)
         (\<lambda>ok. ret (if ok then start else 0))))"

definition get_kernel_pages :: "mem_objs \<Rightarrow> u32 \<Rightarrow> ('z machine_scheme, u32) comp" where
  "get_kernel_pages mo page_count =
     cbind (malloc_page mo PF_KERNEL page_count) (\<lambda>vaddr.
     cseq (when_do (vaddr \<noteq> 0) (memset vaddr 0 (page_count * PAGE_SIZE))) (ret vaddr))"

subsection \<open>The recursive mapping\<close>

lemma PDE_INDEX_eq: "PDE_INDEX v = drop_bit 22 v"
proof -
  have m: "(0xffc00000 :: u32) = NOT (mask 22)" by (simp add: mask_eq_exp_minus_1)
  show ?thesis unfolding PDE_INDEX_def m by (intro bit_word_eqI) (auto simp: bit_simps dest: bit_imp_le_length)
qed

lemma PTE_INDEX_eq: "PTE_INDEX v = drop_bit 12 v AND 0x3ff"
proof -
  have m: "(0x003ff000 :: u32) = push_bit 12 (mask 10)" "(0x3ff :: u32) = mask 10" by (simp_all add: mask_eq_exp_minus_1)
  show ?thesis unfolding PTE_INDEX_def m by (intro bit_word_eqI) (auto simp: bit_simps dest: bit_imp_le_length)
qed

lemma dir_bits_10: "drop_bit 10 (v AND 0xffc00000) = push_bit 12 (drop_bit 22 (v :: u32))"
proof -
  have m: "(0xffc00000 :: u32) = NOT (mask 22)" by (simp add: mask_eq_exp_minus_1)
  show ?thesis unfolding m by (intro bit_word_eqI) (auto simp: bit_simps dest: bit_imp_le_length)
qed

lemma unat_drop_22: "unat (drop_bit 22 (v :: u32)) < 1024"
proof -
  have "unat v div 2 ^ 22 < 1024" using unat_u32_less [of v] by (simp add: less_mult_imp_div_less)
  then show ?thesis by (simp only: unat_drop)
qed

lemma pde_ptr_page: "drop_bit 12 (pde_ptr v) = 0xfffff" "pde_ptr v AND 0xfff = push_bit 2 (drop_bit 22 v)"
proof -
  obtain k where k: "unat (drop_bit 22 v) = k" "k < 1024" using unat_drop_22 by blast
  have u2: "unat (push_bit 2 (drop_bit 22 v)) = k * 4" using k by (simp only: unat_push) simp
  have u: "unat (pde_ptr v) = 4294963200 + k * 4"
    using k(2) by (simp only: pde_ptr_def PDE_INDEX_eq) (simp add: unat_word_ariths u2)
  have "unat (drop_bit 12 (pde_ptr v)) = (4294963200 + k * 4) div 2 ^ 12" by (simp only: unat_drop u)
  also have "\<dots> = 1048575" using k(2) by simp
  finally show "drop_bit 12 (pde_ptr v) = 0xfffff" by (simp add: word_unat_eq_iff)
  have "unat (pde_ptr v AND 0xfff) = (4294963200 + k * 4) mod 4096" by (simp only: unat_and_fff u)
  also have "\<dots> = (1048575 * 4096 + k * 4) mod 4096" by simp
  also have "\<dots> = k * 4" using k(2) by (simp only: mod_mult_self3) simp
  finally show "pde_ptr v AND 0xfff = push_bit 2 (drop_bit 22 v)" by (simp only: word_unat_eq_iff u2)
qed

lemma pte_ptr_page:
  "drop_bit 12 (pte_ptr v) = 0xffc00 + drop_bit 22 v" "pte_ptr v AND 0xfff = push_bit 2 (drop_bit 12 v AND 0x3ff)"
proof -
  obtain k where k: "unat (drop_bit 22 v) = k" "k < 1024" using unat_drop_22 by blast
  obtain j where j: "unat (drop_bit 12 v AND 0x3ff) = j" "j < 1024"
    by (simp add: unat_and_3ff)
  have u1: "unat (push_bit 12 (drop_bit 22 v)) = k * 4096" using k by (simp only: unat_push) simp
  have u2: "unat (push_bit 2 (drop_bit 12 v AND 0x3ff)) = j * 4" using j by (simp only: unat_push) simp
  have u: "unat (pte_ptr v) = 4290772992 + k * 4096 + j * 4"
  proof -
    have "pte_ptr v = 0xffc00000 + push_bit 12 (drop_bit 22 v) + push_bit 2 (drop_bit 12 v AND 0x3ff)"
      by (simp only: pte_ptr_def PTE_INDEX_eq dir_bits_10)
    then have "unat (pte_ptr v) = ((4290772992 + k * 4096) mod 2 ^ 32 + j * 4) mod 2 ^ 32"
      by (simp only: unat_word_ariths u1 u2) simp
    then show ?thesis using k(2) j(2) by simp
  qed
  have uk: "unat (0xffc00 + drop_bit 22 v) = 1047552 + k" using k by (simp add: unat_word_ariths)
  have "unat (drop_bit 12 (pte_ptr v)) = (4290772992 + k * 4096 + j * 4) div 2 ^ 12" by (simp only: unat_drop u)
  also have "\<dots> = 1047552 + k" using j(2) by simp
  finally show "drop_bit 12 (pte_ptr v) = 0xffc00 + drop_bit 22 v" by (simp only: word_unat_eq_iff uk)
  have "unat (pte_ptr v AND 0xfff) = (4290772992 + k * 4096 + j * 4) mod 4096" by (simp only: unat_and_fff u)
  also have "\<dots> = ((1047552 + k) * 4096 + j * 4) mod 4096" by (simp add: algebra_simps)
  also have "\<dots> = j * 4" using j(2) by (simp only: mod_mult_self3) simp
  finally show "pte_ptr v AND 0xfff = push_bit 2 (drop_bit 12 v AND 0x3ff)" by (simp only: word_unat_eq_iff u2)
qed

lemma drop_10_12: "drop_bit 10 (drop_bit 12 v) = drop_bit 22 (v :: u32)"
  by (simp add: drop_bit_drop_bit)

lemma phys_addr_offset: "a AND 0xfff = b AND 0xfff \<Longrightarrow> phys_addr f a = phys_addr f b"
  by (simp add: phys_addr_def)

lemma push_2_fff: "unat (x :: u32) < 1024 \<Longrightarrow> push_bit 2 x AND 0xfff = push_bit 2 x"
  by (simp only: word_unat_eq_iff unat_and_fff unat_push) simp

lemma pt_entry_dir:
  assumes "paging_ok s" "drop_bit 10 vq = 0x3ff"
  shows "pde_of s vq = pde_of s 0xfffff" "drop_bit 12 (pde_of s vq) = dir_frame s" "pde_of s vq AND 1 \<noteq> 0"
proof -
  have "drop_bit 10 vq = drop_bit 10 0xfffff" using assms(2) by simp
  then show e: "pde_of s vq = pde_of s 0xfffff" by (rule pde_of_cong)
  show "drop_bit 12 (pde_of s vq) = dir_frame s" "pde_of s vq AND 1 \<noteq> 0"
    unfolding e by (rule paging_ok_self [OF assms(1)])+
qed

text \<open>A page of the window: its table is the directory, so its entry is a directory entry.\<close>

lemma window_entry:
  assumes ok: "paging_ok s" and k: "unat k < 1024"
  shows "frame_of s (0xffc00 + k) = (let d = le32 (pmem s) (phys_addr (dir_frame s) (push_bit 2 k)) in
    if d AND 1 = 0 then None else Some (drop_bit 12 d))"
proof -
  have u: "unat (0xffc00 + k) = 1047552 + unat k" using k by (simp add: unat_word_ariths)
  have "unat (drop_bit 10 (0xffc00 + k)) = (1047552 + unat k) div 2 ^ 10" by (simp only: unat_drop u)
  also have "\<dots> = 1023" using k by simp
  finally have d: "drop_bit 10 (0xffc00 + k) = 0x3ff" by (simp add: word_unat_eq_iff)
  have "unat ((0xffc00 + k) AND 0x3ff) = (1047552 + unat k) mod 1024" by (simp only: unat_and_3ff u)
  also have "\<dots> = (1023 * 1024 + unat k) mod 1024" by simp
  also have "\<dots> = unat k" using k by (simp only: mod_mult_self3) simp
  finally have m: "(0xffc00 + k) AND 0x3ff = k" by (simp only: word_unat_eq_iff)
  note pd = pt_entry_dir [OF ok d]
  have "pt_entry_addr (pde_of s (0xffc00 + k)) (0xffc00 + k) = phys_addr (dir_frame s) (push_bit 2 k)"
    unfolding pt_entry_phys pd(2) m ..
  then show ?thesis using pd(3) by (simp only: frame_of_pde Let_def if_False)
qed

lemma pd_entry_phys_page: "pd_entry_addr s (drop_bit 12 v) = phys_addr (dir_frame s) (push_bit 2 (drop_bit 22 v))"
  using pd_entry_phys [OF drop_12_less, of s v] by (simp only: drop_10_12)

lemma translate_pde_ptr:
  assumes ok: "paging_ok s"
  shows "translate s (pde_ptr v) = Some (pd_entry_addr s (drop_bit 12 v))"
proof -
  have k: "unat (0x3ff :: u32) < 1024" by simp
  have e: "(0xffc00 :: u32) + 0x3ff = 0xfffff" by simp
  have p: "phys_addr (dir_frame s) (push_bit 2 0x3ff) = pd_entry_addr s 0xfffff"
    by (subst pd_entry_phys) simp_all
  have "frame_of s 0xfffff = Some (dir_frame s)"
    using window_entry [OF ok k, unfolded e p Let_def] paging_ok_self [OF ok] by (simp only: pde_of_def if_False)
  then have "translate s (pde_ptr v) = Some (phys_addr (dir_frame s) (pde_ptr v))"
    by (simp add: translate_def pde_ptr_page)
  also have "phys_addr (dir_frame s) (pde_ptr v) = phys_addr (dir_frame s) (push_bit 2 (drop_bit 22 v))"
    by (rule phys_addr_offset) (simp only: pde_ptr_page push_2_fff unat_drop_22)
  finally show ?thesis by (simp only: pd_entry_phys_page)
qed

lemma translate_pte_ptr:
  assumes ok: "paging_ok s" and pd: "pde_of s (drop_bit 12 v) AND 1 \<noteq> 0"
  shows "translate s (pte_ptr v) = Some (pt_entry_addr (pde_of s (drop_bit 12 v)) (drop_bit 12 v))"
proof -
  let ?d = "pde_of s (drop_bit 12 v)"
  have "frame_of s (0xffc00 + drop_bit 22 v) = Some (drop_bit 12 ?d)"
    using window_entry [OF ok unat_drop_22, of v] pd
    by (simp only: pd_entry_phys_page [symmetric] pde_of_def [symmetric] Let_def if_False)
  then have "translate s (pte_ptr v) = Some (phys_addr (drop_bit 12 ?d) (pte_ptr v))"
    by (simp add: translate_def pte_ptr_page)
  also have "phys_addr (drop_bit 12 ?d) (pte_ptr v) = phys_addr (drop_bit 12 ?d) (push_bit 2 (drop_bit 12 v AND 0x3ff))"
    by (rule phys_addr_offset) (simp only: pte_ptr_page push_2_fff unat_and_3ff mod_less_divisor zero_less_numeral)
  finally show ?thesis by (simp only: pt_entry_phys)
qed

subsection \<open>Adding a mapping\<close>

lemma aligned4_of_offset: "a AND 0xfff = push_bit 2 x \<Longrightarrow> aligned4 a"
proof -
  assume a: "a AND 0xfff = push_bit 2 (x :: u32)"
  have "unat a mod 4096 = unat x * 4 mod 2 ^ 32"
    using arg_cong [OF a, of unat] by (simp only: unat_and_fff unat_push) simp
  then have "unat a mod 4096 mod 4 = 0" by (simp add: mod_mod_cancel)
  then show ?thesis by (simp add: aligned4_unat mod_mod_cancel)
qed

lemma aligned4_table_ptrs: "aligned4 (pde_ptr v)" "aligned4 (pte_ptr v)"
  by (rule aligned4_of_offset, rule pde_ptr_page(2)) (rule aligned4_of_offset, rule pte_ptr_page(2))

definition page_of :: "addr \<Rightarrow> u32" where
  "page_of a = drop_bit 12 a"

text \<open>An entry for the frame at the page-aligned physical address \<open>ph\<close>.\<close>

lemma entry_attr:
  shows "(ph OR PG_ATTR) AND 1 \<noteq> 0" "drop_bit 12 (ph OR PG_ATTR) = drop_bit 12 ph"
proof -
  have "bit ((ph OR PG_ATTR) AND 1) 0" by (simp add: PG_ATTR_def bit_simps)
  then show "(ph OR PG_ATTR) AND 1 \<noteq> 0" by auto
  have m: "PG_ATTR = mask 3" by (simp add: PG_ATTR_def mask_eq_exp_minus_1)
  show "drop_bit 12 (ph OR PG_ATTR) = drop_bit 12 ph" unfolding m by (intro bit_word_eqI) (auto simp: bit_simps)
qed

lemma page_table_add_absent:
  assumes e: "entry_ok s (page_of v)" and n: "frame_of s (page_of v) = None"
  shows "page_table_add mo v ph s = Inr ((), set_entry (page_of v) (ph OR PG_ATTR) s)"
proof -
  have ok: "paging_ok s" and pd: "pde_of s (page_of v) AND 1 \<noteq> 0" using e unfolding entry_ok_def by blast+
  have l1: "load32 (pde_ptr v) s = Inr (pde_of s (page_of v), s)"
    by (simp add: load32_def aligned4_table_ptrs translate_pde_ptr [OF ok] pde_of_def page_of_def)
  have tr: "translate s (pte_ptr v) = Some (entry_addr s (page_of v))"
    using translate_pte_ptr [OF ok] pd by (simp only: page_of_def entry_addr_def)
  then have l2: "load32 (pte_ptr v) s = Inr (le32 (pmem s) (entry_addr s (page_of v)), s)"
    by (simp add: load32_def aligned4_table_ptrs)
  have z: "le32 (pmem s) (entry_addr s (page_of v)) AND 1 = 0"
    using n pd unfolding frame_of_pde entry_addr_def by (metis option.distinct(1))
  have st: "store32 (pte_ptr v) (ph OR PG_ATTR) s = Inr ((), set_entry (page_of v) (ph OR PG_ATTR) s)"
    by (simp add: store32_def aligned4_table_ptrs tr set_entry_def)
  show ?thesis
    unfolding page_table_add_def Let_def cbind_def
    using pd z by (simp only: l1 l2 sum.case prod.case not_False_eq_True if_True refl st)
qed

lemma page_table_add_present:
  assumes ok: "paging_ok s" and f: "frame_of s (page_of v) = Some f"
  shows "page_table_add mo v ph s = Inr ((), s)"
proof -
  have pd: "pde_of s (page_of v) AND 1 \<noteq> 0" using f unfolding frame_of_pde by (metis option.distinct(1))
  have l1: "load32 (pde_ptr v) s = Inr (pde_of s (page_of v), s)"
    by (simp add: load32_def aligned4_table_ptrs translate_pde_ptr [OF ok] pde_of_def page_of_def)
  have "translate s (pte_ptr v) = Some (entry_addr s (page_of v))"
    using translate_pte_ptr [OF ok] pd by (simp only: page_of_def entry_addr_def)
  then have l2: "load32 (pte_ptr v) s = Inr (le32 (pmem s) (entry_addr s (page_of v)), s)"
    by (simp add: load32_def aligned4_table_ptrs)
  have z: "le32 (pmem s) (entry_addr s (page_of v)) AND 1 \<noteq> 0"
    using f pd unfolding frame_of_pde entry_addr_def by (metis option.distinct(1))
  show ?thesis
    unfolding page_table_add_def Let_def cbind_def
    using pd z by (simp only: l1 l2 sum.case prod.case not_False_eq_True if_True if_False) (simp only: ret_def)
qed

subsection \<open>The allocator's invariant\<close>

text \<open>
  \<open>mem_view\<close>: the bytes of the two bitmaps the kernel's allocations use, where they are,
  and the first physical address of the kernel pool. \<open>mem_inv\<close>: a clear bit of the kernel
  pool is a frame that holds no page table and that no kernel page maps; a clear bit of
  the virtual pool is a kernel page that is not mapped, and its page table is present.
\<close>

record mem_view =
  kbase :: addr
  kbits :: "u8 list"
  vbase :: addr
  vbits :: "u8 list"
  kstart :: u32

definition pool_cells :: "mem_objs \<Rightarrow> addr set" where
  "pool_cells mo = bytes4 (kernel_pool mo) \<union> bytes4 (bits_field (kernel_pool mo)) \<union> bytes4 (phy_addr_start (kernel_pool mo)) \<union>
     bytes4 (kernel_addr mo) \<union> bytes4 (bits_field (kernel_addr mo)) \<union> bytes4 (vaddr_start (kernel_addr mo))"

lemma pool_cells_sub:
  "bytes4 (kernel_pool mo) \<subseteq> pool_cells mo" "bytes4 (bits_field (kernel_pool mo)) \<subseteq> pool_cells mo"
  "bytes4 (phy_addr_start (kernel_pool mo)) \<subseteq> pool_cells mo" "bytes4 (kernel_addr mo) \<subseteq> pool_cells mo"
  "bytes4 (bits_field (kernel_addr mo)) \<subseteq> pool_cells mo" "bytes4 (vaddr_start (kernel_addr mo)) \<subseteq> pool_cells mo"
  unfolding pool_cells_def by blast+

definition kspan :: "mem_view \<Rightarrow> addr set" where
  "kspan m = span (kbase m) (length (kbits m))"

definition vspan :: "mem_view \<Rightarrow> addr set" where
  "vspan m = span (vbase m) (length (vbits m))"

definition kframe :: "mem_view \<Rightarrow> nat \<Rightarrow> u32" where
  "kframe m i = page_of (kstart m) + of_nat i"

definition vpage :: "nat \<Rightarrow> u32" where
  "vpage i = page_of K_HEAD_START + of_nat i"

definition pools_hold :: "'z machine_scheme \<Rightarrow> mem_objs \<Rightarrow> mem_view \<Rightarrow> bool" where
  "pools_hold s mo m \<longleftrightarrow>
     bitmap_holds s (kernel_pool mo) (kbase m) (kbits m) \<and> bitmap_holds s (kernel_addr mo) (vbase m) (vbits m) \<and>
     kcell s (phy_addr_start (kernel_pool mo)) \<and> peek32 s (phy_addr_start (kernel_pool mo)) = kstart m \<and>
     kcell s (vaddr_start (kernel_addr mo)) \<and> peek32 s (vaddr_start (kernel_addr mo)) = K_HEAD_START \<and>
     kspan m \<inter> (pool_cells mo \<union> vspan m) = {} \<and> vspan m \<inter> pool_cells mo = {}"

definition pools_sized :: "mem_view \<Rightarrow> bool" where
  "pools_sized m \<longleftrightarrow> kstart m AND 0xfff = 0 \<and> kstart m \<noteq> 0 \<and> unat (kstart m) + 8 * length (kbits m) * 4096 \<le> 2 ^ 32 \<and>
     8 * length (kbits m) < 2 ^ 19 \<and> 8 * length (vbits m) \<le> 0x3fb00"

definition pools_mapped :: "'z machine_scheme \<Rightarrow> mem_view \<Rightarrow> bool" where
  "pools_mapped s m \<longleftrightarrow> paging_ok s \<and>
     (\<forall>i < 8 * length (vbits m). pde_of s (vpage i) AND 1 \<noteq> 0 \<and> (\<not> bm_bit (vbits m) i \<longrightarrow> frame_of s (vpage i) = None)) \<and>
     (\<forall>i < 8 * length (kbits m). \<not> bm_bit (kbits m) i \<longrightarrow> frame_fresh s (kframe m i))"

definition mem_inv :: "'z machine_scheme \<Rightarrow> mem_objs \<Rightarrow> mem_view \<Rightarrow> bool" where
  "mem_inv s mo m \<longleftrightarrow> pools_hold s mo m \<and> pools_sized m \<and> pools_mapped s m"

lemma unat_vpage: "i < 0x3fb00 \<Longrightarrow> unat (vpage i) = 0xc0100 + i"
  by (simp add: vpage_def page_of_def K_HEAD_START_def unat_word_ariths unat_of_nat)

lemma vpage_range: "i < 0x3fb00 \<Longrightarrow> 0xc0000 \<le> vpage i \<and> vpage i < 0xffc00 \<and> vpage i < 0x100000"
  by (simp add: word_le_nat_alt word_less_nat_alt unat_vpage)

lemma vpage_inj: "i < 0x3fb00 \<Longrightarrow> j < 0x3fb00 \<Longrightarrow> vpage i = vpage j \<longleftrightarrow> i = j"
  using unat_vpage by (metis add_left_cancel)

lemma pools_mapped_upd:
  assumes "tables_same s t" and m: "pools_mapped s m" and sz: "pools_sized m"
  shows "pools_mapped t m"
proof -
  have "pde_of t (vpage i) = pde_of s (vpage i)" "frame_of t (vpage i) = frame_of s (vpage i)"
    if "i < 8 * length (vbits m)" for i
    using tables_same_pde [OF assms(1), of "vpage i"] tables_same_frame [OF assms(1), of "vpage i"]
      vpage_range [of i] sz that by (auto simp: pools_sized_def)
  with m show ?thesis unfolding pools_mapped_def tables_same_paging [OF assms(1)]
    by (simp add: tables_same_fresh [OF assms(1)])
qed

text \<open>An update of the bits of the kernel pool, or of the virtual pool.\<close>

lemma pools_hold_kbits:
  assumes h: "pools_hold s mo m" and u: "upd_within (kspan m) s t"
    and b: "bitmap_holds t (kernel_pool mo) (kbase m) bs" "length bs = length (kbits m)"
  shows "pools_hold t mo (m\<lparr>kbits := bs\<rparr>)"
proof -
  let ?a = "kernel_addr mo"
  have d: "kspan m \<inter> bytes4 c = {}" if "bytes4 c \<subseteq> pool_cells mo" for c
    using h that by (auto simp: pools_hold_def)
  have c: "peek32 t c = peek32 s c" if "kcell s c" "bytes4 c \<subseteq> pool_cells mo" for c
    by (rule upd_within_peek32 [OF u that(1)]) (use d [OF that(2)] in blast)
  have va: "bitmap_holds s ?a (vbase m) (vbits m)" using h by (simp add: pools_hold_def)
  have "blk t (vbase m) (vbits m)"
    by (rule upd_within_blk [OF u]) (use h va in \<open>auto simp: pools_hold_def vspan_def bitmap_holds_def\<close>)
  moreover have "peek32 t ?a = peek32 s ?a" "peek32 t (bits_field ?a) = peek32 s (bits_field ?a)"
    by (rule c; use va pool_cells_sub in \<open>simp add: bitmap_holds_def\<close>)+
  ultimately have "bitmap_holds t ?a (vbase m) (vbits m)"
    using va by (simp add: bitmap_holds_def upd_within_kcell [OF u])
  moreover have "peek32 t (phy_addr_start (kernel_pool mo)) = kstart m" "peek32 t (vaddr_start ?a) = K_HEAD_START"
    using c [OF _ pool_cells_sub(3)] c [OF _ pool_cells_sub(6)] h by (simp_all add: pools_hold_def)
  ultimately show ?thesis using h b by (simp add: pools_hold_def upd_within_kcell [OF u] kspan_def vspan_def)
qed

lemma pools_hold_vbits:
  assumes h: "pools_hold s mo m" and u: "upd_within (vspan m) s t"
    and b: "bitmap_holds t (kernel_addr mo) (vbase m) bs" "length bs = length (vbits m)"
  shows "pools_hold t mo (m\<lparr>vbits := bs\<rparr>)"
proof -
  let ?k = "kernel_pool mo"
  have d: "vspan m \<inter> bytes4 c = {}" if "bytes4 c \<subseteq> pool_cells mo" for c
    using h that by (auto simp: pools_hold_def)
  have c: "peek32 t c = peek32 s c" if "kcell s c" "bytes4 c \<subseteq> pool_cells mo" for c
    by (rule upd_within_peek32 [OF u that(1)]) (use d [OF that(2)] in blast)
  have va: "bitmap_holds s ?k (kbase m) (kbits m)" using h by (simp add: pools_hold_def)
  have "blk t (kbase m) (kbits m)"
    by (rule upd_within_blk [OF u]) (use h va in \<open>auto simp: pools_hold_def kspan_def bitmap_holds_def\<close>)
  moreover have "peek32 t ?k = peek32 s ?k" "peek32 t (bits_field ?k) = peek32 s (bits_field ?k)"
    by (rule c; use va pool_cells_sub in \<open>simp add: bitmap_holds_def\<close>)+
  ultimately have "bitmap_holds t ?k (kbase m) (kbits m)"
    using va by (simp add: bitmap_holds_def upd_within_kcell [OF u])
  moreover have "peek32 t (phy_addr_start ?k) = kstart m" "peek32 t (vaddr_start (kernel_addr mo)) = K_HEAD_START"
    using c [OF _ pool_cells_sub(3)] c [OF _ pool_cells_sub(6)] h by (simp_all add: pools_hold_def)
  ultimately show ?thesis using h b by (simp add: pools_hold_def upd_within_kcell [OF u] kspan_def vspan_def)
qed

subsection \<open>Taking a frame and virtual pages\<close>

lemma int_mult_page: "i < 2 ^ 19 \<Longrightarrow> int_mult (int i) 4096 s = Inr (int (i * 4096), s)"
  by (simp add: int_mult_def ret_def)

lemma kframe_addr:
  assumes "kstart m AND 0xfff = 0" "unat (kstart m) + 8 * length (kbits m) * 4096 \<le> 2 ^ 32" "i < 8 * length (kbits m)"
  shows "page_of (of_nat (i * 4096) + kstart m) = kframe m i" "(of_nat (i * 4096) + kstart m) AND 0xfff = 0"
    "kstart m \<noteq> 0 \<Longrightarrow> of_nat (i * 4096) + kstart m \<noteq> 0"
proof -
  let ?a = "of_nat (i * 4096) + kstart m"
  have z: "unat (kstart m) mod 4096 = 0" using arg_cong [OF assms(1), of unat] by (simp only: unat_and_fff) simp
  then obtain k where k: "unat (kstart m) = 4096 * k" by (auto simp: mod_eq_0_iff_dvd)
  have b: "i * 4096 + unat (kstart m) < 4294967296" using assms(2,3) by simp
  have u: "unat ?a = i * 4096 + 4096 * k"
    using b k by (simp add: unat_word_ariths unat_of_nat)
  have "unat (kframe m i) = (unat (page_of (kstart m)) + i) mod 4294967296"
    by (simp add: kframe_def unat_word_ariths unat_of_nat mod_add_right_eq)
  moreover have "unat (page_of (kstart m)) = k" by (simp only: page_of_def unat_drop k) simp
  moreover have "k + i < 4294967296" using b k by simp
  ultimately have "unat (kframe m i) = k + i" by simp
  moreover have "unat (page_of ?a) = k + i" by (simp only: page_of_def unat_drop u) (simp add: algebra_simps)
  ultimately show "page_of ?a = kframe m i" by (simp add: word_unat_eq_iff)
  have "unat (?a AND 0xfff) = 0" by (simp only: unat_and_fff u) (simp add: mod_add_eq [symmetric])
  then show "?a AND 0xfff = 0" by (simp only: unat_eq_0)
  assume "kstart m \<noteq> 0"
  then have "unat (kstart m) \<noteq> 0" by (simp add: unat_eq_0)
  then have "unat ?a \<noteq> 0" unfolding u using k by simp
  then show "?a \<noteq> 0" by auto
qed

lemma mem_inv_parts:
  assumes "mem_inv s mo m"
  shows "pools_hold s mo m" "pools_sized m" "pools_mapped s m"
    "bitmap_holds s (kernel_pool mo) (kbase m) (kbits m)" "bitmap_holds s (kernel_addr mo) (vbase m) (vbits m)"
  using assms by (simp_all add: mem_inv_def pools_hold_def)

definition free_frames :: "u8 list \<Rightarrow> nat set" where
  "free_frames bs = {i. i < 8 * length bs \<and> \<not> bm_bit bs i}"

lemma finite_free_frames [simp]: "finite (free_frames bs)"
  by (simp add: free_frames_def)

lemma free_frames_update: "i < 8 * length bs \<Longrightarrow> free_frames (bm_update bs i True) = free_frames bs - {i}"
  by (auto simp: free_frames_def bm_bit_update)

lemma bm_update_mono: "i < 8 * length bs \<Longrightarrow> \<not> bm_bit (bm_update bs i True) j \<Longrightarrow> \<not> bm_bit bs j"
  by (simp add: bm_bit_update split: if_splits)

text \<open>\<open>palloc\<close> takes the first free frame of the kernel pool.\<close>

lemma palloc_spec:
  assumes inv: "mem_inv s mo m" and f: "free_frames (kbits m) \<noteq> {}"
  defines "i \<equiv> first_free (kbits m)"
  shows "\<exists>t. palloc (kernel_pool mo) s = Inr (of_nat (i * 4096) + kstart m, t) \<and> upd_within (kspan m) s t \<and>
    mem_inv t mo (m\<lparr>kbits := bm_update (kbits m) i True\<rparr>) \<and> frame_fresh t (kframe m i) \<and> i \<in> free_frames (kbits m)"
proof -
  let ?k = "kernel_pool mo" and ?bs = "kbits m"
  note p = mem_inv_parts [OF inv]
  have sz: "8 * length ?bs < 2 ^ 19" using p(2) by (simp add: pools_sized_def)
  have e: "\<exists>j < 8 * length ?bs. \<not> bm_bit ?bs j" using f by (auto simp: free_frames_def)
  note ff = first_free_props [OF e, folded i_def]
  have i19: "i < 2 ^ 19" using ff(3) sz by simp
  have w: "(of_int (int i) :: u32) = of_nat i" by simp
  have ui: "unat (of_nat i :: u32) = i" using i19 by (simp add: unat_u32_of_nat)
  have scan: "bitmap_scan ?k 1 s = Inr (int i, s)"
    unfolding i_def by (rule bitmap_scan_one [OF p(4) e]) (use sz in simp)
  from bitmap_set_spec [OF p(4), of "of_nat i" 1] ff(3) obtain t where
    t: "bitmap_set ?k (of_nat i) 1 s = Inr ((), t)" "bitmap_holds t ?k (kbase m) (bm_update ?bs i True)"
      "upd_within (kspan m) s t" by (auto simp: ui kspan_def)
  have hold: "pools_hold t mo (m\<lparr>kbits := bm_update ?bs i True\<rparr>)"
    by (rule pools_hold_kbits [OF p(1) t(3) t(2)]) simp
  have mp: "pools_mapped t m" by (rule pools_mapped_upd [OF upd_within_tables [OF t(3)] p(3) p(2)])
  have "frame_fresh t (kframe m i)" using mp ff(3,4) by (simp add: pools_mapped_def)
  moreover have "pools_mapped t (m\<lparr>kbits := bm_update ?bs i True\<rparr>)"
    using mp bm_update_mono [OF ff(3)] by (auto simp: pools_mapped_def kframe_def)
  moreover have "pools_sized (m\<lparr>kbits := bm_update ?bs i True\<rparr>)" using p(2) by (simp add: pools_sized_def)
  moreover have "palloc ?k s = Inr (of_nat (i * 4096) + kstart m, t)"
  proof -
    have "load32 (phy_addr_start ?k) t = Inr (kstart m, t)"
      using hold by (simp add: pools_hold_def load32_kcell)
    moreover have "int i \<noteq> - 1" by simp
    moreover have "of_int (int (i * 4096)) = (of_nat (i * 4096) :: u32)" by (simp only: of_int_of_nat_eq)
    ultimately show ?thesis
      unfolding palloc_def cbind_def cseq_def ret_def
      by (simp only: scan t(1) w int_mult_page [OF i19] sum.case prod.case if_False)
  qed
  moreover have "i \<in> free_frames ?bs" using ff(3,4) by (simp add: free_frames_def)
  ultimately show ?thesis using t(3) hold by (auto simp: mem_inv_def)
qed

text \<open>Marking a run of virtual pages.\<close>

fun bm_set_run :: "u8 list \<Rightarrow> nat \<Rightarrow> nat \<Rightarrow> u8 list" where
  "bm_set_run bs r 0 = bs"
| "bm_set_run bs r (Suc n) = bm_set_run (bm_update bs r True) (Suc r) n"

lemma bm_set_run_length [simp]: "length (bm_set_run bs r n) = length bs"
  by (induction bs r n rule: bm_set_run.induct) simp_all

lemma bm_bit_set_run:
  "r + n \<le> 8 * length bs \<Longrightarrow> bm_bit (bm_set_run bs r n) j \<longleftrightarrow> bm_bit bs j \<or> r \<le> j \<and> j < r + n"
  by (induction bs r n rule: bm_set_run.induct) (auto simp: bm_bit_update)

lemma vaddr_set_bits_spec:
  assumes "bitmap_holds s b p bs" "r + c + n \<le> 8 * length bs" "8 * length bs < 2 ^ 31"
  shows "\<exists>t. vaddr_set_bits b (int r) (of_nat c) n s = Inr ((), t) \<and> bitmap_holds t b p (bm_set_run bs (r + c) n) \<and>
    upd_within (span p (length bs)) s t"
  using assms
proof (induction n arbitrary: s bs c)
  case 0
  then show ?case by (auto simp: ret_def)
next
  case (Suc n)
  define i where "i = (of_int (int r) + of_nat c :: u32)"
  have u: "unat i = r + c"
    using Suc.prems(2,3) by (simp add: i_def unat_word_ariths unat_of_nat)
  then have "unat i < 8 * length bs" using Suc.prems(2) by simp
  from bitmap_set_spec [OF Suc.prems(1) this, of 1] obtain t where
    t: "bitmap_set b i 1 s = Inr ((), t)" "bitmap_holds t b p (bm_update bs (r + c) True)"
      "upd_within (span p (length bs)) s t" by (auto simp: u)
  from Suc.IH [OF t(2), of "Suc c"] Suc.prems(2,3) obtain t' where
    t': "vaddr_set_bits b (int r) (of_nat (Suc c)) n t = Inr ((), t')"
      "bitmap_holds t' b p (bm_set_run (bm_update bs (r + c) True) (Suc (r + c)) n)"
      "upd_within (span p (length bs)) t t'" by auto
  have "vaddr_set_bits b (int r) (of_nat c) (Suc n) s = Inr ((), t')"
    using t(1) t'(1) by (simp add: cseq_def cbind_def i_def add.commute)
  with t'(2) upd_within_trans [OF t(3) t'(3)] show ?case by auto
qed

lemma vaddr_get_spec:
  assumes inv: "mem_inv s mo m" and sc: "bitmap_scan (kernel_addr mo) cnt s = Inr (int r, s)"
    and rn: "r + unat cnt \<le> 8 * length (vbits m)"
  shows "\<exists>t. vaddr_get mo PF_KERNEL cnt s = Inr (K_HEAD_START + of_nat (r * 4096), t) \<and> upd_within (vspan m) s t \<and>
    mem_inv t mo (m\<lparr>vbits := bm_set_run (vbits m) r (unat cnt)\<rparr>)"
proof -
  let ?v = "kernel_addr mo" and ?bs = "vbits m" and ?n = "unat cnt"
  note p = mem_inv_parts [OF inv]
  have sz: "8 * length ?bs \<le> 0x3fb00" using p(2) by (simp add: pools_sized_def)
  have r19: "r < 2 ^ 19" using rn sz by simp
  from vaddr_set_bits_spec [OF p(5), of r 0 ?n] rn sz obtain t where
    t: "vaddr_set_bits ?v (int r) 0 ?n s = Inr ((), t)" "bitmap_holds t ?v (vbase m) (bm_set_run ?bs r ?n)"
      "upd_within (vspan m) s t" by (auto simp: vspan_def)
  let ?m = "m\<lparr>vbits := bm_set_run ?bs r ?n\<rparr>"
  have hold: "pools_hold t mo ?m" by (rule pools_hold_vbits [OF p(1) t(3) t(2)]) simp
  have "pools_mapped t m" by (rule pools_mapped_upd [OF upd_within_tables [OF t(3)] p(3) p(2)])
  then have "pools_mapped t ?m" using bm_bit_set_run [OF rn] by (auto simp: pools_mapped_def kframe_def)
  moreover have "pools_sized ?m" using p(2) by (simp add: pools_sized_def)
  moreover have "vaddr_get mo PF_KERNEL cnt s = Inr (K_HEAD_START + of_nat (r * 4096), t)"
  proof -
    have ld: "load32 (vaddr_start ?v) t = Inr (K_HEAD_START, t)" using hold by (simp add: pools_hold_def load32_kcell)
    have ne: "int r \<noteq> - 1" by simp
    have w: "of_int (int (r * 4096)) = (of_nat (r * 4096) :: u32)" by (simp only: of_int_of_nat_eq)
    show ?thesis
      unfolding vaddr_get_def cbind_def cseq_def ret_def
      using ne by (simp only: sc t(1) ld w int_mult_page [OF r19] sum.case prod.case if_False if_True refl)
  qed
  ultimately show ?thesis using t(3) hold by (auto simp: mem_inv_def)
qed

subsection \<open>Mapping the pages of an allocation\<close>

lemma pools_hold_extends:
  assumes h: "pools_hold s mo m" and x: "extends_within {} s t"
  shows "pools_hold t mo m"
proof -
  have c: "kcell t c \<and> peek32 t c = peek32 s c" if "kcell s c" for c
    using extends_kcell [OF x that] extends_peek32 [OF x that] by simp
  have b: "blk s p bs \<Longrightarrow> blk t p bs" for p bs using extends_blk [OF x] by simp
  from h show ?thesis by (simp add: pools_hold_def bitmap_holds_def b c)
qed

lemma kframe_inj: "i < 2 ^ 19 \<Longrightarrow> j < 2 ^ 19 \<Longrightarrow> kframe m i = kframe m j \<longleftrightarrow> i = j"
proof -
  assume "i < 2 ^ 19" "j < 2 ^ 19"
  then have "unat (of_nat i :: u32) = i" "unat (of_nat j :: u32) = j" by (simp_all add: unat_u32_of_nat)
  then show ?thesis unfolding kframe_def by (metis add_left_cancel)
qed

lemma page_of_vaddr: "r < 0x3fb00 \<Longrightarrow> page_of (K_HEAD_START + of_nat (r * 4096)) = vpage r"
proof -
  assume r: "r < 0x3fb00"
  then have u: "unat (K_HEAD_START + of_nat (r * 4096)) = (0xc0100 + r) * 4096"
    by (simp add: K_HEAD_START_def unat_word_ariths unat_of_nat)
  have "unat (page_of (K_HEAD_START + of_nat (r * 4096))) = 0xc0100 + r"
    by (simp only: page_of_def unat_drop u) simp
  with unat_vpage [OF r] show ?thesis by (simp only: word_unat_eq_iff)
qed

lemma map_one:
  assumes inv: "mem_inv s mo m" and j: "j < 8 * length (vbits m)" "bm_bit (vbits m) j" "frame_of s (vpage j) = None"
    and i: "i < 8 * length (kbits m)" "frame_fresh s (kframe m i)" "bm_bit (kbits m) i" and ph: "page_of ph = kframe m i"
    and v: "page_of v = vpage j"
  defines "t \<equiv> set_entry (vpage j) (ph OR PG_ATTR) s"
  shows "page_table_add mo v ph s = Inr ((), t)" "extends_within {} s t" "mem_inv t mo m"
    "page_of a = vpage j \<Longrightarrow> kaddr t a" "page_of a = vpage j \<Longrightarrow> \<not> kaddr s a"
    "i' < 0x3fb00 \<Longrightarrow> i' \<noteq> j \<Longrightarrow> frame_of t (vpage i') = frame_of s (vpage i')"
proof -
  note p = mem_inv_parts [OF inv]
  have sz: "8 * length (kbits m) < 2 ^ 19" "8 * length (vbits m) \<le> 0x3fb00" using p(2) by (simp_all add: pools_sized_def)
  have jr: "j < 0x3fb00" using j(1) sz by simp
  have ok: "paging_ok s" and pd: "pde_of s (vpage j) AND 1 \<noteq> 0" using p(3) j(1) unfolding pools_mapped_def by blast+
  have e: "entry_ok s (vpage j)" unfolding entry_ok_def using ok pd vpage_range [OF jr] by blast
  have f: "frame_fresh s (drop_bit 12 (ph OR PG_ATTR))"
    using i(2) ph by (simp only: entry_attr(2) page_of_def)
  note x = extends_set_entry [OF e entry_attr(1) f j(3), folded t_def]
  show "page_table_add mo v ph s = Inr ((), t)"
    using page_table_add_absent [of s v mo ph] e j(3) by (simp only: v t_def)
  show "extends_within {} s t" by (rule x(1))
  show "page_of a = vpage j \<Longrightarrow> kaddr t a" "page_of a = vpage j \<Longrightarrow> \<not> kaddr s a"
    unfolding page_of_def by (rule x(2), assumption) (rule x(3), assumption)
  have fr: "frame_of t w = frame_of s w" if "0xc0000 \<le> w" "w < 0x100000" "w \<noteq> vpage j" for w
    unfolding t_def using that by (rule frame_of_set_entry_other [OF e])
  show other: "frame_of t (vpage k) = frame_of s (vpage k)" if "k < 0x3fb00" "k \<noteq> j" for k
    using fr vpage_range [OF that(1)] vpage_inj [OF that(1) jr] that(2) by blast
  have fj: "frame_of t (vpage j) = Some (kframe m i)"
    using frame_of_set_entry_same [OF e entry_attr(1)] ph by (simp only: t_def entry_attr(2) page_of_def)
  have "frame_fresh t (kframe m k)" if k: "k < 8 * length (kbits m)" "\<not> bm_bit (kbits m) k" for k
  proof -
    have fk: "frame_fresh s (kframe m k)" using p(3) k unfolding pools_mapped_def by blast
    have ne: "kframe m i \<noteq> kframe m k" using kframe_inj [of i k m] i(1,3) k sz by fastforce
    have "frame_of t w \<noteq> Some (kframe m k)" if "0xc0000 \<le> w" "w < 0x100000" for w
    proof (cases "w = vpage j")
      case True
      with fj ne show ?thesis by simp
    next
      case False
      with fr [OF that] fk that show ?thesis unfolding frame_fresh_def by metis
    qed
    moreover have "\<not> table_frame t (kframe m k)"
      using fk unfolding t_def table_frame_set_entry [OF e] frame_fresh_def by blast
    ultimately show ?thesis unfolding frame_fresh_def by blast
  qed
  moreover have "pde_of t (vpage k) AND 1 \<noteq> 0 \<and> (\<not> bm_bit (vbits m) k \<longrightarrow> frame_of t (vpage k) = None)"
    if k: "k < 8 * length (vbits m)" for k
  proof -
    have kr: "k < 0x3fb00" using k sz by simp
    have "pde_of t (vpage k) = pde_of s (vpage k)"
      unfolding t_def by (rule pde_of_set_entry [OF e]) (use vpage_range [OF kr] in blast)
    moreover have "\<not> bm_bit (vbits m) k \<Longrightarrow> frame_of t (vpage k) = frame_of s (vpage k)"
      using other [OF kr] j(2) by blast
    ultimately show ?thesis using p(3) k unfolding pools_mapped_def by metis
  qed
  moreover have "paging_ok t" unfolding t_def by (rule paging_ok_set_entry [OF e])
  ultimately have "pools_mapped t m" unfolding pools_mapped_def by blast
  with pools_hold_extends [OF p(1) x(1)] p(2) show "mem_inv t mo m" by (simp add: mem_inv_def)
qed

definition mapped_run :: "nat \<Rightarrow> nat \<Rightarrow> addr set" where
  "mapped_run r n = {a. \<exists>j. r \<le> j \<and> j < r + n \<and> page_of a = vpage j}"

lemma mapped_run_Suc: "mapped_run r (Suc n) = {a. page_of a = vpage r} \<union> mapped_run (Suc r) n"
proof -
  have "r \<le> j \<and> j < r + Suc n \<and> P j \<longleftrightarrow> j = r \<and> P j \<or> Suc r \<le> j \<and> j < Suc r + n \<and> P j" for j P by auto
  then have "(\<exists>j. r \<le> j \<and> j < r + Suc n \<and> P j) \<longleftrightarrow> P r \<or> (\<exists>j. Suc r \<le> j \<and> j < Suc r + n \<and> P j)" for P
    by (simp only: ex_disj_distrib simp_thms)
  then show ?thesis unfolding mapped_run_def by auto
qed

lemma malloc_loop_spec:
  assumes "mem_inv s mo m" "n \<le> card (free_frames (kbits m))" "r + n \<le> 8 * length (vbits m)"
    "\<forall>j. r \<le> j \<longrightarrow> j < r + n \<longrightarrow> bm_bit (vbits m) j \<and> frame_of s (vpage j) = None"
  shows "\<exists>t bs. malloc_loop mo (kernel_pool mo) n (K_HEAD_START + of_nat (r * 4096)) s = Inr (True, t) \<and>
    extends_within (kspan m) s t \<and> mem_inv t mo (m\<lparr>kbits := bs\<rparr>) \<and> length bs = length (kbits m) \<and>
    card (free_frames bs) + n = card (free_frames (kbits m)) \<and> (\<forall>a \<in> mapped_run r n. kaddr t a \<and> \<not> kaddr s a)"
  using assms
proof (induction n arbitrary: s m r)
  case 0
  then show ?case by (intro exI [of _ s] exI [of _ "kbits m"]) (auto simp: ret_def mapped_run_def extends_upd upd_within_refl)
next
  case (Suc n)
  let ?i = "first_free (kbits m)" and ?v = "K_HEAD_START + of_nat (r * 4096)"
  let ?ph = "of_nat (?i * 4096) + kstart m" and ?m = "m\<lparr>kbits := bm_update (kbits m) (first_free (kbits m)) True\<rparr>"
  have ne: "free_frames (kbits m) \<noteq> {}" using Suc.prems(2) by auto
  from palloc_spec [OF Suc.prems(1) ne] obtain t where
    t: "palloc (kernel_pool mo) s = Inr (?ph, t)" "upd_within (kspan m) s t" "mem_inv t mo ?m"
      "frame_fresh t (kframe m ?i)" "?i \<in> free_frames (kbits m)" by blast
  have i: "?i < 8 * length (kbits m)" using t(5) by (simp add: free_frames_def)
  have sz: "pools_sized m" using mem_inv_parts [OF Suc.prems(1)] by blast
  note ka = kframe_addr [of m, OF _ _ i]
  have ph: "page_of ?ph = kframe ?m ?i" "?ph \<noteq> 0" using ka sz by (simp_all add: pools_sized_def kframe_def)
  have rl: "r < 8 * length (vbits m)" "r < 0x3fb00" using Suc.prems(3) sz by (simp_all add: pools_sized_def)
  have j: "r < 8 * length (vbits ?m)" "bm_bit (vbits ?m) r" "frame_of t (vpage r) = None"
    using rl Suc.prems(4) tables_same_frame [OF upd_within_tables [OF t(2)], of "vpage r"] vpage_range [OF rl(2)] by simp_all
  have fi: "?i < 8 * length (kbits ?m)" "frame_fresh t (kframe ?m ?i)" "bm_bit (kbits ?m) ?i"
    using i t(4) by (simp_all add: bm_bit_update kframe_def)
  let ?u = "set_entry (vpage r) (?ph OR PG_ATTR) t"
  note mo = map_one [OF t(3) j fi ph(1) page_of_vaddr [OF rl(2)]]
  have card: "card (free_frames (kbits ?m)) + 1 = card (free_frames (kbits m))"
    using card_Suc_Diff1 [OF finite_free_frames t(5)] by (simp add: free_frames_update [OF i])
  have nxt: "\<forall>j. Suc r \<le> j \<longrightarrow> j < Suc r + n \<longrightarrow> bm_bit (vbits ?m) j \<and> frame_of ?u (vpage j) = None"
  proof (intro allI impI)
    fix k assume k: "Suc r \<le> k" "k < Suc r + n"
    then have kr: "k < 0x3fb00" "k \<noteq> r" using Suc.prems(3) sz by (auto simp: pools_sized_def)
    have "frame_of s (vpage k) = None" "bm_bit (vbits m) k" using Suc.prems(4) k by auto
    moreover have "frame_of t (vpage k) = frame_of s (vpage k)"
      using tables_same_frame [OF upd_within_tables [OF t(2)], of "vpage k"] vpage_range [OF kr(1)] by blast
    ultimately show "bm_bit (vbits ?m) k \<and> frame_of ?u (vpage k) = None" using mo(6) [OF kr] by simp
  qed
  from Suc.IH [OF mo(3), of "Suc r"] card Suc.prems(2,3) nxt obtain w bs where
    w: "malloc_loop mo (kernel_pool mo) n (K_HEAD_START + of_nat (Suc r * 4096)) ?u = Inr (True, w)"
      "extends_within (kspan ?m) ?u w" "mem_inv w mo (?m\<lparr>kbits := bs\<rparr>)" "length bs = length (kbits m)"
      "card (free_frames bs) + n = card (free_frames (kbits ?m))" "\<forall>a \<in> mapped_run (Suc r) n. kaddr w a \<and> \<not> kaddr ?u a"
    by auto
  have ks: "kspan ?m = kspan m" by (simp add: kspan_def)
  have x: "extends_within (kspan m) s w"
    using extends_trans [OF extends_trans [OF extends_upd [OF t(2)] extends_mono [OF mo(2)]] w(2) [unfolded ks]] by simp
  have "kaddr w a \<and> \<not> kaddr s a" if a: "a \<in> mapped_run r (Suc n)" for a
  proof (cases "page_of a = vpage r")
    case True
    have "kaddr ?u a" "\<not> kaddr t a" using mo(4,5) [OF True] by simp_all
    then show ?thesis using extends_kaddr [OF w(2)] upd_within_kaddr [OF t(2)] by simp
  next
    case False
    then have "a \<in> mapped_run (Suc r) n" using a by (simp add: mapped_run_Suc)
    with w(6) extends_kaddr [OF mo(2)] upd_within_kaddr [OF t(2)] show ?thesis by metis
  qed
  moreover have "malloc_loop mo (kernel_pool mo) (Suc n) ?v s = Inr (True, w)"
  proof -
    have vs: "?v + PAGE_SIZE = K_HEAD_START + of_nat (Suc r * 4096)" by (simp add: PAGE_SIZE_def)
    show ?thesis
      using ph(2) by (simp only: malloc_loop.simps cbind_def cseq_def t(1) mo(1) vs w(1) sum.case prod.case if_False)
  qed
  moreover have "mem_inv w mo (m\<lparr>kbits := bs\<rparr>)" using w(3) by simp
  moreover have "card (free_frames bs) + Suc n = card (free_frames (kbits m))" using w(5) card by simp
  ultimately show ?case using x w(4) by blast
qed

subsection \<open>Whole allocations\<close>

lemma pools_hold_upd:
  assumes h: "pools_hold t mo m" and u: "upd_within B t u" and d: "B \<inter> (pool_cells mo \<union> kspan m \<union> vspan m) = {}"
  shows "pools_hold u mo m"
proof -
  have c: "peek32 u c = peek32 t c" if "kcell t c" "bytes4 c \<subseteq> pool_cells mo" for c
    by (rule upd_within_peek32 [OF u that(1)]) (use that(2) d in blast)
  have "blk u (kbase m) (kbits m)" "blk u (vbase m) (vbits m)"
    by (rule upd_within_blk [OF u]; use h d in \<open>auto simp: pools_hold_def bitmap_holds_def kspan_def vspan_def\<close>)+
  then show ?thesis
    using h c [OF _ pool_cells_sub(1)] c [OF _ pool_cells_sub(2)] c [OF _ pool_cells_sub(3)]
      c [OF _ pool_cells_sub(4)] c [OF _ pool_cells_sub(5)] c [OF _ pool_cells_sub(6)]
    by (simp add: pools_hold_def bitmap_holds_def upd_within_kcell [OF u])
qed

lemma kcell_bytes: "kcell s c \<Longrightarrow> a \<in> bytes4 c \<Longrightarrow> kaddr s a"
proof -
  assume c: "kcell s c" and "a \<in> bytes4 c"
  then have "a - c < 4" by (simp only: in_bytes4)
  then have "kaddr s (c + (a - c)) = kaddr s c" using c by (intro kaddr_byte) (simp_all add: kcell_def)
  then show "kaddr s a" using c by (simp add: kcell_def)
qed

lemma pools_hold_kaddr:
  assumes "pools_hold s mo m" "a \<in> pool_cells mo \<union> kspan m \<union> vspan m"
  shows "kaddr s a"
proof -
  have k: "kcell s (kernel_pool mo)" "kcell s (bits_field (kernel_pool mo))" "kcell s (phy_addr_start (kernel_pool mo))"
    "kcell s (kernel_addr mo)" "kcell s (bits_field (kernel_addr mo))" "kcell s (vaddr_start (kernel_addr mo))"
    using assms(1) by (simp_all add: pools_hold_def bitmap_holds_def)
  have "room s (kbase m) (length (kbits m))" "room s (vbase m) (length (vbits m))"
    using assms(1) blk_room by (auto simp: pools_hold_def bitmap_holds_def)
  with assms(2) k kcell_bytes show ?thesis unfolding room_def pool_cells_def kspan_def vspan_def by blast
qed

lemma span_mapped:
  assumes "r + n \<le> 0x3fb00"
  shows "span (K_HEAD_START + of_nat (r * 4096)) (n * 4096) = mapped_run r n"
proof -
  define v where "v = (K_HEAD_START + of_nat (r * 4096) :: u32)"
  have uv: "unat v = (0xc0100 + r) * 4096"
    using assms by (simp add: v_def K_HEAD_START_def unat_word_ariths unat_of_nat)
  have "span v (n * 4096) = mapped_run r n"
  proof (intro set_eqI iffI)
  {
    fix a assume "a \<in> span v (n * 4096)"
    then obtain i where i: "i < n * 4096" "a = v + of_nat i" unfolding span_iff by blast
    have b: "(0xc0100 + r) * 4096 + i < 4294967296" using i(1) assms by (simp add: algebra_simps)
    have ua: "unat a = (0xc0100 + r) * 4096 + i"
      unfolding i(2) unat_word_ariths uv using b i(1) assms by (simp add: unat_of_nat)
    have d: "i div 4096 < n" using i(1) by (simp add: less_mult_imp_div_less)
    have "unat (page_of a) = 0xc0100 + (r + i div 4096)" by (simp only: page_of_def unat_drop ua) simp
    moreover have "unat (vpage (r + i div 4096)) = 0xc0100 + (r + i div 4096)"
      by (rule unat_vpage) (use d assms in linarith)
    ultimately have "page_of a = vpage (r + i div 4096)" by (simp only: word_unat_eq_iff)
    moreover have "r + i div 4096 < r + n" using d by simp
    ultimately show "a \<in> mapped_run r n" unfolding mapped_run_def by (auto intro: exI [of _ "r + i div 4096"])
  }
  fix a assume "a \<in> mapped_run r n"
  then obtain j where j: "r \<le> j" "j < r + n" "page_of a = vpage j" by (auto simp: mapped_run_def)
  have pu: "unat a div 4096 = 0xc0100 + j"
    using arg_cong [OF j(3), of unat] unat_vpage [of j] j(2) assms by (simp add: page_of_def unat_drop)
  define i where "i = unat a - (0xc0100 + r) * 4096"
  have ua: "unat a = (0xc0100 + j) * 4096 + unat a mod 4096" using pu by (metis div_mult_mod_eq)
  have ai: "unat a = (0xc0100 + r) * 4096 + i" 
  proof -
    have "(0xc0100 + r) * 4096 \<le> (0xc0100 + j) * 4096" using j(1) by simp
    also have "\<dots> \<le> unat a" using ua by (metis le_add1)
    finally show ?thesis by (simp only: i_def le_add_diff_inverse)
  qed
  have m: "unat a mod 4096 < 4096" by simp
  have "i < n * 4096"
  proof -
    have "(0xc0100 + r) * 4096 + i < (0xc0100 + j) * 4096 + 4096" using ai ua m by linarith
    also have "\<dots> \<le> (0xc0100 + r) * 4096 + n * 4096" using j(2) by simp
    finally show ?thesis by (simp only: add_less_cancel_left)
  qed
  moreover have "a = v + of_nat i"
  proof -
    have "i < 4294967296" using ai unat_u32_less [of a] by linarith
    then have "unat (v + of_nat i) = ((0xc0100 + r) * 4096 + i) mod 4294967296"
      unfolding unat_word_ariths uv by (simp add: unat_of_nat)
    then have "unat (v + of_nat i) = unat a" using ai unat_u32_less [of a] by simp
    then show ?thesis by (simp only: word_unat_eq_iff)
  qed
  ultimately show "a \<in> span v (n * 4096)" unfolding span_iff by blast
qed
  then show ?thesis by (simp only: v_def)
qed

lemma malloc_kernel_spec:
  assumes inv: "mem_inv s mo m" and sc: "bitmap_scan (kernel_addr mo) cnt s = Inr (int r, s)"
    and run: "free_run (bm_bit (vbits m)) r (unat cnt)" and rn: "r + unat cnt \<le> 8 * length (vbits m)"
    and n: "0 < cnt" "cnt < 3840" and fr: "unat cnt \<le> card (free_frames (kbits m))"
  shows "\<exists>t bs. malloc_page mo PF_KERNEL cnt s = Inr (K_HEAD_START + of_nat (r * 4096), t) \<and>
    extends_within (kspan m \<union> vspan m) s t \<and>
    mem_inv t mo (m\<lparr>kbits := bs, vbits := bm_set_run (vbits m) r (unat cnt)\<rparr>) \<and> length bs = length (kbits m) \<and>
    card (free_frames bs) + unat cnt = card (free_frames (kbits m)) \<and> (\<forall>a \<in> mapped_run r (unat cnt). kaddr t a \<and> \<not> kaddr s a)"
proof -
  let ?n = "unat cnt" and ?v = "K_HEAD_START + of_nat (r * 4096) :: u32"
  let ?m = "m\<lparr>vbits := bm_set_run (vbits m) r (unat cnt)\<rparr>"
  note p = mem_inv_parts [OF inv]
  have sz: "8 * length (vbits m) \<le> 0x3fb00" using p(2) by (simp add: pools_sized_def)
  from vaddr_get_spec [OF inv sc rn] obtain t where
    t: "vaddr_get mo PF_KERNEL cnt s = Inr (?v, t)" "upd_within (vspan m) s t" "mem_inv t mo ?m" by blast
  have "bm_bit (vbits ?m) j \<and> frame_of t (vpage j) = None" if "r \<le> j" "j < r + ?n" for j
  proof
    show "bm_bit (vbits ?m) j" using that bm_bit_set_run [OF rn] by simp
    have "\<not> bm_bit (vbits m) (r + (j - r))" using run that unfolding free_run_def by (metis le_add_diff_inverse add_less_cancel_left)
    then have "\<not> bm_bit (vbits m) j" using that by simp
    moreover have jl: "j < 8 * length (vbits m)" using that rn by simp
    ultimately have "frame_of s (vpage j) = None" using p(3) unfolding pools_mapped_def by blast
    then show "frame_of t (vpage j) = None"
      using tables_same_frame [OF upd_within_tables [OF t(2)], of "vpage j"] vpage_range [of j] jl sz by simp
  qed
  with malloc_loop_spec [OF t(3), of ?n r] fr rn obtain u bs where
    u: "malloc_loop mo (kernel_pool mo) ?n ?v t = Inr (True, u)" "extends_within (kspan ?m) t u"
      "mem_inv u mo (?m\<lparr>kbits := bs\<rparr>)" "length bs = length (kbits m)"
      "card (free_frames bs) + ?n = card (free_frames (kbits m))" "\<forall>a \<in> mapped_run r ?n. kaddr u a \<and> \<not> kaddr t a"
    by auto
  have ks: "kspan ?m = kspan m" by (simp add: kspan_def)
  have "extends_within (kspan m \<union> vspan m) s u"
    by (rule extends_trans [OF extends_mono [OF extends_upd [OF t(2)]] extends_mono [OF u(2) [unfolded ks]]]) simp_all
  moreover have "\<forall>a \<in> mapped_run r ?n. kaddr u a \<and> \<not> kaddr s a" using u(6) upd_within_kaddr [OF t(2)] by simp
  moreover have "malloc_page mo PF_KERNEL cnt s = Inr (?v, u)"
  proof -
    have "unat ?v = (0xc0100 + r) * 4096"
      using rn sz n(1) by (simp add: K_HEAD_START_def unat_word_ariths unat_of_nat)
    then have v0: "?v \<noteq> 0" by (metis mult_eq_0_iff add_is_0 unat_0 zero_neq_numeral)
    show ?thesis
      using n v0 by (simp add: malloc_page_def memory_assert_def comp_simps t(1) u(1) del: of_nat_mult)
  qed
  moreover have "?m\<lparr>kbits := bs\<rparr> = m\<lparr>kbits := bs, vbits := bm_set_run (vbits m) r (unat cnt)\<rparr>" by simp
  ultimately show ?thesis using u(3,4,5) by metis
qed

lemma get_kernel_pages_spec:
  assumes inv: "mem_inv s mo m" and sc: "bitmap_scan (kernel_addr mo) cnt s = Inr (int r, s)"
    and run: "free_run (bm_bit (vbits m)) r (unat cnt)" and rn: "r + unat cnt \<le> 8 * length (vbits m)"
    and n: "0 < cnt" "cnt < 3840" and fr: "unat cnt \<le> card (free_frames (kbits m))"
  defines "v \<equiv> K_HEAD_START + of_nat (r * 4096)"
  shows "\<exists>t bs. get_kernel_pages mo cnt s = Inr (v, t) \<and> extends_within (kspan m \<union> vspan m) s t \<and>
    mem_inv t mo (m\<lparr>kbits := bs, vbits := bm_set_run (vbits m) r (unat cnt)\<rparr>) \<and> length bs = length (kbits m) \<and>
    card (free_frames bs) + unat cnt = card (free_frames (kbits m)) \<and>
    blk t v (replicate (unat cnt * 4096) 0) \<and> (\<forall>a \<in> span v (unat cnt * 4096). \<not> kaddr s a)"
proof -
  let ?n = "unat cnt" and ?m = "\<lambda>bs. m\<lparr>kbits := bs, vbits := bm_set_run (vbits m) r (unat cnt)\<rparr>"
  note p = mem_inv_parts [OF inv]
  have sz: "r + ?n \<le> 0x3fb00" using p(2) rn by (simp add: pools_sized_def)
  note sm = span_mapped [OF sz, folded v_def]
  from malloc_kernel_spec [OF inv sc run rn n fr] obtain t bs where
    t: "malloc_page mo PF_KERNEL cnt s = Inr (v, t)" "extends_within (kspan m \<union> vspan m) s t" "mem_inv t mo (?m bs)"
      "length bs = length (kbits m)" "card (free_frames bs) + ?n = card (free_frames (kbits m))"
      "\<forall>a \<in> mapped_run r ?n. kaddr t a \<and> \<not> kaddr s a" unfolding v_def by blast
  have room: "room t v (?n * 4096)" using t(6) by (simp add: room_def sm)
  have "v \<in> span v (?n * 4096)" using span_at [of 0 "?n * 4096" v] n(1) by (simp add: word_less_nat_alt)
  then have v0: "v \<noteq> 0" using room kaddr_not_0 unfolding room_def by blast
  have sz2: "cnt * PAGE_SIZE = of_nat (?n * 4096)" by (simp add: PAGE_SIZE_def)
  from memset_spec [OF room v0, of 0] obtain u where
    u: "memset v 0 (of_nat (?n * 4096)) t = Inr ((), u)" "blk u v (replicate (?n * 4096) 0)"
      "upd_within (span v (?n * 4096)) t u" by blast
  have new: "\<forall>a \<in> span v (?n * 4096). \<not> kaddr s a" using t(6) by (simp add: sm)
  have ksp: "kspan (?m bs) = kspan m" "vspan (?m bs) = vspan m" using t(4) by (simp_all add: kspan_def vspan_def)
  have "span v (?n * 4096) \<inter> (pool_cells mo \<union> kspan m \<union> vspan m) = {}"
    using new pools_hold_kaddr [OF p(1)] by blast
  then have "pools_hold u mo (?m bs)"
    using mem_inv_parts(1) [OF t(3)] by (intro pools_hold_upd [OF _ u(3)]) (simp_all only: ksp)
  moreover have "pools_mapped u (?m bs)"
    using mem_inv_parts(2,3) [OF t(3)] pools_mapped_upd [OF upd_within_tables [OF u(3)]] by blast
  ultimately have "mem_inv u mo (?m bs)" using mem_inv_parts(2) [OF t(3)] by (simp add: mem_inv_def)
  moreover have "extends_within (kspan m \<union> vspan m) s u"
  proof -
    have "kaddr u a \<and> translate u a = translate s a \<and> (a \<notin> kspan m \<union> vspan m \<longrightarrow> peek8 u a = peek8 s a)" if "kaddr s a" for a
    proof -
      have "a \<notin> span v (?n * 4096)" using new that by blast
      then show ?thesis using t(2) u(3) that upd_within_peek8 [OF u(3)] by (simp add: extends_within_def upd_within_def)
    qed
    moreover have "\<exists>x. u = s\<lparr>pmem := x\<rparr>" using t(2) u(3) by (auto simp: extends_within_def upd_within_def tables_same_def)
    ultimately show ?thesis unfolding extends_within_def by blast
  qed
  moreover have "get_kernel_pages mo cnt s = Inr (v, u)"
    using t(1) u(1) v0 by (simp add: get_kernel_pages_def comp_simps sz2 del: of_nat_mult)
  ultimately show ?thesis using u(2) t(4,5) new by blast
qed

end
