(* ===== verification/MemInit.thy ===== *)
theory MemInit
  imports Memory Boot
begin

unbundle bit_operations_syntax

section \<open>Setting up the pools, and what the allocator promises (kernel/memory.c)\<close>

text \<open>
  \<open>mem_init\<close> lays out the two pools, clears their bitmaps and so establishes the
  invariant \<open>mem_inv\<close> that the allocations keep; then the properties of the allocator,
  with their witnesses on the machine the loader leaves behind.
\<close>

subsection \<open>What the initialisation establishes\<close>

lemma console_indep [simp]:
  "table_frame (s\<lparr>console := x\<rparr>) = table_frame s" "frame_of (s\<lparr>console := x\<rparr>) = frame_of s"
  "pde_of (s\<lparr>console := x\<rparr>) = pde_of s" "dir_frame (s\<lparr>console := x\<rparr>) = dir_frame s"
proof -
  have p: "pd_entry_addr (s\<lparr>console := x\<rparr>) = pd_entry_addr s" by (rule ext) (simp add: pd_entry_addr_def)
  show "table_frame (s\<lparr>console := x\<rparr>) = table_frame s" by (rule ext) (simp add: table_frame_def p)
  show "frame_of (s\<lparr>console := x\<rparr>) = frame_of s" by (rule ext) (simp add: frame_of_def p Let_def cong: if_cong)
  show "pde_of (s\<lparr>console := x\<rparr>) = pde_of s" by (rule ext) (simp add: pde_of_def p)
  show "dir_frame (s\<lparr>console := x\<rparr>) = dir_frame s" by (simp add: dir_frame_def)
qed

lemma console_blk [simp]: "blk (s\<lparr>console := x\<rparr>) p bs = blk s p bs"
  by (induction bs arbitrary: p) simp_all

lemma console_more [simp]:
  "room (s\<lparr>console := x\<rparr>) p n = room s p n" "bitmap_holds (s\<lparr>console := x\<rparr>) b p bs = bitmap_holds s b p bs"
  "frame_fresh (s\<lparr>console := x\<rparr>) = frame_fresh s" "paging_ok (s\<lparr>console := x\<rparr>) = paging_ok s"
  "pools_mapped (s\<lparr>console := x\<rparr>) m = pools_mapped s m" "pools_hold (s\<lparr>console := x\<rparr>) mo m = pools_hold s mo m"
  by (simp_all add: room_def bitmap_holds_def frame_fresh_def paging_ok_def pools_mapped_def pools_hold_def fun_eq_iff)

lemma upd_within_console: "upd_within B s t \<Longrightarrow> upd_within B (s\<lparr>console := x\<rparr>) (t\<lparr>console := x\<rparr>)"
  by (rule upd_within_map [where f = "\<lambda>s. s\<lparr>console := x\<rparr>"]) simp_all

lemma upd_within_store:
  "upd_within B s t \<Longrightarrow> kcell s c \<Longrightarrow> bytes4 c \<subseteq> B \<Longrightarrow> upd_within B s (poke32 c v t)"
  by (rule upd_within_trans, assumption, rule upd_within_poke32) (simp_all add: upd_within_kcell)

lemma upd_within_console_same: "upd_within B s t \<Longrightarrow> console t = console s"
  by (auto simp: upd_within_def tables_same_def)

lemma room_blk: "room s p n \<Longrightarrow> \<exists>bs. length bs = n \<and> blk s p bs"
proof (induction n arbitrary: p)
  case (Suc n)
  then obtain bs where "length bs = n" "blk s (p + 1) bs" by auto
  with Suc.prems show ?case by (intro exI [of _ "peek8 s p # bs"]) simp
qed simp

definition mem_cells :: "mem_objs \<Rightarrow> addr list" where
  "mem_cells mo = [kernel_pool mo, bits_field (kernel_pool mo), phy_addr_start (kernel_pool mo), pool_size (kernel_pool mo),
     user_pool mo, bits_field (user_pool mo), phy_addr_start (user_pool mo), pool_size (user_pool mo),
     kernel_addr mo, bits_field (kernel_addr mo), vaddr_start (kernel_addr mo)]"

text \<open>The bitmap of a structure whose two fields have been stored, with any bytes, is cleared.\<close>

lemma fresh_bitmap:
  assumes "room s p (unat n)" "(bytes4 b \<union> bytes4 (bits_field b)) \<inter> span p (unat n) = {}"
    "kcell s b" "kcell s (bits_field b)" "peek32 s b = n" "peek32 s (bits_field b) = p" "p \<noteq> 0"
  obtains t where "bitmap_init b s = Inr ((), t)" "bitmap_holds t b p (replicate (unat n) 0)" "upd_within (span p (unat n)) s t"
proof -
  obtain bs where bs: "length bs = unat n" "blk s p bs" using room_blk [OF assms(1)] by blast
  then have "bitmap_holds s b p bs" using assms by (simp add: bitmap_holds_def)
  from bitmap_init_spec [OF this assms(7)] bs(1) that show ?thesis by auto
qed

definition bitmap_bytes :: "u32 \<Rightarrow> nat" where
  "bitmap_bytes total_memory = 2 * unat (kernel_bitmap_length total_memory) + unat (user_bitmap_length total_memory)"

definition mem_ready :: "'z machine_scheme \<Rightarrow> mem_objs \<Rightarrow> u32 \<Rightarrow> bool" where
  "mem_ready s mo total_memory \<longleftrightarrow> (\<forall>c \<in> set (mem_cells mo). kcell s c) \<and> distinct (mem_cells mo) \<and>
     room s MEM_BITMAP_BASE (bitmap_bytes total_memory) \<and>
     (\<forall>c \<in> set (mem_cells mo). bytes4 c \<inter> span MEM_BITMAP_BASE (bitmap_bytes total_memory) = {}) \<and>
     paging_ok s \<and> (\<forall>i < 8 * unat (kernel_bitmap_length total_memory). pde_of s (vpage i) AND 1 \<noteq> 0 \<and> frame_of s (vpage i) = None) \<and>
     (\<forall>i < 8 * unat (kernel_bitmap_length total_memory). frame_fresh s (0x200 + of_nat i))"

definition init_view :: "u32 \<Rightarrow> mem_view" where
  "init_view total_memory = (let k = unat (kernel_bitmap_length total_memory) in
     \<lparr>kbase = MEM_BITMAP_BASE, kbits = replicate k 0,
      vbase = MEM_BITMAP_BASE + kernel_bitmap_length total_memory + user_bitmap_length total_memory, vbits = replicate k 0,
      kstart = used_mem\<rparr>)"

lemma bitmap_lengths:
  "unat (kernel_bitmap_length total_memory) \<le> 4095" "unat (user_bitmap_length total_memory) \<le> 4096"
proof -
  let ?f = "free_pages total_memory" and ?k = "kernel_free_pages total_memory"
  have k: "unat ?k = unat ?f div 2" by (simp only: kernel_free_pages_def unat_drop) simp
  have f: "unat ?f < 65536" using unsigned_less [of ?f, where 'a = nat] by simp
  have u: "unat (ucast x :: u32) = unat x" for x :: u16
  proof -
    have "unat x < 65536" using unsigned_less [of x, where 'a = nat] by simp
    then show ?thesis by (simp add: unsigned_ucast_eq take_bit_nat_eq_self)
  qed
  have "unat (kernel_bitmap_length total_memory) = unat ?f div 2 div 8" by (simp add: kernel_bitmap_length_def unat_div u k)
  then show "unat (kernel_bitmap_length total_memory) \<le> 4095" using f by simp
  have "?k \<le> ?f" by (simp add: word_le_nat_alt k)
  then have "unat (user_free_pages total_memory) = unat ?f - unat ?f div 2" by (simp add: user_free_pages_def unat_sub k)
  then have "unat (user_bitmap_length total_memory) = (unat ?f - unat ?f div 2) div 8" by (simp add: user_bitmap_length_def unat_div u)
  then show "unat (user_bitmap_length total_memory) \<le> 4096" using f by simp
qed

text \<open>
  \<open>logs B s t\<close>: from \<open>s\<close> to \<open>t\<close> bytes of \<open>B\<close> and the console have changed.
\<close>

definition logs :: "addr set \<Rightarrow> 'z machine_scheme \<Rightarrow> 'z machine_scheme \<Rightarrow> bool" where
  "logs B s t \<longleftrightarrow> (\<exists>c. upd_within B (s\<lparr>console := console s @ c\<rparr>) t)"

lemma logs_upd: "upd_within B s t \<Longrightarrow> B \<subseteq> C \<Longrightarrow> logs C s t"
  unfolding logs_def by (rule exI [of _ "[]"]) (simp add: upd_within_mono)

lemma logs_console: "logs B s (s\<lparr>console := console s @ c\<rparr>)"
  unfolding logs_def by blast

lemma logs_trans:
  assumes "logs B s t" "logs B t u"
  shows "logs B s u"
proof -
  obtain c d where c: "upd_within B (s\<lparr>console := console s @ c\<rparr>) t" and d: "upd_within B (t\<lparr>console := console t @ d\<rparr>) u"
    using assms unfolding logs_def by blast
  have "console t = console s @ c" using upd_within_console_same [OF c] by simp
  then have "upd_within B (s\<lparr>console := console s @ c @ d\<rparr>) (t\<lparr>console := console t @ d\<rparr>)"
    using upd_within_console [OF c, of "console s @ c @ d"] by simp
  then show ?thesis unfolding logs_def using upd_within_trans [OF _ d] by blast
qed

lemma logs_keep:
  assumes "logs B s t"
  shows "kcell t = kcell s" "room t p n = room s p n" "kcell s c \<Longrightarrow> bytes4 c \<inter> B = {} \<Longrightarrow> peek32 t c = peek32 s c"
    "blk s p bs \<Longrightarrow> span p (length bs) \<inter> B = {} \<Longrightarrow> blk t p bs"
proof -
  obtain c where u: "upd_within B (s\<lparr>console := console s @ c\<rparr>) t" using assms unfolding logs_def by blast
  show "kcell t = kcell s" "room t p n = room s p n" using upd_within_kcell [OF u] upd_within_room [OF u] by simp_all
  show "kcell s c \<Longrightarrow> bytes4 c \<inter> B = {} \<Longrightarrow> peek32 t c = peek32 s c" for c using upd_within_peek32 [OF u, of c] by simp
  show "blk s p bs \<Longrightarrow> span p (length bs) \<inter> B = {} \<Longrightarrow> blk t p bs" using upd_within_blk [OF u, of p bs] by simp
qed

text \<open>Stores to different cells.\<close>

lemma field_stores_run:
  assumes "\<forall>c \<in> set (map fst cvs). kcell s c" "distinct (map fst cvs)"
  shows "\<exists>t. run_all (\<lambda>(c, v). store32 c v) cvs s = Inr ((), t) \<and> upd_within (\<Union> (bytes4 ` set (map fst cvs))) s t \<and>
    (\<forall>(c, v) \<in> set cvs. peek32 t c = v) \<and> (\<forall>c. kcell s c \<longrightarrow> c \<notin> set (map fst cvs) \<longrightarrow> peek32 t c = peek32 s c)"
  using assms
proof (induction cvs arbitrary: s)
  case Nil
  then show ?case by (auto simp: ret_def)
next
  case (Cons cv cvs)
  obtain c v where cv: "cv = (c, v)" by (cases cv)
  have k: "kcell s c" "\<forall>d \<in> set (map fst cvs). kcell (poke32 c v s) d" "distinct (map fst cvs)" "c \<notin> set (map fst cvs)"
    using Cons.prems by (simp_all add: cv kcell_poke32)
  from Cons.IH [OF k(2,3)] obtain t where
    t: "run_all (\<lambda>(c, v). store32 c v) cvs (poke32 c v s) = Inr ((), t)" "upd_within (\<Union> (bytes4 ` set (map fst cvs))) (poke32 c v s) t"
      "\<forall>(c, v) \<in> set cvs. peek32 t c = v" "\<forall>d. kcell (poke32 c v s) d \<longrightarrow> d \<notin> set (map fst cvs) \<longrightarrow> peek32 t d = peek32 (poke32 c v s) d" by blast
  have "upd_within (bytes4 c \<union> \<Union> (bytes4 ` set (map fst cvs))) s t" by (rule upd_within_trans2 [OF upd_within_poke32 [OF k(1) order_refl] t(2)])
  moreover have "peek32 t c = v" using t(4) k by (simp add: kcell_poke32 peek32_poke32)
  ultimately show ?case
    using t(1,3,4) k(1) by (intro exI [of _ t]) (simp add: cv cseq_def cbind_def store32_kcell kcell_poke32 peek32_poke32)
qed

subsubsection \<open>The parts of \<open>mem_pool_init\<close>\<close>

definition pool_fields :: "mem_objs \<Rightarrow> u32 \<Rightarrow> (addr \<times> u32) list" where
  "pool_fields mo n =
     [(phy_addr_start (kernel_pool mo), used_mem), (phy_addr_start (user_pool mo), used_mem + ucast (kernel_free_pages n) * PAGE_SIZE),
      (pool_size (kernel_pool mo), ucast (kernel_free_pages n) * PAGE_SIZE), (pool_size (user_pool mo), ucast (user_free_pages n) * PAGE_SIZE),
      (kernel_pool mo, kernel_bitmap_length n), (user_pool mo, user_bitmap_length n),
      (bits_field (kernel_pool mo), MEM_BITMAP_BASE), (bits_field (user_pool mo), MEM_BITMAP_BASE + kernel_bitmap_length n)]"

definition virtual_fields :: "mem_objs \<Rightarrow> u32 \<Rightarrow> (addr \<times> u32) list" where
  "virtual_fields mo n =
     [(kernel_addr mo, kernel_bitmap_length n), (bits_field (kernel_addr mo), MEM_BITMAP_BASE + kernel_bitmap_length n + user_bitmap_length n),
      (vaddr_start (kernel_addr mo), K_HEAD_START)]"

lemma cseq_ret: "cseq (ret ()) m = m"
  by (rule ext) (simp add: cseq_def cbind_def ret_def)

lemma mem_pool_init_parts:
  "mem_pool_init mo n =
     cseq (log_console (PutStr ''Start init Memory pool...\<newline>'')) (cseq (run_all (\<lambda>(c, v). store32 c v) (pool_fields mo n))
    (cseq (cseq (printKernelPoolInfo (kernel_pool mo)) (printUserPoolInfo (user_pool mo)))
    (cseq (bitmap_init (kernel_pool mo)) (cseq (bitmap_init (user_pool mo))
    (cseq (run_all (\<lambda>(c, v). store32 c v) (virtual_fields mo n)) (cseq (bitmap_init (kernel_addr mo))
          (log_console (PutStr ''Init memory pool done.\<newline>''))))))))"
  by (simp add: mem_pool_init_def pool_fields_def virtual_fields_def cseq_assoc cseq_ret)

lemma pool_cells_distinct:
  assumes "mem_ready s mo n"
  shows "distinct (map fst (pool_fields mo n))" "distinct (map fst (virtual_fields mo n))"
    "set (map fst (pool_fields mo n)) \<union> set (map fst (virtual_fields mo n)) = set (mem_cells mo)"
    "set (map fst (pool_fields mo n)) \<inter> set (map fst (virtual_fields mo n)) = {}"
  using assms by (auto simp: mem_ready_def mem_cells_def pool_fields_def virtual_fields_def)

lemma info_printed:
  assumes "kcell s (bits_field k)" "kcell s (phy_addr_start k)" "kcell s (bits_field u)" "kcell s (phy_addr_start u)"
  shows "\<exists>c. cseq (printKernelPoolInfo k) (printUserPoolInfo u) s = Inr ((), s\<lparr>console := console s @ c\<rparr>)"
  using assms
  by (simp add: printKernelPoolInfo_def printUserPoolInfo_def printPoolInfo_def comp_simps log_console_def load32_kcell)
    (intro exI, rule machine.fold_congs, simp_all)


subsubsection \<open>The three bitmaps\<close>

text \<open>What \<open>mem_init\<close> may write.\<close>

definition mem_init_bytes :: "mem_objs \<Rightarrow> u32 \<Rightarrow> addr set" where
  "mem_init_bytes mo n = \<Union> (bytes4 ` set (mem_cells mo)) \<union> span MEM_BITMAP_BASE (bitmap_bytes n)"

text \<open>The bitmap at the offset \<open>i\<close> of the bitmap area, whose header is \<open>b\<close>, cleared.\<close>

lemma bitmap_cleared:
  assumes r: "mem_ready s mo n" and t: "logs (mem_init_bytes mo n) s t" and b: "b \<in> set (mem_cells mo)" "bits_field b \<in> set (mem_cells mo)"
    and pk: "peek32 t b = l" "peek32 t (bits_field b) = MEM_BITMAP_BASE + of_nat i" and i: "i + unat l \<le> bitmap_bytes n"
  shows "\<exists>u. bitmap_init b t = Inr ((), u) \<and> bitmap_holds u b (MEM_BITMAP_BASE + of_nat i) (replicate (unat l) 0) \<and>
    upd_within (span (MEM_BITMAP_BASE + of_nat i) (unat l)) t u \<and> logs (mem_init_bytes mo n) s u \<and> (\<forall>c \<in> set (mem_cells mo). peek32 u c = peek32 t c)"
proof -
  let ?p = "MEM_BITMAP_BASE + of_nat i"
  have sub: "span ?p (unat l) \<subseteq> span MEM_BITMAP_BASE (bitmap_bytes n)" by (rule span_shift [OF i])
  have dis: "bytes4 c \<inter> span ?p (unat l) = {}" if "c \<in> set (mem_cells mo)" for c using r that sub unfolding mem_ready_def by blast
  have kc: "kcell t c" if "c \<in> set (mem_cells mo)" for c using r that logs_keep(1) [OF t] by (simp add: mem_ready_def)
  have "room s MEM_BITMAP_BASE (bitmap_bytes n)" using r by (simp add: mem_ready_def)
  then have rm: "room t ?p (unat l)" unfolding logs_keep(2) [OF t] by (rule room_shift [OF _ i])
  have "unat ?p = 0xc009a000 + i"
    using i bitmap_lengths [of n] by (simp add: MEM_BITMAP_BASE_def unat_word_ariths unat_of_nat bitmap_bytes_def)
  then have nz: "?p \<noteq> 0" by auto
  have "(bytes4 b \<union> bytes4 (bits_field b)) \<inter> span ?p (unat l) = {}" using dis [OF b(1)] dis [OF b(2)] by blast
  from fresh_bitmap [OF rm this kc [OF b(1)] kc [OF b(2)] pk nz] obtain u where
    u: "bitmap_init b t = Inr ((), u)" "bitmap_holds u b ?p (replicate (unat l) 0)" "upd_within (span ?p (unat l)) t u" by blast
  have "peek32 u c = peek32 t c" if "c \<in> set (mem_cells mo)" for c by (rule upd_within_peek32 [OF u(3) kc [OF that] dis [OF that]])
  moreover have "logs (mem_init_bytes mo n) s u" by (rule logs_trans [OF t logs_upd [OF u(3)]]) (use sub in \<open>auto simp: mem_init_bytes_def\<close>)
  ultimately show ?thesis using u by blast
qed

text \<open>Up to the end of the first two bitmaps.\<close>

lemma pools_written:
  assumes r: "mem_ready s mo n"
  shows "\<exists>t. logs (mem_init_bytes mo n) s t \<and>
    mem_pool_init mo n s = cseq (run_all (\<lambda>(c, v). store32 c v) (virtual_fields mo n))
      (cseq (bitmap_init (kernel_addr mo)) (log_console (PutStr ''Init memory pool done.\<newline>''))) t \<and>
    bitmap_holds t (kernel_pool mo) MEM_BITMAP_BASE (replicate (unat (kernel_bitmap_length n)) 0) \<and>
    peek32 t (phy_addr_start (kernel_pool mo)) = used_mem"
proof -
  let ?k = "kernel_pool mo" and ?u = "user_pool mo" and ?kl = "unat (kernel_bitmap_length n)"
  note d = pool_cells_distinct [OF r]
  have mc: "?k \<in> set (mem_cells mo)" "bits_field ?k \<in> set (mem_cells mo)" "phy_addr_start ?k \<in> set (mem_cells mo)"
    "?u \<in> set (mem_cells mo)" "bits_field ?u \<in> set (mem_cells mo)" "phy_addr_start ?u \<in> set (mem_cells mo)" by (simp_all add: mem_cells_def)
  define s0 where "s0 = s\<lparr>console := console s @ [PutStr ''Start init Memory pool...\<newline>'']\<rparr>"
  have l0: "log_console (PutStr ''Start init Memory pool...\<newline>'') s = Inr ((), s0)" by (simp add: log_console_def s0_def)
  have kc0: "\<forall>c \<in> set (mem_cells mo). kcell s0 c" using r by (simp add: s0_def mem_ready_def)
  then have "\<forall>c \<in> set (map fst (pool_fields mo n)). kcell s0 c" using d(3) by blast
  from field_stores_run [OF this d(1)] obtain s1 where
    s1: "run_all (\<lambda>(c, v). store32 c v) (pool_fields mo n) s0 = Inr ((), s1)" "upd_within (\<Union> (bytes4 ` set (map fst (pool_fields mo n)))) s0 s1"
      "\<forall>(c, v) \<in> set (pool_fields mo n). peek32 s1 c = v" by blast
  have kc1: "kcell s1 c" if "c \<in> set (mem_cells mo)" for c using kc0 that upd_within_kcell [OF s1(2)] by simp
  from info_printed [OF kc1 [OF mc(2)] kc1 [OF mc(3)] kc1 [OF mc(5)] kc1 [OF mc(6)]] obtain c where
    s2: "cseq (printKernelPoolInfo ?k) (printUserPoolInfo ?u) s1 = Inr ((), s1\<lparr>console := console s1 @ c\<rparr>)" by blast
  let ?s2 = "s1\<lparr>console := console s1 @ c\<rparr>"
  have "logs (mem_init_bytes mo n) s0 s1" by (rule logs_upd [OF s1(2)]) (use d(3) in \<open>auto simp: mem_init_bytes_def\<close>)
  then have l2: "logs (mem_init_bytes mo n) s ?s2" using logs_trans [OF logs_console [of "mem_init_bytes mo n" s] logs_trans [OF _ logs_console]] unfolding s0_def by blast
  have pk: "peek32 ?s2 ?k = kernel_bitmap_length n" "peek32 ?s2 (bits_field ?k) = MEM_BITMAP_BASE + of_nat 0" "peek32 ?s2 ?u = user_bitmap_length n"
    "peek32 ?s2 (bits_field ?u) = MEM_BITMAP_BASE + of_nat ?kl" "peek32 ?s2 (phy_addr_start ?k) = used_mem"
    using s1(3) by (simp_all add: pool_fields_def)
  from bitmap_cleared [OF r l2 mc(1,2) pk(1,2)] obtain s3 where
    s3: "bitmap_init ?k ?s2 = Inr ((), s3)" "bitmap_holds s3 ?k MEM_BITMAP_BASE (replicate ?kl 0)" "logs (mem_init_bytes mo n) s s3"
      "\<forall>c \<in> set (mem_cells mo). peek32 s3 c = peek32 ?s2 c" by (auto simp: bitmap_bytes_def)
  have "peek32 s3 ?u = user_bitmap_length n" "peek32 s3 (bits_field ?u) = MEM_BITMAP_BASE + of_nat ?kl" using s3(4) mc pk by simp_all
  from bitmap_cleared [OF r s3(3) mc(4,5) this] obtain s4 where
    s4: "bitmap_init ?u s3 = Inr ((), s4)" "upd_within (span (MEM_BITMAP_BASE + of_nat ?kl) (unat (user_bitmap_length n))) s3 s4" "logs (mem_init_bytes mo n) s s4"
      "\<forall>c \<in> set (mem_cells mo). peek32 s4 c = peek32 s3 c" by (auto simp: bitmap_bytes_def)
  have "span MEM_BITMAP_BASE ?kl \<inter> span (MEM_BITMAP_BASE + of_nat ?kl) (unat (user_bitmap_length n)) = {}"
    by (rule span_apart) (use bitmap_lengths [of n] in simp_all)
  then have "bitmap_holds s4 ?k MEM_BITMAP_BASE (replicate ?kl 0)"
    using s3(2) s4(4) mc upd_within_kcell [OF s4(2)] upd_within_blk [OF s4(2)] by (simp add: bitmap_holds_def)
  moreover have "mem_pool_init mo n s = cseq (run_all (\<lambda>(c, v). store32 c v) (virtual_fields mo n))
      (cseq (bitmap_init (kernel_addr mo)) (log_console (PutStr ''Init memory pool done.\<newline>''))) s4"
    unfolding mem_pool_init_parts by (simp only: cseq_Inr l0 s1(1) s2 s3(1) s4(1))
  ultimately show ?thesis using s4(3,4) s3(4) mc pk(5) by (intro exI [of _ s4]) simp
qed

lemma init_inv:
  assumes r: "mem_ready s mo n" and l: "logs (mem_init_bytes mo n) s t"
    and k: "bitmap_holds t (kernel_pool mo) MEM_BITMAP_BASE (replicate (unat (kernel_bitmap_length n)) 0)"
    and a: "bitmap_holds t (kernel_addr mo) (MEM_BITMAP_BASE + of_nat (unat (kernel_bitmap_length n) + unat (user_bitmap_length n)))
      (replicate (unat (kernel_bitmap_length n)) 0)"
    and pk: "peek32 t (phy_addr_start (kernel_pool mo)) = used_mem" "peek32 t (vaddr_start (kernel_addr mo)) = K_HEAD_START"
  shows "mem_inv t mo (init_view n)"
proof -
  let ?kl = "unat (kernel_bitmap_length n)" and ?ul = "unat (user_bitmap_length n)" and ?S = "span MEM_BITMAP_BASE (bitmap_bytes n)"
  have sized: "pools_sized (init_view n)"
    using bitmap_lengths [of n] by (simp add: pools_sized_def init_view_def Let_def used_mem_def PAGE_SIZE_def)
  have v: "kspan (init_view n) = span MEM_BITMAP_BASE ?kl" "vspan (init_view n) = span (MEM_BITMAP_BASE + of_nat (?kl + ?ul)) ?kl"
    by (simp_all add: kspan_def vspan_def init_view_def Let_def add.assoc)
  have "span MEM_BITMAP_BASE ?kl \<inter> span (MEM_BITMAP_BASE + of_nat (?kl + ?ul)) ?kl = {}"
    by (rule span_apart) (use bitmap_lengths [of n] in simp_all)
  moreover have "span MEM_BITMAP_BASE ?kl \<subseteq> ?S" "span (MEM_BITMAP_BASE + of_nat (?kl + ?ul)) ?kl \<subseteq> ?S"
    by (rule span_mono, simp add: bitmap_bytes_def, rule span_shift, simp add: bitmap_bytes_def)
  moreover have "pool_cells mo \<inter> ?S = {}"
    using r by (auto simp: mem_ready_def pool_cells_def mem_cells_def Int_Un_distrib2)
  ultimately have "kspan (init_view n) \<inter> (pool_cells mo \<union> vspan (init_view n)) = {}" "vspan (init_view n) \<inter> pool_cells mo = {}"
    unfolding v by blast+
  moreover have "kcell t (phy_addr_start (kernel_pool mo))" "kcell t (vaddr_start (kernel_addr mo))"
    using r logs_keep(1) [OF l] by (simp_all add: mem_ready_def mem_cells_def)
  ultimately have hold: "pools_hold t mo (init_view n)"
    using k a pk by (simp add: pools_hold_def init_view_def Let_def add.assoc)
  obtain c where u: "upd_within (mem_init_bytes mo n) (s\<lparr>console := console s @ c\<rparr>) t" using l unfolding logs_def by blast
  have "kframe (init_view n) i = 0x200 + of_nat i" for i
    by (simp add: kframe_def init_view_def Let_def page_of_def used_mem_def PAGE_SIZE_def)
  then have "pools_mapped (s\<lparr>console := console s @ c\<rparr>) (init_view n)"
    using r by (simp add: mem_ready_def pools_mapped_def init_view_def Let_def)
  then have "pools_mapped t (init_view n)" by (rule pools_mapped_upd [OF upd_within_tables [OF u] _ sized])
  then show ?thesis using hold sized by (simp add: mem_inv_def)
qed

lemma mem_pool_init_spec:
  assumes r: "mem_ready s mo n"
  shows "\<exists>t c. mem_pool_init mo n s = Inr ((), t) \<and> mem_inv t mo (init_view n) \<and>
    upd_within (mem_init_bytes mo n) (s\<lparr>console := console s @ c\<rparr>) t"
proof -
  let ?k = "kernel_pool mo" and ?a = "kernel_addr mo" and ?kl = "unat (kernel_bitmap_length n)" and ?ul = "unat (user_bitmap_length n)"
  note d = pool_cells_distinct [OF r]
  have mc: "?k \<in> set (mem_cells mo)" "bits_field ?k \<in> set (mem_cells mo)" "phy_addr_start ?k \<in> set (mem_cells mo)"
    "?a \<in> set (mem_cells mo)" "bits_field ?a \<in> set (mem_cells mo)" "vaddr_start ?a \<in> set (mem_cells mo)" by (simp_all add: mem_cells_def)
  from pools_written [OF r] obtain s4 where
    s4: "logs (mem_init_bytes mo n) s s4" "mem_pool_init mo n s = cseq (run_all (\<lambda>(c, v). store32 c v) (virtual_fields mo n))
        (cseq (bitmap_init ?a) (log_console (PutStr ''Init memory pool done.\<newline>''))) s4"
      "bitmap_holds s4 ?k MEM_BITMAP_BASE (replicate ?kl 0)" "peek32 s4 (phy_addr_start ?k) = used_mem" by blast
  have kc4: "kcell s4 c" if "c \<in> set (mem_cells mo)" for c using r that logs_keep(1) [OF s4(1)] by (simp add: mem_ready_def)
  then have "\<forall>c \<in> set (map fst (virtual_fields mo n)). kcell s4 c" using d(3) by blast
  from field_stores_run [OF this d(2)] obtain s5 where
    s5: "run_all (\<lambda>(c, v). store32 c v) (virtual_fields mo n) s4 = Inr ((), s5)" "upd_within (\<Union> (bytes4 ` set (map fst (virtual_fields mo n)))) s4 s5"
      "\<forall>(c, v) \<in> set (virtual_fields mo n). peek32 s5 c = v"
      "\<forall>c. kcell s4 c \<longrightarrow> c \<notin> set (map fst (virtual_fields mo n)) \<longrightarrow> peek32 s5 c = peek32 s4 c" by blast
  have old: "peek32 s5 c = peek32 s4 c" if "c \<in> {?k, bits_field ?k, phy_addr_start ?k}" for c
    using that s5(4) kc4 mc d(4) by (auto simp: pool_fields_def)
  have sub: "\<Union> (bytes4 ` set (map fst (virtual_fields mo n))) \<subseteq> \<Union> (bytes4 ` set (mem_cells mo))" using d(3) by blast
  have l5: "logs (mem_init_bytes mo n) s s5" by (rule logs_trans [OF s4(1) logs_upd [OF s5(2)]]) (use sub in \<open>auto simp: mem_init_bytes_def\<close>)
  have pk: "peek32 s5 ?a = kernel_bitmap_length n" "peek32 s5 (bits_field ?a) = MEM_BITMAP_BASE + of_nat (?kl + ?ul)" "peek32 s5 (vaddr_start ?a) = K_HEAD_START"
    using s5(3) by (simp_all add: virtual_fields_def add.assoc)
  from bitmap_cleared [OF r l5 mc(4,5) pk(1,2)] obtain s6 where
    s6: "bitmap_init ?a s5 = Inr ((), s6)" "bitmap_holds s6 ?a (MEM_BITMAP_BASE + of_nat (?kl + ?ul)) (replicate ?kl 0)"
      "upd_within (span (MEM_BITMAP_BASE + of_nat (?kl + ?ul)) ?kl) s5 s6" "logs (mem_init_bytes mo n) s s6" "\<forall>c \<in> set (mem_cells mo). peek32 s6 c = peek32 s5 c"
    by (auto simp: bitmap_bytes_def)
  let ?t = "s6\<lparr>console := console s6 @ [PutStr ''Init memory pool done.\<newline>'']\<rparr>"
  have "log_console (PutStr ''Init memory pool done.\<newline>'') s6 = Inr ((), ?t)" by (simp add: log_console_def)
  then have "mem_pool_init mo n s = Inr ((), ?t)" unfolding s4(2) by (simp only: cseq_Inr s5(1) s6(1))
  moreover have "bitmap_holds s6 ?k MEM_BITMAP_BASE (replicate ?kl 0)"
  proof -
    have dS: "bytes4 c \<inter> span MEM_BITMAP_BASE ?kl = {}" if "c \<in> set (mem_cells mo)" for c
      using r that span_mono [of ?kl "bitmap_bytes n" MEM_BITMAP_BASE] by (fastforce simp: mem_ready_def bitmap_bytes_def)
    have "span MEM_BITMAP_BASE ?kl \<inter> \<Union> (bytes4 ` set (map fst (virtual_fields mo n))) = {}" using dS sub d(3) by blast
    then have "blk s5 MEM_BITMAP_BASE (replicate ?kl 0)" using s4(3) upd_within_blk [OF s5(2)] by (simp add: bitmap_holds_def)
    moreover have "span MEM_BITMAP_BASE ?kl \<inter> span (MEM_BITMAP_BASE + of_nat (?kl + ?ul)) ?kl = {}"
      by (rule span_apart) (use bitmap_lengths [of n] in simp_all)
    ultimately have "blk s6 MEM_BITMAP_BASE (replicate ?kl 0)" using upd_within_blk [OF s6(3)] by simp
    then show ?thesis
      using s4(3) old s6(5) mc upd_within_kcell [OF s5(2)] upd_within_kcell [OF s6(3)] by (simp add: bitmap_holds_def)
  qed
  then have "mem_inv s6 mo (init_view n)"
    by (rule init_inv [OF r s6(4) _ s6(2)]) (use old [of "phy_addr_start ?k"] s4(4) s6(5) mc pk(3) in simp_all)
  then have "mem_inv ?t mo (init_view n)" by (simp add: mem_inv_def)
  moreover have "logs (mem_init_bytes mo n) s ?t" by (rule logs_trans [OF s6(4) logs_console])
  ultimately show ?thesis unfolding logs_def by blast
qed

subsection \<open>The machine the loader leaves behind is ready\<close>

lemma boot_entry_less: "unat (boot_entry n) < 0x200000"
proof -
  have a: "unat (of_nat k :: u32) < 0x200000" if "k < 0x200000" for k
    using that by (simp add: unat_u32_of_nat)
  have "(n - 0x100c04) div 4 * 0x1000 + 0x102007 < 0x200000" if "n < 0x100ffc"
  proof -
    have "(n - 0x100c04) div 4 \<le> 253" using that by simp
    then show ?thesis by simp
  qed
  moreover have "(n - 0x101000) div 4 * 0x1000 + 7 < 0x200000" if "n < 0x101400"
  proof -
    have "(n - 0x101000) div 4 \<le> 255" using that by simp
    then show ?thesis by simp
  qed
  ultimately show ?thesis
    unfolding boot_entry_def PAGE_DIR_TABLE_POS_def
    using a by (simp del: of_nat_add of_nat_mult)
qed

lemma drop_boot_entry: "unat (drop_bit 12 (boot_entry n)) < 0x200"
  using boot_entry_less [of n] by (simp add: unat_drop less_mult_imp_div_less)

lemma boot_pde: "vp < 0x100000 \<Longrightarrow> pde_of boot_machine vp = boot_entry (0x100000 + 4 * (unat vp div 1024))"
  by (simp add: pde_of_def le32_boot aligned4_boot_pd unat_boot_pd boot_machine_pmem)

lemma boot_frame_fresh: "0x200 \<le> unat f \<Longrightarrow> frame_fresh boot_machine f"
proof -
  assume f: "0x200 \<le> unat f"
  have d: "unat (drop_bit 12 (cr3 boot_machine)) = 0x100" by (simp add: boot_machine_def)
  have "drop_bit 12 (le32 (pmem boot_machine) (pd_entry_addr boot_machine vp)) \<noteq> f" if "vp < 0x100000" for vp
    using boot_pde [OF that, unfolded pde_of_def] drop_boot_entry f by (metis not_le)
  then have "\<not> table_frame boot_machine f" using d f unfolding table_frame_def by force
  moreover have "frame_of boot_machine vq \<noteq> Some f" if "vq < 0x100000" for vq
  proof
    assume "frame_of boot_machine vq = Some f"
    then have "f = drop_bit 12 (boot_entry (unat (pt_entry_addr (pde_of boot_machine vq) vq)))"
      unfolding frame_of_pde by (auto simp: boot_machine_pmem le32_boot aligned4_pt split: if_splits)
    with drop_boot_entry f show False by (metis not_le)
  qed
  ultimately show ?thesis by (simp add: frame_fresh_def)
qed

lemma boot_dir_frame: "dir_frame boot_machine = 0x100"
  by (simp add: dir_frame_def boot_machine_def)

lemma kernel_dir_index: "0xc0000 \<le> (vp :: u32) \<Longrightarrow> vp < 0xffc00 \<Longrightarrow> 768 \<le> unat vp div 1024 \<and> unat vp div 1024 < 1023"
proof -
  assume "0xc0000 \<le> vp" "vp < 0xffc00"
  then have v: "768 * 1024 \<le> unat vp" "unat vp < 1023 * 1024" by (simp_all add: word_le_nat_alt word_less_nat_alt)
  have "768 \<le> unat vp div 1024" using div_le_mono [OF v(1), of 1024] by simp
  moreover have "unat vp div 1024 < 1023" using v(2) by (simp add: less_mult_imp_div_less)
  ultimately show ?thesis by blast
qed

lemma boot_kernel_pde:
  assumes "0xc0000 \<le> vp" "vp < 0xffc00"
  shows "pde_of boot_machine vp AND 1 \<noteq> 0"
    "unat (drop_bit 12 (pde_of boot_machine vp)) = (if unat vp div 1024 = 768 then 0x101 else unat vp div 1024 - 769 + 0x102)"
proof -
  let ?d = "unat vp div 1024"
  note d = kernel_dir_index [OF assms]
  have e: "pde_of boot_machine vp = (if ?d = 768 then 0x101007 else of_nat ((?d - 769) * 0x1000 + 0x102007))"
    using boot_pde [OF entry_page_less [OF assms(2)]] boot_dir_cases [of ?d] d by simp
  have b: "?d - 769 \<le> 253" using d by linarith
  have u: "unat (of_nat ((?d - 769) * 0x1000 + 0x102007) :: u32) = (?d - 769) * 0x1000 + 0x102007"
    by (rule unat_u32_of_nat) (use b in simp)
  show "pde_of boot_machine vp AND 1 \<noteq> 0"
  proof -
    have "(2 * x + 1) mod 2 \<noteq> 0" for x :: nat by simp
    from this [of "(?d - 769) * 0x800 + 0x81003"] have "unat (of_nat ((?d - 769) * 0x1000 + 0x102007) :: u32) mod 2 \<noteq> 0"
      unfolding u by (simp only: distrib_left) (simp add: ac_simps)
    moreover have "unat (0x101007 :: u32) mod 2 \<noteq> 0" by simp
    ultimately show ?thesis unfolding e odd_word by (cases "?d = 768") (simp_all only: if_True if_False simp_thms)
  qed
  have "((?d - 769) * 0x1000 + 0x102007) div 4096 = ?d - 769 + 0x102" by simp
  then show "unat (drop_bit 12 (pde_of boot_machine vp)) = (if ?d = 768 then 0x101 else ?d - 769 + 0x102)"
    unfolding e using u by (simp add: unat_drop del: of_nat_add of_nat_mult)
qed

lemma boot_paging_ok: "paging_ok boot_machine"
proof -
  have l: "pde_of boot_machine 0xfffff = 0x100007"
    by (simp add: boot_pde boot_entry_def PAGE_DIR_TABLE_POS_def)
  have i: "drop_bit 10 vp = drop_bit 10 vq"
    if "0xc0000 \<le> vp" "vp < 0xffc00" "0xc0000 \<le> vq" "vq < 0xffc00"
      "drop_bit 12 (pde_of boot_machine vp) = drop_bit 12 (pde_of boot_machine vq)" for vp vq
  proof -
    have "unat vp div 1024 = unat vq div 1024"
      using arg_cong [OF that(5), of unat] kernel_dir_index [OF that(1,2)] kernel_dir_index [OF that(3,4)]
      unfolding boot_kernel_pde(2) [OF that(1,2)] boot_kernel_pde(2) [OF that(3,4)]
      by (auto split: if_splits) linarith
    then show ?thesis by (simp add: word_unat_eq_iff unat_drop)
  qed
  have n: "drop_bit 12 (pde_of boot_machine vp) \<noteq> 0x100" if "0xc0000 \<le> vp" "vp < 0xffc00" for vp
    using boot_kernel_pde(2) [OF that] by (auto split: if_splits)
  show ?thesis
    unfolding paging_ok_def boot_dir_frame l
  proof (intro conjI allI impI)
    show "(0x100007 :: u32) AND 1 \<noteq> 0" "drop_bit 12 (0x100007 :: u32) = 0x100" by simp_all
  qed (rule n, assumption+, rule i, assumption+)
qed

lemma boot_vpage:
  assumes "i < 0x3fb00"
  shows "pde_of boot_machine (vpage i) AND 1 \<noteq> 0" "frame_of boot_machine (vpage i) = None"
proof -
  have r: "0xc0000 \<le> vpage i" "vpage i < 0xffc00" "vpage i < 0x100000" using vpage_range [OF assms] by simp_all
  show "pde_of boot_machine (vpage i) AND 1 \<noteq> 0" by (rule boot_kernel_pde(1) [OF r(1,2)])
  note d = kernel_dir_index [OF r(1,2)]
  show "frame_of boot_machine (vpage i) = None"
  proof (cases "unat (vpage i) div 1024 = 768")
    case True
    have "unat (vpage i) = 768 * 1024 + (256 + i)" using unat_vpage [OF assms] by simp
    moreover have "unat (vpage i) = 768 * 1024 + unat (vpage i) mod 1024" using True by (metis div_mult_mod_eq)
    ultimately show ?thesis using True by (simp add: frame_boot_low)
  next
    case False
    let ?d = "unat (vpage i) div 1024"
    have p: "pde_of boot_machine (vpage i) = of_nat ((?d - 769) * 0x1000 + 0x102007)"
      using boot_pde [OF r(3)] boot_dir_cases [of ?d] d False by simp
    have "?d - 769 \<le> 253" using d by linarith
    then have b: "(?d - 769) * 0x1000 + 0x102007 < 0x300000" by simp
    have u: "unat (of_nat ((?d - 769) * 0x1000 + 0x102007) :: u32) = (?d - 769) * 0x1000 + 0x102007"
      by (rule unat_u32_of_nat) (use b in linarith)
    have "0x102000 \<le> unat (pt_entry_addr (pde_of boot_machine (vpage i)) (vpage i))"
      using unat_boot_pt [of "pde_of boot_machine (vpage i)" "vpage i"] b unfolding p u by simp
    then have "boot_entry (unat (pt_entry_addr (pde_of boot_machine (vpage i)) (vpage i))) = 0" by (simp add: boot_entry_high)
    then show ?thesis unfolding frame_of_pde by (simp add: boot_machine_pmem le32_boot aligned4_pt)
  qed
qed

text \<open>The three globals of the memory manager somewhere in the kernel's image, and 32 MB of memory.\<close>

definition boot_mem :: mem_objs where
  "boot_mem = \<lparr>kernel_pool = 0xc0010000, user_pool = 0xc0010010, kernel_addr = 0xc0010020\<rparr>"

definition boot_mem_machine :: machine where
  "boot_mem_machine = poke32 0xc0000b00 0x2000000 boot_machine"

lemma boot_total_cell: "kcell boot_machine 0xc0000b00"
  by (rule boot_kcell) simp_all

lemma boot_mem_upd: "upd_within (bytes4 0xc0000b00) boot_machine boot_mem_machine"
  unfolding boot_mem_machine_def by (rule upd_within_poke32 [OF boot_total_cell]) simp

lemma boot_total:
  "translate boot_mem_machine 0xb00 = Some 0xb00" "peek32 boot_mem_machine 0xb00 = 0x2000000"
proof -
  have d: "boot_entry 0x100000 = 0x101007" by (simp add: boot_entry_def PAGE_DIR_TABLE_POS_def)
  have p: "unat (pt_entry_addr 0x101007 0) = 0x101000" by (simp add: unat_boot_pt)
  have e: "boot_entry 0x101000 = 7" by (simp add: boot_entry_def PAGE_DIR_TABLE_POS_def)
  have "frame_of boot_machine 0 = Some 0"
    by (simp add: frame_of_boot d p e Let_def del: One_nat_def)
  then have "translate boot_machine 0xb00 = Some 0xb00" by (simp add: translate_def phys_addr_def)
  then show t: "translate boot_mem_machine 0xb00 = Some 0xb00"
    using boot_mem_upd by (simp add: upd_within_def)
  have "frame_of boot_machine 0xc0000 = Some 0" using boot_page(1) [of "0xc0000"] by simp
  then have "translate boot_machine 0xc0000b00 = Some 0xb00" by (simp add: translate_def phys_addr_def)
  then have "pmem boot_mem_machine = set_le32 0xb00 0x2000000 (pmem boot_machine)"
    by (simp add: boot_mem_machine_def poke32_def)
  then show "peek32 boot_mem_machine 0xb00 = 0x2000000" using t by (simp add: peek32_def le32_set_le32_same)
qed

lemma boot_32mb: "kernel_bitmap_length 0x2000000 = 480" "user_bitmap_length 0x2000000 = 480"
  by code_simp+

lemma boot_mem_ready: "mem_ready boot_mem_machine boot_mem 0x2000000"
proof -
  note ts = upd_within_tables [OF boot_mem_upd] and u = upd_within_kcell [OF boot_mem_upd]
  have b: "bitmap_bytes 0x2000000 = 1440" by (simp add: bitmap_bytes_def boot_32mb)
  have r: "room boot_mem_machine MEM_BITMAP_BASE 1440"
    unfolding upd_within_room [OF boot_mem_upd] by (rule boot_room) (simp_all add: MEM_BITMAP_BASE_def)
  have c: "0xc0010000 \<le> c \<and> c < 0xc0010100 \<and> aligned4 c" if "c \<in> set (mem_cells boot_mem)" for c
    using that by (auto simp: mem_cells_def boot_mem_def bits_field_def phy_addr_start_def pool_size_def vaddr_start_def)
  have k: "kcell boot_mem_machine c" if "c \<in> set (mem_cells boot_mem)" for c
    unfolding u using c [OF that] by (intro boot_kcell) (auto simp: word_le_nat_alt word_less_nat_alt)
  have "bytes4 c \<inter> span MEM_BITMAP_BASE 1440 = {}" if "c \<in> set (mem_cells boot_mem)" for c
  proof -
    have "unat c + 4 \<le> unat MEM_BITMAP_BASE"
      using c [OF that] by (simp add: MEM_BITMAP_BASE_def word_less_nat_alt)
    then have "span c 4 \<inter> span MEM_BITMAP_BASE 1440 = {}" by (rule span_sep) (simp add: MEM_BITMAP_BASE_def)
    moreover have "bytes4 c \<subseteq> span c 4" by (auto simp: bytes4_def eval_nat_numeral)
    ultimately show ?thesis by blast
  qed
  moreover have "pde_of boot_mem_machine (vpage i) AND 1 \<noteq> 0 \<and> frame_of boot_mem_machine (vpage i) = None" if "i < 3840" for i
    using that boot_vpage [of i] tables_same_pde [OF ts, of "vpage i"] tables_same_frame [OF ts, of "vpage i"] vpage_range [of i]
    by simp
  moreover have "frame_fresh boot_mem_machine (0x200 + of_nat i)" if "i < 3840" for i
    unfolding tables_same_fresh [OF ts] by (rule boot_frame_fresh) (use that in \<open>simp add: unat_word_ariths unat_of_nat\<close>)
  moreover have "distinct (mem_cells boot_mem)"
    by (simp add: mem_cells_def boot_mem_def bits_field_def phy_addr_start_def pool_size_def vaddr_start_def)
  ultimately show ?thesis
    using k r boot_paging_ok by (simp add: mem_ready_def b boot_32mb tables_same_paging [OF ts])
qed

subsection \<open>Properties\<close>

lemma mem_ready_console [simp]: "mem_ready (s\<lparr>console := x\<rparr>) mo t = mem_ready s mo t"
  by (simp add: mem_ready_def)

lemma mem_inv_console [simp]: "mem_inv (s\<lparr>console := x\<rparr>) mo m = mem_inv s mo m"
  by (simp add: mem_inv_def)

lemma mem_init_spec:
  assumes "translate s 0xb00 = Some p" "peek32 s 0xb00 = total_memory" "mem_ready s mo total_memory"
  shows "\<exists>t c. mem_init mo s = Inr ((), t) \<and> mem_inv t mo (init_view total_memory) \<and>
    upd_within (mem_init_bytes mo total_memory) (s\<lparr>console := console s @ c\<rparr>) t"
proof -
  let ?a = "s\<lparr>console := console s @ [PutStr ''Init memory start.\<newline>'']\<rparr>"
  have l: "load32 0xb00 ?a = Inr (total_memory, ?a)"
    using assms(1,2) by (simp add: load32_def peek32_def)
  have "mem_ready ?a mo total_memory" using assms(3) by simp
  from mem_pool_init_spec [OF this] obtain t c where
    t: "mem_pool_init mo total_memory ?a = Inr ((), t)" "mem_inv t mo (init_view total_memory)"
      "upd_within (mem_init_bytes mo total_memory) (?a\<lparr>console := console ?a @ c\<rparr>) t"
    unfolding mem_init_bytes_def by blast
  let ?d = "console t @ [PutStr ''Init memory done.\<newline>'']"
  have "mem_init mo s = Inr ((), t\<lparr>console := ?d\<rparr>)"
    by (simp add: mem_init_def comp_simps log_console_def l t(1))
  moreover have "console t = console ?a @ c" using upd_within_console_same [OF t(3)] by simp
  moreover have "upd_within (mem_init_bytes mo total_memory) (s\<lparr>console := ?d\<rparr>) (t\<lparr>console := ?d\<rparr>)"
    using upd_within_console [OF t(3), of ?d] by simp
  moreover have "\<exists>e. ?d = console s @ e" using calculation(2) by simp
  ultimately show ?thesis using t(2) by (metis mem_inv_console)
qed

text \<open>
  C14: on a machine whose globals and bitmap area are mapped, \<open>mem_init\<close> reads the size of
  memory the loader stored at \<open>0xb00\<close> and establishes the allocator's invariant with both
  bitmaps clear; it writes the console, the fields of the three globals and the bitmap
  area, and nothing else.
\<close>

theorem mem_init_correct:
  assumes "translate s 0xb00 = Some p" "peek32 s 0xb00 = total_memory" "mem_ready s mo total_memory"
  shows "\<exists>t c. mem_init mo s = Inr ((), t) \<and> mem_inv t mo (init_view total_memory) \<and>
    upd_within (mem_init_bytes mo total_memory) (s\<lparr>console := console s @ c\<rparr>) t"
  using mem_init_spec [OF assms] .

theorem mem_init_correct_witness:
  "\<exists>t. mem_init boot_mem boot_mem_machine = Inr ((), t) \<and> mem_inv t boot_mem (init_view 0x2000000)"
  using mem_init_correct [OF boot_total boot_mem_ready] by blast

lemma unat_free_pages: "unat (free_pages total_memory) = unat (total_memory - used_mem) div 4096 mod 65536"
  by (simp add: free_pages_def unsigned_ucast_eq unsigned_take_bit_eq take_bit_eq_mod unat_div PAGE_SIZE_def)

lemma pool_lengths:
  "unat (kernel_free_pages t) = unat (free_pages t) div 2"
  "unat (user_free_pages t) = unat (free_pages t) - unat (free_pages t) div 2"
  "unat (kernel_bitmap_length t) = unat (kernel_free_pages t) div 8"
  "unat (user_bitmap_length t) = unat (user_free_pages t) div 8"
proof -
  have u: "unat (ucast x :: u32) = unat x" for x :: u16
  proof -
    have "unat x < 65536" using unsigned_less [of x, where 'a = nat] by simp
    then show ?thesis by (simp add: unsigned_ucast_eq take_bit_nat_eq_self)
  qed
  show k: "unat (kernel_free_pages t) = unat (free_pages t) div 2" by (simp only: kernel_free_pages_def unat_drop) simp
  have "kernel_free_pages t \<le> free_pages t" by (simp add: word_le_nat_alt k)
  then show "unat (user_free_pages t) = unat (free_pages t) - unat (free_pages t) div 2" by (simp add: user_free_pages_def unat_sub k)
  show "unat (kernel_bitmap_length t) = unat (kernel_free_pages t) div 8"
    "unat (user_bitmap_length t) = unat (user_free_pages t) div 8"
    by (simp_all add: kernel_bitmap_length_def user_bitmap_length_def unat_div u)
qed



text \<open>
  \<open>free_pages\<close> is a \<open>uint16_t\<close>, so the count wraps at 65536: with 258 MB of memory both
  pools are empty, and with more the allocator sees only the excess.
\<close>

theorem free_pages_wraps:
  "unat (free_pages total_memory) = unat (total_memory - used_mem) div 4096 mod 65536 \<and>
   free_pages 0x10200000 = 0 \<and> kernel_bitmap_length 0x10200000 = 0 \<and> user_bitmap_length 0x10200000 = 0"
proof -
  have "free_pages 0x10200000 = 0 \<and> kernel_bitmap_length 0x10200000 = 0 \<and> user_bitmap_length 0x10200000 = 0" by code_simp
  then show ?thesis using unat_free_pages by blast
qed

text \<open>
  Under the recursive directory entry, \<open>pde_ptr v\<close> and \<open>pte_ptr v\<close> are virtual addresses
  of exactly the directory and table entries the page walk of \<open>v\<close> reads.
\<close>

theorem recursive_mapping_correct:
  assumes "paging_ok s"
  shows "translate s (pde_ptr v) = Some (pd_entry_addr s (page_of v)) \<and>
    (pde_of s (page_of v) AND 1 \<noteq> 0 \<longrightarrow> translate s (pte_ptr v) = Some (entry_addr s (page_of v)))"
  using translate_pde_ptr [OF assms, of v] translate_pte_ptr [OF assms, of v] by (simp add: page_of_def entry_addr_def)

theorem recursive_mapping_correct_witness:
  "translate boot_machine (pde_ptr 0xc0100000) = Some 0x100c00 \<and>
   translate boot_machine (pte_ptr 0xc0100000) = Some 0x101400"
proof -
  have d: "page_of 0xc0100000 = vpage 0" by (simp add: page_of_def vpage_def K_HEAD_START_def)
  have "vpage 0 = 0xc0100" by (simp add: vpage_def page_of_def K_HEAD_START_def)
  moreover have "pde_of boot_machine 0xc0100 = 0x101007" by (simp add: boot_pde boot_entry_def PAGE_DIR_TABLE_POS_def)
  ultimately show ?thesis
    using recursive_mapping_correct [OF boot_paging_ok, of "0xc0100000"]
    by (simp add: d entry_addr_def pt_entry_addr_def pd_entry_addr_def page_mask_def boot_machine_def)
qed

text \<open>
  C15: adding a mapping for an unmapped page whose table is present, to a frame that nothing
  maps, makes that page kernel data at that frame, and leaves every other kernel page, all
  kernel data and the self-mapping as they were; a page already mapped is left alone.
\<close>

theorem page_table_add_correct:
  assumes "entry_ok s (page_of v)"
  shows "(frame_of s (page_of v) = None \<and> frame_fresh s (page_of ph) \<longrightarrow>
    (\<exists>t. page_table_add mo v ph s = Inr ((), t) \<and> frame_of t (page_of v) = Some (page_of ph) \<and> kaddr t v \<and>
      extends_within {} s t \<and> paging_ok t \<and>
      (\<forall>w. 0xc0000 \<le> w \<longrightarrow> w < 0x100000 \<longrightarrow> w \<noteq> page_of v \<longrightarrow> frame_of t w = frame_of s w))) \<and>
    (frame_of s (page_of v) \<noteq> None \<longrightarrow> page_table_add mo v ph s = Inr ((), s))"
proof (intro conjI impI; (elim conjE)?)
  assume n: "frame_of s (page_of v) = None" and f: "frame_fresh s (page_of ph)"
  let ?t = "set_entry (page_of v) (ph OR PG_ATTR) s"
  have f': "frame_fresh s (drop_bit 12 (ph OR PG_ATTR))" using f by (simp only: entry_attr(2) page_of_def)
  note x = extends_set_entry [OF assms entry_attr(1) f' n]
  have "frame_of ?t (page_of v) = Some (page_of ph)"
    using frame_of_set_entry_same [OF assms entry_attr(1)] by (simp only: entry_attr(2) page_of_def)
  moreover have "kaddr ?t v" using x(2) by (simp add: page_of_def)
  moreover have "\<forall>w. 0xc0000 \<le> w \<longrightarrow> w < 0x100000 \<longrightarrow> w \<noteq> page_of v \<longrightarrow> frame_of ?t w = frame_of s w"
    using frame_of_set_entry_other [OF assms] by blast
  ultimately show "\<exists>t. page_table_add mo v ph s = Inr ((), t) \<and> frame_of t (page_of v) = Some (page_of ph) \<and> kaddr t v \<and>
      extends_within {} s t \<and> paging_ok t \<and>
      (\<forall>w. 0xc0000 \<le> w \<longrightarrow> w < 0x100000 \<longrightarrow> w \<noteq> page_of v \<longrightarrow> frame_of t w = frame_of s w)"
    using page_table_add_absent [OF assms n] x(1) paging_ok_set_entry [OF assms] by blast
next
  assume "frame_of s (page_of v) \<noteq> None"
  then obtain f where "frame_of s (page_of v) = Some f" by blast
  then show "page_table_add mo v ph s = Inr ((), s)"
    using page_table_add_present assms unfolding entry_ok_def by blast
qed

theorem page_table_add_correct_witness:
  "\<exists>t. page_table_add boot_mem 0xc0100000 0x200000 boot_machine = Inr ((), t) \<and>
     frame_of t 0xc0100 = Some 0x200 \<and> kaddr t 0xc0100000"
proof -
  have d: "page_of 0xc0100000 = 0xc0100" "page_of 0x200000 = 0x200" "vpage 0 = 0xc0100"
    by (simp_all add: page_of_def vpage_def K_HEAD_START_def)
  have "entry_ok boot_machine (page_of 0xc0100000)"
    using boot_vpage [of 0] boot_paging_ok by (simp add: entry_ok_def d)
  moreover have "frame_fresh boot_machine (page_of 0x200000)" by (rule boot_frame_fresh) (simp add: d)
  ultimately show ?thesis
    using page_table_add_correct [of boot_machine "0xc0100000" "0x200000" boot_mem] boot_vpage [of 0] unfolding d by auto
qed

subsection \<open>Allocating one page\<close>

lemma first_free_frame:
  assumes "free_frames bs \<noteq> {}"
  shows "first_free bs \<in> free_frames bs" "\<exists>i < 8 * length bs. \<not> bm_bit bs i"
proof -
  show e: "\<exists>i < 8 * length bs. \<not> bm_bit bs i" using assms by (auto simp: free_frames_def)
  from first_free_props [OF e] show "first_free bs \<in> free_frames bs" by (simp add: free_frames_def)
qed

text \<open>The two areas whose bytes an allocation may change.\<close>

definition alloc_area :: "mem_view \<Rightarrow> addr set" where
  "alloc_area m = kspan m \<union> vspan m"

definition page_bytes :: "addr \<Rightarrow> addr set" where
  "page_bytes v = span v 4096"

lemma get_kernel_page_spec:
  assumes inv: "mem_inv s mo m" and k: "free_frames (kbits m) \<noteq> {}" and v: "free_frames (vbits m) \<noteq> {}"
  shows "\<exists>t bs. get_kernel_pages mo 1 s = Inr (K_HEAD_START + of_nat (first_free (vbits m) * 4096), t) \<and>
    extends_within (alloc_area m) s t \<and>
    mem_inv t mo (m\<lparr>kbits := bs, vbits := bm_update (vbits m) (first_free (vbits m)) True\<rparr>) \<and>
    length bs = length (kbits m) \<and> Suc (card (free_frames bs)) = card (free_frames (kbits m)) \<and>
    blk t (K_HEAD_START + of_nat (first_free (vbits m) * 4096)) (replicate 4096 0) \<and>
    (\<forall>a \<in> page_bytes (K_HEAD_START + of_nat (first_free (vbits m) * 4096)). \<not> kaddr s a)"
proof -
  let ?r = "first_free (vbits m)"
  note p = mem_inv_parts [OF inv] and ff = first_free_frame [OF v]
  have l: "8 * length (vbits m) < 2 ^ 31" using p(2) by (simp add: pools_sized_def)
  have sc: "bitmap_scan (kernel_addr mo) 1 s = Inr (int ?r, s)" by (rule bitmap_scan_one [OF p(5) ff(2) l])
  have run: "free_run (bm_bit (vbits m)) ?r (unat (1 :: u32))" using ff(1) by (simp add: free_run_def free_frames_def)
  have rn: "?r + unat (1 :: u32) \<le> 8 * length (vbits m)" using ff(1) by (simp add: free_frames_def Suc_leI)
  have c: "unat (1 :: u32) \<le> card (free_frames (kbits m))"
    using k finite_free_frames [of "kbits m"] by (simp add: Suc_leI card_gt_0_iff)
  have "(0 :: u32) < 1" "(1 :: u32) < 3840" by simp_all
  from get_kernel_pages_spec [OF inv sc run rn this c] show ?thesis
    by (simp add: alloc_area_def page_bytes_def)
qed

text \<open>
  The contract of an allocator, for clients that allocate repeatedly: \<open>ready s n\<close> says that
  \<open>n\<close> more allocations succeed, \<open>owned s a\<close> that the address is in use.
\<close>

locale page_allocator =
  fixes alloc :: "('s, 'p) comp"
    and ready :: "'s \<Rightarrow> nat \<Rightarrow> bool"
    and owned :: "'s \<Rightarrow> 'a \<Rightarrow> bool"
    and rd :: "'s \<Rightarrow> 'a \<Rightarrow> 'b"
    and bytes :: "'p \<Rightarrow> 'a set"
    and area :: "'a set"
    and fresh :: 'b
  assumes alloc_ready: "ready s (Suc n) \<Longrightarrow> \<exists>v t. alloc s = Inr (v, t) \<and> ready t n \<and>
      (\<forall>a. owned s a \<longrightarrow> owned t a \<and> (a \<notin> area \<longrightarrow> rd t a = rd s a)) \<and>
      (\<forall>a \<in> bytes v. \<not> owned s a \<and> owned t a \<and> rd t a = fresh)"
    and area_owned: "ready s n \<Longrightarrow> a \<in> area \<Longrightarrow> owned s a"
begin

definition apart :: "'p list \<Rightarrow> bool" where
  "apart vs \<longleftrightarrow> (\<forall>i < length vs. \<forall>j < i. bytes (vs ! i) \<inter> bytes (vs ! j) = {})"

lemma alloc_many:
  "ready s n \<Longrightarrow> \<exists>vs t. run_n alloc n s = Inr (vs, t) \<and> length vs = n \<and> ready t 0 \<and> apart vs \<and>
    (\<forall>a. owned s a \<longrightarrow> owned t a \<and> (a \<notin> area \<longrightarrow> rd t a = rd s a)) \<and>
    (\<forall>v \<in> set vs. \<forall>a \<in> bytes v. \<not> owned s a \<and> owned t a \<and> rd t a = fresh)"
proof (induction n arbitrary: s)
  case 0
  then show ?case by (auto simp: ret_def apart_def)
next
  case (Suc n)
  from alloc_ready [OF Suc.prems] obtain v t where
    t: "alloc s = Inr (v, t)" "ready t n" "\<forall>a. owned s a \<longrightarrow> owned t a \<and> (a \<notin> area \<longrightarrow> rd t a = rd s a)"
      "\<forall>a \<in> bytes v. \<not> owned s a \<and> owned t a \<and> rd t a = fresh" by blast
  from Suc.IH [OF t(2)] obtain vs u where
    u: "run_n alloc n t = Inr (vs, u)" "length vs = n" "ready u 0" "apart vs"
      "\<forall>a. owned t a \<longrightarrow> owned u a \<and> (a \<notin> area \<longrightarrow> rd u a = rd t a)"
      "\<forall>w \<in> set vs. \<forall>a \<in> bytes w. \<not> owned t a \<and> owned u a \<and> rd u a = fresh" by blast
  have "run_n alloc (Suc n) s = Inr (v # vs, u)" using t(1) u(1) by (simp add: comp_simps)
  moreover have "apart (v # vs)"
    unfolding apart_def
  proof (intro allI impI)
    fix i j assume i: "i < length (v # vs)" "j < i"
    then obtain k where k: "i = Suc k" "k < length vs" by (cases i) auto
    show "bytes ((v # vs) ! i) \<inter> bytes ((v # vs) ! j) = {}"
    proof (cases j)
      case 0
      have "vs ! k \<in> set vs" using k(2) by simp
      with t(4) u(6) k 0 show ?thesis by fastforce
    next
      case (Suc l)
      with u(4) k i show ?thesis by (simp add: apart_def)
    qed
  qed
  moreover have "owned u a \<and> rd u a = fresh" if "a \<in> bytes v" for a
    using t(4) u(5) that area_owned [OF Suc.prems] by metis
  ultimately show ?case using t(3,4) u(2,3,5,6) by (intro exI [of _ "v # vs"] exI [of _ u]) auto
qed

end

definition pages_ready :: "mem_objs \<Rightarrow> addr set \<Rightarrow> 'z machine_scheme \<Rightarrow> nat \<Rightarrow> bool" where
  "pages_ready mo B s n \<longleftrightarrow> (\<exists>m. mem_inv s mo m \<and> alloc_area m = B \<and>
     n \<le> card (free_frames (kbits m)) \<and> n \<le> card (free_frames (vbits m)))"

interpretation pages: page_allocator "get_kernel_pages mo 1" "pages_ready mo B" kaddr peek8 page_bytes B 0
  for mo :: mem_objs and B :: "addr set"
proof unfold_locales
  fix s :: "'a machine_scheme" and n
  assume "pages_ready mo B s (Suc n)"
  then obtain m where m: "mem_inv s mo m" "alloc_area m = B" "Suc n \<le> card (free_frames (kbits m))"
    "Suc n \<le> card (free_frames (vbits m))" by (auto simp: pages_ready_def)
  then have ne: "free_frames (kbits m) \<noteq> {}" "free_frames (vbits m) \<noteq> {}" by auto
  let ?r = "first_free (vbits m)" and ?v = "K_HEAD_START + of_nat (first_free (vbits m) * 4096)"
  from get_kernel_page_spec [OF m(1) ne] obtain t bs where
    t: "get_kernel_pages mo 1 s = Inr (?v, t)" "extends_within B s t"
      "mem_inv t mo (m\<lparr>kbits := bs, vbits := bm_update (vbits m) ?r True\<rparr>)" "length bs = length (kbits m)"
      "Suc (card (free_frames bs)) = card (free_frames (kbits m))" "blk t ?v (replicate 4096 0)"
      "\<forall>a \<in> page_bytes ?v. \<not> kaddr s a" unfolding m(2) by blast
  have r: "?r \<in> free_frames (vbits m)" by (rule first_free_frame(1) [OF ne(2)])
  then have "Suc (card (free_frames (bm_update (vbits m) ?r True))) = card (free_frames (vbits m))"
    using card_Suc_Diff1 [OF finite_free_frames r] free_frames_update [of ?r "vbits m"] r
    by (metis (no_types, lifting) One_nat_def free_frames_def mem_Collect_eq)
  moreover have "alloc_area (m\<lparr>kbits := bs, vbits := bm_update (vbits m) ?r True\<rparr>) = B"
    using t(4) m(2) by (simp add: alloc_area_def kspan_def vspan_def)
  ultimately have "pages_ready mo B t n"
    unfolding pages_ready_def using t(3,5) m(3,4) by (intro exI conjI) (assumption, simp_all)
  moreover have "kaddr t a \<and> peek8 t a = 0" if "a \<in> page_bytes ?v" for a
  proof -
    obtain i where "i < 4096" "a = ?v + of_nat i" using \<open>a \<in> page_bytes ?v\<close> unfolding page_bytes_def span_iff by blast
    with blk_nth [OF t(6), of i] show ?thesis by (simp del: of_nat_mult)
  qed
  ultimately show "\<exists>v t. get_kernel_pages mo 1 s = Inr (v, t) \<and> pages_ready mo B t n \<and>
      (\<forall>a. kaddr s a \<longrightarrow> kaddr t a \<and> (a \<notin> B \<longrightarrow> peek8 t a = peek8 s a)) \<and>
      (\<forall>a \<in> page_bytes v. \<not> kaddr s a \<and> kaddr t a \<and> peek8 t a = 0)"
    using t(1,2,7) by (intro exI [of _ ?v] exI [of _ t]) (simp add: extends_within_def)
next
  fix s :: "'a machine_scheme" and n a
  assume "pages_ready mo B s n" "a \<in> B"
  then show "kaddr s a" using pools_hold_kaddr mem_inv_parts(1) unfolding pages_ready_def alloc_area_def by blast
qed

text \<open>The machine after \<open>mem_init\<close>, for the witnesses.\<close>

lemma free_frames_fresh: "free_frames (replicate k 0) = {..<8 * k}"
  by (auto simp: free_frames_def bm_bit_def)

lemma boot_mem_inv: "\<exists>t :: machine. mem_inv t boot_mem (init_view 0x2000000)"
proof -
  have "mem_ready boot_mem_machine boot_mem 0x2000000" by (rule boot_mem_ready)
  from mem_pool_init_spec [OF this] show ?thesis by blast
qed

lemma init_view_32mb:
  "kbits (init_view 0x2000000) = replicate 480 0" "vbits (init_view 0x2000000) = replicate 480 0"
  "kstart (init_view 0x2000000) = 0x200000"
  by (simp_all add: init_view_def Let_def boot_32mb used_mem_def PAGE_SIZE_def)

lemma first_free_fresh: "0 < k \<Longrightarrow> first_free (replicate k 0) = 0"
proof -
  assume k: "0 < k"
  have e: "\<exists>i < 8 * length (replicate k (0 :: u8)). \<not> bm_bit (replicate k 0) i" using k by (intro exI [of _ 0]) (simp add: bm_bit_def)
  have "\<not> 0 < first_free (replicate k 0)"
  proof
    assume "0 < first_free (replicate k 0)"
    then have "bm_bit (replicate k 0) 0" using first_free_props(5) [OF e] by blast
    then show False using k by (simp add: bm_bit_def)
  qed
  then show ?thesis by simp
qed

text \<open>
  \<open>palloc\<close> returns the first free page frame of the pool, marks it taken, and keeps the
  invariant; only the pool's bitmap changes. The returned address is page-aligned and not 0.
\<close>

theorem palloc_correct:
  assumes "mem_inv s mo m" "free_frames (kbits m) \<noteq> {}"
  shows "\<exists>t ph i. palloc (kernel_pool mo) s = Inr (ph, t) \<and> ph AND 0xfff = 0 \<and> ph \<noteq> 0 \<and> page_of ph = kframe m i \<and>
    i \<in> free_frames (kbits m) \<and> (\<forall>j \<in> free_frames (kbits m). i \<le> j) \<and> frame_fresh t (page_of ph) \<and>
    upd_within (kspan m) s t \<and> mem_inv t mo (m\<lparr>kbits := bm_update (kbits m) i True\<rparr>)"
proof -
  let ?i = "first_free (kbits m)"
  from palloc_spec [OF assms] obtain t where
    t: "palloc (kernel_pool mo) s = Inr (of_nat (?i * 4096) + kstart m, t)" "upd_within (kspan m) s t"
      "mem_inv t mo (m\<lparr>kbits := bm_update (kbits m) ?i True\<rparr>)" "frame_fresh t (kframe m ?i)" "?i \<in> free_frames (kbits m)" by blast
  have sz: "kstart m AND 0xfff = 0" "unat (kstart m) + 8 * length (kbits m) * 4096 \<le> 2 ^ 32" "kstart m \<noteq> 0"
    using mem_inv_parts(2) [OF assms(1)] by (simp_all add: pools_sized_def)
  have "?i < 8 * length (kbits m)" using t(5) by (simp add: free_frames_def)
  note a = kframe_addr [OF sz(1,2) this]
  have "\<forall>j \<in> free_frames (kbits m). ?i \<le> j"
    using first_free_props(5) [OF first_free_frame(2) [OF assms(2)]] by (auto simp: free_frames_def not_less [symmetric])
  then show ?thesis using t a sz(3) by metis
qed

theorem palloc_correct_witness:
  "\<exists>s t :: machine. \<exists>ph. mem_inv s boot_mem (init_view 0x2000000) \<and> palloc (kernel_pool boot_mem) s = Inr (ph, t) \<and>
     page_of ph = kframe (init_view 0x2000000) 0"
proof -
  obtain s :: machine where s: "mem_inv s boot_mem (init_view 0x2000000)" using boot_mem_inv by blast
  have f: "free_frames (kbits (init_view 0x2000000)) = {..<3840}" by (simp add: init_view_32mb free_frames_fresh)
  then have "0 \<in> free_frames (kbits (init_view 0x2000000))" by simp
  then have "free_frames (kbits (init_view 0x2000000)) \<noteq> {}" by blast
  from palloc_correct [OF s this] f s show ?thesis by fastforce
qed

text \<open>
  C13: \<open>get_kernel_pages(n)\<close>, when the scan of the virtual bitmap finds a run and the kernel
  pool has \<open>n\<close> free frames, returns \<open>n\<close> consecutive pages that were not mapped before, now
  mapped and zero-filled; all kernel data outside the two bitmaps is as before and the
  allocator's invariant holds with \<open>n\<close> frames fewer.
\<close>

theorem get_kernel_pages_correct:
  assumes "mem_inv s mo m" "bitmap_scan (kernel_addr mo) cnt s = Inr (int r, s)"
    "free_run (bm_bit (vbits m)) r (unat cnt)" "r + unat cnt \<le> 8 * length (vbits m)"
    "0 < cnt" "cnt < 3840" "unat cnt \<le> card (free_frames (kbits m))"
  shows "\<exists>t bs. get_kernel_pages mo cnt s = Inr (K_HEAD_START + of_nat (r * 4096), t) \<and> extends_within (alloc_area m) s t \<and>
    mem_inv t mo (m\<lparr>kbits := bs, vbits := bm_set_run (vbits m) r (unat cnt)\<rparr>) \<and>
    card (free_frames bs) + unat cnt = card (free_frames (kbits m)) \<and>
    blk t (K_HEAD_START + of_nat (r * 4096)) (replicate (unat cnt * 4096) 0) \<and>
    (\<forall>a \<in> span (K_HEAD_START + of_nat (r * 4096)) (unat cnt * 4096). \<not> kaddr s a)"
  using get_kernel_pages_spec [OF assms] unfolding alloc_area_def by blast

theorem get_kernel_pages_correct_witness:
  "\<exists>s t :: machine. get_kernel_pages boot_mem 1 s = Inr (0xc0100000, t) \<and> kaddr t 0xc0100000 \<and> \<not> kaddr s 0xc0100000"
proof -
  let ?m = "init_view 0x2000000"
  obtain s :: machine where s: "mem_inv s boot_mem ?m" using boot_mem_inv by blast
  have e: "\<exists>i < 8 * length (vbits ?m). \<not> bm_bit (vbits ?m) i"
    by (intro exI [of _ 0]) (simp add: init_view_32mb bm_bit_def)
  have "bitmap_scan (kernel_addr boot_mem) 1 s = Inr (int 0, s)"
    using bitmap_scan_one [OF mem_inv_parts(5) [OF s] e] by (simp add: init_view_32mb first_free_fresh)
  moreover have "free_run (bm_bit (vbits ?m)) 0 (unat (1 :: u32))" by (simp add: free_run_def init_view_32mb bm_bit_def)
  moreover have "0 + unat (1 :: u32) \<le> 8 * length (vbits ?m)" by (simp add: init_view_32mb)
  moreover have "unat (1 :: u32) \<le> card (free_frames (kbits ?m))" by (simp add: init_view_32mb free_frames_fresh)
  moreover have "(0 :: u32) < 1" "(1 :: u32) < 3840" by simp_all
  ultimately obtain t where t: "get_kernel_pages boot_mem 1 s = Inr (0xc0100000, t)"
    "blk t 0xc0100000 (replicate 4096 0)" "\<forall>a \<in> span 0xc0100000 4096. \<not> kaddr s a"
    using get_kernel_pages_correct [OF s, of 1 0] by (auto simp: K_HEAD_START_def)
  have "kaddr t 0xc0100000" using blk_nth [OF t(2), of 0] by simp
  moreover have "0xc0100000 \<in> span 0xc0100000 4096" using span_at [of 0 4096 "0xc0100000"] by simp
  ultimately show ?thesis using t(1,3) by blast
qed

text \<open>
  C12: any number of single pages, as many as both bitmaps have free, can be taken one after
  the other: every call succeeds, the pages are pairwise disjoint, none was mapped before,
  all are zero at the end, and no kernel data outside the bitmaps has changed.
\<close>

theorem repeated_allocation_safe:
  assumes "mem_inv s mo m" "n \<le> card (free_frames (kbits m))" "n \<le> card (free_frames (vbits m))"
  shows "\<exists>vs t. run_n (get_kernel_pages mo 1) n s = Inr (vs, t) \<and> length vs = n \<and>
    (\<forall>i < n. \<forall>j < i. page_bytes (vs ! i) \<inter> page_bytes (vs ! j) = {}) \<and>
    (\<forall>a. kaddr s a \<longrightarrow> kaddr t a \<and> (a \<notin> alloc_area m \<longrightarrow> peek8 t a = peek8 s a)) \<and>
    (\<forall>v \<in> set vs. \<forall>a \<in> page_bytes v. \<not> kaddr s a \<and> kaddr t a \<and> peek8 t a = 0)"
proof -
  have "pages_ready mo (alloc_area m) s n" using assms unfolding pages_ready_def by blast
  from pages.alloc_many [OF this] show ?thesis unfolding pages.apart_def by blast
qed

theorem repeated_allocation_safe_witness:
  "\<exists>s t :: machine. \<exists>vs. run_n (get_kernel_pages boot_mem 1) 100 s = Inr (vs, t) \<and> length vs = 100 \<and>
     page_bytes (vs ! 7) \<inter> page_bytes (vs ! 3) = {}"
proof -
  let ?m = "init_view 0x2000000"
  obtain s :: machine where s: "mem_inv s boot_mem ?m" using boot_mem_inv by blast
  have n: "100 \<le> card (free_frames (kbits ?m))" "100 \<le> card (free_frames (vbits ?m))"
    by (simp_all add: init_view_32mb free_frames_fresh)
  obtain vs t where t: "run_n (get_kernel_pages boot_mem 1) 100 s = Inr (vs, t)" "length vs = 100"
    "\<forall>i < 100. \<forall>j < i. page_bytes (vs ! i) \<inter> page_bytes (vs ! j) = {}"
    using repeated_allocation_safe [OF s n] by blast
  have "page_bytes (vs ! 7) \<inter> page_bytes (vs ! 3) = {}" using t(3) by simp
  with t(1,2) show ?thesis by blast
qed

text \<open>
  C32: the errors. A request for no page or for 3840 or more fails the assertion on entry, the
  user pool answers NULL for every request, and an exhausted kernel pool does not answer
  NULL either: the assertion inside \<open>bitmap_scan\<close> stops the kernel first.
\<close>

theorem malloc_page_errors:
  "(cnt = 0 \<or> 3840 \<le> cnt \<longrightarrow> malloc_page mo pf cnt s =
      Inl (Panic ''kernel/memory.c'' 188 ''malloc_page'' ''page_count > 0 && page_count < 3840'')) \<and>
   (0 < cnt \<and> cnt < 3840 \<longrightarrow> malloc_page mo PF_USER cnt s = Inr (0, s)) \<and>
   (mem_inv s mo m \<and> free_frames (kbits m) = {} \<and> kaddr s (kbase m + of_nat (length (kbits m))) \<longrightarrow>
      palloc (kernel_pool mo) s =
        Inl (Panic ''kernel/bitmap.c'' 29 ''bitmap_scan'' ''idx_byte < btmp->btmp_bytes_len''))"
proof (intro conjI impI; (elim conjE)?)
  show "malloc_page mo pf cnt s =
      Inl (Panic ''kernel/memory.c'' 188 ''malloc_page'' ''page_count > 0 && page_count < 3840'')" if "cnt = 0 \<or> 3840 \<le> cnt"
    using that by (auto simp: malloc_page_def memory_assert_def comp_simps)
  show "malloc_page mo PF_USER cnt s = Inr (0, s)" if "0 < cnt" "cnt < 3840"
    using that by (simp add: malloc_page_def memory_assert_def vaddr_get_def comp_simps)
  assume a: "mem_inv s mo m" "free_frames (kbits m) = {}" "kaddr s (kbase m + of_nat (length (kbits m)))"
  have "c = 0xff" if c: "c \<in> set (kbits m)" for c
  proof (rule ccontr)
    assume "c \<noteq> 0xff"
    note f = first_bit_less [OF this]
    obtain k where k: "k < length (kbits m)" "kbits m ! k = c" using c by (auto simp: in_set_conv_nth)
    have "k * 8 + first_bit c \<in> free_frames (kbits m)" using f k by (simp add: free_frames_def bm_bit_def)
    with a(2) show False by simp
  qed
  with bitmap_scan_full [OF mem_inv_parts(4) [OF a(1)] a(3)] show "palloc (kernel_pool mo) s =
        Inl (Panic ''kernel/bitmap.c'' 29 ''bitmap_scan'' ''idx_byte < btmp->btmp_bytes_len'')"
    by (simp add: palloc_def cbind_Inl)
qed

theorem malloc_page_errors_witness:
  "malloc_page boot_mem PF_KERNEL 0 boot_machine =
     Inl (Panic ''kernel/memory.c'' 188 ''malloc_page'' ''page_count > 0 && page_count < 3840'') \<and>
   malloc_page boot_mem PF_USER 3 boot_machine = Inr (0, boot_machine)"
  using malloc_page_errors [of 0 boot_mem PF_KERNEL boot_machine] malloc_page_errors [of 3 boot_mem PF_USER boot_machine] by simp

end
