(* ===== verification/Thread.thy ===== *)
theory Thread
  imports KList MemInit
begin

unbundle bit_operations_syntax

section \<open>Threads (kernel/thread/thread.c, include/thread/thread.h, kernel/switch.S)\<close>

text \<open>
  A thread is one page: its \<open>struct task_struct\<close> at the bottom, its kernel stack growing
  down from the top; the running thread is found by rounding the stack pointer down.
  \<open>switch_to\<close> saves four registers and the stack pointer of one thread and loads those of
  another, so a computation that calls it ends in a machine that runs the other thread:
  \<open>schedule\<close> returns when, and where, the chosen thread was switched out. What follows a
  switch in the source (the last line of \<open>thread_block\<close>) is a computation of its own.
  The compiler's use of the stack between these points is not modelled; the address
  \<open>switch_to\<close> returns to is a parameter.
\<close>

subsection \<open>Data\<close>

datatype task_status =
    TASK_RUNNING
  | TASK_READY
  | TASK_BLOCKED
  | TASK_WAITTING
  | TASK_HANGING
  | TASK_DIED

fun status_code :: "task_status \<Rightarrow> u32" where
  "status_code TASK_RUNNING = 0"
| "status_code TASK_READY = 1"
| "status_code TASK_BLOCKED = 2"
| "status_code TASK_WAITTING = 3"
| "status_code TASK_HANGING = 4"
| "status_code TASK_DIED = 5"

lemma status_code_inj [simp]: "status_code a = status_code b \<longleftrightarrow> a = b"
  by (cases a; cases b) simp_all

text \<open>The enumeration is ordered as C orders its constants.\<close>

instantiation task_status :: linorder
begin

definition less_eq_task_status :: "task_status \<Rightarrow> task_status \<Rightarrow> bool" where
  "less_eq_task_status a b \<longleftrightarrow> status_code a \<le> status_code b"

definition less_task_status :: "task_status \<Rightarrow> task_status \<Rightarrow> bool" where
  "less_task_status a b \<longleftrightarrow> status_code a < status_code b"

instance
proof standard
  fix a b :: task_status
  show "a < b \<longleftrightarrow> a \<le> b \<and> \<not> b \<le> a" unfolding less_eq_task_status_def less_task_status_def by (rule less_le_not_le)
  show "a \<le> b \<Longrightarrow> b \<le> a \<Longrightarrow> a = b" using status_code_inj by (auto simp: less_eq_task_status_def)
qed (auto simp: less_eq_task_status_def)

end

text \<open>Offsets of the members of \<open>struct task_struct\<close>, of \<open>struct thread_stack\<close>, and the sizes.\<close>

definition self_kstack :: "addr \<Rightarrow> addr" where
  "self_kstack p = p"

definition status_field :: "addr \<Rightarrow> addr" where
  "status_field p = p + 4"

definition name_field :: "addr \<Rightarrow> addr" where
  "name_field p = p + 8"

definition priority_field :: "addr \<Rightarrow> addr" where
  "priority_field p = p + 24"

definition ticks_field :: "addr \<Rightarrow> addr" where
  "ticks_field p = p + 25"

definition elaspsed_ticks :: "addr \<Rightarrow> addr" where
  "elaspsed_ticks p = p + 28"

definition general_tag :: "addr \<Rightarrow> addr" where
  "general_tag p = p + 32"

definition all_list_tag :: "addr \<Rightarrow> addr" where
  "all_list_tag p = p + 40"

definition pgdir :: "addr \<Rightarrow> addr" where
  "pgdir p = p + 48"

definition stack_magic :: "addr \<Rightarrow> addr" where
  "stack_magic p = p + 52"

definition task_struct_size :: u32 where
  "task_struct_size = 56"

definition intr_stack_size :: u32 where
  "intr_stack_size = 19 * 4"

definition thread_stack_size :: u32 where
  "thread_stack_size = 8 * 4"

text \<open>\<open>elem2entry(struct task_struct, general_tag, e)\<close>\<close>

definition tag_entry :: "addr \<Rightarrow> addr" where
  "tag_entry e = e - 32"

record thread_objs =
  main_thread :: addr
  thread_ready_list :: addr
  thread_all_list :: addr
  thread_tag :: addr

definition thread_assert :: "bool \<Rightarrow> nat \<Rightarrow> string \<Rightarrow> string \<Rightarrow> ('s, unit) comp" where
  "thread_assert b line fn cond = assert_or b (Panic ''kernel/thread/thread.c'' line fn cond)"

subsection \<open>Creating a thread\<close>

definition running_thread :: "('z machine_scheme, addr) comp" where
  "running_thread = gets (\<lambda>s. esp s AND 0xfffff000)"

definition init_thread :: "thread_objs \<Rightarrow> addr \<Rightarrow> addr \<Rightarrow> int \<Rightarrow> ('z machine_scheme, unit) comp" where
  "init_thread to pthread name prio =
     cseq (memset pthread 0 task_struct_size)
    (cseq (strcpy (name_field pthread) name)
    (cbind (load32 (main_thread to)) (\<lambda>main.
     cseq (store32 (status_field pthread) (status_code (if pthread = main then TASK_RUNNING else TASK_READY)))
    (cseq (store8 (priority_field pthread) (of_int prio))
    (cseq (store8 (ticks_field pthread) (of_int prio))
    (cseq (store32 (elaspsed_ticks pthread) 0)
    (cseq (store32 (pgdir pthread) NULL)
    (cseq (store32 (self_kstack pthread) (pthread + PAGE_SIZE))
          (store32 (stack_magic pthread) 0x77777777)))))))))"

text \<open>\<open>self_kstack\<close> is a \<open>uint32_t*\<close>: subtracting a size moves it by that many words.\<close>

definition kstack_sub :: "addr \<Rightarrow> u32 \<Rightarrow> ('z machine_scheme, unit) comp" where
  "kstack_sub pthread n = cbind (load32 (self_kstack pthread)) (\<lambda>k. store32 (self_kstack pthread) (k - 4 * n))"

definition thread_create :: "u32 \<Rightarrow> addr \<Rightarrow> u32 \<Rightarrow> u32 \<Rightarrow> ('z machine_scheme, unit) comp" where
  "thread_create kernel_thread_addr pthread thread_fn func_args =
     cseq (kstack_sub pthread intr_stack_size)
    (cseq (kstack_sub pthread thread_stack_size)
    (cbind (load32 (self_kstack pthread)) (\<lambda>kthread_stack.
     cseq (store32 (kthread_stack + 16) kernel_thread_addr)
    (cseq (store32 (kthread_stack + 24) thread_fn)
    (cseq (store32 (kthread_stack + 28) func_args)
    (cseq (store32 (kthread_stack + 12) 0)
    (cseq (store32 (kthread_stack + 8) 0)
    (cseq (store32 (kthread_stack + 4) 0)
          (store32 kthread_stack 0)))))))))"

text \<open>\<open>ASSERT(!list_find(l, e)); list_append(l, e)\<close>\<close>

definition append_new :: "addr \<Rightarrow> addr \<Rightarrow> nat \<Rightarrow> string \<Rightarrow> string \<Rightarrow> ('z machine_scheme, unit) comp" where
  "append_new l e line fn cond =
     cbind (list_find l e) (\<lambda>r. cseq (thread_assert (r = 0) line fn cond) (list_append l e))"

definition thread_start ::
  "mem_objs \<Rightarrow> thread_objs \<Rightarrow> u32 \<Rightarrow> addr \<Rightarrow> int \<Rightarrow> u32 \<Rightarrow> u32 \<Rightarrow> ('z machine_scheme, addr) comp" where
  "thread_start mo to kernel_thread_addr name prio thread_fn func_args =
     cbind (get_kernel_pages mo 1) (\<lambda>thread.
     cseq (init_thread to thread name prio)
    (cseq (thread_create kernel_thread_addr thread thread_fn func_args)
    (cseq (append_new (thread_ready_list to) (general_tag thread) 93 ''thread_start''
            ''!list_find(&thread_ready_list, &thread->general_tag)'')
    (cseq (append_new (thread_all_list to) (all_list_tag thread) 96 ''thread_start''
            ''!list_find(&thread_all_list, &thread->all_list_tag)'')
          (ret thread)))))"

definition kernel_thread :: "('z machine_scheme, unit) comp \<Rightarrow> ('z machine_scheme, unit) comp" where
  "kernel_thread thread_fn = cseq intr_enable thread_fn"

definition make_main_thread :: "thread_objs \<Rightarrow> addr \<Rightarrow> ('z machine_scheme, unit) comp" where
  "make_main_thread to name =
     cbind running_thread (\<lambda>p.
     cseq (store32 (main_thread to) p)
    (cseq (init_thread to p name 31)
          (append_new (thread_all_list to) (all_list_tag p) 35 ''make_main_thread''
             ''!list_find(&thread_all_list, &main_thread->all_list_tag)'')))"

definition thread_init :: "thread_objs \<Rightarrow> addr \<Rightarrow> ('z machine_scheme, unit) comp" where
  "thread_init to name =
     cseq (log_console (PutStr ''Start to init thread...\<newline>''))
    (cseq (list_init (thread_all_list to))
    (cseq (list_init (thread_ready_list to))
    (cseq (make_main_thread to name)
          (log_console (PutStr ''Thread init done.\<newline>'')))))"

subsection \<open>Switching (kernel/switch.S)\<close>

definition push32 :: "u32 \<Rightarrow> ('z machine_scheme, unit) comp" where
  "push32 v = cbind (gets esp) (\<lambda>sp. cseq (store32 (sp - 4) v) (modify (\<lambda>s. s\<lparr>esp := sp - 4\<rparr>)))"

definition pop32 :: "('z machine_scheme, u32) comp" where
  "pop32 = cbind (gets esp) (\<lambda>sp. cbind (load32 sp) (\<lambda>v. cseq (modify (\<lambda>s. s\<lparr>esp := sp + 4\<rparr>)) (ret v)))"

definition switch_to :: "('z machine_scheme, unit) comp" where
  "switch_to =
     cseq (cbind (gets esi) push32)
    (cseq (cbind (gets edi) push32)
    (cseq (cbind (gets ebx) push32)
    (cseq (cbind (gets ebp) push32)
    (cbind (gets esp) (\<lambda>sp.
     cbind (load32 (sp + 20)) (\<lambda>cur.
     cseq (store32 cur sp)
    (cbind (load32 (sp + 24)) (\<lambda>nxt.
     cbind (load32 nxt) (\<lambda>k.
     cseq (modify (\<lambda>s. s\<lparr>esp := k\<rparr>))
    (cbind pop32 (\<lambda>v. cseq (modify (\<lambda>s. s\<lparr>ebp := v\<rparr>))
    (cbind pop32 (\<lambda>v. cseq (modify (\<lambda>s. s\<lparr>ebx := v\<rparr>))
    (cbind pop32 (\<lambda>v. cseq (modify (\<lambda>s. s\<lparr>edi := v\<rparr>))
    (cbind pop32 (\<lambda>v. cseq (modify (\<lambda>s. s\<lparr>esi := v\<rparr>))
    (cbind pop32 (\<lambda>v. modify (\<lambda>s. s\<lparr>eip := v\<rparr>))))))))))))))))))))"

text \<open>The call from \<open>schedule\<close>, with the address the compiler returns to.\<close>

definition call_switch_to :: "u32 \<Rightarrow> addr \<Rightarrow> addr \<Rightarrow> ('z machine_scheme, unit) comp" where
  "call_switch_to ra cur nxt = cseq (push32 nxt) (cseq (push32 cur) (cseq (push32 ra) switch_to))"

subsection \<open>Scheduling\<close>

definition schedule :: "thread_objs \<Rightarrow> u32 \<Rightarrow> ('z machine_scheme, unit) comp" where
  "schedule to ra =
     cbind intr_get_status (\<lambda>ist.
     cseq (thread_assert (ist = INTR_OFF) 105 ''schedule'' ''intr_get_status() == INTR_OFF'')
    (cbind running_thread (\<lambda>cur.
     cbind (load32 (status_field cur)) (\<lambda>st.
     cseq (when_do (st = status_code TASK_RUNNING)
             (cseq (append_new (thread_ready_list to) (general_tag cur) 110 ''schedule''
                      ''!list_find(&thread_ready_list, &cur_thread->general_tag)'')
             (cbind (load8 (priority_field cur)) (\<lambda>prio.
              cseq (store8 (ticks_field cur) prio)
                   (store32 (status_field cur) (status_code TASK_READY))))))
    (cbind (list_empty (thread_ready_list to)) (\<lambda>e.
     cseq (thread_assert (e = 0) 117 ''schedule'' ''!list_empty(&thread_ready_list)'')
    (cseq (store32 (thread_tag to) NULL)
    (cbind (list_pop (thread_ready_list to)) (\<lambda>tag.
     cseq (store32 (thread_tag to) tag)
    (cbind (load32 (thread_tag to)) (\<lambda>tag'.
     cseq (store32 (status_field (tag_entry tag')) (status_code TASK_RUNNING))
          (call_switch_to ra cur (tag_entry tag')))))))))))))"

definition blocking :: "u32 \<Rightarrow> bool" where
  "blocking st \<longleftrightarrow> st = status_code TASK_BLOCKED \<or> st = status_code TASK_HANGING \<or> st = status_code TASK_WAITTING"

text \<open>\<open>thread_block\<close> up to the switch; it yields the status to restore when the thread resumes.\<close>

definition thread_block :: "thread_objs \<Rightarrow> u32 \<Rightarrow> task_status \<Rightarrow> ('z machine_scheme, intr_status) comp" where
  "thread_block to ra status =
     cseq (thread_assert (blocking (status_code status)) 131 ''thread_block''
             ''status == TASK_BLOCKED || status == TASK_HANGING || status == TASK_WAITTING'')
    (cbind intr_disable (\<lambda>old_status.
     cbind running_thread (\<lambda>cur.
     cseq (store32 (status_field cur) (status_code status))
    (cseq (schedule to ra) (ret old_status)))))"

definition thread_block_resume :: "intr_status \<Rightarrow> ('z machine_scheme, unit) comp" where
  "thread_block_resume old_status = cseq (intr_set_status old_status) (ret ())"

definition thread_unblock :: "thread_objs \<Rightarrow> addr \<Rightarrow> ('z machine_scheme, unit) comp" where
  "thread_unblock to pthread =
     cbind intr_disable (\<lambda>old_status.
     cbind (load32 (status_field pthread)) (\<lambda>st.
     cseq (thread_assert (blocking st) 149 ''thread_unblock''
             ''pthread->status == TASK_BLOCKED || pthread->status == TASK_HANGING || pthread->status == TASK_WAITTING'')
    (cseq (when_do (st \<noteq> status_code TASK_READY)
             (cbind (list_find (thread_ready_list to) (general_tag pthread)) (\<lambda>r.
              cseq (thread_assert (r = 0) 152 ''thread_unblock'' ''!list_find(&thread_ready_list, &pthread->general_tag)'')
             (cseq (list_push (thread_ready_list to) (general_tag pthread))
                   (store32 (status_field pthread) (status_code TASK_READY))))))
    (cseq (intr_set_status old_status) (ret ())))))"

subsection \<open>A thread's page\<close>

text \<open>A page of kernel data that starts at a page boundary: all its cells are kernel memory.\<close>

definition task :: "'z machine_scheme \<Rightarrow> addr \<Rightarrow> bool" where
  "task s p \<longleftrightarrow> p AND 0xfff = 0 \<and> kaddr s p"

lemma page_cell:
  assumes "(p :: addr) AND 0xfff = 0" "i < 0x1000"
  shows "page_of (p + i) = page_of p" "(p + i) AND 0xfff = i" "unat (p + i) = unat p + unat i" "(p + i) AND 0xfffff000 = p"
proof -
  have z: "unat p mod 4096 = 0" using arg_cong [OF assms(1), of unat] by (simp only: unat_and_fff) simp
  then obtain k where k: "unat p = 4096 * k" by (auto simp: mod_eq_0_iff_dvd)
  have i: "unat i < 4096" using assms(2) by (simp add: word_less_nat_alt)
  have kb: "k < 1048576" using k unat_u32_less [of p] by simp
  then have "4096 * k + unat i < 4294967296" using i by linarith
  then show u: "unat (p + i) = unat p + unat i" using k by (simp add: unat_word_ariths)
  have d: "(4096 * k + unat i) div 4096 = k" using i by simp
  then show "page_of (p + i) = page_of p"
    using k u by (simp add: page_of_def word_unat_eq_iff unat_drop)
  have "unat ((p + i) AND 0xfff) = unat i" using i by (simp only: unat_and_fff u k) simp
  then show "(p + i) AND 0xfff = i" by (simp only: word_unat_eq_iff)
  have "unat ((p + i) AND 0xfffff000) = unat p" by (simp only: unat_and_page_mask u k d)
  then show "(p + i) AND 0xfffff000 = p" by (simp only: word_unat_eq_iff)
qed

lemma page_cell_eq:
  assumes "(p :: addr) AND 0xfff = 0" "q AND 0xfff = 0" "i < 0x1000" "j < 0x1000"
  shows "p + i = q + j \<longleftrightarrow> p = q \<and> i = j"
  using page_cell(2,4) [OF assms(1,3)] page_cell(2,4) [OF assms(2,4)] by metis

lemma aligned4_page: "(p :: addr) AND 0xfff = 0 \<Longrightarrow> aligned4 p"
proof -
  assume "p AND 0xfff = 0"
  from arg_cong [OF this, of unat] have "unat p mod 4096 = 0" by (simp only: unat_and_fff) simp
  then have "unat p mod 4096 mod 4 = 0" by simp
  then show ?thesis by (simp add: aligned4_unat mod_mod_cancel)
qed

lemma kaddr_page: "page_of a = page_of b \<Longrightarrow> kaddr s a = kaddr s b"
  by (simp add: kaddr_def page_of_def)

lemma task_cells:
  assumes "task s p" "i < 0x1000"
  shows "kaddr s (p + i)" "aligned4 i \<Longrightarrow> kcell s (p + i)"
proof -
  have "p AND 0xfff = 0" "kaddr s p" using assms(1) by (simp_all add: task_def)
  with kaddr_page [OF page_cell(1) [OF this(1) assms(2)]] show k: "kaddr s (p + i)" by blast
  assume "aligned4 i"
  then show "kcell s (p + i)" using k aligned4_page [of p] assms(1) by (simp add: kcell_def task_def add.commute [of p])
qed

lemma task_self: "task s p \<Longrightarrow> kcell s p"
  using aligned4_page by (simp add: kcell_def task_def)

lemma task_upd: "upd_within B s t \<Longrightarrow> task t p = task s p"
  by (simp add: task_def upd_within_kaddr)

subsection \<open>Cells and bytes outside an update\<close>

definition cells_upd :: "addr set \<Rightarrow> 'z machine_scheme \<Rightarrow> 'z machine_scheme \<Rightarrow> bool" where
  "cells_upd C s t \<longleftrightarrow> upd_within (\<Union> (bytes4 ` C)) s t \<and> (\<forall>c \<in> C. kcell s c)"

lemma cells_upd_refl [intro]: "cells_upd {} s s"
  by (simp add: cells_upd_def upd_within_refl)

lemma cells_upd_trans:
  assumes "cells_upd C s t" "cells_upd D t u"
  shows "cells_upd (C \<union> D) s u"
  using upd_within_trans2 [of _ s t _ u] assms upd_within_kcell [of _ s t]
  by (auto simp: cells_upd_def UN_Un)

lemma cells_upd_mono: "cells_upd C s t \<Longrightarrow> C \<subseteq> D \<Longrightarrow> \<forall>c \<in> D. kcell s c \<Longrightarrow> cells_upd D s t"
  unfolding cells_upd_def by (meson upd_within_mono image_mono Union_mono)

lemma cells_upd_poke: "kcell s c \<Longrightarrow> cells_upd {c} s (poke32 c v s)"
  by (simp add: cells_upd_def upd_within_poke32)

lemma cells_upd_upd: "cells_upd C s t \<Longrightarrow> upd_within (\<Union> (bytes4 ` C)) s t"
  by (simp add: cells_upd_def)

lemma cells_upd_kcell: "cells_upd C s t \<Longrightarrow> kcell t = kcell s"
  by (auto simp: cells_upd_def upd_within_kcell)

lemma cells_upd_task: "cells_upd C s t \<Longrightarrow> task t = task s"
  by (rule ext) (auto simp: cells_upd_def task_upd)

lemma cells_upd_other:
  assumes "cells_upd C s t" "kcell s d" "d \<notin> C"
  shows "peek32 t d = peek32 s d" "i < 4 \<Longrightarrow> peek8 t (d + i) = peek8 s (d + i)"
proof -
  have "bytes4 c \<inter> bytes4 d = {}" if "c \<in> C" for c
    using assms that by (intro bytes4_disjoint) (auto simp: cells_upd_def kcell_def)
  then have dj: "bytes4 d \<inter> \<Union> (bytes4 ` C) = {}" by blast
  show "peek32 t d = peek32 s d" by (rule upd_within_peek32 [OF cells_upd_upd [OF assms(1)] assms(2) dj])
  assume i: "i < 4"
  have "d + i \<in> bytes4 d" using i by (simp add: in_bytes4)
  moreover have "kaddr s (d + i)" using assms(2) i by (simp add: kcell_def kaddr_byte)
  ultimately show "peek8 t (d + i) = peek8 s (d + i)"
    using upd_within_peek8 [OF cells_upd_upd [OF assms(1)]] dj by blast
qed

definition list_cells :: "addr \<Rightarrow> addr list \<Rightarrow> addr set" where
  "list_cells l xs = set (node_cells (list_nodes l xs))"

lemma list_cells_bytes: "list_bytes l xs = \<Union> (bytes4 ` list_cells l xs)"
  by (simp add: list_bytes_def list_cells_def)

lemma list_cells_upd:
  assumes "upd_within (list_bytes l ys) s t" "klist t l ys"
  shows "cells_upd (list_cells l ys) s t"
  using assms upd_within_kcell [OF assms(1)]
  by (simp add: cells_upd_def list_cells_bytes klist_def dlist_def list_cells_def)

lemma list_cells_iff: "c \<in> list_cells l xs \<longleftrightarrow> c \<in> {l, l + 4, l + 8, l + 12} \<or> (\<exists>x \<in> set xs. c = x \<or> c = x + 4)"
  by (auto simp: list_cells_def list_nodes_def set_node_cells add.assoc add.commute)

lemma klist_other:
  assumes "cells_upd C s t" "klist s l xs" "C \<inter> list_cells l xs = {}"
  shows "klist t l xs"
proof (rule klist_frame [OF cells_upd_upd [OF assms(1)] assms(2)])
  have "bytes4 c \<inter> bytes4 d = {}" if "c \<in> C" "d \<in> list_cells l xs" for c d
    using assms that by (intro bytes4_disjoint) (auto simp: cells_upd_def kcell_def klist_def dlist_def list_cells_def)
  then show "\<Union> (bytes4 ` C) \<inter> list_bytes l xs = {}" unfolding list_cells_bytes by blast
qed

subsection \<open>The switch\<close>

record thread_context =
  c_sp :: u32
  c_ebp :: u32
  c_ebx :: u32
  c_edi :: u32
  c_esi :: u32
  c_eip :: u32

text \<open>What a switched-out thread resumes with: the words at its saved stack pointer.\<close>

definition saved :: "'z machine_scheme \<Rightarrow> addr \<Rightarrow> thread_context" where
  "saved s p = (let k = peek32 s p in
     \<lparr>c_sp = k + 20, c_ebp = peek32 s k, c_ebx = peek32 s (k + 4), c_edi = peek32 s (k + 8),
      c_esi = peek32 s (k + 12), c_eip = peek32 s (k + 16)\<rparr>)"

definition resume :: "thread_context \<Rightarrow> 'z machine_scheme \<Rightarrow> 'z machine_scheme" where
  "resume c s = s\<lparr>esp := c_sp c, ebp := c_ebp c, ebx := c_ebx c, edi := c_edi c, esi := c_esi c, eip := c_eip c\<rparr>"

text \<open>What the running thread will resume with if it calls \<open>switch_to\<close> now.\<close>

definition current :: "u32 \<Rightarrow> 'z machine_scheme \<Rightarrow> thread_context" where
  "current ra s = \<lparr>c_sp = esp s - 8, c_ebp = ebp s, c_ebx = ebx s, c_edi = edi s, c_esi = esi s, c_eip = ra\<rparr>"

definition push_frame :: "u32 \<Rightarrow> addr \<Rightarrow> addr \<Rightarrow> 'z machine_scheme \<Rightarrow> 'z machine_scheme" where
  "push_frame ra cur nxt s = (let e = esp s in
     poke32 cur (e - 28) (poke32 (e - 28) (ebp s) (poke32 (e - 24) (ebx s) (poke32 (e - 20) (edi s) (poke32 (e - 16) (esi s)
    (poke32 (e - 12) ra (poke32 (e - 8) cur (poke32 (e - 4) nxt s))))))))"

definition frame_cells :: "u32 \<Rightarrow> addr set" where
  "frame_cells e = {e - 28, e - 24, e - 20, e - 16, e - 12, e - 8, e - 4}"

lemma push32_spec: "kcell s (esp s - 4) \<Longrightarrow> push32 v s = Inr ((), (poke32 (esp s - 4) v s)\<lparr>esp := esp s - 4\<rparr>)"
  by (simp add: push32_def comp_simps store32_kcell)

lemma pop32_spec: "kcell s (esp s) \<Longrightarrow> pop32 s = Inr (peek32 s (esp s), s\<lparr>esp := esp s + 4\<rparr>)"
  by (simp add: pop32_def comp_simps load32_kcell)

definition pop_frame :: "('z machine_scheme, unit) comp" where
  "pop_frame =
     cbind pop32 (\<lambda>v. cseq (modify (\<lambda>s. s\<lparr>ebp := v\<rparr>))
    (cbind pop32 (\<lambda>v. cseq (modify (\<lambda>s. s\<lparr>ebx := v\<rparr>))
    (cbind pop32 (\<lambda>v. cseq (modify (\<lambda>s. s\<lparr>edi := v\<rparr>))
    (cbind pop32 (\<lambda>v. cseq (modify (\<lambda>s. s\<lparr>esi := v\<rparr>))
    (cbind pop32 (\<lambda>v. modify (\<lambda>s. s\<lparr>eip := v\<rparr>))))))))))"

lemma pop_frame_spec:
  assumes "\<forall>i \<in> {0, 4, 8, 12, 16}. kcell u (k + i)"
  shows "pop_frame (u\<lparr>esp := k\<rparr>) = Inr ((), u\<lparr>esp := k + 20, ebp := peek32 u k, ebx := peek32 u (k + 4),
    edi := peek32 u (k + 8), esi := peek32 u (k + 12), eip := peek32 u (k + 16)\<rparr>)"
  using assms by (simp add: pop_frame_def cbind_def cseq_def modify_def pop32_spec add.assoc add.commute [of k])

lemma call_switch_to_spec:
  fixes ra :: u32
  assumes c: "\<forall>c \<in> frame_cells (esp s). kcell s c" and cur: "kcell s cur" "cur \<notin> frame_cells (esp s)" and nxt: "kcell s nxt"
  defines "u \<equiv> push_frame ra cur nxt s"
  assumes k: "\<forall>i \<in> {0, 4, 8, 12, 16}. kcell s (peek32 u nxt + i)"
  shows "call_switch_to ra cur nxt s = Inr ((), resume (saved u nxt) u)"
proof -
  obtain sp where e: "esp s = sp + 28" using that [of "esp s - 28"] by simp
  have kc: "kcell s sp" "kcell s (sp + 4)" "kcell s (sp + 8)" "kcell s (sp + 12)" "kcell s (sp + 16)" "kcell s (sp + 20)" "kcell s (sp + 24)"
    and ne: "cur \<noteq> sp" "cur \<noteq> sp + 4" "cur \<noteq> sp + 8" "cur \<noteq> sp + 12" "cur \<noteq> sp + 16" "cur \<noteq> sp + 20" "cur \<noteq> sp + 24"
    using c cur(2) by (simp_all add: frame_cells_def e add.commute)
  define w where "w = poke32 sp (ebp s) (poke32 (sp + 4) (ebx s) (poke32 (sp + 8) (edi s) (poke32 (sp + 12) (esi s)
    (poke32 (sp + 16) ra (poke32 (sp + 20) cur (poke32 (sp + 24) nxt s))))))"
  have u: "u = poke32 cur sp w" by (simp add: u_def push_frame_def e w_def add.commute)
  have kcw: "kcell w = kcell s" using kc by (simp add: w_def kcell_poke32)
  have kcu: "kcell u = kcell s" using cur(1) by (simp add: u kcw kcell_poke32)
  have args: "peek32 w (sp + 20) = cur" "peek32 w (sp + 24) = nxt" using kc by (simp_all add: w_def mem_simps)
  have args2: "peek32 u (sp + 24) = nxt" using kc kcw cur(1) ne args by (simp add: u mem_simps)
  have sw: "switch_to = cseq (cbind (gets esi) push32) (cseq (cbind (gets edi) push32) (cseq (cbind (gets ebx) push32)
    (cseq (cbind (gets ebp) push32) (cbind (gets esp) (\<lambda>sp. cbind (load32 (sp + 20)) (\<lambda>cur. cseq (store32 cur sp)
    (cbind (load32 (sp + 24)) (\<lambda>nxt. cbind (load32 nxt) (\<lambda>k. cseq (modify (\<lambda>s. s\<lparr>esp := k\<rparr>)) pop_frame)))))))))"
    unfolding switch_to_def pop_frame_def ..
  have push: "push32 v (t\<lparr>esp := x\<rparr>) = Inr ((), (poke32 (x - 4) v t)\<lparr>esp := x - 4\<rparr>)" if "kcell t (x - 4)" for v x and t :: "'a machine_scheme"
    using push32_spec [of "t\<lparr>esp := x\<rparr>"] that by simp
  have "call_switch_to ra cur nxt (s\<lparr>esp := sp + 28\<rparr>) = pop_frame (u\<lparr>esp := peek32 u nxt\<rparr>)"
    unfolding call_switch_to_def sw
    using kc ne cur(1) nxt kcw kcu args args2
    by (simp add: cbind_def cseq_def gets_def push kcell_poke32 w_def [symmetric] load32_kcell store32_kcell modify_def u [symmetric] add.commute)
  moreover have "s\<lparr>esp := sp + 28\<rparr> = s" by (simp add: e)
  moreover have "pop_frame (u\<lparr>esp := peek32 u nxt\<rparr>) = Inr ((), resume (saved u nxt) u)"
    using pop_frame_spec [of u "peek32 u nxt"] k by (simp add: kcu resume_def saved_def Let_def)
  ultimately show ?thesis by simp
qed

subsection \<open>The scheduler's invariant\<close>

definition status :: "'z machine_scheme \<Rightarrow> addr \<Rightarrow> u32" where
  "status s p = peek32 s (status_field p)"

text \<open>
  A switched-out thread's stack pointer is inside its page, above the control block, and so
  is the running thread's; \<open>esp_ok\<close>: there is room below it for the frame of one more switch.
\<close>

definition saved_ok :: "'z machine_scheme \<Rightarrow> addr \<Rightarrow> bool" where
  "saved_ok s p \<longleftrightarrow> (let i = peek32 s p - p in aligned4 i \<and> 64 \<le> i \<and> i \<le> 4072)"

definition on_stack :: "'z machine_scheme \<Rightarrow> addr \<Rightarrow> bool" where
  "on_stack s p \<longleftrightarrow> (let i = esp s - p in aligned4 i \<and> 84 \<le> i \<and> i < 4096)"

definition esp_ok :: "'z machine_scheme \<Rightarrow> addr \<Rightarrow> bool" where
  "esp_ok s p \<longleftrightarrow> (let i = esp s - p in aligned4 i \<and> 92 \<le> i \<and> i < 4096)"

text \<open>The cells of the module's globals: two words and the two list heads.\<close>

definition global_cells :: "thread_objs \<Rightarrow> addr list" where
  "global_cells to = thread_tag to # main_thread to # node_cells (list_nodes (thread_ready_list to) []) @
     node_cells (list_nodes (thread_all_list to) [])"

definition sched_globals :: "thread_objs \<Rightarrow> addr set" where
  "sched_globals to = set (global_cells to)"

lemma sched_globals_eq:
  "sched_globals to = {thread_tag to, main_thread to} \<union> list_cells (thread_ready_list to) [] \<union> list_cells (thread_all_list to) []"
  by (auto simp: sched_globals_def global_cells_def list_cells_def)

definition tasks_ok :: "'z machine_scheme \<Rightarrow> thread_objs \<Rightarrow> addr list \<Rightarrow> bool" where
  "tasks_ok s to ps \<longleftrightarrow> distinct ps \<and> (\<forall>p \<in> set ps. task s p \<and> (\<forall>g \<in> sched_globals to. page_of g \<noteq> page_of p)) \<and>
     (\<forall>c \<in> sched_globals to. kcell s c) \<and> distinct (global_cells to)"

lemma tasks_ok_tag:
  assumes "tasks_ok s to ps"
  shows "kcell s (thread_tag to)" "thread_tag to \<notin> list_cells (thread_ready_list to) []"
  using assms by (auto simp: tasks_ok_def sched_globals_eq global_cells_def list_cells_def)

definition sched_inv :: "'z machine_scheme \<Rightarrow> thread_objs \<Rightarrow> addr \<Rightarrow> addr list \<Rightarrow> addr list \<Rightarrow> bool" where
  "sched_inv s to cur ready blocked \<longleftrightarrow> tasks_ok s to (cur # ready @ blocked) \<and>
     klist s (thread_ready_list to) (map general_tag ready) \<and> on_stack s cur \<and>
     (\<forall>p \<in> set ready. saved_ok s p \<and> status s p = status_code TASK_READY) \<and>
     (\<forall>p \<in> set blocked. saved_ok s p \<and> blocking (status s p))"

lemma tasks_ok_upd: "cells_upd C s t \<Longrightarrow> tasks_ok t to ps = tasks_ok s to ps"
  by (simp add: tasks_ok_def cells_upd_task cells_upd_kcell)

lemma tasks_ok_subset:
  "tasks_ok s to ps \<Longrightarrow> distinct qs \<Longrightarrow> set qs \<subseteq> set ps \<Longrightarrow> tasks_ok s to qs"
  by (auto simp: tasks_ok_def)

lemma tasks_ok_task: "tasks_ok s to ps \<Longrightarrow> p \<in> set ps \<Longrightarrow> task s p"
  by (simp add: tasks_ok_def)

lemma task_page: "task s p \<Longrightarrow> p AND 0xfff = 0"
  by (simp add: task_def)

text \<open>Which cells of threads lie in a queue, and which are apart from the globals.\<close>

lemma task_cell_global:
  assumes "tasks_ok s to ps" "p \<in> set ps" "i < 0x1000"
  shows "p + i \<notin> sched_globals to"
  using assms page_cell(1) [of p i] by (auto simp: tasks_ok_def task_def)

lemma tag_cells:
  assumes "tasks_ok s to ps" "p \<in> set ps" "i < 0x1000" "set qs \<subseteq> set ps"
    and l: "p + i \<notin> list_cells l []" and k: "k < 0xffc"
  shows "p + i \<in> list_cells l (map (\<lambda>q. q + k) qs) \<longleftrightarrow> p \<in> set qs \<and> (i = k \<or> i = k + 4)"
proof -
  have "p + i = q + k \<longleftrightarrow> p = q \<and> i = k" "p + i = q + k + 4 \<longleftrightarrow> p = q \<and> i = k + 4" if "q \<in> set qs" for q
  proof -
    have pq: "p AND 0xfff = 0" "q AND 0xfff = 0"
      using assms that tasks_ok_task task_page by blast+
    have u: "unat (k + 4) = unat k + 4" using k by (simp add: word_less_nat_alt unat_word_ariths)
    have k1: "k < 0x1000" and k2: "k + 4 < 0x1000" using k u by (simp_all add: word_less_nat_alt)
    show "p + i = q + k \<longleftrightarrow> p = q \<and> i = k" by (rule page_cell_eq [OF pq assms(3) k1])
    show "p + i = q + k + 4 \<longleftrightarrow> p = q \<and> i = k + 4"
      using page_cell_eq [OF pq assms(3) k2] by (simp only: add.assoc)
  qed
  with l show ?thesis unfolding list_cells_iff by auto
qed

lemma global_heads:
  "list_cells (thread_ready_list to) [] \<subseteq> sched_globals to" "list_cells (thread_all_list to) [] \<subseteq> sched_globals to"
  by (auto simp: sched_globals_eq)

lemma tags_eq: "map general_tag qs = map (\<lambda>q. q + 32) qs" "map all_list_tag qs = map (\<lambda>q. q + 40) qs"
  by (simp_all add: general_tag_def all_list_tag_def)

lemma queue_cells:
  assumes "tasks_ok s to ps" "p \<in> set ps" "i < 0x1000" "set qs \<subseteq> set ps"
  shows "p + i \<in> list_cells (thread_ready_list to) (map general_tag qs) \<longleftrightarrow> p \<in> set qs \<and> (i = 32 \<or> i = 36)"
  using tag_cells [OF assms, of _ 32] task_cell_global [OF assms(1-3)] global_heads(1) unfolding tags_eq by (simp add: subset_iff) blast

lemma all_cells:
  assumes "tasks_ok s to ps" "p \<in> set ps" "i < 0x1000" "set qs \<subseteq> set ps"
  shows "p + i \<in> list_cells (thread_all_list to) (map all_list_tag qs) \<longleftrightarrow> p \<in> set qs \<and> (i = 40 \<or> i = 44)"
  using tag_cells [OF assms, of _ 40] task_cell_global [OF assms(1-3)] global_heads(2) unfolding tags_eq by (simp add: subset_iff) blast

lemma tag_free:
  assumes "tasks_ok s to (p # ps)" "set qs \<subseteq> set ps"
  shows "klist_free s (thread_ready_list to) (map general_tag qs) (general_tag p)"
proof -
  let ?C = "list_cells (thread_ready_list to) (map general_tag qs)"
  have p: "p \<notin> set qs" using assms by (auto simp: tasks_ok_def)
  have t: "task s p" using assms(1) by (simp add: tasks_ok_def)
  have qs: "set qs \<subseteq> set (p # ps)" using assms(2) by auto
  have "p + 32 \<notin> ?C" "p + 36 \<notin> ?C"
    using queue_cells [OF assms(1) _ _ qs, of p 32] queue_cells [OF assms(1) _ _ qs, of p 36] p by simp_all
  moreover have "kcell s (p + 32)" "kcell s (p + 36)" by (rule task_cells(2) [OF t]; simp)+
  ultimately show ?thesis by (simp add: klist_free_def general_tag_def list_cells_def add.commute [of 36])
qed

lemma all_tag_free:
  assumes "tasks_ok s to (p # ps)" "set qs \<subseteq> set ps"
  shows "klist_free s (thread_all_list to) (map all_list_tag qs) (all_list_tag p)"
proof -
  let ?C = "list_cells (thread_all_list to) (map all_list_tag qs)"
  have p: "p \<notin> set qs" using assms by (auto simp: tasks_ok_def)
  have t: "task s p" using assms(1) by (simp add: tasks_ok_def)
  have qs: "set qs \<subseteq> set (p # ps)" using assms(2) by auto
  have "p + 40 \<notin> ?C" "p + 44 \<notin> ?C"
    using all_cells [OF assms(1) _ _ qs, of p 40] all_cells [OF assms(1) _ _ qs, of p 44] p by simp_all
  moreover have "kcell s (p + 40)" "kcell s (p + 44)" by (rule task_cells(2) [OF t]; simp)+
  ultimately show ?thesis by (simp add: klist_free_def all_list_tag_def list_cells_def add.commute [of 44])
qed

lemma list_cells_append: "list_cells l (xs @ [e]) = list_cells l xs \<union> {e, e + 4}"
  by (auto simp: list_cells_iff)

lemma klist_cells: "klist s l xs \<Longrightarrow> c \<in> list_cells l xs \<Longrightarrow> kcell s c"
  by (simp add: klist_def dlist_def list_cells_def)

lemma append_new_spec:
  assumes "klist s l xs" "klist_free s l xs e"
  shows "\<exists>t. append_new l e line fn cond s = Inr ((), t) \<and> klist t l (xs @ [e]) \<and> cells_upd (list_cells l (xs @ [e])) s t"
proof -
  have "e \<notin> set xs" using assms(2) by (auto simp: klist_free_def list_nodes_def set_node_cells)
  then have "list_find l e s = Inr (0, s)" using list_find_spec [OF assms(1)] by simp
  with list_append_spec [OF assms] list_cells_upd show ?thesis
    by (fastforce simp: append_new_def thread_assert_def comp_simps)
qed

lemma cells_upd_poke8: "kcell s c \<Longrightarrow> i < 4 \<Longrightarrow> cells_upd {c} s (poke8 (c + i) v s)"
  using kaddr_byte [of c i s] by (simp add: cells_upd_def upd_within_poke8 kcell_def in_bytes4)

lemma cells_upd_step: "cells_upd C s t \<Longrightarrow> kcell s c \<Longrightarrow> cells_upd (insert c C) s (poke32 c v t)"
  using cells_upd_trans [of C s t "{c}"] cells_upd_poke [of t c v] by (simp add: cells_upd_kcell Un_insert_right)

subsection \<open>The three stages of \<open>schedule\<close>\<close>

definition requeue :: "thread_objs \<Rightarrow> addr \<Rightarrow> u32 \<Rightarrow> ('z machine_scheme, unit) comp" where
  "requeue to cur st = when_do (st = status_code TASK_RUNNING)
     (cseq (append_new (thread_ready_list to) (general_tag cur) 110 ''schedule''
              ''!list_find(&thread_ready_list, &cur_thread->general_tag)'')
     (cbind (load8 (priority_field cur)) (\<lambda>prio.
      cseq (store8 (ticks_field cur) prio)
           (store32 (status_field cur) (status_code TASK_READY)))))"

definition requeued :: "'z machine_scheme \<Rightarrow> addr \<Rightarrow> addr list \<Rightarrow> addr list" where
  "requeued s cur ready = (if status s cur = status_code TASK_RUNNING then ready @ [cur] else ready)"

lemma requeue_spec:
  assumes t: "tasks_ok s to (cur # ps)" "set ready \<subseteq> set ps" and q: "klist s (thread_ready_list to) (map general_tag ready)"
  shows "\<exists>t. requeue to cur (status s cur) s = Inr ((), t) \<and>
    klist t (thread_ready_list to) (map general_tag (requeued s cur ready)) \<and>
    cells_upd (list_cells (thread_ready_list to) (map general_tag (requeued s cur ready)) \<union> {cur + 4, cur + 24}) s t \<and>
    status t cur = (if status s cur = status_code TASK_RUNNING then status_code TASK_READY else status s cur) \<and>
    (status s cur = status_code TASK_RUNNING \<longrightarrow> peek8 t (ticks_field cur) = peek8 s (priority_field cur))"
proof (cases "status s cur = status_code TASK_RUNNING")
  case False
  let ?l = "thread_ready_list to" and ?D = "list_cells (thread_ready_list to) (map general_tag ready) \<union> {cur + 4, cur + 24}"
  have tc: "task s cur" using t(1) by (simp add: tasks_ok_def)
  have "\<forall>d \<in> ?D. kcell s d"
    using klist_cells [OF q] task_cells(2) [OF tc, of 4] task_cells(2) [OF tc, of 24] by (simp add: ball_Un)
  then have "cells_upd ?D s s" using cells_upd_mono [OF cells_upd_refl] by blast
  with False q show ?thesis by (auto simp: requeue_def requeued_def comp_simps)
next
  case True
  let ?l = "thread_ready_list to"
  let ?C = "list_cells ?l (map general_tag (ready @ [cur]))"
  have tc: "task s cur" using t(1) by (simp add: tasks_ok_def)
  have fr: "klist_free s ?l (map general_tag ready) (general_tag cur)" by (rule tag_free [OF t])
  from append_new_spec [OF q fr] obtain s1 where
    s1: "append_new ?l (general_tag cur) 110 ''schedule'' ''!list_find(&thread_ready_list, &cur_thread->general_tag)'' s = Inr ((), s1)"
      "klist s1 ?l (map general_tag (ready @ [cur]))" "cells_upd ?C s s1" by fastforce
  note kc = cells_upd_kcell [OF s1(3)] and tk = cells_upd_task [OF s1(3)]
  have t1: "task s1 cur" using tc tk by simp
  let ?s2 = "poke8 (cur + 25) (peek8 s1 (cur + 24)) s1"
  let ?s3 = "poke32 (cur + 4) (status_code TASK_READY) ?s2"
  have k: "kcell s (cur + 4)" "kcell s (cur + 24)" "kaddr s1 (cur + 24)" "kaddr s1 (cur + 25)" "kcell s1 (cur + 4)" "kcell s1 (cur + 24)"
    using task_cells [OF tc, of 4] task_cells [OF tc, of 24] task_cells [OF t1, of 24] task_cells [OF t1, of 25] task_cells [OF t1, of 4]
    by simp_all
  have u2: "cells_upd {cur + 24} s1 ?s2" using cells_upd_poke8 [OF k(6), of 1] by (simp add: add.commute [of 25])
  have kc2: "kcell ?s2 = kcell s" using cells_upd_kcell [OF u2] kc by simp
  have run: "requeue to cur (status s cur) s = Inr ((), ?s3)"
    using True s1(1) k kc2
    by (simp add: requeue_def comp_simps priority_field_def ticks_field_def status_field_def load8_kaddr store8_kaddr store32_kcell)
  have u3: "cells_upd (?C \<union> {cur + 24}) s ?s2" using cells_upd_trans [OF s1(3) u2] .
  have u4: "cells_upd (insert (cur + 4) (?C \<union> {cur + 24})) s ?s3" by (rule cells_upd_step [OF u3 k(1)])
  have i: "set (ready @ [cur]) \<subseteq> set (cur # ps)" using t(2) by auto
  have "{cur + 4, cur + 24} \<inter> ?C = {}"
    using queue_cells [OF t(1) _ _ i, of cur 4] queue_cells [OF t(1) _ _ i, of cur 24] by simp
  then have d: "{cur + 4} \<inter> ?C = {}" "{cur + 24} \<inter> ?C = {}" by auto
  have k2: "klist ?s2 ?l (map general_tag (ready @ [cur]))" by (rule klist_other [OF u2 s1(2) d(2)])
  have k3: "klist ?s3 ?l (map general_tag (ready @ [cur]))"
    using klist_other [OF cells_upd_poke k2 d(1)] k(1) kc2 by simp
  have st: "status ?s3 cur = status_code TASK_READY"
    using k(1) by (simp add: status_def status_field_def peek32_poke32 kc2)
  have pr: "peek8 s1 (cur + 24) = peek8 s (cur + 24)"
    using cells_upd_other(2) [OF s1(3) k(2), of 0] d(2) by simp
  have n: "\<not> cur + 25 - (cur + 4) < 4" by simp
  have "peek8 ?s3 (ticks_field cur) = peek8 s (priority_field cur)"
    using k kc2 pr peek8_poke32 [of ?s2 "cur + 25" "cur + 4"] n
    by (simp add: ticks_field_def priority_field_def peek8_poke8 kaddr_poke8)
  moreover have "insert (cur + 4) (?C \<union> {cur + 24}) = ?C \<union> {cur + 4, cur + 24}" by auto
  ultimately show ?thesis using run k3 u4 st True by (auto simp: requeued_def)
qed

definition pick :: "thread_objs \<Rightarrow> ('z machine_scheme, addr) comp" where
  "pick to =
     cbind (list_empty (thread_ready_list to)) (\<lambda>e.
     cseq (thread_assert (e = 0) 117 ''schedule'' ''!list_empty(&thread_ready_list)'')
    (cseq (store32 (thread_tag to) NULL)
    (cbind (list_pop (thread_ready_list to)) (\<lambda>tag.
     cseq (store32 (thread_tag to) tag)
    (cbind (load32 (thread_tag to)) (\<lambda>tag'.
     cseq (store32 (status_field (tag_entry tag')) (status_code TASK_RUNNING)) (ret (tag_entry tag'))))))))"

lemma schedule_stages:
  "schedule to ra = cbind intr_get_status (\<lambda>ist.
     cseq (thread_assert (ist = INTR_OFF) 105 ''schedule'' ''intr_get_status() == INTR_OFF'')
    (cbind running_thread (\<lambda>cur. cbind (load32 (status_field cur)) (\<lambda>st.
     cseq (requeue to cur st) (cbind (pick to) (\<lambda>nxt. call_switch_to ra cur nxt))))))"
  by (rule ext) (simp add: schedule_def requeue_def pick_def cseq_def cbind_def ret_def split: sum.splits)

lemma pick_spec:
  assumes t: "tasks_ok s to ps" "p \<in> set ps" "set qs \<subseteq> set ps"
    and q: "klist s (thread_ready_list to) (map general_tag (p # qs))"
  shows "\<exists>t. pick to s = Inr (p, t) \<and> klist t (thread_ready_list to) (map general_tag qs) \<and>
    cells_upd (list_cells (thread_ready_list to) (map general_tag qs) \<union> {thread_tag to, p + 4}) s t \<and>
    status t p = status_code TASK_RUNNING"
proof -
  let ?l = "thread_ready_list to" and ?tt = "thread_tag to" and ?C = "list_cells (thread_ready_list to) (map general_tag qs)"
  have kt: "kcell s ?tt" by (rule tasks_ok_tag(1) [OF t(1)])
  have tp: "task s p" by (rule tasks_ok_task [OF t(1,2)])
  have tg: "?tt \<notin> list_cells ?l (map general_tag rs)" if "set rs \<subseteq> set ps" for rs
  proof -
    have "?tt \<noteq> general_tag r \<and> ?tt \<noteq> general_tag r + 4" if "r \<in> set rs" for r
    proof -
      have r: "r \<in> set ps" using that \<open>set rs \<subseteq> set ps\<close> by blast
      show ?thesis
        using task_cell_global [OF t(1) r, of 32] task_cell_global [OF t(1) r, of 36]
        by (auto simp: sched_globals_eq general_tag_def add.commute [of 36])
    qed
    moreover have "?tt \<notin> list_cells ?l []" by (rule tasks_ok_tag(2) [OF t(1)])
    ultimately show ?thesis by (auto simp: list_cells_iff)
  qed
  let ?s1 = "poke32 ?tt NULL s"
  have u1: "cells_upd {?tt} s ?s1" by (rule cells_upd_poke [OF kt])
  have sub: "set (p # qs) \<subseteq> set ps" using t(2,3) by auto
  have q1: "klist ?s1 ?l (general_tag p # map general_tag qs)"
    using klist_other [OF u1 q] tg [OF sub] by simp
  from list_pop_spec [OF q1] obtain s2 where
    s2: "list_pop ?l ?s1 = Inr (general_tag p, s2)" "klist s2 ?l (map general_tag qs)" "upd_within (list_bytes ?l (map general_tag qs)) ?s1 s2"
    by blast
  have u2: "cells_upd ?C ?s1 s2" by (rule list_cells_upd [OF s2(3,2)])
  have kc2: "kcell s2 = kcell s" using cells_upd_kcell [OF u1] cells_upd_kcell [OF u2] by simp
  let ?s3 = "poke32 ?tt (general_tag p) s2" and ?s4 = "poke32 (p + 4) (status_code TASK_RUNNING) (poke32 ?tt (general_tag p) s2)"
  have kp: "kcell s (p + 4)" by (rule task_cells(2) [OF tp]) simp_all
  have te: "tag_entry (general_tag p) = p" by (simp add: tag_entry_def general_tag_def)
  have ne: "list_empty ?l s = Inr (0, s)" using list_empty_spec [OF q] by simp
  have "pick to s = Inr (p, ?s4)"
    using ne kt kp kc2
    by (simp add: pick_def comp_simps thread_assert_def store32_kcell s2(1) load32_kcell kcell_poke32 peek32_poke32 te status_field_def)
  moreover have u12: "cells_upd ({?tt} \<union> ?C) s s2" by (rule cells_upd_trans [OF u1 u2])
  then have u4: "cells_upd (insert (p + 4) (insert ?tt ({?tt} \<union> ?C))) s ?s4"
    by (intro cells_upd_step kt kp)
  moreover have "insert (p + 4) (insert ?tt ({?tt} \<union> ?C)) = ?C \<union> {?tt, p + 4}" by auto
  moreover have "p + 4 \<notin> ?C" using queue_cells [OF t(1,2) _ t(3), of 4] by simp
  then have "klist ?s4 ?l (map general_tag qs)"
    using klist_other [OF cells_upd_poke [of ?s3 "p + 4"] klist_other [OF cells_upd_poke [of s2 ?tt] s2(2)]] kt kp kc2 tg [OF t(3)]
    by (simp add: kcell_poke32)
  moreover have "status ?s4 p = status_code TASK_RUNNING"
    using kt kp kc2 by (simp add: status_def status_field_def kcell_poke32 peek32_poke32)
  ultimately show ?thesis by metis
qed

subsection \<open>One call of \<open>schedule\<close>\<close>

lemma frame_cells_page:
  assumes "task s p" "esp_ok s p"
  shows "c \<in> frame_cells (esp s) \<Longrightarrow> \<exists>i. c = p + i \<and> 64 \<le> i \<and> i < 0x1000 \<and> aligned4 i"
proof -
  define e where "e = esp s - p"
  have e: "esp s = p + e" "aligned4 e" "92 \<le> unat e" "unat e < 4096"
    using assms(2) by (simp_all add: e_def esp_ok_def Let_def word_le_nat_alt word_less_nat_alt)
  have i: "\<exists>i. p + e - d = p + i \<and> 64 \<le> i \<and> i < 0x1000 \<and> aligned4 i" if "unat d \<le> 28" "aligned4 d" for d
  proof -
    have le: "d \<le> e" using that(1) e(3) by (simp add: word_le_nat_alt)
    have u: "unat (e - d) = unat e - unat d" by (rule unat_sub [OF le])
    have "64 \<le> e - d" "e - d < 0x1000" using u that(1) e(3,4) by (simp_all add: word_le_nat_alt word_less_nat_alt)
    moreover have "aligned4 (e - d)"
    proof -
      have "aligned4 (e - d + d)" using e(2) by simp
      then show ?thesis using that(2) by (simp only: aligned4_add_iff)
    qed
    moreover have "p + e - d = p + (e - d)" by simp
    ultimately show ?thesis by blast
  qed
  show "c \<in> frame_cells (esp s) \<Longrightarrow> \<exists>i. c = p + i \<and> 64 \<le> i \<and> i < 0x1000 \<and> aligned4 i"
    unfolding frame_cells_def e(1) using i [of 28] i [of 24] i [of 20] i [of 16] i [of 12] i [of 8] i [of 4] by auto
qed

lemma saved_cells:
  assumes "task s p" "saved_ok s p" "i \<in> {0, 4, 8, 12, 16}"
  shows "\<exists>j. peek32 s p + i = p + j \<and> 64 \<le> j \<and> j < 0x1000 \<and> aligned4 j"
proof -
  define k where "k = peek32 s p - p"
  have k: "peek32 s p = p + k" "aligned4 k" "64 \<le> unat k" "unat k \<le> 4072"
    using assms(2) by (simp_all add: k_def saved_ok_def Let_def word_le_nat_alt)
  have i: "unat i \<le> 16" "aligned4 i" using assms(3) by auto
  have u: "unat (k + i) = unat k + unat i" using k(4) i(1) by (simp add: unat_word_ariths)
  have "64 \<le> k + i" "k + i < 0x1000" using u k(3,4) i(1) by (simp_all add: word_le_nat_alt word_less_nat_alt)
  moreover have "aligned4 (k + i)" using k(2) i(2) by simp
  moreover have "peek32 s p + i = p + (k + i)" by (simp add: k(1))
  ultimately show ?thesis by blast
qed

lemma cells_upd_regs:
  assumes "cells_upd C s t"
  shows "esp t = esp s" "ebp t = ebp s" "ebx t = ebx s" "edi t = edi s" "esi t = esi s" "eflags t = eflags s"
    "console t = console s" "ports_out t = ports_out s"
  using assms by (auto simp: cells_upd_def upd_within_def tables_same_def)

lemma push_frame_spec:
  assumes c: "\<forall>c \<in> frame_cells (esp s). kcell s c" and cur: "kcell s cur" "cur \<notin> frame_cells (esp s)"
  shows "cells_upd (insert cur (frame_cells (esp s))) s (push_frame ra cur nxt s)"
    "saved (push_frame ra cur nxt s) cur = current ra s" "peek32 (push_frame ra cur nxt s) cur = esp s - 28"
proof -
  obtain e where e: "esp s = e" by simp
  let ?u = "push_frame ra cur nxt s"
  have kc: "kcell s (e - 28)" "kcell s (e - 24)" "kcell s (e - 20)" "kcell s (e - 16)" "kcell s (e - 12)" "kcell s (e - 8)" "kcell s (e - 4)"
    and ne: "cur \<noteq> e - 28" "cur \<noteq> e - 24" "cur \<noteq> e - 20" "cur \<noteq> e - 16" "cur \<noteq> e - 12" "cur \<noteq> e - 8" "cur \<noteq> e - 4"
    using c cur(2) by (simp_all add: frame_cells_def e)
  have u: "?u = poke32 cur (e - 28) (poke32 (e - 28) (ebp s) (poke32 (e - 24) (ebx s) (poke32 (e - 20) (edi s) (poke32 (e - 16) (esi s)
    (poke32 (e - 12) ra (poke32 (e - 8) cur (poke32 (e - 4) nxt s)))))))"
    by (simp add: push_frame_def Let_def e)
  have "cells_upd {cur, e - 28, e - 24, e - 20, e - 16, e - 12, e - 8, e - 4} s ?u"
    unfolding u by (intro cells_upd_step cells_upd_refl kc cur(1))
  then show "cells_upd (insert cur (frame_cells (esp s))) s ?u" by (simp add: frame_cells_def e)
  show pk: "peek32 ?u cur = esp s - 28" using kc cur(1) by (simp add: u kcell_poke32 peek32_poke32 e)
  have d: "e - 28 + 4 = e - 24" "e - 28 + 8 = e - 20" "e - 28 + 12 = e - 16" "e - 28 + 16 = e - 12" "e - 28 + 20 = e - 8" by simp_all
  have "peek32 ?u (e - 28) = ebp s" "peek32 ?u (e - 24) = ebx s" "peek32 ?u (e - 20) = edi s" "peek32 ?u (e - 16) = esi s"
    "peek32 ?u (e - 12) = ra"
    using kc cur(1) ne ne [symmetric] by (simp_all add: u kcell_poke32 peek32_poke32)
  then show "saved ?u cur = current ra s"
    by (simp add: saved_def current_def Let_def pk [unfolded e] d e)
qed

lemma resume_mem [simp]:
  "kaddr (resume c u) = kaddr u" "kcell (resume c u) = kcell u" "peek8 (resume c u) = peek8 u" "peek32 (resume c u) = peek32 u"
  by (simp_all add: resume_def)

lemma resume_sched [simp]:
  "klist (resume c u) l xs = klist u l xs" "task (resume c u) = task u" "tasks_ok (resume c u) to ps = tasks_ok u to ps"
  "saved_ok (resume c u) = saved_ok u" "status (resume c u) = status u" "saved (resume c u) = saved u"
  "esp (resume c u) = c_sp c" "eip (resume c u) = c_eip c" "eflags (resume c u) = eflags u"
  by (simp_all add: klist_def task_def tasks_ok_def saved_ok_def status_def saved_def fun_eq_iff, simp_all add: resume_def)

text \<open>The cells \<open>schedule\<close> may write; \<open>q\<close> is the ready queue once the caller has joined it.\<close>

definition sched_cells :: "thread_objs \<Rightarrow> u32 \<Rightarrow> addr \<Rightarrow> addr list \<Rightarrow> addr \<Rightarrow> addr set" where
  "sched_cells to e cur q nxt = list_cells (thread_ready_list to) (map general_tag q) \<union>
     {thread_tag to, cur, cur + 4, cur + 24, nxt + 4} \<union> frame_cells e"

text \<open>Cells of other threads' control blocks and stacks are not among them.\<close>

lemma sched_cells_other:
  assumes t: "tasks_ok s to (cur # ps)" "set qs \<subseteq> set (cur # ps)" "nxt \<in> set (cur # ps)" and e: "esp_ok s cur"
    and p: "p \<in> set ps" "p \<noteq> cur" and j: "j < 0x1000" "j \<noteq> 32" "j \<noteq> 36" "j = 4 \<longrightarrow> p \<noteq> nxt"
  shows "p + j \<notin> sched_cells to (esp s) cur qs nxt"
proof -
  have pin: "p \<in> set (cur # ps)" using p by simp
  have tc: "task s cur" and tp: "task s p" and tn: "task s nxt" using t p by (simp_all add: tasks_ok_def) (auto simp: tasks_ok_def)
  have "p + j \<notin> list_cells (thread_ready_list to) (map general_tag qs)"
    using queue_cells [OF t(1) pin j(1) t(2)] j by simp
  moreover have "p + j \<noteq> thread_tag to" using task_cell_global [OF t(1) pin j(1)] by (auto simp: sched_globals_eq)
  moreover have c: "p + j \<noteq> cur + i" if "i < 0x1000" for i
    using page_cell_eq [OF task_page [OF tp] task_page [OF tc] j(1) that] p(2) by simp
  moreover have "p + j \<noteq> cur" using c [of 0] by simp
  moreover have "p + j \<noteq> nxt + 4" using page_cell_eq [OF task_page [OF tp] task_page [OF tn] j(1), of 4] j(4) by auto
  moreover have "p + j \<notin> frame_cells (esp s)" using frame_cells_page [OF tc e] c by metis
  ultimately show ?thesis unfolding sched_cells_def using c [of 4] c [of 24] by simp
qed

lemma cells_upd_fun:
  assumes "cells_upd C s t" "kcell s d" "d \<notin> C"
  shows "peek32 t d = peek32 s d"
  using cells_upd_other(1) [OF assms] .

lemma saved_other:
  assumes u: "cells_upd D s u" and t: "task s p" and k: "saved_ok s p"
    and d: "p \<notin> D" "\<forall>j. 64 \<le> j \<longrightarrow> j < 0x1000 \<longrightarrow> p + j \<notin> D"
  shows "saved u p = saved s p" "saved_ok u p"
proof -
  have a: "peek32 u p = peek32 s p" by (rule cells_upd_fun [OF u task_self [OF t] d(1)])
  have b: "peek32 u (peek32 s p + i) = peek32 s (peek32 s p + i)" if i: "i \<in> {0, 4, 8, 12, 16}" for i
  proof -
    obtain j where j: "peek32 s p + i = p + j" "64 \<le> j" "j < 0x1000" "aligned4 j" using saved_cells [OF t k i] by blast
    have "kcell s (p + j)" using task_cells(2) [OF t j(3,4)] .
    then show ?thesis unfolding j(1) using cells_upd_fun [OF u] d(2) j(2,3) by blast
  qed
  show "saved u p = saved s p" using b [of 0] b [of 4] b [of 8] b [of 12] b [of 16] by (simp add: saved_def Let_def a)
  show "saved_ok u p" using k by (simp add: saved_ok_def a)
qed

lemma running_current:
  assumes "task s p" "on_stack s p"
  shows "running_thread s = Inr (p, s)"
proof -
  have "esp s = p + (esp s - p)" "esp s - p < 0x1000" using assms(2) by (simp_all add: on_stack_def Let_def)
  then have "esp s AND 0xfffff000 = p" using page_cell(4) [OF task_page [OF assms(1)]] by metis
  then show ?thesis by (simp add: running_thread_def gets_def)
qed

lemma esp_ok_on_stack: "esp_ok s p \<Longrightarrow> on_stack s p"
  by (simp add: esp_ok_def on_stack_def Let_def word_le_nat_alt)

lemma pushed_saved_ok:
  assumes "esp_ok s p" "peek32 u p = esp s - 28"
  shows "saved_ok u p"
proof -
  define e where "e = esp s - p"
  have e: "aligned4 e" "92 \<le> unat e" "unat e < 4096"
    using assms(1) by (simp_all add: e_def esp_ok_def Let_def word_le_nat_alt word_less_nat_alt)
  have u: "unat (e - 28) = unat e - 28" using e(2) by (subst unat_sub) (simp_all add: word_le_nat_alt)
  have "aligned4 (e - 28)" using e(1) aligned4_add_iff [of 28 "e - 28"] by simp
  moreover have "peek32 u p - p = e - 28" by (simp add: assms(2) e_def)
  moreover have "64 \<le> unat (e - 28)" "unat (e - 28) \<le> 4072" unfolding u using e(2,3) by linarith+
  ultimately show ?thesis by (simp add: saved_ok_def Let_def word_le_nat_alt)
qed

lemma saved_on_stack: "saved_ok u p \<Longrightarrow> on_stack (resume (saved u p) u) p"
proof -
  assume a: "saved_ok u p"
  define k where "k = peek32 u p - p"
  have k: "aligned4 k" "64 \<le> unat k" "unat k \<le> 4072" using a by (simp_all add: k_def saved_ok_def Let_def word_le_nat_alt)
  have u: "unat (k + 20) = unat k + 20" using k(3) by (simp add: unat_word_ariths)
  have "c_sp (saved u p) - p = k + 20" by (simp add: saved_def Let_def k_def)
  then show ?thesis using u k by (simp add: on_stack_def Let_def word_le_nat_alt word_less_nat_alt)
qed

lemma list_cells_mono: "set xs \<subseteq> set ys \<Longrightarrow> list_cells l xs \<subseteq> list_cells l ys"
  by (rule subsetI) (unfold list_cells_iff, blast)

text \<open>The thread chosen, and what the first two stages change.\<close>

definition choose_next :: "thread_objs \<Rightarrow> addr \<Rightarrow> u32 \<Rightarrow> ('z machine_scheme, addr) comp" where
  "choose_next to cur st = cseq (requeue to cur st) (pick to)"

lemma requeued_subset: "requeued s cur ready = nxt # rest \<Longrightarrow> set (nxt # rest) \<subseteq> set (cur # ready)"
proof -
  have "set (requeued s cur ready) \<subseteq> set (cur # ready)" by (auto simp: requeued_def)
  then show "requeued s cur ready = nxt # rest \<Longrightarrow> set (nxt # rest) \<subseteq> set (cur # ready)" by simp
qed

lemma cell4_other:
  assumes t: "tasks_ok s to ps" and p: "p \<in> set ps" and q: "q \<in> set ps" "q \<noteq> p" and qs: "set qs \<subseteq> set ps"
  shows "p + 4 \<notin> list_cells (thread_ready_list to) (map general_tag qs) \<union> {thread_tag to, q + 4, q + 24}"
proof -
  have tp: "p AND 0xfff = 0" and tq: "q AND 0xfff = 0" using tasks_ok_task [OF t p] tasks_ok_task [OF t q(1)] by (simp_all add: task_def)
  have "p + 4 \<noteq> q + i" if "i < 0x1000" for i using page_cell_eq [OF tp tq _ that, of 4] q(2) by simp
  from this [of 4] this [of 24] show ?thesis
    using queue_cells [OF t p _ qs, of 4] task_cell_global [OF t p, of 4] by (simp add: sched_globals_eq)
qed

lemma choose_spec:
  assumes t: "tasks_ok s to (cur # ps)" "set ready \<subseteq> set ps" and q: "klist s (thread_ready_list to) (map general_tag ready)"
    and ne: "requeued s cur ready = nxt # rest"
  defines "was \<equiv> status s cur = status_code TASK_RUNNING"
  shows "\<exists>t. choose_next to cur (status s cur) s = Inr (nxt, t) \<and> klist t (thread_ready_list to) (map general_tag rest) \<and>
    cells_upd (list_cells (thread_ready_list to) (map general_tag (nxt # rest)) \<union> {thread_tag to, cur + 4, cur + 24, nxt + 4}) s t \<and>
    status t nxt = status_code TASK_RUNNING \<and>
    (\<forall>p \<in> set (cur # ps). p \<noteq> nxt \<longrightarrow> status t p = (if p = cur \<and> was then status_code TASK_READY else status s p)) \<and>
    (was \<longrightarrow> peek8 t (ticks_field cur) = peek8 s (priority_field cur))"
proof -
  let ?l = "thread_ready_list to" and ?q = "map general_tag"
  have sub: "set (nxt # rest) \<subseteq> set (cur # ready)" by (rule requeued_subset [OF ne])
  have set_r: "nxt \<in> set (cur # ps)" "set rest \<subseteq> set (cur # ps)" "set (nxt # rest) \<subseteq> set (cur # ps)"
    using sub t(2) by auto
  from requeue_spec [OF t q] obtain t1 where
    t1: "requeue to cur (status s cur) s = Inr ((), t1)" "klist t1 ?l (?q (nxt # rest))"
      "cells_upd (list_cells ?l (?q (nxt # rest)) \<union> {cur + 4, cur + 24}) s t1"
      "status t1 cur = (if was then status_code TASK_READY else status s cur)"
      "was \<longrightarrow> peek8 t1 (ticks_field cur) = peek8 s (priority_field cur)"
    unfolding ne was_def by blast
  have tk1: "tasks_ok t1 to (cur # ps)" using t(1) by (simp add: tasks_ok_upd [OF t1(3)])
  from pick_spec [OF tk1 set_r(1,2) t1(2)] obtain t2 where
    t2: "pick to t1 = Inr (nxt, t2)" "klist t2 ?l (?q rest)"
      "cells_upd (list_cells ?l (?q rest) \<union> {thread_tag to, nxt + 4}) t1 t2" "status t2 nxt = status_code TASK_RUNNING" by blast
  have "list_cells ?l (?q rest) \<subseteq> list_cells ?l (?q (nxt # rest))" by (intro list_cells_mono) auto
  then have e: "list_cells ?l (?q (nxt # rest)) \<union> {cur + 4, cur + 24} \<union> (list_cells ?l (?q rest) \<union> {thread_tag to, nxt + 4}) =
    list_cells ?l (?q (nxt # rest)) \<union> {thread_tag to, cur + 4, cur + 24, nxt + 4}" by blast
  have st: "status t2 p = (if p = cur \<and> was then status_code TASK_READY else status s p)" if p: "p \<in> set (cur # ps)" "p \<noteq> nxt" for p
  proof -
    have k: "kcell s (p + 4)" "kcell t1 (p + 4)" using task_cells(2) [OF tasks_ok_task [OF t(1) p(1)], of 4]
      task_cells(2) [OF tasks_ok_task [OF tk1 p(1)], of 4] by simp_all
    have "status t2 p = status t1 p"
      using cells_upd_other(1) [OF t2(3) k(2)] cell4_other [OF tk1 p(1) set_r(1) p(2) [symmetric] set_r(2)] by (simp add: status_def status_field_def)
    moreover have "status t1 p = status s p" if "p \<noteq> cur"
      using cells_upd_other(1) [OF t1(3) k(1)] cell4_other [OF t(1) p(1) _ that [symmetric] set_r(3)] by (simp add: status_def status_field_def)
    ultimately show ?thesis using t1(4) by (cases "p = cur") simp_all
  qed
  have "peek8 t2 (ticks_field cur) = peek8 t1 (ticks_field cur)"
  proof -
    have tc: "cur AND 0xfff = 0" and tn: "nxt AND 0xfff = 0"
      using tasks_ok_task [OF t(1)] tasks_ok_task [OF t(1) set_r(1)] by (simp_all add: task_def)
    have "cur + 24 \<notin> list_cells ?l (?q rest) \<union> {thread_tag to, nxt + 4}"
      using queue_cells [OF tk1 _ _ set_r(2), of cur 24] task_cell_global [OF tk1, of cur 24] page_cell_eq [OF tc tn, of 24 4]
      by (simp add: sched_globals_eq)
    with cells_upd_other(2) [OF t2(3) task_cells(2) [OF tasks_ok_task [OF tk1], of cur 24], of 1]
    show ?thesis by (simp add: ticks_field_def add.assoc)
  qed
  then show ?thesis
    using cells_upd_trans [OF t1(3) t2(3), unfolded e] t1(1,5) t2(1,2,4) st by (auto simp: choose_next_def cseq_def cbind_def)
qed

lemma schedule_choose:
  "schedule to ra = cbind intr_get_status (\<lambda>ist.
     cseq (thread_assert (ist = INTR_OFF) 105 ''schedule'' ''intr_get_status() == INTR_OFF'')
    (cbind running_thread (\<lambda>cur. cbind (load32 (status_field cur)) (\<lambda>st.
     cbind (choose_next to cur st) (\<lambda>nxt. call_switch_to ra cur nxt)))))"
  unfolding schedule_stages choose_next_def by (rule ext) (simp add: cseq_def cbind_def split: sum.splits)

text \<open>The frame of the switch lies on the running thread's stack, above its control block.\<close>

lemma frame_not_low: "task s p \<Longrightarrow> esp_ok s p \<Longrightarrow> j < 64 \<Longrightarrow> p + j \<notin> frame_cells (esp s)"
  using frame_cells_page [of s p "p + j"] by (metis add_left_imp_eq leD)

lemma frame_other:
  assumes "task s p" "task s cur" "esp_ok s cur" "j < 64" "p = cur \<longrightarrow> j \<noteq> 0"
  shows "p + j \<notin> insert cur (frame_cells (esp s))"
proof (cases "p = cur")
  case True
  then show ?thesis using frame_not_low [OF assms(2-4)] assms(5) by simp
next
  case False
  have j: "j < 0x1000" using assms(4) by (simp add: word_less_nat_alt)
  have n: "p + j \<noteq> cur + i" if "i < 0x1000" for i
    using page_cell_eq [OF task_page [OF assms(1)] task_page [OF assms(2)] j that] False by simp
  from n [of 0] show ?thesis using frame_cells_page [OF assms(2,3)] n by auto
qed

lemma sched_other_saved:
  assumes u: "cells_upd (sched_cells to (esp s) cur qs nxt) s u" and t: "tasks_ok s to (cur # ps)" "set qs \<subseteq> set (cur # ps)" "nxt \<in> set (cur # ps)"
    and e: "esp_ok s cur" and p: "p \<in> set ps" "saved_ok s p"
  shows "saved u p = saved s p" "saved_ok u p"
proof -
  have pc: "p \<noteq> cur" using t p(1) by (auto simp: tasks_ok_def)
  have tp: "task s p" using t p(1) by (simp add: tasks_ok_def)
  note so = sched_cells_other [OF t e p(1) pc]
  have d0: "p \<notin> sched_cells to (esp s) cur qs nxt" using so [of 0] by simp
  have d1: "\<forall>j. 64 \<le> j \<longrightarrow> j < 0x1000 \<longrightarrow> p + j \<notin> sched_cells to (esp s) cur qs nxt"
  proof (intro allI impI)
    fix j :: u32 assume j: "64 \<le> j" "j < 0x1000"
    then have "j \<noteq> 32" "j \<noteq> 36" "j \<noteq> 4" by auto
    then show "p + j \<notin> sched_cells to (esp s) cur qs nxt" using so [OF j(2)] by simp
  qed
  show "saved u p = saved s p" "saved_ok u p" by (rule saved_other [OF u tp p(2) d0 d1])+
qed

lemma requeued_tasks:
  assumes "distinct (cur # ready @ blocked)" "requeued s cur ready = nxt # rest"
  defines "bl \<equiv> if status s cur = status_code TASK_RUNNING then blocked else cur # blocked"
  shows "distinct (nxt # rest @ bl)" "set (nxt # rest @ bl) = set (cur # ready @ blocked)"
    "p \<in> set rest \<Longrightarrow> p \<in> set ready \<or> status s cur = status_code TASK_RUNNING \<and> p = cur"
proof -
  have e: "nxt # rest @ bl = ready @ cur # blocked"
    using assms(2) append_Cons [of nxt rest bl] by (auto simp: requeued_def bl_def split: if_splits)
  show "distinct (nxt # rest @ bl)" "set (nxt # rest @ bl) = set (cur # ready @ blocked)" unfolding e using assms(1) by auto
  have "set (nxt # rest) = set (requeued s cur ready)" using assms(2) by simp
  then show "p \<in> set rest \<Longrightarrow> p \<in> set ready \<or> status s cur = status_code TASK_RUNNING \<and> p = cur"
    by (auto simp: requeued_def split: if_splits)
qed

text \<open>The frame pushed by the call leaves status words, tick counts and the ready queue alone.\<close>

lemma pushed_low:
  assumes pf: "cells_upd (insert cur (frame_cells (esp t))) t u" and tc: "task t cur" and room: "esp_ok t cur" and tp: "task t p"
  shows "status u p = status t p" "peek8 u (ticks_field cur) = peek8 t (ticks_field cur)"
proof -
  have "p + 4 \<notin> insert cur (frame_cells (esp t))" "cur + 24 \<notin> insert cur (frame_cells (esp t))"
    using frame_other [OF tp tc room, of 4] frame_other [OF tc tc room, of 24] by simp_all
  then have "peek32 u (p + 4) = peek32 t (p + 4)" "peek8 u (cur + 24 + 1) = peek8 t (cur + 24 + 1)"
    using cells_upd_other(1) [OF pf task_cells(2) [OF tp, of 4]] cells_upd_other(2) [OF pf task_cells(2) [OF tc, of 24], of 1] by simp_all
  then show "status u p = status t p" "peek8 u (ticks_field cur) = peek8 t (ticks_field cur)"
    by (simp_all add: status_def status_field_def ticks_field_def add.assoc)
qed

lemma pushed_queue:
  assumes pf: "cells_upd (insert cur (frame_cells (esp s))) t u" and tk: "tasks_ok s to (cur # ps)" and room: "esp_ok s cur"
    and qs: "set qs \<subseteq> set (cur # ps)" and q: "klist t (thread_ready_list to) (map general_tag qs)"
  shows "klist u (thread_ready_list to) (map general_tag qs)"
proof (rule klist_other [OF pf q])
  have tc: "task s cur" using tk by (simp add: tasks_ok_def)
  have "c \<notin> list_cells (thread_ready_list to) (map general_tag qs)" if c: "c = cur \<or> c \<in> frame_cells (esp s)" for c
  proof -
    obtain i where i: "c = cur + i" "i = 0 \<or> 64 \<le> i" "i < 0x1000" using c frame_cells_page [OF tc room] by force
    have "i \<noteq> 32 \<and> i \<noteq> 36" using i(2) by auto
    then show ?thesis using queue_cells [OF tk _ i(3) qs, of cur] i(1) by simp
  qed
  then show "insert cur (frame_cells (esp s)) \<inter> list_cells (thread_ready_list to) (map general_tag qs) = {}" by auto
qed

text \<open>From the choice of \<open>nxt\<close> on, \<open>schedule\<close> only calls \<open>switch_to\<close>.\<close>

lemma schedule_switch:
  assumes tc: "task s cur" and room: "esp_ok s cur" and off: "intr_off s" and t: "choose_next to cur (status s cur) s = Inr (nxt, t)"
    and fr: "\<forall>c \<in> frame_cells (esp t). kcell t c" "kcell t cur" "cur \<notin> frame_cells (esp t)"
    and pf: "cells_upd C t (push_frame ra cur nxt t)" and n: "task t nxt" "saved_ok (push_frame ra cur nxt t) nxt"
  shows "schedule to ra s = Inr ((), resume (saved (push_frame ra cur nxt t) nxt) (push_frame ra cur nxt t))"
proof -
  note kc = cells_upd_kcell [OF pf]
  have tn: "task (push_frame ra cur nxt t) nxt" using n(1) by (simp add: cells_upd_task [OF pf])
  have kn: "kcell t nxt" by (rule task_self [OF n(1)])
  have "\<forall>i \<in> {0, 4, 8, 12, 16}. kcell t (peek32 (push_frame ra cur nxt t) nxt + i)"
    using saved_cells [OF tn n(2)] task_cells(2) [OF n(1)] by metis
  note sw = call_switch_to_spec [OF fr kn this]
  have ld: "load32 (status_field cur) s = Inr (status s cur, s)"
    using task_cells(2) [OF tc, of 4] by (simp add: status_def status_field_def load32_kcell)
  show ?thesis
    by (simp add: schedule_choose cseq_def cbind_def intr_off_status [OF off] thread_assert_def assert_or_def
      running_current [OF tc esp_ok_on_stack [OF room]] ld t sw)
qed

lemma resumed_inv:
  assumes tk: "tasks_ok s to (nxt # rest @ bl)" and u: "cells_upd D s u" and q: "klist u (thread_ready_list to) (map general_tag rest)"
    and ok: "\<forall>p \<in> set (nxt # rest @ bl). saved_ok u p" and st: "\<forall>p \<in> set rest. status u p = status_code TASK_READY"
    "\<forall>p \<in> set bl. blocking (status u p)"
  shows "sched_inv (resume (saved u nxt) u) to nxt rest bl"
  unfolding sched_inv_def resume_sched tasks_ok_upd [OF u] using tk q ok st saved_on_stack [of u nxt] by simp

lemma schedule_spec:
  assumes inv: "sched_inv s to cur ready blocked" and room: "esp_ok s cur" and off: "intr_off s"
    and st: "status s cur = status_code TASK_RUNNING \<or> blocking (status s cur)" and ne: "requeued s cur ready = nxt # rest"
  defines "was \<equiv> status s cur = status_code TASK_RUNNING"
  shows "\<exists>u. schedule to ra s = Inr ((), resume (saved u nxt) u) \<and> cells_upd (sched_cells to (esp s) cur (nxt # rest) nxt) s u \<and>
    saved u cur = current ra s \<and> (\<forall>p \<in> set (ready @ blocked). saved u p = saved s p) \<and>
    status u nxt = status_code TASK_RUNNING \<and> (was \<longrightarrow> peek8 u (ticks_field cur) = peek8 s (priority_field cur)) \<and>
    (\<not> was \<longrightarrow> status u cur = status s cur) \<and> sched_inv (resume (saved u nxt) u) to nxt rest (if was then blocked else cur # blocked)"
proof -
  let ?l = "thread_ready_list to" and ?ps = "ready @ blocked" and ?D = "sched_cells to (esp s) cur (nxt # rest) nxt"
  let ?q = "map general_tag" and ?bl = "if was then blocked else cur # blocked"
  have tk: "tasks_ok s to (cur # ?ps)" and q: "klist s ?l (?q ready)"
    and rd: "\<forall>p \<in> set ready. saved_ok s p \<and> status s p = status_code TASK_READY"
    and bd: "\<forall>p \<in> set blocked. saved_ok s p \<and> blocking (status s p)"
    using inv by (simp_all add: sched_inv_def)
  have tc: "task s cur" and dist: "distinct (cur # ?ps)" using tk by (simp_all add: tasks_ok_def)
  note perm = requeued_tasks [OF dist ne, folded was_def]
  have set_r: "set ready \<subseteq> set ?ps" "nxt \<in> set (cur # ?ps)" "set rest \<subseteq> set (cur # ?ps)" using perm(2) by auto
  from choose_spec [OF tk set_r(1) q ne] obtain t where
    t: "choose_next to cur (status s cur) s = Inr (nxt, t)" "klist t ?l (?q rest)"
      "cells_upd (list_cells ?l (?q (nxt # rest)) \<union> {thread_tag to, cur + 4, cur + 24, nxt + 4}) s t"
      "status t nxt = status_code TASK_RUNNING"
      "\<forall>p \<in> set (cur # ?ps). p \<noteq> nxt \<longrightarrow> status t p = (if p = cur \<and> was then status_code TASK_READY else status s p)"
      "was \<longrightarrow> peek8 t (ticks_field cur) = peek8 s (priority_field cur)" unfolding was_def by blast
  note kct = cells_upd_kcell [OF t(3)] and regs = cells_upd_regs [OF t(3)] and tst = cells_upd_task [OF t(3)]
  have roomt: "esp_ok t cur" using room by (simp add: esp_ok_def regs)
  have tct: "task t cur" using tc by (simp add: tst)
  have fr: "\<forall>c \<in> frame_cells (esp t). kcell t c" "cur \<notin> frame_cells (esp t)"
    using frame_cells_page [OF _ roomt] task_cells(2) [of t cur] frame_not_low [OF _ roomt, of 0] tc by (auto simp: tst)
  define u where "u = push_frame ra cur nxt t"
  note pf = push_frame_spec [OF fr(1) task_self [OF tct] fr(2), of ra nxt, folded u_def]
  have "list_cells ?l (?q (nxt # rest)) \<union> {thread_tag to, cur + 4, cur + 24, nxt + 4} \<union> insert cur (frame_cells (esp t)) = ?D"
    unfolding sched_cells_def regs by auto
  with cells_upd_trans [OF t(3) pf(1)] have u: "cells_upd ?D s u" by simp
  have qsub: "set (nxt # rest) \<subseteq> set (cur # ?ps)" using set_r(2,3) by simp
  note oth = sched_other_saved [OF u tk qsub set_r(2) room]
  have sv: "saved u p = saved s p" "saved_ok u p" if "p \<in> set ?ps" for p using oth [OF that] rd bd that by auto
  have ok: "\<forall>p \<in> set (cur # ?ps). saved_ok u p" using sv(2) pushed_saved_ok [OF roomt pf(3)] by auto
  have low: "status u p = status t p" "peek8 u (ticks_field cur) = peek8 t (ticks_field cur)" if p: "p \<in> set (cur # ?ps)" for p
    by (rule pushed_low [OF pf(1) tct roomt], use tasks_ok_task [OF tk p] in \<open>simp add: tst\<close>)+
  have stu: "status u p = (if p = cur \<and> was then status_code TASK_READY else status s p)" if "p \<in> set (rest @ ?bl)" for p
  proof -
    have p: "p \<in> set (cur # ?ps)" "p \<noteq> nxt" using that perm by auto
    have "status t p = (if p = cur \<and> was then status_code TASK_READY else status s p)" using t(5) p by blast
    then show ?thesis by (simp only: low(1) [OF p(1)])
  qed
  have "sched_inv (resume (saved u nxt) u) to nxt rest ?bl"
  proof (rule resumed_inv [OF _ u])
    show "tasks_ok s to (nxt # rest @ ?bl)" by (rule tasks_ok_subset [OF tk perm(1)]) (simp only: perm(2) subset_refl)
    show "klist u ?l (?q rest)" by (rule pushed_queue [OF pf(1) [unfolded regs] tk room set_r(3) t(2)])
    show "\<forall>p \<in> set (nxt # rest @ ?bl). saved_ok u p" using ok perm(2) by blast
    show "\<forall>p \<in> set rest. status u p = status_code TASK_READY"
    proof
      fix p assume p: "p \<in> set rest"
      show "status u p = status_code TASK_READY" using stu perm(3) [OF p] rd p by (auto simp: was_def)
    qed
    show "\<forall>p \<in> set ?bl. blocking (status u p)"
    proof
      fix p assume p: "p \<in> set ?bl"
      show "blocking (status u p)" using stu p bd st dist by (auto simp: was_def split: if_splits)
    qed
  qed
  moreover have "schedule to ra s = Inr ((), resume (saved u nxt) u)"
    unfolding u_def
  proof (rule schedule_switch [OF tc room off t(1) fr(1) task_self [OF tct] fr(2) pf(1) [unfolded u_def]])
    show "task t nxt" using tasks_ok_task [OF tk set_r(2)] by (simp add: tst)
    show "saved_ok (push_frame ra cur nxt t) nxt" using ok set_r(2) unfolding u_def by blast
  qed
  moreover have "saved u cur = current ra s" using pf(2) by (simp add: current_def regs)
  moreover have "status u nxt = status_code TASK_RUNNING" using low(1) [OF set_r(2)] t(4) by simp
  moreover have "was \<longrightarrow> peek8 u (ticks_field cur) = peek8 s (priority_field cur)" using low(2) [of cur] t(6) by simp
  moreover have "\<not> was \<longrightarrow> status u cur = status s cur" using stu [of cur] by simp
  ultimately show ?thesis using u sv(1) by blast
qed

subsection \<open>Blocking and unblocking\<close>

lemma sched_inv_task: "sched_inv s to cur ready blocked \<Longrightarrow> p \<in> set (cur # ready @ blocked) \<Longrightarrow> task s p"
  unfolding sched_inv_def using tasks_ok_task by blast

text \<open>The running thread's own status is not part of the invariant.\<close>

lemma sched_inv_status:
  assumes inv: "sched_inv s to cur ready blocked"
  shows "sched_inv (poke32 (status_field cur) v s) to cur ready blocked"
proof -
  let ?t = "poke32 (status_field cur) v s" and ?l = "thread_ready_list to"
  have tk: "tasks_ok s to (cur # ready @ blocked)" and q: "klist s ?l (map general_tag ready)" using inv by (simp_all add: sched_inv_def)
  have tc: "task s cur" using tk by (simp add: tasks_ok_def)
  have k: "kcell s (cur + 4)" using task_cells(2) [OF tc, of 4] by simp
  have u: "cells_upd {cur + 4} s ?t" using cells_upd_poke [OF k] by (simp add: status_field_def)
  have c: "cur \<in> set (cur # ready @ blocked)" by simp
  have qs: "set ready \<subseteq> set (cur # ready @ blocked)" by auto
  have kl: "klist ?t ?l (map general_tag ready)"
    by (rule klist_other [OF u q]) (use queue_cells [OF tk c _ qs, of 4] in simp)
  have other: "peek32 ?t p = peek32 s p \<and> status ?t p = status s p" if p: "p \<in> set (ready @ blocked)" for p
  proof -
    have tp: "task s p" and pc: "cur \<noteq> p" using tk p by (auto simp: tasks_ok_def)
    have "p + j \<notin> {cur + 4}" if "j < 0x1000" for j
      using page_cell_eq [OF task_page [OF tp] task_page [OF tc] that, of 4] pc by simp
    from this [of 0] this [of 4] show ?thesis
      using cells_upd_other(1) [OF u task_self [OF tp]] cells_upd_other(1) [OF u task_cells(2) [OF tp, of 4]]
      by (simp add: status_def status_field_def)
  qed
  have "on_stack ?t cur" using inv by (simp add: sched_inv_def on_stack_def)
  then show ?thesis
    using inv other kl unfolding sched_inv_def tasks_ok_upd [OF u] saved_ok_def by simp
qed

lemma irq_off_sched [simp]:
  "klist (irq_off s) l xs = klist s l xs" "task (irq_off s) = task s" "tasks_ok (irq_off s) to ps = tasks_ok s to ps"
  "saved_ok (irq_off s) = saved_ok s" "status (irq_off s) = status s" "esp (irq_off s) = esp s"
  "sched_inv (irq_off s) to c r b = sched_inv s to c r b" "esp_ok (irq_off s) = esp_ok s" "current ra (irq_off s) = current ra s"
proof -
  show a: "klist (irq_off s) l xs = klist s l xs" "task (irq_off s) = task s" "tasks_ok (irq_off s) to ps = tasks_ok s to ps"
    "saved_ok (irq_off s) = saved_ok s" "status (irq_off s) = status s" "esp (irq_off s) = esp s" for l xs ps
    by (simp_all add: klist_def task_def tasks_ok_def saved_ok_def status_def fun_eq_iff) (simp add: irq_off_def)
  show "sched_inv (irq_off s) to c r b = sched_inv s to c r b" "esp_ok (irq_off s) = esp_ok s"
    by (simp_all add: sched_inv_def a on_stack_def esp_ok_def fun_eq_iff)
  show "current ra (irq_off s) = current ra s" by (simp add: current_def irq_off_def)
qed

lemma blocking_not_running: "blocking (status_code st) \<Longrightarrow> status_code st \<noteq> status_code TASK_RUNNING"
  by (cases st) (auto simp: blocking_def)

lemma thread_block_spec:
  assumes inv: "sched_inv s to cur (nxt # ready) blocked" and room: "esp_ok s cur" and b: "blocking (status_code st)"
  shows "\<exists>u. thread_block to ra st s = Inr (intr_status_of (eflags s), resume (saved u nxt) u) \<and>
    sched_inv (resume (saved u nxt) u) to nxt ready (cur # blocked) \<and> (\<forall>p \<in> set (nxt # ready @ blocked). saved u p = saved s p) \<and>
    saved u cur = current ra s \<and> status u nxt = status_code TASK_RUNNING \<and> status u cur = status_code st \<and> intr_off u \<and>
    cells_upd (sched_cells to (esp s) cur (nxt # ready) nxt) (irq_off s) u"
proof -
  let ?s0 = "irq_off s"
  let ?s1 = "poke32 (status_field cur) (status_code st) ?s0"
  have tc: "task s cur" by (rule sched_inv_task [OF inv]) simp
  have k: "kcell s (cur + 4)" using task_cells(2) [OF tc, of 4] by simp
  have inv1: "sched_inv ?s1 to cur (nxt # ready) blocked" using inv by (intro sched_inv_status) simp
  have room1: "esp_ok ?s1 cur" using room by (simp add: esp_ok_def irq_off_def)
  have off1: "intr_off ?s1" by (simp add: intr_off_def irq_off_def flag_off)
  have st1: "status ?s1 cur = status_code st" using k by (simp add: status_def status_field_def peek32_poke32)
  have nr: "status ?s1 cur \<noteq> status_code TASK_RUNNING" unfolding st1 by (rule blocking_not_running [OF b])
  have rq: "requeued ?s1 cur (nxt # ready) = nxt # ready" using nr by (simp add: requeued_def)
  have stb: "status ?s1 cur = status_code TASK_RUNNING \<or> blocking (status ?s1 cur)" using b unfolding st1 by blast
  from schedule_spec [OF inv1 room1 off1 stb rq, of ra] nr obtain u where
    u: "schedule to ra ?s1 = Inr ((), resume (saved u nxt) u)" "cells_upd (sched_cells to (esp ?s1) cur (nxt # ready) nxt) ?s1 u"
      "saved u cur = current ra ?s1" "\<forall>p \<in> set ((nxt # ready) @ blocked). saved u p = saved ?s1 p"
      "status u nxt = status_code TASK_RUNNING" "sched_inv (resume (saved u nxt) u) to nxt ready (cur # blocked)"
      "status u cur = status ?s1 cur"
    by (simp only: if_False simp_thms) blast
  have u1: "cells_upd {cur + 4} ?s0 ?s1" using cells_upd_poke [of ?s0 "cur + 4"] k by (simp add: status_field_def)
  have D: "cells_upd (sched_cells to (esp s) cur (nxt # ready) nxt) ?s0 u"
  proof -
    have "cells_upd ({cur + 4} \<union> sched_cells to (esp s) cur (nxt # ready) nxt) ?s0 u" using cells_upd_trans [OF u1 u(2)] by simp
    moreover have "{cur + 4} \<union> sched_cells to (esp s) cur (nxt # ready) nxt = sched_cells to (esp s) cur (nxt # ready) nxt"
      by (auto simp: sched_cells_def)
    ultimately show ?thesis by simp
  qed
  have sn: "\<forall>p \<in> set (nxt # ready @ blocked). saved u p = saved s p"
  proof
    fix p assume p: "p \<in> set (nxt # ready @ blocked)"
    have i: "sched_inv ?s0 to cur (nxt # ready) blocked" using inv by simp
    have tp: "task ?s0 p" by (rule sched_inv_task [OF i]) (use p in simp)
    have ne: "p \<noteq> cur" using inv p by (auto simp: sched_inv_def tasks_ok_def)
    have d: "p + j \<notin> {cur + 4}" if "j < 0x1000" for j
      using page_cell_eq [OF task_page [OF tp] _ that, of cur 4] tc ne by (simp add: task_def)
    have ok: "saved_ok ?s0 p" using i p by (auto simp: sched_inv_def)
    have "saved ?s1 p = saved ?s0 p"
      by (rule saved_other(1) [OF u1 tp ok]) (use d [of 0] d in auto)
    moreover have "saved ?s0 p = saved s p" unfolding saved_def irq_off_mem ..
    moreover have "saved u p = saved ?s1 p" using u(4) p by auto
    ultimately show "saved u p = saved s p" by simp
  qed
  have off: "intr_off u" using off1 cells_upd_regs(6) [OF u(2)] by (simp add: intr_off_def)
  have run: "running_thread ?s0 = Inr (cur, ?s0)"
    by (rule running_current) (use tc esp_ok_on_stack [OF room] in \<open>simp_all add: on_stack_def\<close>)
  have "thread_block to ra st s = Inr (intr_status_of (eflags s), resume (saved u nxt) u)"
    using b run k u(1)
    by (simp add: thread_block_def thread_assert_def comp_simps intr_disable_eq store32_kcell status_field_def)
  moreover have "saved u cur = current ra s" using u(3) by (simp add: current_def irq_off_def)
  ultimately show ?thesis using u(5,6,7) sn D off st1 by metis
qed

lemma on_stack_regs: "esp t = esp s \<Longrightarrow> on_stack t = on_stack s"
  by (simp add: on_stack_def fun_eq_iff)

lemma upd_within_irq:
  assumes "upd_within B (irq_off s) (irq_off t)" "eflags t = eflags s"
  shows "upd_within B s t"
proof -
  from assms(1) obtain m where m: "irq_off t = (irq_off s)\<lparr>pmem := m\<rparr>" "tables_kept (irq_off s) m"
    by (auto simp: upd_within_def tables_same_def)
  have "t = (irq_off t)\<lparr>eflags := eflags s\<rparr>" by (simp add: irq_off_def assms(2) [symmetric])
  also have "\<dots> = s\<lparr>pmem := m\<rparr>" by (simp add: m(1)) (simp add: irq_off_def)
  finally have e: "t = s\<lparr>pmem := m\<rparr>" .
  have "table_frame (irq_off s) = table_frame s"
    by (rule ext) (simp add: table_frame_def pd_entry_addr_def irq_off_def)
  then have "tables_kept s m" using m(2) by (simp add: tables_kept_def) (simp add: irq_off_def)
  with e have "tables_same s t" unfolding tables_same_def by blast
  moreover have "translate (irq_off x) = translate x" for x :: "'a machine_scheme" by (simp add: irq_off_def)
  ultimately show ?thesis using assms(1) by (simp add: upd_within_def)
qed

lemma cells_upd_irq: "cells_upd C (irq_off s) (irq_off t) \<Longrightarrow> eflags t = eflags s \<Longrightarrow> cells_upd C s t"
  by (simp add: cells_upd_def upd_within_irq)

text \<open>The blocked thread goes to the front of the ready queue and its status word is set.\<close>

definition ready_cells :: "thread_objs \<Rightarrow> addr \<Rightarrow> addr list \<Rightarrow> addr set" where
  "ready_cells to p ready = list_cells (thread_ready_list to) (map general_tag (p # ready)) \<union> {p + 4}"

lemma wake_queue_spec:
  assumes tk: "tasks_ok s to (p # ready)" and q: "klist s (thread_ready_list to) (map general_tag ready)"
  shows "\<exists>t. list_find (thread_ready_list to) (general_tag p) s = Inr (0, s) \<and> list_push (thread_ready_list to) (general_tag p) s = Inr ((), t) \<and>
    kcell t (p + 4) \<and> klist (poke32 (p + 4) st t) (thread_ready_list to) (map general_tag (p # ready)) \<and>
    cells_upd (ready_cells to p ready) s (poke32 (p + 4) st t)"
proof -
  let ?l = "thread_ready_list to" and ?C = "list_cells (thread_ready_list to) (map general_tag (p # ready))"
  have fr: "klist_free s ?l (map general_tag ready) (general_tag p)" by (rule tag_free [OF tk]) simp
  have nf: "list_find ?l (general_tag p) s = Inr (0, s)"
    using list_find_spec [OF q] fr by (auto simp: klist_free_def list_nodes_def set_node_cells)
  from list_push_spec [OF q fr] obtain t where
    t: "list_push ?l (general_tag p) s = Inr ((), t)" "klist t ?l (map general_tag (p # ready))"
      "upd_within (list_bytes ?l (map general_tag (p # ready))) s t" by auto
  have u: "cells_upd ?C s t" by (rule list_cells_upd [OF t(3,2)])
  have "task s p" by (rule tasks_ok_task [OF tk]) simp
  then have k: "kcell t (p + 4)" using task_cells(2) [of s p 4] cells_upd_kcell [OF u] by simp
  have pc: "p \<in> set (p # ready)" and sub: "set (p # ready) \<subseteq> set (p # ready)" by simp_all
  have "klist (poke32 (p + 4) st t) ?l (map general_tag (p # ready))"
    by (rule klist_other [OF cells_upd_poke [OF k] t(2)]) (use queue_cells [OF tk pc _ sub, of 4] in simp)
  moreover have "cells_upd (ready_cells to p ready) s (poke32 (p + 4) st t)"
    unfolding ready_cells_def using cells_upd_trans [OF u cells_upd_poke [OF k]] .
  ultimately show ?thesis using nf t(1) k by blast
qed

text \<open>What the other control blocks hold is kept, and the invariant follows for the queues after the move.\<close>

lemma wake_other:
  assumes tk: "tasks_ok s to ps" and u: "cells_upd (ready_cells to p ready) s t" and p: "p \<in> set ps" and r: "set ready \<subseteq> set ps"
    and x: "x \<in> set ps" and j: "j < 0x1000" "aligned4 j" "x \<noteq> p \<or> j \<noteq> 4" "j \<noteq> 32" "j \<noteq> 36"
  shows "peek32 t (x + j) = peek32 s (x + j)"
proof -
  have tx: "task s x" and tp: "task s p" using tasks_ok_task [OF tk] x p by blast+
  have "x + j \<notin> list_cells (thread_ready_list to) (map general_tag (p # ready))"
    using queue_cells [OF tk x j(1), of "p # ready"] p r j by auto
  moreover have "x + j \<noteq> p + 4" using page_cell_eq [OF task_page [OF tx] task_page [OF tp] j(1), of 4] j(3) by auto
  ultimately show ?thesis using cells_upd_other(1) [OF u, of "x + j"] task_cells(2) [OF tx j(1,2)] by (simp add: ready_cells_def)
qed

lemma woken_inv:
  assumes inv: "sched_inv s to cur ready blocked" and p: "p \<in> set blocked"
    and u: "cells_upd (ready_cells to p ready) s t" and q: "klist t (thread_ready_list to) (map general_tag (p # ready))"
    and st: "status t p = status_code TASK_READY"
  shows "sched_inv t to cur (p # ready) (remove1 p blocked)"
proof -
  have tk: "tasks_ok s to (cur # ready @ blocked)" and rd: "\<forall>x \<in> set ready. saved_ok s x \<and> status s x = status_code TASK_READY"
    and bd: "\<forall>x \<in> set blocked. saved_ok s x \<and> blocking (status s x)" and os: "on_stack s cur"
    using inv by (simp_all add: sched_inv_def)
  have dist: "distinct (cur # ready @ blocked)" using tk by (simp add: tasks_ok_def)
  have pin: "p \<in> set (cur # ready @ blocked)" and rin: "set ready \<subseteq> set (cur # ready @ blocked)" using p by auto
  note other = wake_other [OF tk u pin rin]
  have sv: "saved_ok t x = saved_ok s x" if "x \<in> set (cur # ready @ blocked)" for x
    using other [OF that, of 0] by (simp add: saved_ok_def)
  have so: "status t x = status s x" if "x \<in> set (cur # ready @ blocked)" "x \<noteq> p" for x
    using other [OF that(1), of 4] that(2) by (simp add: status_def status_field_def)
  have d: "set (remove1 p blocked) = set blocked - {p}" using dist by simp
  show ?thesis
    unfolding sched_inv_def tasks_ok_upd [OF u]
  proof (intro conjI ballI)
    show "tasks_ok s to (cur # (p # ready) @ remove1 p blocked)" by (rule tasks_ok_subset [OF tk]) (use dist p d in auto)
    show "klist t (thread_ready_list to) (map general_tag (p # ready))" by (rule q)
    show "on_stack t cur" using os on_stack_regs [OF cells_upd_regs(1) [OF u]] by simp
    fix x
    show "saved_ok t x" "status t x = status_code TASK_READY" if "x \<in> set (p # ready)"
      using that rd bd p sv [of x] st so [of x] by (cases "x = p"; auto)+
    show "saved_ok t x" "blocking (status t x)" if "x \<in> set (remove1 p blocked)"
      using that bd d sv [of x] so [of x] by auto
  qed
qed

lemma thread_unblock_spec:
  assumes inv: "sched_inv s to cur ready blocked" and p: "p \<in> set blocked"
  shows "\<exists>t. thread_unblock to p s = Inr ((), t) \<and> sched_inv t to cur (p # ready) (remove1 p blocked) \<and>
    cells_upd (list_cells (thread_ready_list to) (map general_tag (p # ready)) \<union> {p + 4}) s t"
proof -
  let ?s0 = "irq_off s"
  have inv0: "sched_inv ?s0 to cur ready blocked" using inv by simp
  have tk: "tasks_ok ?s0 to (cur # ready @ blocked)" and q: "klist ?s0 (thread_ready_list to) (map general_tag ready)"
    and b: "blocking (status s p)" using inv inv0 p by (simp_all add: sched_inv_def)
  have tp: "task s p" by (rule sched_inv_task [OF inv]) (use p in simp)
  have k: "kcell s (p + 4)" using task_cells(2) [OF tp, of 4] by simp
  have nr: "status s p \<noteq> status_code TASK_READY" using b by (auto simp: blocking_def)
  have tk': "tasks_ok ?s0 to (p # ready)" by (rule tasks_ok_subset [OF tk]) (use tk p in \<open>auto simp: tasks_ok_def\<close>)
  from wake_queue_spec [OF tk' q] obtain t1 where
    t1: "list_find (thread_ready_list to) (general_tag p) ?s0 = Inr (0, ?s0)"
      "list_push (thread_ready_list to) (general_tag p) ?s0 = Inr ((), t1)" "kcell t1 (p + 4)"
      "klist (poke32 (p + 4) (status_code TASK_READY) t1) (thread_ready_list to) (map general_tag (p # ready))"
      "cells_upd (ready_cells to p ready) ?s0 (poke32 (p + 4) (status_code TASK_READY) t1)" by blast
  let ?t2 = "poke32 (p + 4) (status_code TASK_READY) t1"
  define t where "t = ?t2\<lparr>eflags := eflags s\<rparr>"
  have t2e: "?t2 = irq_off t" using cells_upd_regs(6) [OF t1(5)] by (simp add: t_def irq_off_def)
  have run: "thread_unblock to p s = Inr ((), t)"
    using b nr t1(1-3) k intr_set_status_restores [of ?t2 s] cells_upd_regs(6) [OF t1(5)]
    by (simp add: thread_unblock_def comp_simps intr_disable_eq status_field_def [symmetric] load32_kcell thread_assert_def store32_kcell status_def [symmetric])
      (simp add: status_field_def load32_kcell store32_kcell t_def irq_off_def ret_def)
  have "status ?t2 p = status_code TASK_READY" using t1(3) by (simp add: status_def status_field_def peek32_poke32)
  from woken_inv [OF inv0 p t1(5,4) this] have "sched_inv t to cur (p # ready) (remove1 p blocked)" unfolding t2e by simp
  moreover have "cells_upd (ready_cells to p ready) s t"
    using t1(5) unfolding t2e by (rule cells_upd_irq) (simp add: t_def)
  ultimately show ?thesis using run by (auto simp: ready_cells_def)
qed

end
