(* ===== verification/ThreadStart.thy ===== *)
theory ThreadStart
  imports Thread
begin

unbundle bit_operations_syntax

section \<open>Creating threads, and what the thread module guarantees\<close>

text \<open>
  \<open>thread_init\<close> and \<open>thread_start\<close> against the invariants of the allocator and of the
  scheduler taken together, and the properties of the module: a switch hands a thread back
  exactly the context it was switched out with, \<open>schedule\<close> is round robin on the ready
  queue, every ready thread runs, a blocked one runs when it is unblocked.
\<close>

subsection \<open>Creating threads\<close>

lemma page_bytes_iff:
  fixes p :: addr
  assumes p: "p AND 0xfff = 0"
  shows "a \<in> page_bytes p \<longleftrightarrow> page_of a = page_of p"
proof
  assume "a \<in> page_bytes p"
  then obtain i where i: "i < 4096" "a = p + of_nat i" by (auto simp: page_bytes_def span_iff)
  have "(of_nat i :: u32) < 0x1000" using i(1) by (simp add: word_less_nat_alt unat_u32_of_nat)
  then show "page_of a = page_of p" using page_cell(1) [OF p] i(2) by simp
next
  assume a: "page_of a = page_of p"
  have "unat a div 4096 = unat p div 4096" using arg_cong [OF a, of unat] by (simp add: page_of_def unat_drop)
  moreover have "unat p mod 4096 = 0" using arg_cong [OF p, of unat] by (simp only: unat_and_fff) simp
  ultimately have u: "unat a = unat p + unat a mod 4096" by (metis add.right_neutral div_mult_mod_eq)
  have "of_nat (unat a) = (of_nat (unat p + unat a mod 4096) :: u32)" using u by (rule arg_cong)
  then have "a = p + of_nat (unat a mod 4096)" by simp
  moreover have "unat a mod 4096 < 4096" by simp
  ultimately show "a \<in> page_bytes p" unfolding page_bytes_def span_iff by blast
qed

lemma bytes4_page: "aligned4 c \<Longrightarrow> a \<in> bytes4 c \<Longrightarrow> page_of a = page_of c"
  using drop_aligned4_bytes [of c "a - c"] by (simp add: in_bytes4 page_of_def)

lemma bytes4_span: "bytes4 c = span c 4"
  by (auto simp: bytes4_def eval_nat_numeral add.assoc)

lemma page_spans_apart:
  assumes "i + n \<le> j \<or> j + m \<le> i" "i + n \<le> 4096" "j + m \<le> 4096"
  shows "span (p + of_nat i) n \<inter> span (p + of_nat j) m = {}"
proof -
  have False if "x < n" "y < m" "p + of_nat i + of_nat x = p + of_nat j + of_nat y" for x y
  proof -
    have "p + of_nat (i + x) = p + of_nat (j + y)" using that(3) by (simp add: add.assoc)
    then have "i + x = j + y" using that assms by (intro span_inj [of "i + x" "j + y" p]) simp_all
    then show False using that assms by linarith
  qed
  then show ?thesis by (auto simp: span_iff)
qed

lemma upd_step:
  "upd_within B s t \<Longrightarrow> kcell s a \<Longrightarrow> bytes4 a \<subseteq> B \<Longrightarrow> upd_within B s (poke32 a v t)"
  "upd_within B s t \<Longrightarrow> kaddr s b \<Longrightarrow> b \<in> B \<Longrightarrow> upd_within B s (poke8 b w t)"
  using upd_within_trans [OF _ upd_within_poke32, of B s t a] upd_within_trans [OF _ upd_within_poke8, of B s t b]
  by (simp_all add: upd_within_kcell upd_within_kaddr)

text \<open>The four cells and two bytes of a control block that \<open>init_thread\<close> sets, and its name.\<close>

definition pcb :: "'z machine_scheme \<Rightarrow> addr \<Rightarrow> u8 list \<Rightarrow> u32 \<Rightarrow> u8 \<Rightarrow> bool" where
  "pcb s p name st prio \<longleftrightarrow> cstr s (name_field p) name \<and> status s p = st \<and> peek8 s (priority_field p) = prio \<and>
     peek8 s (ticks_field p) = prio \<and> peek32 s (elaspsed_ticks p) = 0 \<and> peek32 s (pgdir p) = NULL \<and>
     peek32 s (stack_magic p) = 0x77777777"

lemma task_room: "task s p \<Longrightarrow> i + n \<le> 4096 \<Longrightarrow> room s (p + of_nat i) n"
  unfolding room_def
proof
  fix a assume t: "task s p" and n: "i + n \<le> 4096" and "a \<in> span (p + of_nat i) n"
  then obtain j where j: "j < n" "a = p + of_nat i + of_nat j" unfolding span_iff by blast
  then have "a = p + of_nat (i + j)" by (simp add: add.assoc)
  moreover have "(of_nat (i + j) :: u32) < 0x1000" using j(1) n by (simp add: word_less_nat_alt unat_u32_of_nat del: of_nat_add)
  ultimately show "kaddr s a" using task_cells(1) [OF t] by simp
qed

lemma task_not_0: "task s p \<Longrightarrow> p \<noteq> 0"
  using kaddr_not_0 by (auto simp: task_def)

lemma init_thread_spec:
  assumes t: "task s p" and name: "cstr s nm cs" "length cs \<le> 15" "span nm (Suc (length cs)) \<inter> page_bytes p = {}"
    and mt: "kcell s (main_thread to)" "page_of (main_thread to) \<noteq> page_of p"
  shows "\<exists>t. init_thread to p nm prio s = Inr ((), t) \<and> upd_within (page_bytes p) s t \<and> peek32 t p = p + 4096 \<and>
    pcb t p cs (status_code (if p = peek32 s (main_thread to) then TASK_RUNNING else TASK_READY)) (of_int prio)"
proof -
  note pg = page_bytes_iff [OF task_page [OF t]]
  have sub: "span (p + of_nat i) n \<subseteq> page_bytes p" if "i + n \<le> 4096" for i n
    using span_shift [of i n 4096 p] that by (simp add: page_bytes_def)
  have r0: "room s p 56" using task_room [OF t, of 0 56] by simp
  from memset_spec [OF r0 task_not_0 [OF t], of 0] obtain s1 where
    s1: "memset p 0 task_struct_size s = Inr ((), s1)" "upd_within (span p 56) s s1" by (auto simp: task_struct_size_def)
  have u1: "upd_within (page_bytes p) s s1" using upd_within_mono [OF s1(2)] sub [of 0 56] by simp
  have n1: "cstr s1 nm cs" by (rule upd_within_cstr [OF u1 name(3) name(1)])
  have r1: "room s1 (p + 8) (Suc (length cs))"
    using task_room [OF t, of 8 "Suc (length cs)"] name(2) unfolding upd_within_room [OF u1] by simp
  have sb8: "span (p + 8) (Suc (length cs)) \<subseteq> page_bytes p" using sub [of 8 "Suc (length cs)"] name(2) by simp
  from strcpy_spec [OF n1 r1] sb8 name(3) obtain s2 where
    s2: "strcpy (p + 8) nm s1 = Inr (p + 8, s2)" "cstr s2 (p + 8) cs" "upd_within (span (p + 8) (Suc (length cs))) s1 s2" by blast
  have u2: "upd_within (page_bytes p) s s2" by (rule upd_within_trans [OF u1 upd_within_mono [OF s2(3) sb8]])
  have k2: "kcell s2 = kcell s" "kaddr s2 = kaddr s" by (rule upd_within_kcell [OF u2], rule upd_within_kaddr [OF u2])
  have mn: "peek32 s2 (main_thread to) = peek32 s (main_thread to)"
  proof (rule upd_within_peek32 [OF u2 mt(1)])
    show "bytes4 (main_thread to) \<inter> page_bytes p = {}"
      using bytes4_page [of "main_thread to"] mt pg by (auto simp: kcell_def)
  qed
  have kc: "kcell s (p + 4)" "kcell s (p + 28)" "kcell s (p + 48)" "kcell s p" "kcell s (p + 52)" "kaddr s (p + 24)" "kaddr s (p + 25)"
    using task_cells [OF t, of 4] task_cells [OF t, of 28] task_cells [OF t, of 48] task_self [OF t] task_cells [OF t, of 52]
      task_cells [OF t, of 24] task_cells [OF t, of 25] by simp_all
  define st where "st = status_code (if p = peek32 s (main_thread to) then TASK_RUNNING else TASK_READY)"
  define w where "w = poke32 (p + 52) 0x77777777 (poke32 p (p + 4096) (poke32 (p + 48) NULL (poke32 (p + 28) 0
    (poke8 (p + 25) (of_int prio) (poke8 (p + 24) (of_int prio) (poke32 (p + 4) st s2))))))"
  have run: "init_thread to p nm prio s = Inr ((), w)"
    using kc mt(1) unfolding init_thread_def w_def
    by (simp add: comp_simps s1(1) s2(1) name_field_def mn st_def [symmetric] k2 mem_simps status_field_def priority_field_def
      ticks_field_def elaspsed_ticks_def pgdir_def self_kstack_def stack_magic_def PAGE_SIZE_def)
  have pk: "peek32 w p = p + 4096" "peek32 w (p + 4) = st" "peek8 w (p + 24) = of_int prio" "peek8 w (p + 25) = of_int prio"
    "peek32 w (p + 28) = 0" "peek32 w (p + 48) = NULL" "peek32 w (p + 52) = 0x77777777"
    unfolding w_def using kc by (simp_all add: k2 mem_simps)
  let ?B = "span p 8 \<union> span (p + 24) 32"
  have b4: "bytes4 (p + 4) \<subseteq> ?B" "bytes4 (p + 28) \<subseteq> ?B" "bytes4 (p + 48) \<subseteq> ?B" "bytes4 p \<subseteq> ?B"
    "bytes4 (p + 52) \<subseteq> ?B" "p + 24 \<in> ?B" "p + 25 \<in> ?B"
    unfolding bytes4_span using span_shift [of 4 4 8 p] span_shift [of 4 4 32 "p + 24"] span_shift [of 24 4 32 "p + 24"]
      span_mono [of 4 8 p] span_shift [of 28 4 32 "p + 24"] span_shift [of 1 1 32 "p + 24"] span_shift [of 0 1 32 "p + 24"]
    by (auto simp: add.assoc)
  have upd: "upd_within ?B s2 w"
    unfolding w_def using kc by (intro upd_step upd_within_refl b4) (simp_all add: k2)
  have sb: "?B \<subseteq> page_bytes p" using sub [of 0 8] sub [of 24 32] by simp
  have "span (p + 8) (Suc (length cs)) \<inter> ?B = {}"
    using page_spans_apart [of 8 "Suc (length cs)" 0 8 p] page_spans_apart [of 8 "Suc (length cs)" 24 32 p] name(2) by auto
  then have "cstr w (p + 8) cs" by (rule upd_within_cstr [OF upd _ s2(2)])
  then have "pcb w p cs st (of_int prio)"
    using pk by (simp add: pcb_def name_field_def status_def status_field_def priority_field_def ticks_field_def
      elaspsed_ticks_def pgdir_def stack_magic_def)
  moreover have "upd_within (page_bytes p) s w" by (rule upd_within_trans [OF u2 upd_within_mono [OF upd sb]])
  ultimately show ?thesis using run pk(1) unfolding st_def by blast
qed

lemma thread_create_spec:
  assumes t: "task s p" and k: "peek32 s p = p + 4096"
  shows "\<exists>t. thread_create ka p fn args s = Inr ((), t) \<and> cells_upd (insert p ((\<lambda>i. p + i) ` {3664, 3668, 3672, 3676, 3680, 3688, 3692})) s t \<and>
    saved t p = \<lparr>c_sp = p + 3684, c_ebp = 0, c_ebx = 0, c_edi = 0, c_esi = 0, c_eip = ka\<rparr> \<and>
    peek32 t (p + 3688) = fn \<and> peek32 t (p + 3692) = args \<and> peek32 t p = p + 3664"
proof -
  have kc: "kcell s p" "kcell s (p + 3664)" "kcell s (p + 3668)" "kcell s (p + 3672)" "kcell s (p + 3676)" "kcell s (p + 3680)"
    "kcell s (p + 3688)" "kcell s (p + 3692)"
    using task_self [OF t] task_cells(2) [OF t, of 3664] task_cells(2) [OF t, of 3668] task_cells(2) [OF t, of 3672]
      task_cells(2) [OF t, of 3676] task_cells(2) [OF t, of 3680] task_cells(2) [OF t, of 3688] task_cells(2) [OF t, of 3692]
    by simp_all
  define w where "w = poke32 (p + 3664) 0 (poke32 (p + 3668) 0 (poke32 (p + 3672) 0 (poke32 (p + 3676) 0
    (poke32 (p + 3692) args (poke32 (p + 3688) fn (poke32 (p + 3680) ka (poke32 p (p + 3664) (poke32 p (p + 3792) s))))))))"
  have run: "thread_create ka p fn args s = Inr ((), w)"
    using kc k unfolding thread_create_def kstack_sub_def w_def
    by (simp add: comp_simps self_kstack_def intr_stack_size_def thread_stack_size_def load32_kcell store32_kcell kcell_poke32 peek32_poke32 add.commute [of p])
  have "peek32 w p = p + 3664" "peek32 w (p + 3664) = 0" "peek32 w (p + 3668) = 0" "peek32 w (p + 3672) = 0" "peek32 w (p + 3676) = 0"
    "peek32 w (p + 3680) = ka" "peek32 w (p + 3688) = fn" "peek32 w (p + 3692) = args"
    unfolding w_def using kc by (simp_all add: kcell_poke32 peek32_poke32)
  moreover have "cells_upd {p + 3664, p + 3668, p + 3672, p + 3676, p + 3692, p + 3688, p + 3680, p, p} s w"
    unfolding w_def by (intro cells_upd_step cells_upd_refl kc)
  then have "cells_upd (insert p ((\<lambda>i. p + i) ` {3664, 3668, 3672, 3676, 3680, 3688, 3692})) s w"
    by (simp add: insert_commute)
  ultimately show ?thesis using run by (simp add: saved_def Let_def add.commute [of p])
qed

lemma klist_extends:
  assumes "extends_within B s t" "klist s l xs" "B \<inter> list_bytes l xs = {}"
  shows "klist t l xs"
proof -
  have c: "\<forall>c \<in> set (node_cells (list_nodes l xs)). kcell s c" using assms(2) by (simp add: klist_def dlist_def)
  have eq: "peek32 t x = peek32 s x" if "x \<in> set (node_cells (list_nodes l xs))" for x
    by (rule extends_peek32 [OF assms(1)]) (use c that assms(3) in \<open>auto simp: list_bytes_def\<close>)
  have "linked (peek32 t) (list_nodes l xs) = linked (peek32 s) (list_nodes l xs)"
    by (rule linked_cong, rule eq) (use link_cells_subset in blast)
  moreover have "l \<in> set (node_cells (list_nodes l xs))" "12 + l \<in> set (node_cells (list_nodes l xs))"
    by (simp_all add: list_nodes_def)
  ultimately show ?thesis
    using assms(2) eq c extends_kcell [OF assms(1)] by (simp add: klist_def dlist_def)
qed

text \<open>The bytes that the scheduler's structures and the threads' pages occupy.\<close>

definition thread_bytes :: "thread_objs \<Rightarrow> addr list \<Rightarrow> addr set" where
  "thread_bytes to ps = \<Union> (bytes4 ` sched_globals to) \<union> \<Union> (page_bytes ` set ps)"

lemma page_cell_bytes:
  assumes "task s p" "i < 0x1000" "aligned4 i"
  shows "bytes4 (p + i) \<subseteq> page_bytes p"
proof
  fix a assume "a \<in> bytes4 (p + i)"
  then have "page_of a = page_of (p + i)" using task_cells(2) [OF assms] by (intro bytes4_page) (simp_all add: kcell_def)
  also have "\<dots> = page_of p" by (rule page_cell(1) [OF task_page [OF assms(1)] assms(2)])
  finally show "a \<in> page_bytes p" using page_bytes_iff [OF task_page [OF assms(1)]] by simp
qed

lemma list_cells_split: "list_cells l xs = list_cells l [] \<union> (\<Union>x \<in> set xs. {x, x + 4})"
  by (auto simp: list_cells_iff)

lemma tag_bytes:
  assumes "tasks_ok s to ps" "set qs \<subseteq> set ps" "list_cells l [] \<subseteq> sched_globals to" "k < 0xffc" "aligned4 k"
  shows "list_bytes l (map (\<lambda>q. q + k) qs) \<subseteq> thread_bytes to ps"
proof -
  have u: "unat (k + 4) = unat k + 4" using assms(4) by (simp add: word_less_nat_alt unat_word_ariths)
  have k: "k < 0x1000" "k + 4 < 0x1000" using assms(4) u by (simp_all add: word_less_nat_alt)
  have "bytes4 (q + k) \<subseteq> page_bytes q \<and> bytes4 (q + (k + 4)) \<subseteq> page_bytes q" if "q \<in> set qs" for q
  proof -
    have tq: "task s q" using tasks_ok_task [OF assms(1)] that assms(2) by blast
    show ?thesis using page_cell_bytes [OF tq k(1)] page_cell_bytes [OF tq k(2)] assms(5) by simp
  qed
  then show ?thesis
    using assms(2,3) unfolding list_cells_bytes list_cells_split [of l "map _ _"] thread_bytes_def by (fastforce simp: add.assoc)
qed

lemma sched_inv_extends:
  assumes x: "extends_within B s t" and i: "sched_inv s to cur ready blocked" and d: "B \<inter> thread_bytes to (cur # ready @ blocked) = {}"
  shows "sched_inv t to cur ready blocked"
    "p \<in> set (cur # ready @ blocked) \<Longrightarrow> i < 0x1000 \<Longrightarrow> aligned4 i \<Longrightarrow> peek32 t (p + i) = peek32 s (p + i)"
proof -
  let ?ps = "cur # ready @ blocked"
  have tk: "tasks_ok s to ?ps" and q: "klist s (thread_ready_list to) (map general_tag ready)" using i by (simp_all add: sched_inv_def)
  have pk: "peek32 t (p + i) = peek32 s (p + i)" if p: "p \<in> set ?ps" "i < 0x1000" "aligned4 i" for p i
  proof (rule extends_peek32 [OF x])
    have tp: "task s p" by (rule tasks_ok_task [OF tk p(1)])
    show "kcell s (p + i)" by (rule task_cells(2) [OF tp p(2,3)])
    show "bytes4 (p + i) \<inter> B = {}" using page_cell_bytes [OF tp p(2,3)] d p(1) unfolding thread_bytes_def by blast
  qed
  from pk show "p \<in> set ?ps \<Longrightarrow> i < 0x1000 \<Longrightarrow> aligned4 i \<Longrightarrow> peek32 t (p + i) = peek32 s (p + i)" .
  have st: "saved_ok t p = saved_ok s p" "status t p = status s p" if "p \<in> set ?ps" for p
    using pk [OF that, of 0] pk [OF that, of 4] by (simp_all add: saved_ok_def status_def status_field_def)
  have "tasks_ok t to ?ps"
    using tk extends_kaddr [OF x] extends_kcell [OF x] unfolding tasks_ok_def task_def by blast
  moreover have "klist t (thread_ready_list to) (map general_tag ready)"
  proof (rule klist_extends [OF x q])
    have "list_bytes (thread_ready_list to) (map general_tag ready) \<subseteq> thread_bytes to ?ps"
      unfolding tags_eq by (rule tag_bytes [OF tk _ global_heads(1)]) auto
    then show "B \<inter> list_bytes (thread_ready_list to) (map general_tag ready) = {}" using d by blast
  qed
  moreover have "on_stack t cur" using i x by (auto simp: sched_inv_def extends_within_def on_stack_def)
  ultimately show "sched_inv t to cur ready blocked" using i st by (simp add: sched_inv_def)
qed

lemma pcb_other:
  assumes u: "cells_upd C s t" and tp: "task s p" and b: "pcb s p cs st prio" "length cs \<le> 15"
    and d: "\<forall>i \<in> {4, 8, 12, 16, 20, 24, 28, 48, 52}. p + i \<notin> C"
  shows "pcb t p cs st prio"
proof -
  have kc: "\<forall>i \<in> {4, 8, 12, 16, 20, 24, 28, 48, 52}. kcell s (p + i)"
    using task_cells(2) [OF tp] by simp
  note o = cells_upd_other [OF u]
  have dj: "bytes4 (p + i) \<inter> \<Union> (bytes4 ` C) = {}" if "i \<in> {8, 12, 16, 20}" for i
  proof -
    have "p + i \<notin> C" "kcell s (p + i)" using that kc d by auto
    then have "bytes4 (p + i) \<inter> bytes4 c = {}" if "c \<in> C" for c
      using u that by (intro bytes4_disjoint) (auto simp: cells_upd_def kcell_def)
    then show ?thesis by blast
  qed
  have "span (p + 8) 16 = bytes4 (p + 8) \<union> bytes4 (p + 12) \<union> bytes4 (p + 16) \<union> bytes4 (p + 20)"
    by (auto simp: bytes4_def eval_nat_numeral add.assoc)
  then have "span (p + 8) 16 \<inter> \<Union> (bytes4 ` C) = {}" using dj [of 8] dj [of 12] dj [of 16] dj [of 20] by blast
  moreover have "span (p + 8) (Suc (length cs)) \<subseteq> span (p + 8) 16" using b(2) by (intro span_mono) simp
  ultimately have "cstr t (p + 8) cs"
    using upd_within_cstr [OF cells_upd_upd [OF u], of "p + 8" cs] b(1) by (auto simp: pcb_def name_field_def)
  moreover have "peek32 t (p + i) = peek32 s (p + i)" if "i \<in> {4, 28, 48, 52}" for i using o(1) [of "p + i"] kc d that by blast
  from this [of 4] this [of 28] this [of 48] this [of 52]
  have "status t p = st" "peek32 t (p + 28) = 0" "peek32 t (p + 48) = NULL" "peek32 t (p + 52) = 0x77777777"
    using b(1) by (simp_all add: pcb_def status_def status_field_def elaspsed_ticks_def pgdir_def stack_magic_def)
  moreover have "peek8 t (p + 24) = peek8 s (p + 24)" "peek8 t (p + 25) = peek8 s (p + 25)"
    using o(2) [of "p + 24" 0] o(2) [of "p + 24" 1] kc d by (simp_all add: add.assoc)
  ultimately show ?thesis
    using b(1) by (simp add: pcb_def name_field_def elaspsed_ticks_def pgdir_def stack_magic_def priority_field_def ticks_field_def)
qed

lemma queues_apart:
  assumes t: "tasks_ok s to ps" "set qs \<subseteq> set ps" "set as \<subseteq> set ps"
  shows "list_cells (thread_ready_list to) (map general_tag qs) \<inter> list_cells (thread_all_list to) (map all_list_tag as) = {}"
proof -
  let ?R = "list_cells (thread_ready_list to)" and ?A = "list_cells (thread_all_list to)"
  have R: "?R (map general_tag qs) = ?R [] \<union> (\<Union>q \<in> set qs. {q + 32, q + 36})"
    unfolding list_cells_split [of _ "map _ _"] tags_eq by (simp add: add.assoc)
  have A: "?A (map all_list_tag as) = ?A [] \<union> (\<Union>q \<in> set as. {q + 40, q + 44})"
    unfolding list_cells_split [of _ "map _ _"] tags_eq by (simp add: add.assoc)
  have a: "?R [] \<inter> ?A [] = {}" using t(1) by (auto simp: tasks_ok_def global_cells_def list_cells_def)
  have b: "q + 40 \<notin> ?R [] \<and> q + 44 \<notin> ?R []" if "q \<in> set as" for q
    using task_cell_global [OF t(1), of q 40] task_cell_global [OF t(1), of q 44] that t(3) global_heads(1) [of to] by auto
  have c: "q + 32 \<notin> ?A (map all_list_tag as) \<and> q + 36 \<notin> ?A (map all_list_tag as)" if "q \<in> set qs" for q
    using all_cells [OF t(1) _ _ t(3), of q 32] all_cells [OF t(1) _ _ t(3), of q 36] that t(2) by (simp add: subset_iff)
  have "?R [] \<inter> ?A (map all_list_tag as) = {}" unfolding A using a b by fast
  then show ?thesis unfolding R using c by fast
qed

lemma enlist_spec:
  assumes t: "tasks_ok s to (p # ps)" "set ready \<subseteq> set ps" "set alls \<subseteq> set ps"
    and q: "klist s (thread_ready_list to) (map general_tag ready)" "klist s (thread_all_list to) (map all_list_tag alls)"
  shows "\<exists>t. cseq (append_new (thread_ready_list to) (general_tag p) n f c) (append_new (thread_all_list to) (all_list_tag p) n' f c') s = Inr ((), t) \<and>
    klist t (thread_ready_list to) (map general_tag (ready @ [p])) \<and> klist t (thread_all_list to) (map all_list_tag (alls @ [p])) \<and>
    cells_upd (list_cells (thread_ready_list to) (map general_tag (ready @ [p])) \<union>
      list_cells (thread_all_list to) (map all_list_tag (alls @ [p]))) s t"
proof -
  let ?R = "list_cells (thread_ready_list to) (map general_tag (ready @ [p]))"
    and ?A = "list_cells (thread_all_list to) (map all_list_tag (alls @ [p]))"
  have sub: "set (ready @ [p]) \<subseteq> set (p # ps)" "set alls \<subseteq> set (p # ps)" "set (alls @ [p]) \<subseteq> set (p # ps)" using t(2,3) by auto
  from append_new_spec [OF q(1) tag_free [OF t(1,2)]] obtain s1 where
    s1: "append_new (thread_ready_list to) (general_tag p) n f c s = Inr ((), s1)"
      "klist s1 (thread_ready_list to) (map general_tag (ready @ [p]))" "cells_upd ?R s s1" by fastforce
  have t1: "tasks_ok s1 to (p # ps)" using t(1) tasks_ok_upd [OF s1(3)] by simp
  have q1: "klist s1 (thread_all_list to) (map all_list_tag alls)"
    by (rule klist_other [OF s1(3) q(2) queues_apart [OF t(1) sub(1,2)]])
  from append_new_spec [OF q1 all_tag_free [OF t1 t(3)]] obtain s2 where
    s2: "append_new (thread_all_list to) (all_list_tag p) n' f c' s1 = Inr ((), s2)"
      "klist s2 (thread_all_list to) (map all_list_tag (alls @ [p]))" "cells_upd ?A s1 s2" by fastforce
  have "?A \<inter> ?R = {}" using queues_apart [OF t(1) sub(1,3)] by blast
  then have "klist s2 (thread_ready_list to) (map general_tag (ready @ [p]))" by (rule klist_other [OF s2(3) s1(2)])
  with s1(1) s2 cells_upd_trans [OF s1(3) s2(3)] show ?thesis by (auto simp: cseq_def cbind_def)
qed

text \<open>The allocator's and the scheduler's invariants together, and the list of all threads.\<close>

definition mem_bytes :: "mem_objs \<Rightarrow> mem_view \<Rightarrow> addr set" where
  "mem_bytes mo m = pool_cells mo \<union> kspan m \<union> vspan m"

definition kernel_inv ::
  "'z machine_scheme \<Rightarrow> mem_objs \<Rightarrow> mem_view \<Rightarrow> thread_objs \<Rightarrow> addr \<Rightarrow> addr list \<Rightarrow> addr list \<Rightarrow> addr list \<Rightarrow> bool" where
  "kernel_inv s mo m to cur ready blocked alls \<longleftrightarrow> mem_inv s mo m \<and> sched_inv s to cur ready blocked \<and>
     klist s (thread_all_list to) (map all_list_tag alls) \<and> set alls \<subseteq> set (cur # ready @ blocked) \<and>
     mem_bytes mo m \<inter> thread_bytes to (cur # ready @ blocked) = {}"

lemma thread_bytes_kaddr:
  assumes "tasks_ok s to ps" "a \<in> thread_bytes to ps"
  shows "kaddr s a"
proof -
  have "kaddr s a" if "a \<in> bytes4 g" "g \<in> sched_globals to" for g
    using that assms(1) kcell_bytes [of s g a] by (simp add: tasks_ok_def)
  moreover have "kaddr s a" if "a \<in> page_bytes p" "p \<in> set ps" for p
    using that tasks_ok_task [OF assms(1)] kaddr_page [of a p s] page_bytes_iff [of p a] by (auto simp: task_def)
  ultimately show ?thesis using assms(2) unfolding thread_bytes_def by blast
qed

text \<open>Enlisting a new thread in both queues keeps the invariant and every saved context.\<close>

lemma enlist_inv:
  assumes si: "sched_inv s to cur ready blocked" and al: "klist s (thread_all_list to) (map all_list_tag alls)"
    and as: "set alls \<subseteq> set (cur # ready @ blocked)" and tk: "tasks_ok s to (p # cur # ready @ blocked)"
    and ok: "saved_ok s p" "pcb s p cs (status_code TASK_READY) prio" "length cs \<le> 15"
  shows "\<exists>t. cseq (append_new (thread_ready_list to) (general_tag p) n f c) (append_new (thread_all_list to) (all_list_tag p) n' f c') s = Inr ((), t) \<and>
    sched_inv t to cur (ready @ [p]) blocked \<and> klist t (thread_all_list to) (map all_list_tag (alls @ [p])) \<and>
    (\<forall>x \<in> set (p # ready @ blocked). saved t x = saved s x) \<and> pcb t p cs (status_code TASK_READY) prio \<and>
    peek32 t (p + 3688) = peek32 s (p + 3688) \<and> peek32 t (p + 3692) = peek32 s (p + 3692) \<and>
    status t cur = status s cur \<and> upd_within (thread_bytes to (p # cur # ready @ blocked)) s t"
proof -
  let ?ps = "cur # ready @ blocked"
  let ?C = "list_cells (thread_ready_list to) (map general_tag (ready @ [p])) \<union> list_cells (thread_all_list to) (map all_list_tag (alls @ [p]))"
  have q: "klist s (thread_ready_list to) (map general_tag ready)" using si by (simp add: sched_inv_def)
  have rs: "set ready \<subseteq> set ?ps" by auto
  from enlist_spec [OF tk rs as q al, of n f c n' c'] obtain t where
    t: "cseq (append_new (thread_ready_list to) (general_tag p) n f c) (append_new (thread_all_list to) (all_list_tag p) n' f c') s = Inr ((), t)"
      "klist t (thread_ready_list to) (map general_tag (ready @ [p]))" "klist t (thread_all_list to) (map all_list_tag (alls @ [p]))"
      "cells_upd ?C s t" by blast
  have sub: "set (ready @ [p]) \<subseteq> set (p # ?ps)" "set (alls @ [p]) \<subseteq> set (p # ?ps)" using as by auto
  have nC: "x + i \<notin> ?C" if "x \<in> set (p # ?ps)" "i < 0x1000" "i \<notin> {32, 36, 40, 44}" for x i
    using queue_cells [OF tk that(1,2) sub(1)] all_cells [OF tk that(1,2) sub(2)] that(3) by simp
  have pk: "peek32 t (x + i) = peek32 s (x + i)" if "x \<in> set (p # ?ps)" "i < 0x1000" "aligned4 i" "i \<notin> {32, 36, 40, 44}" for x i
    using cells_upd_other(1) [OF t(4) task_cells(2) [OF tasks_ok_task [OF tk that(1)] that(2,3)] nC [OF that(1,2,4)]] .
  have so: "saved t x = saved s x" "saved_ok t x" if x: "x \<in> set (p # ?ps)" and k: "saved_ok s x" for x
  proof -
    have a: "x \<notin> ?C" using nC [OF x, of 0] by simp
    have b: "\<forall>j. 64 \<le> j \<longrightarrow> j < 0x1000 \<longrightarrow> x + j \<notin> ?C"
    proof (intro allI impI)
      fix j :: u32 assume "64 \<le> j" and j: "j < 0x1000"
      then have "j \<notin> {32, 36, 40, 44}" by auto
      then show "x + j \<notin> ?C" by (rule nC [OF x j])
    qed
    show "saved t x = saved s x" "saved_ok t x" using saved_other [OF t(4) tasks_ok_task [OF tk x] k a b] .
  qed
  have st: "status t x = status s x" if "x \<in> set (p # ?ps)" for x
    using pk [OF that, of 4] by (simp add: status_def status_field_def)
  have pp: "pcb t p cs (status_code TASK_READY) prio"
    by (rule pcb_other [OF t(4) tasks_ok_task [OF tk] ok(2,3)]) (use nC [of p] in auto)
  have inv: "sched_inv t to cur (ready @ [p]) blocked"
    unfolding sched_inv_def tasks_ok_upd [OF t(4)]
  proof (intro conjI ballI)
    show "tasks_ok s to (cur # (ready @ [p]) @ blocked)"
      by (rule tasks_ok_subset [OF tk]) (use tk in \<open>auto simp: tasks_ok_def\<close>)
    show "klist t (thread_ready_list to) (map general_tag (ready @ [p]))" by (rule t(2))
    show "on_stack t cur" using si cells_upd_regs(1) [OF t(4)] by (simp add: sched_inv_def on_stack_def)
    fix x
    show "saved_ok t x" "status t x = status_code TASK_READY" if "x \<in> set (ready @ [p])"
      using that si ok so(2) [of x] st [of x] by (auto simp: sched_inv_def pcb_def)
    show "saved_ok t x" "blocking (status t x)" if "x \<in> set blocked"
      using that si so(2) [of x] st [of x] by (auto simp: sched_inv_def)
  qed
  have "\<Union> (bytes4 ` ?C) = list_bytes (thread_ready_list to) (map (\<lambda>q. q + 32) (ready @ [p])) \<union> list_bytes (thread_all_list to) (map (\<lambda>q. q + 40) (alls @ [p]))"
    unfolding list_cells_bytes tags_eq by blast
  then have "\<Union> (bytes4 ` ?C) \<subseteq> thread_bytes to (p # ?ps)"
    using tag_bytes [OF tk sub(1) global_heads(1), of 32] tag_bytes [OF tk sub(2) global_heads(2), of 40] by simp
  then have ub: "upd_within (thread_bytes to (p # ?ps)) s t" by (rule upd_within_mono [OF cells_upd_upd [OF t(4)]])
  have sv: "\<forall>x \<in> set (p # ready @ blocked). saved t x = saved s x"
    using so(1) ok(1) si by (auto simp: sched_inv_def)
  have "peek32 t (p + 3688) = peek32 s (p + 3688)" "peek32 t (p + 3692) = peek32 s (p + 3692)"
    using pk [of p 3688] pk [of p 3692] by simp_all
  with t(1,3) inv sv pp ub st [of cur] show ?thesis by simp
qed

lemma kernel_page_aligned: "r < 0x3fb00 \<Longrightarrow> (K_HEAD_START + of_nat (r * 4096)) AND 0xfff = 0"
proof -
  assume r: "r < 0x3fb00"
  have "unat (K_HEAD_START + of_nat (r * 4096)) = 4096 * (0xc0100 + r)"
    using r unat_u32_of_nat [of "r * 4096"] by (simp add: K_HEAD_START_def unat_word_ariths)
  then have "unat ((K_HEAD_START + of_nat (r * 4096)) AND 0xfff) = 0" by (simp only: unat_and_fff) simp
  then show ?thesis by (simp only: unat_eq_0)
qed

lemma saved_extends:
  assumes x: "extends_within B s t" and i: "sched_inv s to cur ready blocked" and d: "B \<inter> thread_bytes to (cur # ready @ blocked) = {}"
    and p: "p \<in> set (ready @ blocked)"
  shows "saved t p = saved s p"
proof -
  have tp: "task s p" by (rule sched_inv_task [OF i]) (use p in simp)
  have ok: "saved_ok s p" using i p by (auto simp: sched_inv_def)
  have pk: "peek32 t (p + i) = peek32 s (p + i)" if "i < 0x1000" "aligned4 i" for i
    by (rule sched_inv_extends(2) [OF x i d]) (use p that in simp_all)
  have a: "peek32 t p = peek32 s p" using pk [of 0] by simp
  have "peek32 t (peek32 s p + j) = peek32 s (peek32 s p + j)" if j: "j \<in> {0, 4, 8, 12, 16}" for j
    using saved_cells [OF tp ok j] pk by metis
  from this [of 0] this [of 4] this [of 8] this [of 12] this [of 16] show ?thesis by (simp add: saved_def Let_def a)
qed

lemma mem_inv_upd:
  assumes "mem_inv s mo m" "upd_within B s t" "B \<inter> mem_bytes mo m = {}"
  shows "mem_inv t mo m"
proof -
  note p = mem_inv_parts [OF assms(1)]
  have "pools_hold t mo m"
    by (rule pools_hold_upd [OF p(1) assms(2)]) (use assms(3) in \<open>simp add: mem_bytes_def\<close>)
  moreover have "pools_mapped t m" by (rule pools_mapped_upd [OF upd_within_tables [OF assms(2)] p(3,2)])
  ultimately show ?thesis using p(2) by (simp add: mem_inv_def)
qed

lemma kernel_inv_parts:
  assumes "kernel_inv s mo m to cur ready blocked alls"
  shows "mem_inv s mo m" "sched_inv s to cur ready blocked" "klist s (thread_all_list to) (map all_list_tag alls)"
    "set alls \<subseteq> set (cur # ready @ blocked)" "mem_bytes mo m \<inter> thread_bytes to (cur # ready @ blocked) = {}"
    "tasks_ok s to (cur # ready @ blocked)"
  using assms by (simp_all add: kernel_inv_def sched_inv_def)

lemma alloc_area_sub: "alloc_area m \<subseteq> mem_bytes mo m"
  by (auto simp: alloc_area_def mem_bytes_def)

lemma thread_bytes_insert: "thread_bytes to (p # ps) = page_bytes p \<union> thread_bytes to ps"
  by (auto simp: thread_bytes_def)

text \<open>The page \<open>get_kernel_pages\<close> returns can hold a control block, and nothing was mapped there before.\<close>

lemma task_page_spec:
  assumes mi: "mem_inv s mo m" and free: "free_frames (kbits m) \<noteq> {}" "free_frames (vbits m) \<noteq> {}"
  defines "p \<equiv> K_HEAD_START + of_nat (first_free (vbits m) * 4096)"
  shows "\<exists>t bs. get_kernel_pages mo 1 s = Inr (p, t) \<and> extends_within (alloc_area m) s t \<and>
    mem_inv t mo (m\<lparr>kbits := bs, vbits := bm_update (vbits m) (first_free (vbits m)) True\<rparr>) \<and>
    length bs = length (kbits m) \<and> Suc (card (free_frames bs)) = card (free_frames (kbits m)) \<and>
    task t p \<and> (\<forall>a \<in> page_bytes p. \<not> kaddr s a)"
proof -
  from get_kernel_page_spec [OF mi free, folded p_def] obtain t bs where
    t: "get_kernel_pages mo 1 s = Inr (p, t)" "extends_within (alloc_area m) s t"
      "mem_inv t mo (m\<lparr>kbits := bs, vbits := bm_update (vbits m) (first_free (vbits m)) True\<rparr>)"
      "length bs = length (kbits m)" "Suc (card (free_frames bs)) = card (free_frames (kbits m))"
      "blk t p (replicate 4096 0)" "\<forall>a \<in> page_bytes p. \<not> kaddr s a" by blast
  have "p AND 0xfff = 0"
    unfolding p_def using first_free_frame [OF free(2)] mem_inv_parts(2) [OF mi]
    by (intro kernel_page_aligned) (auto simp: free_frames_def pools_sized_def)
  moreover have "p \<in> span p 4096" unfolding span_iff by (rule exI [of _ 0]) simp
  then have "kaddr t p" using blk_room [OF t(6)] by (simp add: room_def)
  ultimately have "task t p" by (simp add: task_def)
  with t show ?thesis by blast
qed

text \<open>A page with no mapped byte is apart from every control block and from the module's globals.\<close>

lemma task_page_apart:
  assumes tk: "tasks_ok s to ps" and new: "\<forall>a \<in> page_bytes p. \<not> kaddr s a" and p: "p AND 0xfff = 0"
  shows "p \<notin> set ps" "\<forall>g \<in> sched_globals to. kcell s g \<and> page_of g \<noteq> page_of p"
    "page_bytes p \<inter> thread_bytes to ps = {}"
proof -
  have fresh: "page_of a \<noteq> page_of p" if "kaddr s a" for a using new that page_bytes_iff [OF p] by blast
  show "p \<notin> set ps" using fresh [of p] tasks_ok_task [OF tk] by (auto simp: task_def)
  show "\<forall>g \<in> sched_globals to. kcell s g \<and> page_of g \<noteq> page_of p" using tk fresh by (auto simp: tasks_ok_def kcell_def)
  show "page_bytes p \<inter> thread_bytes to ps = {}" using new thread_bytes_kaddr [OF tk] by blast
qed

text \<open>\<open>init_thread\<close> followed by \<open>thread_create\<close> fill the control block and the frame the thread starts from.\<close>

lemma build_thread_spec:
  assumes t: "task s p" and name: "cstr s nm cs" "length cs \<le> 15" "span nm (Suc (length cs)) \<inter> page_bytes p = {}"
    and m: "kcell s (main_thread to)" "page_of (main_thread to) \<noteq> page_of p" "p \<noteq> peek32 s (main_thread to)"
  shows "\<exists>u t. init_thread to p nm prio s = Inr ((), u) \<and> thread_create ka p fn args u = Inr ((), t) \<and>
    upd_within (page_bytes p) s t \<and> task t p \<and> saved_ok t p \<and> pcb t p cs (status_code TASK_READY) (of_int prio) \<and>
    saved t p = \<lparr>c_sp = p + 3684, c_ebp = 0, c_ebx = 0, c_edi = 0, c_esi = 0, c_eip = ka\<rparr> \<and>
    peek32 t (p + 3688) = fn \<and> peek32 t (p + 3692) = args"
proof -
  from init_thread_spec [OF t name m(1,2), of prio] m(3)
  obtain u where u: "init_thread to p nm prio s = Inr ((), u)" "upd_within (page_bytes p) s u" "peek32 u p = p + 4096"
    "pcb u p cs (status_code TASK_READY) (of_int prio)" by auto
  have tu: "task u p" using t task_upd [OF u(2)] by simp
  let ?K = "insert p ((\<lambda>i. p + i) ` {3664, 3668, 3672, 3676, 3680, 3688, 3692})"
  from thread_create_spec [OF tu u(3), of ka fn args] obtain t where
    t: "thread_create ka p fn args u = Inr ((), t)" "cells_upd ?K u t"
      "saved t p = \<lparr>c_sp = p + 3684, c_ebp = 0, c_ebx = 0, c_edi = 0, c_esi = 0, c_eip = ka\<rparr>"
      "peek32 t (p + 3688) = fn" "peek32 t (p + 3692) = args" "peek32 t p = p + 3664" by blast
  have pcb: "pcb t p cs (status_code TASK_READY) (of_int prio)" by (rule pcb_other [OF t(2) tu u(4) name(2)]) simp
  have K: "\<Union> (bytes4 ` ?K) \<subseteq> page_bytes p" using page_cell_bytes [OF tu] page_cell_bytes [OF tu, of 0] by simp
  have "upd_within (page_bytes p) s t" by (rule upd_within_trans [OF u(2) upd_within_mono [OF cells_upd_upd [OF t(2)] K]])
  moreover have "saved_ok t p" using t(6) by (simp add: saved_ok_def)
  moreover have "task t p" using tu cells_upd_task [OF t(2)] by simp
  ultimately show ?thesis using u(1) t(1,3-5) pcb by blast
qed

text \<open>A new thread, built in a page of its own, does not disturb the threads there are.\<close>

lemma threads_kept:
  assumes ks: "kernel_inv s mo m to cur ready blocked alls"
    and x: "extends_within (alloc_area m \<union> page_bytes p) s t" and new: "\<forall>a \<in> page_bytes p. \<not> kaddr s a" and p: "task t p"
  shows "sched_inv t to cur ready blocked" "klist t (thread_all_list to) (map all_list_tag alls)"
    "tasks_ok t to (p # cur # ready @ blocked)" "status t cur = status s cur" "\<forall>y \<in> set (ready @ blocked). saved t y = saved s y"
proof -
  note k = kernel_inv_parts [OF ks] and ap = task_page_apart [OF kernel_inv_parts(6) [OF ks] new task_page [OF p]]
  have d: "(alloc_area m \<union> page_bytes p) \<inter> thread_bytes to (cur # ready @ blocked) = {}"
    using k(5) alloc_area_sub [of m mo] ap(3) by blast
  show si: "sched_inv t to cur ready blocked" by (rule sched_inv_extends(1) [OF x k(2) d])
  have "list_bytes (thread_all_list to) (map (\<lambda>q. q + 40) alls) \<subseteq> thread_bytes to (cur # ready @ blocked)"
    using tag_bytes [OF k(6,4) global_heads(2), of 40] by simp
  then show "klist t (thread_all_list to) (map all_list_tag alls)"
    by (intro klist_extends [OF x k(3)]) (use d in \<open>unfold tags_eq, blast\<close>)
  have "tasks_ok t to (cur # ready @ blocked)" using si by (simp add: sched_inv_def)
  then show "tasks_ok t to (p # cur # ready @ blocked)" using ap(1,2) p by (simp add: tasks_ok_def)
  show "status t cur = status s cur"
    using sched_inv_extends(2) [OF x k(2) d, of cur 4] by (simp add: status_def status_field_def)
  show "\<forall>y \<in> set (ready @ blocked). saved t y = saved s y" using saved_extends [OF x k(2) d] by simp
qed

text \<open>The same name and the same main thread are read after the page is taken.\<close>

lemma start_args_kept:
  assumes ks: "kernel_inv s mo m to cur ready blocked alls" and x: "extends_within (alloc_area m) s t"
    and name: "cstr s nm cs" "span nm (Suc (length cs)) \<inter> mem_bytes mo m = {}" and new: "\<forall>a \<in> page_bytes p. \<not> kaddr s a"
  shows "cstr t nm cs" "span nm (Suc (length cs)) \<inter> page_bytes p = {}"
    "kcell t (main_thread to)" "peek32 t (main_thread to) = peek32 s (main_thread to)"
proof -
  have ac: "alloc_area m \<subseteq> mem_bytes mo m" by (rule alloc_area_sub)
  have "span nm (length (cs @ [0])) \<inter> alloc_area m = {}" using name(2) ac by (simp only: length_append) auto
  from extends_blk [OF x this] show "cstr t nm cs" using name(1) unfolding cstr_def by blast
  show "span nm (Suc (length cs)) \<inter> page_bytes p = {}" using cstr_room [OF name(1)] new unfolding room_def by blast
  have mg: "main_thread to \<in> sched_globals to" by (simp add: sched_globals_eq)
  have km: "kcell s (main_thread to)" using kernel_inv_parts(6) [OF ks] mg by (simp add: tasks_ok_def)
  show "kcell t (main_thread to)" by (rule extends_kcell [OF x km])
  show "peek32 t (main_thread to) = peek32 s (main_thread to)"
    by (rule extends_peek32 [OF x km]) (use kernel_inv_parts(5) [OF ks] ac mg in \<open>unfold thread_bytes_def, blast\<close>)
qed

lemma thread_start_spec:
  assumes ks: "kernel_inv s mo m to cur ready blocked alls"
    and free: "free_frames (kbits m) \<noteq> {}" "free_frames (vbits m) \<noteq> {}"
    and name: "cstr s nm cs" "length cs \<le> 15" "span nm (Suc (length cs)) \<inter> mem_bytes mo m = {}"
    and main: "peek32 s (main_thread to) \<in> set (cur # ready @ blocked)"
  defines "p \<equiv> K_HEAD_START + of_nat (first_free (vbits m) * 4096)"
  shows "\<exists>t bs. thread_start mo to ka nm prio fn args s = Inr (p, t) \<and>
    kernel_inv t mo (m\<lparr>kbits := bs, vbits := bm_update (vbits m) (first_free (vbits m)) True\<rparr>) to cur (ready @ [p]) blocked (alls @ [p]) \<and>
    length bs = length (kbits m) \<and> Suc (card (free_frames bs)) = card (free_frames (kbits m)) \<and>
    saved t p = \<lparr>c_sp = p + 3684, c_ebp = 0, c_ebx = 0, c_edi = 0, c_esi = 0, c_eip = ka\<rparr> \<and>
    peek32 t (p + 3688) = fn \<and> peek32 t (p + 3692) = args \<and> pcb t p cs (status_code TASK_READY) (of_int prio) \<and>
    (\<forall>x \<in> set (ready @ blocked). saved t x = saved s x) \<and> status t cur = status s cur \<and> esp t = esp s \<and> eflags t = eflags s"
proof -
  let ?ps = "cur # ready @ blocked"
  note k = kernel_inv_parts [OF ks]
  from task_page_spec [OF k(1) free, folded p_def] obtain t1 bs where
    t1: "get_kernel_pages mo 1 s = Inr (p, t1)" "extends_within (alloc_area m) s t1"
      "mem_inv t1 mo (m\<lparr>kbits := bs, vbits := bm_update (vbits m) (first_free (vbits m)) True\<rparr>)"
      "length bs = length (kbits m)" "Suc (card (free_frames bs)) = card (free_frames (kbits m))"
      "task t1 p" "\<forall>a \<in> page_bytes p. \<not> kaddr s a" by blast
  let ?m = "m\<lparr>kbits := bs, vbits := bm_update (vbits m) (first_free (vbits m)) True\<rparr>"
  have mb: "mem_bytes mo ?m = mem_bytes mo m" by (simp add: mem_bytes_def kspan_def vspan_def t1(4))
  note ap = task_page_apart [OF k(6) t1(7) task_page [OF t1(6)]] and nm = start_args_kept [OF ks t1(2) name(1,3) t1(7)]
  have pm: "page_of (main_thread to) \<noteq> page_of p" "p \<noteq> peek32 t1 (main_thread to)"
    using ap(1,2) main nm(4) by (auto simp: sched_globals_eq)
  from build_thread_spec [OF t1(6) nm(1) name(2) nm(2,3) pm, of prio ka fn args] obtain t2 t3 where
    t3: "init_thread to p nm prio t1 = Inr ((), t2)" "thread_create ka p fn args t2 = Inr ((), t3)" "upd_within (page_bytes p) t1 t3"
      "task t3 p" "saved_ok t3 p" "pcb t3 p cs (status_code TASK_READY) (of_int prio)"
      "saved t3 p = \<lparr>c_sp = p + 3684, c_ebp = 0, c_ebx = 0, c_edi = 0, c_esi = 0, c_eip = ka\<rparr>"
      "peek32 t3 (p + 3688) = fn" "peek32 t3 (p + 3692) = args" by blast
  have x3: "extends_within (alloc_area m \<union> page_bytes p) s t3"
    using extends_trans [OF extends_mono [OF t1(2)] extends_mono [OF extends_upd [OF t3(3)]]] by blast
  note th = threads_kept [OF ks x3 t1(7) t3(4)]
  let ?a1 = "append_new (thread_ready_list to) (general_tag p) 93 ''thread_start'' ''!list_find(&thread_ready_list, &thread->general_tag)''"
  let ?a2 = "append_new (thread_all_list to) (all_list_tag p) 96 ''thread_start'' ''!list_find(&thread_all_list, &thread->all_list_tag)''"
  from enlist_inv [OF th(1,2) k(4) th(3) t3(5,6) name(2)] obtain t where
    t: "cseq ?a1 ?a2 t3 = Inr ((), t)" "sched_inv t to cur (ready @ [p]) blocked"
      "klist t (thread_all_list to) (map all_list_tag (alls @ [p]))"
      "\<forall>x \<in> set (p # ready @ blocked). saved t x = saved t3 x" "pcb t p cs (status_code TASK_READY) (of_int prio)"
      "peek32 t (p + 3688) = fn" "peek32 t (p + 3692) = args" "upd_within (thread_bytes to (p # ?ps)) t3 t" "status t cur = status t3 cur"
    unfolding t3(8,9) by blast
  from t(1) obtain b where b: "?a1 t3 = Inr ((), b)" "?a2 b = Inr ((), t)" by (auto simp: cseq_def cbind_Inr_iff)
  have run: "thread_start mo to ka nm prio fn args s = Inr (p, t)"
    by (simp add: thread_start_def cseq_def cbind_def t1(1) t3(1,2) b ret_def)
  have tb: "thread_bytes to (cur # (ready @ [p]) @ blocked) = thread_bytes to (p # ?ps)" by (auto simp: thread_bytes_def)
  have "kaddr s a" if "a \<in> mem_bytes mo m" for a
    using pools_hold_kaddr [OF mem_inv_parts(1) [OF k(1)]] that by (simp add: mem_bytes_def)
  then have disj: "thread_bytes to (p # ?ps) \<inter> mem_bytes mo m = {}" using k(5) t1(7) unfolding thread_bytes_insert by blast
  have u14: "upd_within (thread_bytes to (p # ?ps)) t1 t"
    using upd_within_trans [OF upd_within_mono [OF t3(3)] t(8)] unfolding thread_bytes_insert by blast
  have "mem_inv t mo ?m" by (rule mem_inv_upd [OF t1(3) u14]) (simp only: mb disj)
  moreover have "set (alls @ [p]) \<subseteq> set (cur # (ready @ [p]) @ blocked)" using k(4) by auto
  ultimately have "kernel_inv t mo ?m to cur (ready @ [p]) blocked (alls @ [p])"
    using t(2,3) disj by (simp only: kernel_inv_def mb tb Int_commute [of "mem_bytes mo m"] simp_thms)
  moreover have "esp t = esp s" "eflags t = eflags s"
    using x3 t(8) by (auto simp: extends_within_def upd_within_def tables_same_def)
  ultimately show ?thesis using run t1(4,5) t3(7) t(4-7,9) th(4,5) by auto
qed

subsection \<open>Initialising the module\<close>

lemma console_sched [simp]:
  "klist (s\<lparr>console := x\<rparr>) l xs = klist s l xs" "task (s\<lparr>console := x\<rparr>) = task s"
  "tasks_ok (s\<lparr>console := x\<rparr>) to ps = tasks_ok s to ps" "saved_ok (s\<lparr>console := x\<rparr>) = saved_ok s"
  "status (s\<lparr>console := x\<rparr>) = status s" "saved (s\<lparr>console := x\<rparr>) = saved s" "on_stack (s\<lparr>console := x\<rparr>) = on_stack s"
  "esp_ok (s\<lparr>console := x\<rparr>) = esp_ok s"
  by (simp_all add: klist_def task_def tasks_ok_def saved_ok_def status_def saved_def on_stack_def esp_ok_def fun_eq_iff)

lemma console_kernel [simp]:
  "sched_inv (s\<lparr>console := x\<rparr>) to cur ready blocked = sched_inv s to cur ready blocked"
  "cstr (s\<lparr>console := x\<rparr>) p cs = cstr s p cs" "pcb (s\<lparr>console := x\<rparr>) p cs st prio = pcb s p cs st prio"
  by (simp_all add: sched_inv_def cstr_def pcb_def)

lemma console_kernel_inv [simp]:
  "kernel_inv (s\<lparr>console := x\<rparr>) mo m to cur ready blocked alls = kernel_inv s mo m to cur ready blocked alls"
  by (simp add: kernel_inv_def)

lemma list_init_cells:
  assumes "tasks_ok s to ps" "list_cells l [] \<subseteq> sched_globals to"
  shows "\<exists>t. list_init l s = Inr ((), t) \<and> klist t l [] \<and> cells_upd (list_cells l []) s t"
proof -
  have "\<forall>c \<in> list_cells l []. kcell s c" using assms by (auto simp: tasks_ok_def)
  then have "\<forall>c \<in> {l, l + 4, l + 8, 12 + l}. kcell s c" by (simp add: list_cells_iff add.commute [of l 12])
  from list_init_spec [OF this] list_cells_upd show ?thesis by blast
qed

lemma globals_apart:
  assumes "tasks_ok s to ps" "p \<in> set ps"
  shows "page_bytes p \<inter> \<Union> (bytes4 ` sched_globals to) = {}"
proof -
  have "a \<notin> page_bytes p" if "g \<in> sched_globals to" "a \<in> bytes4 g" for a g
    using assms that bytes4_page [of g a] page_bytes_iff [OF task_page [OF tasks_ok_task [OF assms]]] by (auto simp: tasks_ok_def kcell_def)
  then show ?thesis by blast
qed

text \<open>Both queues are made empty and the running thread is remembered as the main thread.\<close>

lemma thread_lists_spec:
  assumes tk: "tasks_ok s to [cur]" and os: "on_stack s cur"
  shows "\<exists>u t. list_init (thread_all_list to) s = Inr ((), u) \<and> list_init (thread_ready_list to) u = Inr ((), t) \<and>
    running_thread t = Inr (cur, t) \<and> kcell t (main_thread to) \<and>
    cells_upd (sched_globals to) s (poke32 (main_thread to) cur t) \<and>
    klist (poke32 (main_thread to) cur t) (thread_ready_list to) [] \<and> klist (poke32 (main_thread to) cur t) (thread_all_list to) []"
proof -
  let ?rl = "thread_ready_list to" and ?al = "thread_all_list to" and ?mt = "main_thread to"
  from list_init_cells [OF tk global_heads(2)] obtain u where
    u: "list_init ?al s = Inr ((), u)" "klist u ?al []" "cells_upd (list_cells ?al []) s u" by blast
  have tku: "tasks_ok u to [cur]" using tk tasks_ok_upd [OF u(3)] by simp
  from list_init_cells [OF tku global_heads(1)] obtain t where
    t: "list_init ?rl u = Inr ((), t)" "klist t ?rl []" "cells_upd (list_cells ?rl []) u t" by blast
  have tkt: "tasks_ok t to [cur]" using tku tasks_ok_upd [OF t(3)] by simp
  have heads: "list_cells ?rl [] \<inter> list_cells ?al [] = {}" using queues_apart [OF tk, of "[]" "[]"] by simp
  have al: "klist t ?al []" by (rule klist_other [OF t(3) u(2) heads])
  have mg: "?mt \<in> sched_globals to" by (simp add: sched_globals_eq)
  have km: "kcell t ?mt" using tkt mg by (simp add: tasks_ok_def)
  have m: "cells_upd {?mt} t (poke32 ?mt cur t)" by (rule cells_upd_poke [OF km])
  have mh: "?mt \<notin> list_cells ?rl []" "?mt \<notin> list_cells ?al []"
    using tk by (auto simp: tasks_ok_def global_cells_def list_cells_def)
  have q: "klist (poke32 ?mt cur t) ?rl []" "klist (poke32 ?mt cur t) ?al []"
    by (rule klist_other [OF m t(2)], use mh in simp, rule klist_other [OF m al], use mh in simp)
  have c: "cells_upd (sched_globals to) s (poke32 ?mt cur t)"
    by (rule cells_upd_mono [OF cells_upd_trans [OF cells_upd_trans [OF u(3) t(3)] m]])
      (use mg global_heads tk in \<open>auto simp: tasks_ok_def\<close>)
  have "running_thread t = Inr (cur, t)"
    using running_current [of t cur] tkt os cells_upd_regs(1) [OF u(3)] cells_upd_regs(1) [OF t(3)]
    by (simp add: tasks_ok_def on_stack_def)
  with u(1) t(1) km c q show ?thesis by blast
qed

text \<open>The main thread joins the list of all threads.\<close>

lemma main_enlist_spec:
  assumes tk: "tasks_ok s to [cur]" and q: "klist s (thread_ready_list to) []" "klist s (thread_all_list to) []"
    and pc: "pcb s cur cs st prio" "length cs \<le> 15"
  shows "\<exists>t. append_new (thread_all_list to) (all_list_tag cur) n f c s = Inr ((), t) \<and> klist t (thread_ready_list to) [] \<and>
    klist t (thread_all_list to) [all_list_tag cur] \<and> pcb t cur cs st prio \<and> tasks_ok t to [cur] \<and>
    peek32 t (main_thread to) = peek32 s (main_thread to) \<and> upd_within (thread_bytes to [cur]) s t"
proof -
  let ?al = "thread_all_list to" and ?C = "list_cells (thread_all_list to) [all_list_tag cur]"
  have tc: "task s cur" using tk by (simp add: tasks_ok_def)
  have fr: "klist_free s ?al [] (all_list_tag cur)" using all_tag_free [OF tk, of "[]"] by simp
  from append_new_spec [OF q(2) fr] obtain t where
    t: "append_new ?al (all_list_tag cur) n f c s = Inr ((), t)" "klist t ?al [all_list_tag cur]" "cells_upd ?C s t" by fastforce
  have "\<Union> (bytes4 ` ?C) \<subseteq> thread_bytes to [cur]"
    using tag_bytes [OF tk _ global_heads(2), of "[cur]" 40] by (simp add: list_cells_bytes [symmetric] all_list_tag_def)
  then have u: "upd_within (thread_bytes to [cur]) s t" by (rule upd_within_mono [OF cells_upd_upd [OF t(3)]])
  have rl: "klist t (thread_ready_list to) []"
    by (rule klist_other [OF t(3) q(1)]) (use queues_apart [OF tk, of "[]" "[cur]"] in auto)
  have mg: "main_thread to \<in> sched_globals to" by (simp add: sched_globals_eq)
  have "main_thread to \<notin> list_cells ?al []" using tk by (auto simp: tasks_ok_def global_cells_def list_cells_def)
  then have mC: "main_thread to \<notin> ?C"
    using task_cell_global [OF tk, of cur 40] task_cell_global [OF tk, of cur 44] mg
    by (auto simp: list_cells_iff all_list_tag_def add.assoc)
  have km: "kcell s (main_thread to)" using tk mg by (simp add: tasks_ok_def)
  have nC: "cur + i \<notin> ?C" if "i < 0x1000" "i \<noteq> 40" "i \<noteq> 44" for i
    using all_cells [OF tk _ that(1), of cur "[cur]"] that(2,3) by simp
  have "pcb t cur cs st prio" by (rule pcb_other [OF t(3) tc pc]) (use nC in simp)
  moreover have "tasks_ok t to [cur]" using tk tasks_ok_upd [OF t(3)] by simp
  ultimately show ?thesis using t(1,2) rl u cells_upd_other(1) [OF t(3) km mC] by blast
qed

text \<open>\<open>make_main_thread\<close>, entered with both queues empty.\<close>

lemma main_thread_spec:
  assumes tk: "tasks_ok s to [cur]" and q: "klist s (thread_ready_list to) []" "klist s (thread_all_list to) []"
    and mn: "peek32 s (main_thread to) = cur"
    and name: "cstr s nm cs" "length cs \<le> 15" "span nm (Suc (length cs)) \<inter> page_bytes cur = {}"
  shows "\<exists>u t. init_thread to cur nm 31 s = Inr ((), u) \<and> append_new (thread_all_list to) (all_list_tag cur) n f c u = Inr ((), t) \<and>
    klist t (thread_ready_list to) [] \<and> klist t (thread_all_list to) [all_list_tag cur] \<and>
    pcb t cur cs (status_code TASK_RUNNING) 31 \<and> tasks_ok t to [cur] \<and>
    peek32 t (main_thread to) = cur \<and> upd_within (thread_bytes to [cur]) s t"
proof -
  have mg: "main_thread to \<in> sched_globals to" by (simp add: sched_globals_eq)
  have km: "kcell s (main_thread to)" and tc: "task s cur" and pm: "page_of (main_thread to) \<noteq> page_of cur"
    using tk mg by (simp_all add: tasks_ok_def)
  from init_thread_spec [OF tc name km pm, of 31] mn obtain u where
    u: "init_thread to cur nm 31 s = Inr ((), u)" "upd_within (page_bytes cur) s u" "pcb u cur cs (status_code TASK_RUNNING) 31" by auto
  have tku: "tasks_ok u to [cur]" using tk by (simp add: tasks_ok_def task_upd [OF u(2)] upd_within_kcell [OF u(2)])
  have ap: "page_bytes cur \<inter> \<Union> (bytes4 ` sched_globals to) = {}" by (rule globals_apart [OF tk]) simp
  have lb: "list_bytes l [] \<subseteq> \<Union> (bytes4 ` sched_globals to)" if "list_cells l [] \<subseteq> sched_globals to" for l
    using that unfolding list_cells_bytes by blast
  have qu: "klist u (thread_ready_list to) []" "klist u (thread_all_list to) []"
    by (rule klist_frame [OF u(2) q(1)], use ap lb [OF global_heads(1)] in blast,
        rule klist_frame [OF u(2) q(2)], use ap lb [OF global_heads(2)] in blast)
  have "bytes4 (main_thread to) \<inter> page_bytes cur = {}" using ap mg by blast
  then have mu: "peek32 u (main_thread to) = cur" using upd_within_peek32 [OF u(2) km] mn by simp
  have pT: "page_bytes cur \<subseteq> thread_bytes to [cur]" by (simp add: thread_bytes_def)
  from main_enlist_spec [OF tku qu u(3) name(2)] u(1) mu upd_within_trans [OF upd_within_mono [OF u(2) pT]]
  show ?thesis by metis
qed

lemma thread_init_spec:
  assumes mi: "mem_inv s mo m" and tk: "tasks_ok s to [cur]" and os: "on_stack s cur"
    and name: "cstr s nm cs" "length cs \<le> 15" "span nm (Suc (length cs)) \<inter> thread_bytes to [cur] = {}"
    and ap: "mem_bytes mo m \<inter> thread_bytes to [cur] = {}"
  shows "\<exists>t. thread_init to nm s = Inr ((), t) \<and> kernel_inv t mo m to cur [] [] [cur] \<and>
    peek32 t (main_thread to) = cur \<and> pcb t cur cs (status_code TASK_RUNNING) 31 \<and> esp t = esp s \<and> eflags t = eflags s \<and>
    (\<exists>x. upd_within (thread_bytes to [cur]) (s\<lparr>console := x\<rparr>) t)"
proof -
  let ?T = "thread_bytes to [cur]"
  define s0 where "s0 = s\<lparr>console := console s @ [PutStr ''Start to init thread...\<newline>'']\<rparr>"
  have tk0: "tasks_ok s0 to [cur]" and os0: "on_stack s0 cur" using tk os by (simp_all add: s0_def)
  from thread_lists_spec [OF tk0 os0] obtain s1 s2 where
    s2: "list_init (thread_all_list to) s0 = Inr ((), s1)" "list_init (thread_ready_list to) s1 = Inr ((), s2)"
      "running_thread s2 = Inr (cur, s2)" "kcell s2 (main_thread to)"
      "cells_upd (sched_globals to) s0 (poke32 (main_thread to) cur s2)"
      "klist (poke32 (main_thread to) cur s2) (thread_ready_list to) []" "klist (poke32 (main_thread to) cur s2) (thread_all_list to) []" by blast
  let ?s3 = "poke32 (main_thread to) cur s2"
  have gT: "\<Union> (bytes4 ` sched_globals to) \<subseteq> ?T" and pT: "page_bytes cur \<subseteq> ?T" by (simp_all add: thread_bytes_def)
  have u3: "upd_within ?T s0 ?s3" by (rule upd_within_mono [OF cells_upd_upd [OF s2(5)] gT])
  have tk3: "tasks_ok ?s3 to [cur]" using tk0 tasks_ok_upd [OF s2(5)] by simp
  have n3: "cstr ?s3 nm cs" by (rule upd_within_cstr [OF u3 name(3)]) (use name(1) in \<open>simp add: s0_def\<close>)
  have np: "span nm (Suc (length cs)) \<inter> page_bytes cur = {}" using name(3) pT by blast
  have m3: "peek32 ?s3 (main_thread to) = cur" using s2(4) by (simp add: peek32_poke32)
  from main_thread_spec [OF tk3 s2(6,7) m3 n3 name(2) np] obtain s4 s5 where
    s5: "init_thread to cur nm 31 ?s3 = Inr ((), s4)"
      "append_new (thread_all_list to) (all_list_tag cur) 35 ''make_main_thread'' ''!list_find(&thread_all_list, &main_thread->all_list_tag)'' s4 = Inr ((), s5)"
      "klist s5 (thread_ready_list to) []" "klist s5 (thread_all_list to) [all_list_tag cur]" "pcb s5 cur cs (status_code TASK_RUNNING) 31"
      "tasks_ok s5 to [cur]" "peek32 s5 (main_thread to) = cur" "upd_within ?T ?s3 s5" by blast
  have u05: "upd_within ?T s0 s5" by (rule upd_within_trans [OF u3 s5(8)])
  have e5: "esp s5 = esp s" "eflags s5 = eflags s" using u05 by (auto simp: upd_within_def tables_same_def s0_def)
  define t where "t = s5\<lparr>console := console s5 @ [PutStr ''Thread init done.\<newline>'']\<rparr>"
  have run: "thread_init to nm s = Inr ((), t)"
    using s2(1-4) s5(1,2) m3
    by (simp add: thread_init_def make_main_thread_def comp_simps log_console_def s0_def [symmetric] store32_kcell load32_kcell kcell_poke32 t_def)
  have "mem_inv s5 mo m" by (rule mem_inv_upd [OF _ u05]) (use mi ap in \<open>simp_all add: s0_def Int_commute\<close>)
  moreover have "sched_inv s5 to cur [] []" using s5(3,6) os by (simp add: sched_inv_def on_stack_def e5)
  ultimately have "kernel_inv t mo m to cur [] [] [cur]" using s5(4) ap by (simp add: kernel_inv_def t_def)
  moreover have "upd_within ?T (s\<lparr>console := console t\<rparr>) t"
    using upd_within_console [OF u05, of "console t"] by (simp add: t_def s0_def)
  ultimately show ?thesis using run s5(5,7) e5 by (auto simp: t_def)
qed

end
