(* ===== verification/Scheduling.thy ===== *)
theory Scheduling
  imports ThreadStart
begin

unbundle bit_operations_syntax

section \<open>The scheduler as a state machine\<close>

text \<open>
  Executions of the kernel's threads as sequences of steps: the running thread does work
  of its own, is preempted, blocks, or unblocks another thread. An abstract scheduler says
  which thread runs after each step and which context each thread has; every step of the
  code simulates a step of the abstract scheduler, so what is proved of the latter holds
  of the former.
\<close>

subsection \<open>The abstract scheduler\<close>

datatype sched_event =
    Work
  | Preempt thread_context
  | Block task_status thread_context
  | Unblock addr

record sched_view =
  running :: addr
  ready :: "addr list"
  blocked :: "addr list"
  contexts :: "addr \<Rightarrow> thread_context"

text \<open>The queue of threads is served in order; an unblocked thread goes to its front.\<close>

fun sched_spec :: "sched_event \<Rightarrow> sched_view \<Rightarrow> sched_view option" where
  "sched_spec Work v = Some v"
| "sched_spec (Preempt c) v = (case ready v @ [running v] of
     [] \<Rightarrow> None
   | p # ps \<Rightarrow> Some (v\<lparr>running := p, ready := ps, contexts := (contexts v)(running v := c)\<rparr>))"
| "sched_spec (Block st c) v = (case ready v of
     [] \<Rightarrow> None
   | p # ps \<Rightarrow> if blocking (status_code st)
       then Some (v\<lparr>running := p, ready := ps, blocked := running v # blocked v, contexts := (contexts v)(running v := c)\<rparr>)
       else None)"
| "sched_spec (Unblock p) v = (if p \<in> set (blocked v)
     then Some (v\<lparr>ready := p # ready v, blocked := remove1 p (blocked v)\<rparr>) else None)"

fun sched_specs :: "sched_event list \<Rightarrow> sched_view \<Rightarrow> sched_view option" where
  "sched_specs [] v = Some v"
| "sched_specs (e # es) v = Option.bind (sched_spec e v) (sched_specs es)"

fun switches :: "sched_event \<Rightarrow> bool" where
  "switches (Preempt _) = True"
| "switches (Block _ _) = True"
| "switches Work = False"
| "switches (Unblock _) = False"

fun unblocks :: "sched_event \<Rightarrow> bool" where
  "unblocks (Unblock _) = True"
| "unblocks Work = False"
| "unblocks (Preempt _) = False"
| "unblocks (Block _ _) = False"

subsection \<open>The steps of the code\<close>

definition cpu :: "'z machine_scheme \<Rightarrow> thread_context" where
  "cpu s = \<lparr>c_sp = esp s, c_ebp = ebp s, c_ebx = ebx s, c_edi = edi s, c_esi = esi s, c_eip = eip s\<rparr>"

definition this_thread :: "'z machine_scheme \<Rightarrow> addr" where
  "this_thread s = esp s AND 0xfffff000"

text \<open>
  A step of the running thread's own code: it may change its registers, its stack, and all
  memory but the scheduler's structures, its control block and the other threads' pages;
  it may map new pages; its stack stays in its page.
\<close>

definition others :: "addr \<Rightarrow> addr list \<Rightarrow> addr list" where
  "others p ps = filter (\<lambda>q. q \<noteq> p) ps"

definition own_work :: "thread_objs \<Rightarrow> addr list \<Rightarrow> 'z machine_scheme \<Rightarrow> 'z machine_scheme \<Rightarrow> bool" where
  "own_work to ps s t \<longleftrightarrow> (\<exists>B. extends_within B (s\<lparr>eflags := eflags t, esp := esp t, ebp := ebp t, ebx := ebx t, esi := esi t,
       edi := edi t, eip := eip t, console := console t, ports_out := ports_out t\<rparr>) t \<and>
     B \<inter> (thread_bytes to (others (this_thread s) ps) \<union> bytes4 (status_field (this_thread s))) = {}) \<and> on_stack t (this_thread s)"

inductive sched_step :: "thread_objs \<Rightarrow> addr list \<Rightarrow> 'z machine_scheme \<Rightarrow> sched_event \<Rightarrow> 'z machine_scheme \<Rightarrow> bool"
  for to :: thread_objs and ps :: "addr list" where
  work: "own_work to ps s t \<Longrightarrow> sched_step to ps s Work t"
| preempt: "intr_off s \<Longrightarrow> esp_ok s (this_thread s) \<Longrightarrow> schedule to ra s = Inr ((), t) \<Longrightarrow>
    sched_step to ps s (Preempt (current ra s)) t"
| block: "esp_ok s (this_thread s) \<Longrightarrow> thread_block to ra st s = Inr (old, t) \<Longrightarrow>
    sched_step to ps s (Block st (current ra s)) t"
| unblock: "p \<in> set ps \<Longrightarrow> thread_unblock to p s = Inr ((), t) \<Longrightarrow> sched_step to ps s (Unblock p) t"

inductive_cases work_stepE: "sched_step to ps s Work t"
inductive_cases preempt_stepE: "sched_step to ps s (Preempt c) t"
inductive_cases block_stepE: "sched_step to ps s (Block st c) t"
inductive_cases unblock_stepE: "sched_step to ps s (Unblock p) t"

inductive sched_runs :: "thread_objs \<Rightarrow> addr list \<Rightarrow> 'z machine_scheme \<Rightarrow> sched_event list \<Rightarrow> 'z machine_scheme \<Rightarrow> bool"
  for to :: thread_objs and ps :: "addr list" where
  none: "sched_runs to ps s [] s"
| more: "sched_step to ps s e t \<Longrightarrow> sched_runs to ps t es u \<Longrightarrow> sched_runs to ps s (e # es) u"

inductive_simps sched_runs_Nil [simp]: "sched_runs to ps s [] t"
inductive_simps sched_runs_Cons: "sched_runs to ps s (e # es) u"

text \<open>What relates a machine to the abstract scheduler.\<close>

definition sched_rel :: "thread_objs \<Rightarrow> addr list \<Rightarrow> 'z machine_scheme \<Rightarrow> sched_view \<Rightarrow> bool" where
  "sched_rel to ps s v \<longleftrightarrow> sched_inv s to (running v) (ready v) (blocked v) \<and>
     status s (running v) = status_code TASK_RUNNING \<and>
     (\<forall>p \<in> set (ready v @ blocked v). saved s p = contexts v p) \<and> set ps = set (running v # ready v @ blocked v)"

lemma rel_parts:
  assumes "sched_rel to ps s v"
  shows "sched_inv s to (running v) (ready v) (blocked v)" "this_thread s = running v" "task s (running v)"
    "distinct (running v # ready v @ blocked v)"
proof -
  show i: "sched_inv s to (running v) (ready v) (blocked v)" using assms by (simp add: sched_rel_def)
  show t: "task s (running v)" by (rule sched_inv_task [OF i]) simp
  have "on_stack s (running v)" using i by (simp add: sched_inv_def)
  from running_current [OF t this] show "this_thread s = running v"
    by (simp add: running_thread_def this_thread_def gets_def)
  show "distinct (running v # ready v @ blocked v)" using i by (simp add: sched_inv_def tasks_ok_def)
qed

lemma others_rel:
  assumes "sched_rel to ps s v"
  shows "set (others (this_thread s) ps) = set (ready v @ blocked v)"
  using assms rel_parts(2,4) [OF assms] by (auto simp: others_def sched_rel_def)

subsection \<open>Each step simulates the abstract scheduler\<close>

lemma extends_tasks:
  assumes x: "extends_within B s t" and tk: "tasks_ok s to ps" and qs: "set qs \<subseteq> set ps" and d: "B \<inter> thread_bytes to qs = {}"
  shows "tasks_ok t to ps"
    "q \<in> set qs \<Longrightarrow> i < 0x1000 \<Longrightarrow> aligned4 i \<Longrightarrow> peek32 t (q + i) = peek32 s (q + i)"
    "set rs \<subseteq> set qs \<Longrightarrow> klist s (thread_ready_list to) (map general_tag rs) \<Longrightarrow> klist t (thread_ready_list to) (map general_tag rs)"
    "q \<in> set qs \<Longrightarrow> status t q = status s q"
    "q \<in> set qs \<Longrightarrow> saved_ok s q \<Longrightarrow> saved t q = saved s q \<and> saved_ok t q"
proof -
  show "tasks_ok t to ps"
    using tk extends_kaddr [OF x] extends_kcell [OF x] unfolding tasks_ok_def task_def by blast
  have pk: "peek32 t (q + i) = peek32 s (q + i)" if q: "q \<in> set qs" "i < 0x1000" "aligned4 i" for q i
  proof (rule extends_peek32 [OF x])
    have tq: "task s q" by (rule tasks_ok_task [OF tk]) (use q qs in blast)
    show "kcell s (q + i)" by (rule task_cells(2) [OF tq q(2,3)])
    show "bytes4 (q + i) \<inter> B = {}" using page_cell_bytes [OF tq q(2,3)] d q(1) unfolding thread_bytes_def by blast
  qed
  from pk show "q \<in> set qs \<Longrightarrow> i < 0x1000 \<Longrightarrow> aligned4 i \<Longrightarrow> peek32 t (q + i) = peek32 s (q + i)" .
  show "q \<in> set qs \<Longrightarrow> status t q = status s q" using pk [of q 4] by (simp add: status_def status_field_def)
  show "klist t (thread_ready_list to) (map general_tag rs)"
    if "set rs \<subseteq> set qs" "klist s (thread_ready_list to) (map general_tag rs)"
  proof (rule klist_extends [OF x that(2)])
    have "tasks_ok s to (remdups qs)" by (rule tasks_ok_subset [OF tk]) (use qs in simp_all)
    from tag_bytes [OF this _ global_heads(1), of rs 32] that(1)
    have "list_bytes (thread_ready_list to) (map general_tag rs) \<subseteq> thread_bytes to qs"
      unfolding tags_eq by (simp add: thread_bytes_def)
    then show "B \<inter> list_bytes (thread_ready_list to) (map general_tag rs) = {}" using d by blast
  qed
  show "saved t q = saved s q \<and> saved_ok t q" if q: "q \<in> set qs" and ok: "saved_ok s q"
  proof -
    have tq: "task s q" by (rule tasks_ok_task [OF tk]) (use q qs in blast)
    have a: "peek32 t q = peek32 s q" using pk [OF q, of 0] by simp
    have "peek32 t (peek32 s q + j) = peek32 s (peek32 s q + j)" if j: "j \<in> {0, 4, 8, 12, 16}" for j
      using saved_cells [OF tq ok j] pk [OF q] by metis
    from this [of 0] this [of 4] this [of 8] this [of 12] this [of 16] show ?thesis
      using ok by (simp add: saved_def saved_ok_def Let_def a)
  qed
qed

lemma work_simulates:
  assumes r: "sched_rel to ps s v" and w: "own_work to ps s t"
  shows "sched_rel to ps t v"
proof -
  let ?qs = "ready v @ blocked v" and ?cur = "running v"
  note rp = rel_parts [OF r]
  define u where "u = s\<lparr>eflags := eflags t, esp := esp t, ebp := ebp t, ebx := ebx t, esi := esi t,
       edi := edi t, eip := eip t, console := console t, ports_out := ports_out t\<rparr>"
  have mem: "kaddr u = kaddr s" "kcell u = kcell s" "peek32 u = peek32 s" unfolding u_def by simp_all
  then have sc: "klist u l xs = klist s l xs" "task u = task s" "tasks_ok u to ks = tasks_ok s to ks" "saved_ok u = saved_ok s"
    "status u = status s" "saved u = saved s" for l xs ks
    by (unfold klist_def task_def [abs_def] tasks_ok_def saved_ok_def [abs_def] status_def [abs_def] saved_def [abs_def]) (simp_all only: mem)
  from w rp(2) obtain B where B: "extends_within B u t" "B \<inter> thread_bytes to (others (this_thread s) ps) = {}"
    "B \<inter> bytes4 (status_field ?cur) = {}" "on_stack t ?cur" by (auto simp: own_work_def u_def)
  have d: "B \<inter> thread_bytes to ?qs = {}" using B(2) others_rel [OF r] by (simp add: thread_bytes_def)
  have tk: "tasks_ok u to (?cur # ?qs)" using rp(1) by (simp add: sched_inv_def sc)
  have qs: "set ?qs \<subseteq> set (?cur # ?qs)" "set (ready v) \<subseteq> set ?qs" by auto
  note x = extends_tasks [OF B(1) tk qs(1) d]
  have kl: "klist t (thread_ready_list to) (map general_tag (ready v))"
    by (rule x(3) [OF qs(2)]) (use rp(1) in \<open>simp add: sched_inv_def sc\<close>)
  have ok: "saved_ok s p" if "p \<in> set ?qs" for p using rp(1) that by (auto simp: sched_inv_def)
  have sv: "saved t p = saved s p \<and> saved_ok t p \<and> status t p = status s p" if "p \<in> set ?qs" for p
    using x(4,5) [OF that] ok [OF that] by (simp add: sc)
  have "sched_inv t to ?cur (ready v) (blocked v)"
    using rp(1) x(1) kl B(4) sv unfolding sched_inv_def by auto
  moreover have "status t ?cur = status s ?cur"
    using extends_peek32 [OF B(1), of "status_field ?cur"] task_cells(2) [OF rp(3), of 4] B(3)
    by (auto simp: status_def status_field_def mem)
  ultimately show ?thesis using r sv by (simp add: sched_rel_def)
qed

lemma resume_cpu: "cpu (resume c s) = c"
  by (simp add: cpu_def resume_def)

lemma preempt_simulates:
  assumes r: "sched_rel to ps s v" and off: "intr_off s" and room: "esp_ok s (running v)"
  shows "\<exists>t v'. schedule to ra s = Inr ((), t) \<and> sched_spec (Preempt (current ra s)) v = Some v' \<and> sched_rel to ps t v' \<and>
    cpu t = contexts v' (running v') \<and> intr_off t"
proof -
  note rp = rel_parts [OF r]
  have st: "status s (running v) = status_code TASK_RUNNING" using r by (simp add: sched_rel_def)
  obtain nxt rest where nr: "ready v @ [running v] = nxt # rest" by (cases "ready v @ [running v]") auto
  have rq: "requeued s (running v) (ready v) = nxt # rest" using st nr by (simp add: requeued_def)
  from schedule_spec [OF rp(1) room off disjI1 [OF st] rq, of ra] st obtain u where
    u: "schedule to ra s = Inr ((), resume (saved u nxt) u)" "saved u (running v) = current ra s"
      "\<forall>p \<in> set (ready v @ blocked v). saved u p = saved s p" "status u nxt = status_code TASK_RUNNING"
      "sched_inv (resume (saved u nxt) u) to nxt rest (blocked v)" "cells_upd (sched_cells to (esp s) (running v) (nxt # rest) nxt) s u"
    by auto
  let ?v = "v\<lparr>running := nxt, ready := rest, contexts := (contexts v)(running v := current ra s)\<rparr>"
  have sp: "sched_spec (Preempt (current ra s)) v = Some ?v" by (simp add: nr)
  have perm: "set (running ?v # ready ?v @ blocked ?v) = set (running v # ready v @ blocked v)"
    using arg_cong [OF nr, of set] by auto
  have nset: "set (nxt # rest) = insert (running v) (set (ready v))" using arg_cong [OF nr, of set] by simp
  have ctx: "saved u p = contexts ?v p" if "p \<in> insert (running v) (set (ready v @ blocked v))" for p
    using that u(2,3) r rp(4) by (auto simp: sched_rel_def)
  have "sched_rel to ps (resume (saved u nxt) u) ?v"
    unfolding sched_rel_def
  proof (intro conjI ballI)
    show "sched_inv (resume (saved u nxt) u) to (running ?v) (ready ?v) (blocked ?v)" using u(5) by simp
    show "status (resume (saved u nxt) u) (running ?v) = status_code TASK_RUNNING" using u(4) by simp
    show "saved (resume (saved u nxt) u) p = contexts ?v p" if "p \<in> set (ready ?v @ blocked ?v)" for p
      unfolding resume_sched by (rule ctx) (use that nset in auto)
    show "set ps = set (running ?v # ready ?v @ blocked ?v)" using r perm by (simp add: sched_rel_def)
  qed
  moreover have "cpu (resume (saved u nxt) u) = contexts ?v (running ?v)"
    unfolding resume_cpu using ctx [of nxt] nset by auto
  moreover have "intr_off (resume (saved u nxt) u)"
    using off cells_upd_regs(6) [OF u(6)] by (simp add: intr_off_def)
  ultimately show ?thesis using u(1) sp by blast
qed

text \<open>With nobody ready, a blocking thread stops the kernel in the scheduler's ASSERT.\<close>

lemma schedule_empty:
  assumes inv: "sched_inv s to cur [] bl" and off: "intr_off s" and nr: "status s cur \<noteq> status_code TASK_RUNNING"
  shows "schedule to ra s = Inl (Panic ''kernel/thread/thread.c'' 117 ''schedule'' ''!list_empty(&thread_ready_list)'')"
proof -
  have tc: "task s cur" by (rule sched_inv_task [OF inv]) simp
  have os: "on_stack s cur" and q: "klist s (thread_ready_list to) []" using inv by (simp_all add: sched_inv_def)
  have k: "kcell s (cur + 4)" using task_cells(2) [OF tc, of 4] by simp
  show ?thesis
    using nr k list_empty_spec [OF q]
    by (simp add: schedule_stages cbind_def cseq_def intr_off_status [OF off] thread_assert_def assert_or_def
      running_current [OF tc os] load32_kcell status_field_def requeue_def status_def when_do_def ret_def pick_def)
qed

lemma thread_block_empty:
  assumes inv: "sched_inv s to cur [] bl" and b: "blocking (status_code st)"
  shows "thread_block to ra st s = Inl (Panic ''kernel/thread/thread.c'' 117 ''schedule'' ''!list_empty(&thread_ready_list)'')"
proof -
  let ?s1 = "poke32 (status_field cur) (status_code st) (irq_off s)"
  have tc: "task s cur" by (rule sched_inv_task [OF inv]) simp
  have k: "kcell s (cur + 4)" using task_cells(2) [OF tc, of 4] by simp
  have i1: "sched_inv ?s1 to cur [] bl" using inv by (intro sched_inv_status) simp
  have off: "intr_off ?s1" by (simp add: intr_off_def irq_off_def flag_off)
  have "status ?s1 cur = status_code st" using k by (simp add: status_def status_field_def peek32_poke32)
  then have nr: "status ?s1 cur \<noteq> status_code TASK_RUNNING" using blocking_not_running [OF b] by simp
  have "on_stack (irq_off s) cur" using inv on_stack_regs [of "irq_off s" s] by (simp add: sched_inv_def)
  then have run: "running_thread (irq_off s) = Inr (cur, irq_off s)" using tc by (intro running_current) simp_all
  show ?thesis
    using b k schedule_empty [OF i1 off nr, of ra] run
    by (simp add: thread_block_def thread_assert_def cbind_def cseq_def assert_or_def intr_disable_eq store32_kcell status_field_def)
qed

lemma block_simulates:
  assumes r: "sched_rel to ps s v" and room: "esp_ok s (running v)" and run: "thread_block to ra st s = Inr (old, t)"
  shows "\<exists>v'. sched_spec (Block st (current ra s)) v = Some v' \<and> sched_rel to ps t v' \<and>
    cpu t = contexts v' (running v') \<and> intr_off t \<and> old = intr_status_of (eflags s)"
proof -
  note rp = rel_parts [OF r]
  have b: "blocking (status_code st)"
    using run by (auto simp: thread_block_def thread_assert_def cseq_def cbind_def assert_or_def split: if_splits)
  show ?thesis
  proof (cases "ready v")
    case Nil
    with thread_block_empty [of s to "running v" "blocked v" st ra] rp(1) b run show ?thesis by simp
  next
    case (Cons nxt rest)
    with rp(1) have inv: "sched_inv s to (running v) (nxt # rest) (blocked v)" by simp
    from thread_block_spec [OF inv room b, of ra] run obtain u where
      u: "t = resume (saved u nxt) u" "old = intr_status_of (eflags s)" "sched_inv t to nxt rest (running v # blocked v)"
        "\<forall>p \<in> set (nxt # rest @ blocked v). saved u p = saved s p" "saved u (running v) = current ra s"
        "status u nxt = status_code TASK_RUNNING" "intr_off u" by auto
    let ?v = "v\<lparr>running := nxt, ready := rest, blocked := running v # blocked v, contexts := (contexts v)(running v := current ra s)\<rparr>"
    have sp: "sched_spec (Block st (current ra s)) v = Some ?v" using b by (simp add: Cons)
    have ctx: "saved u p = contexts ?v p" if "p \<in> set (running v # ready v @ blocked v)" for p
      using that u(4,5) r rp(4) by (auto simp: sched_rel_def Cons)
    have "sched_rel to ps t ?v"
      unfolding sched_rel_def
    proof (intro conjI ballI)
      show "sched_inv t to (running ?v) (ready ?v) (blocked ?v)" using u(3) by simp
      show "status t (running ?v) = status_code TASK_RUNNING" using u(6) by (simp add: u(1))
      show "saved t p = contexts ?v p" if "p \<in> set (ready ?v @ blocked ?v)" for p
        unfolding u(1) resume_sched by (rule ctx) (use that Cons in auto)
      show "set ps = set (running ?v # ready ?v @ blocked ?v)" using r Cons by (auto simp: sched_rel_def)
    qed
    moreover have "cpu t = contexts ?v (running ?v)" unfolding u(1) resume_cpu using ctx [of nxt] Cons by simp
    moreover have "intr_off t" using u(7) by (simp add: u(1) intr_off_def)
    ultimately show ?thesis using sp u(2) by blast
  qed
qed

lemma unblock_simulates:
  assumes r: "sched_rel to ps s v" and p: "p \<in> set ps" and run: "thread_unblock to p s = Inr ((), t)"
  shows "\<exists>v'. sched_spec (Unblock p) v = Some v' \<and> sched_rel to ps t v'"
proof -
  note rp = rel_parts [OF r]
  have pin: "p \<in> set (running v # ready v @ blocked v)" using r p by (simp add: sched_rel_def)
  have tp: "task s p" by (rule sched_inv_task [OF rp(1) pin])
  have k: "kcell s (p + 4)" using task_cells(2) [OF tp, of 4] by simp
  have "blocking (status s p)"
    using run k by (auto simp: thread_unblock_def cbind_def intr_disable_eq status_field_def load32_kcell thread_assert_def
      cseq_def assert_or_def status_def split: if_splits)
  then have "status s p \<noteq> status_code TASK_RUNNING" "status s p \<noteq> status_code TASK_READY" by (auto simp: blocking_def)
  then have pb: "p \<in> set (blocked v)" using r pin rp(1) by (auto simp: sched_rel_def sched_inv_def)
  let ?C = "list_cells (thread_ready_list to) (map general_tag (p # ready v)) \<union> {p + 4}"
  from thread_unblock_spec [OF rp(1) pb] run have
    t: "sched_inv t to (running v) (p # ready v) (remove1 p (blocked v))" "cells_upd ?C s t" by auto
  have tk: "tasks_ok s to (running v # ready v @ blocked v)" using rp(1) by (simp add: sched_inv_def)
  have sub: "set (p # ready v) \<subseteq> set (running v # ready v @ blocked v)" using pb by auto
  have nC: "x + i \<notin> ?C" if "x \<in> set (running v # ready v @ blocked v)" "i < 0x1000" "i \<noteq> 32" "i \<noteq> 36" "i = 4 \<longrightarrow> x \<noteq> p" for x i
    using queue_cells [OF tk that(1,2) sub] that(3-5)
      page_cell_eq [OF task_page [OF tasks_ok_task [OF tk that(1)]] task_page [OF tp] that(2), of 4] by auto
  have rne: "running v \<noteq> p" using rp(4) pb by auto
  have st: "status t (running v) = status s (running v)"
    using cells_upd_other(1) [OF t(2) task_cells(2) [OF rp(3), of 4]] nC [of "running v" 4] rne by (simp add: status_def status_field_def)
  have sv: "saved t x = saved s x" if x: "x \<in> set (ready v @ blocked v)" for x
  proof (rule saved_other(1) [OF t(2)])
    have xin: "x \<in> set (running v # ready v @ blocked v)" using x by simp
    show "task s x" by (rule sched_inv_task [OF rp(1) xin])
    show "saved_ok s x" using rp(1) x by (auto simp: sched_inv_def)
    show "x \<notin> ?C" using nC [OF xin, of 0] by simp
    show "\<forall>j. 64 \<le> j \<longrightarrow> j < 0x1000 \<longrightarrow> x + j \<notin> ?C"
    proof (intro allI impI)
      fix j :: u32 assume "64 \<le> j" and j: "j < 0x1000"
      then have "j \<noteq> 32" "j \<noteq> 36" "j \<noteq> 4" by auto
      then show "x + j \<notin> ?C" using nC [OF xin j] by simp
    qed
  qed
  let ?v = "v\<lparr>ready := p # ready v, blocked := remove1 p (blocked v)\<rparr>"
  have sp: "sched_spec (Unblock p) v = Some ?v" using pb by simp
  have "distinct (blocked v)" using rp(4) by simp
  then have sets: "set (p # ready v @ remove1 p (blocked v)) = set (ready v @ blocked v)" using pb by auto
  have "sched_rel to ps t ?v"
    using t(1) st sv sets r by (auto simp: sched_rel_def)
  then show ?thesis using sp by blast
qed

subsection \<open>Whole executions\<close>

fun context_of :: "sched_event \<Rightarrow> thread_context option" where
  "context_of (Preempt c) = Some c"
| "context_of (Block _ c) = Some c"
| "context_of Work = None"
| "context_of (Unblock _) = None"

lemma step_simulates:
  assumes r: "sched_rel to ps s v" and st: "sched_step to ps s e t"
  shows "\<exists>v'. sched_spec e v = Some v' \<and> sched_rel to ps t v' \<and> (switches e \<longrightarrow> cpu t = contexts v' (running v'))"
  using st
proof cases
  case work
  then show ?thesis using work_simulates [OF r] by simp
next
  case (preempt ra)
  with preempt_simulates [OF r, of ra] rel_parts(2) [OF r] show ?thesis by auto
next
  case (block ra st old)
  with block_simulates [OF r, of ra st old t] rel_parts(2) [OF r] show ?thesis by auto
next
  case (unblock p)
  with unblock_simulates [OF r, of p t] show ?thesis by auto
qed

lemma runs_simulate:
  "sched_runs to ps s es t \<Longrightarrow> sched_rel to ps s v \<Longrightarrow> \<exists>v'. sched_specs es v = Some v' \<and> sched_rel to ps t v'"
proof (induction arbitrary: v rule: sched_runs.induct)
  case (more s e t es u)
  from step_simulates [OF more.prems more.hyps(1)] obtain v' where
    "sched_spec e v = Some v'" "sched_rel to ps t v'" by blast
  with more.IH [of v'] show ?case by simp
qed simp

lemma runs_append:
  "sched_runs to ps s (es @ fs) u \<longleftrightarrow> (\<exists>t. sched_runs to ps s es t \<and> sched_runs to ps t fs u)"
  by (induction es arbitrary: s) (auto simp: sched_runs_Cons)

lemma specs_append: "sched_specs (es @ fs) v = Option.bind (sched_specs es v) (sched_specs fs)"
  by (induction es arbitrary: v) (auto split: bind_splits)

text \<open>The threads on the processor before each event.\<close>

fun on_cpu :: "sched_event list \<Rightarrow> sched_view \<Rightarrow> addr list" where
  "on_cpu [] v = []"
| "on_cpu (e # es) v = running v # (case sched_spec e v of None \<Rightarrow> [] | Some v' \<Rightarrow> on_cpu es v')"

lemma spec_contexts:
  "sched_spec e v = Some v' \<Longrightarrow> q \<noteq> running v \<Longrightarrow> contexts v' q = contexts v q"
  by (cases e) (auto split: list.splits if_splits)

lemma contexts_kept:
  "sched_specs es v = Some v' \<Longrightarrow> q \<notin> set (on_cpu es v) \<Longrightarrow> contexts v' q = contexts v q"
proof (induction es arbitrary: v)
  case (Cons e es)
  then obtain v1 where "sched_spec e v = Some v1" "sched_specs es v1 = Some v'" by (auto split: bind_splits)
  with Cons spec_contexts [of e v v1 q] show ?case by simp
qed simp

lemma spec_saves: "context_of e = Some c \<Longrightarrow> sched_spec e v = Some v' \<Longrightarrow> contexts v' (running v) = c"
  by (cases e) (auto split: list.splits if_splits)

text \<open>Without unblocking, each switch brings a waiting thread one place forward.\<close>

lemma no_switch_running:
  "sched_specs es v = Some v' \<Longrightarrow> \<not> list_ex switches es \<Longrightarrow> running v' = running v"
proof (induction es arbitrary: v)
  case (Cons e es)
  then obtain v1 where v1: "sched_spec e v = Some v1" "sched_specs es v1 = Some v'" by (auto split: bind_splits)
  moreover have "running v1 = running v" using v1(1) Cons.prems(2) by (cases e) (auto split: if_splits)
  ultimately show ?case using Cons by simp
qed simp

lemma switch_spec:
  assumes "sched_spec e v = Some v1" "switches e" "ready v = x # xs"
  shows "running v1 = x \<and> (ready v1 = xs \<or> ready v1 = xs @ [running v])"
  using assms by (cases e) (auto split: if_splits)

lemma waiting_runs:
  "sched_specs es v = Some v' \<Longrightarrow> i < length (ready v) \<Longrightarrow> \<not> list_ex unblocks es \<Longrightarrow>
    length (filter switches es) = Suc i \<Longrightarrow> running v' = ready v ! i"
proof (induction es arbitrary: v i)
  case (Cons e es)
  then obtain v1 where v1: "sched_spec e v = Some v1" "sched_specs es v1 = Some v'" by (auto split: bind_splits)
  show ?case
  proof (cases "switches e")
    case True
    from Cons.prems(2) obtain x xs where r: "ready v = x # xs" by (cases "ready v") auto
    from switch_spec [OF v1(1) True r] have n: "running v1 = x" "ready v1 = xs \<or> ready v1 = xs @ [running v]" by simp_all
    show ?thesis
    proof (cases i)
      case 0
      then have "\<not> list_ex switches es" using Cons.prems(4) True by (auto simp: list_ex_iff filter_empty_conv)
      then show ?thesis using no_switch_running [OF v1(2)] n(1) r 0 by simp
    next
      case (Suc j)
      then have "j < length xs" using Cons.prems(2) r by simp
      moreover have "running v' = ready v1 ! j"
        by (rule Cons.IH [OF v1(2)]) (use Cons.prems(3,4) Suc True n(2) \<open>j < length xs\<close> in auto)
      ultimately show ?thesis using n(2) r Suc by (auto simp: nth_append)
    qed
  next
    case False
    then have "e = Work" using Cons.prems(3) by (cases e) auto
    with v1 Cons show ?thesis by simp
  qed
qed simp

subsection \<open>A concrete kernel\<close>

text \<open>The module's globals in the kernel's image, and the stack \<open>entry.c\<close> sets up.\<close>

definition boot_threads :: thread_objs where
  "boot_threads = \<lparr>main_thread = 0xc0000c00, thread_ready_list = 0xc0000c10, thread_all_list = 0xc0000c20, thread_tag = 0xc0000c04\<rparr>"

lemma mem_inv_indep:
  fixes s :: "'a machine_scheme" and t :: "'b machine_scheme"
  assumes "pmem t = pmem s" "cr3 t = cr3 s"
  shows "mem_inv t mo m = mem_inv s mo m" "cstr t p cs = cstr s p cs"
proof -
  note i = mem_indep [of t s, OF assms]
  have f: "frame_of t = frame_of s" by (rule ext) (simp add: frame_of_def pd_entry_addr_def assms Let_def)
  have g: "table_frame t = table_frame s" by (rule ext) (simp add: table_frame_def pd_entry_addr_def assms)
  have d: "pde_of t = pde_of s" "dir_frame t = dir_frame s"
    by (simp_all add: pde_of_def pd_entry_addr_def dir_frame_def assms fun_eq_iff)
  have b: "blk t p bs = blk s p bs" for p bs by (induction bs arbitrary: p) (simp_all add: i)
  then show "cstr t p cs = cstr s p cs" by (simp add: cstr_def)
  have ff: "frame_fresh t = frame_fresh s" by (rule ext) (simp add: frame_fresh_def f g)
  have "pools_hold t mo m = pools_hold s mo m" by (simp add: pools_hold_def bitmap_holds_def i b)
  moreover have "pools_mapped t m = pools_mapped s m" by (simp add: pools_mapped_def paging_ok_def d f ff)
  ultimately show "mem_inv t mo m = mem_inv s mo m" by (simp add: mem_inv_def)
qed

lemma boot_global_cells:
  "sched_globals boot_threads = {0xc0000c00, 0xc0000c04, 0xc0000c10, 0xc0000c14, 0xc0000c18, 0xc0000c1c, 0xc0000c20, 0xc0000c24, 0xc0000c28, 0xc0000c2c}"
  by (auto simp: sched_globals_eq boot_threads_def list_cells_iff)

lemma span_bounds:
  assumes "unat p + n \<le> 2 ^ 32" "a \<in> span p n"
  shows "unat p \<le> unat a \<and> unat a < unat p + n"
proof -
  from assms(2) obtain i where i: "i < n" "a = p + of_nat i" by (auto simp: span_iff)
  have "unat a = unat p + i" using i assms(1) by (simp add: unat_word_ariths unat_of_nat)
  then show ?thesis using i(1) by simp
qed

lemma boot_thread_bytes:
  assumes "a \<in> thread_bytes boot_threads [0xc009e000]"
  shows "0xc0000c00 \<le> unat a \<and> unat a < 0xc0000c30 \<or> 0xc009e000 \<le> unat a \<and> unat a < 0xc009f000"
proof -
  have "0xc0000c00 \<le> unat a \<and> unat a < 0xc0000c30" if "a \<in> span c 4" "c \<in> sched_globals boot_threads" for c
  proof -
    have "0xc0000c00 \<le> unat c \<and> unat c + 4 \<le> 0xc0000c30" using that(2) unfolding boot_global_cells by auto
    with span_bounds [of c 4 a] that(1) show ?thesis by auto
  qed
  moreover have "0xc009e000 \<le> unat a \<and> unat a < 0xc009f000" if "a \<in> page_bytes 0xc009e000"
    using span_bounds [of "0xc009e000" 4096 a] that by (simp add: page_bytes_def)
  ultimately show ?thesis using assms unfolding thread_bytes_def bytes4_span by auto
qed

lemma boot_mem_bytes:
  assumes "a \<in> mem_bytes boot_mem (init_view 0x2000000)"
  shows "0xc0010000 \<le> unat a \<and> unat a < 0xc0010100 \<or> 0xc009a000 \<le> unat a \<and> unat a < 0xc009b000"
proof -
  let ?m = "init_view 0x2000000"
  have "0xc0010000 \<le> unat a \<and> unat a < 0xc0010100" if "a \<in> pool_cells boot_mem"
  proof -
    from that obtain c where c: "a \<in> span c 4" "c \<in> {0xc0010000, 0xc0010004, 0xc0010008, 0xc0010020, 0xc0010024, 0xc0010028}"
      by (auto simp: pool_cells_def bytes4_span boot_mem_def bits_field_def phy_addr_start_def vaddr_start_def)
    then have "0xc0010000 \<le> unat c \<and> unat c + 4 \<le> 0xc0010100" by auto
    with span_bounds [of c 4 a] c(1) show ?thesis by auto
  qed
  moreover have "0xc009a000 \<le> unat a \<and> unat a < 0xc009b000" if "a \<in> kspan ?m"
    using that span_bounds [of "kbase ?m" 480 a] by (auto simp: kspan_def init_view_32mb)
      (simp_all add: init_view_def MEM_BITMAP_BASE_def boot_32mb Let_def)
  moreover have "0xc009a000 \<le> unat a \<and> unat a < 0xc009b000" if "a \<in> vspan ?m"
    using that span_bounds [of "vbase ?m" 480 a] by (auto simp: vspan_def init_view_32mb)
      (simp_all add: init_view_def MEM_BITMAP_BASE_def boot_32mb Let_def)
  ultimately show ?thesis using assms unfolding mem_bytes_def by blast
qed

lemma boot_tasks:
  assumes "kaddr s = kaddr boot_machine"
  shows "tasks_ok s boot_threads [0xc009e000]"
proof -
  have k: "kcell s a" if "0xc0000000 \<le> a" "a < 0xc0100000" "aligned4 a" for a
    using boot_kcell [OF that] assms by (simp add: kcell_def)
  have "0xc0000000 \<le> g \<and> g < 0xc0100000 \<and> aligned4 g \<and> page_of g = 0xc0000" if "g \<in> sched_globals boot_threads" for g
    using that unfolding boot_global_cells by (auto simp: page_of_def)
  then have "\<forall>g \<in> sched_globals boot_threads. kcell s g \<and> page_of g = 0xc0000" using k by blast
  moreover have "distinct (global_cells boot_threads)"
    by (simp add: global_cells_def boot_threads_def list_nodes_def)
  moreover have "task s 0xc009e000" using k [of "0xc009e000"] by (simp add: task_def kcell_def)
  ultimately show ?thesis unfolding tasks_ok_def by (simp add: page_of_def)
qed

text \<open>The name of the main thread is the empty string at \<open>0xc0000d00\<close>, in memory that is still clear.\<close>

lemma boot_mem_name: "cstr boot_mem_machine 0xc0000d00 []"
proof -
  have kd: "kaddr boot_machine 0xc0000d00" by (rule boot_kaddr) simp_all
  have e: "boot_entry 0xd00 = 0" by (simp add: boot_entry_def PAGE_DIR_TABLE_POS_def)
  have "translate boot_machine 0xc0000d00 = Some 0xd00"
    using boot_page(1) [of "0xc0000"] by (simp add: translate_def phys_addr_def)
  then have "peek8 boot_machine 0xc0000d00 = 0"
    by (simp add: peek8_def boot_machine_pmem boot_pmem_def e)
  then have "peek8 boot_mem_machine 0xc0000d00 = 0"
    using upd_within_peek8 [OF boot_mem_upd kd] by (simp add: in_bytes4)
  then show ?thesis using kd upd_within_kaddr [OF boot_mem_upd] by (simp add: cstr_def)
qed

lemma boot_name_unwritten: "0xc0000d00 \<notin> mem_init_bytes boot_mem 0x2000000"
proof -
  have b: "bitmap_bytes 0x2000000 = 1440" by (simp add: bitmap_bytes_def boot_32mb)
  have "(0xc0000d00 :: u32) \<notin> span MEM_BITMAP_BASE 1440"
    using span_bounds [of MEM_BITMAP_BASE 1440 "0xc0000d00"] by (auto simp: MEM_BITMAP_BASE_def)
  then show ?thesis
    by (simp add: mem_init_bytes_def b mem_cells_def boot_mem_def bits_field_def phy_addr_start_def pool_size_def vaddr_start_def in_bytes4)
qed

text \<open>After \<open>mem_init\<close>, in \<open>init_all\<close>, with the stack pointer in the main thread's page.\<close>

lemma boot_before_threads:
  "\<exists>s :: machine. mem_inv s boot_mem (init_view 0x2000000) \<and> tasks_ok s boot_threads [0xc009e000] \<and>
     on_stack s 0xc009e000 \<and> cstr s 0xc0000d00 [] \<and> esp s = 0xc009efd0 \<and> intr_off s \<and> kaddr s = kaddr boot_machine"
proof -
  from mem_pool_init_spec [OF boot_mem_ready] obtain t c where
    t: "mem_inv t boot_mem (init_view 0x2000000)"
      "upd_within (mem_init_bytes boot_mem 0x2000000) (boot_mem_machine\<lparr>console := console boot_mem_machine @ c\<rparr>) t"
    unfolding mem_init_bytes_def by blast
  let ?s = "t\<lparr>esp := 0xc009efd0, eflags := 2\<rparr>"
  have k: "kaddr ?s = kaddr boot_machine" using upd_within_kaddr [OF t(2)] upd_within_kaddr [OF boot_mem_upd] by simp
  have "mem_inv ?s boot_mem (init_view 0x2000000)" using t(1) mem_inv_indep(1) [of ?s t] by simp
  moreover have "on_stack ?s 0xc009e000" by (simp add: on_stack_def)
  moreover have "cstr t 0xc0000d00 []" by (rule upd_within_cstr [OF t(2)]) (use boot_name_unwritten boot_mem_name mem_inv_indep(2) [of _ boot_mem_machine] in simp_all)
  then have "cstr ?s 0xc0000d00 []" using mem_inv_indep(2) [of ?s t] by simp
  moreover have "intr_off ?s" by (simp add: intr_off_def EFLAGS_IF_def)
  ultimately show ?thesis using boot_tasks [OF k] k by (intro exI [of _ ?s]) simp
qed

lemma boot_apart: "mem_bytes boot_mem (init_view 0x2000000) \<inter> thread_bytes boot_threads [0xc009e000] = {}"
  using boot_mem_bytes boot_thread_bytes by fastforce

lemma boot_name:
  "span 0xc0000d00 (Suc (length [])) \<inter> thread_bytes boot_threads [0xc009e000] = {}"
  "span 0xc0000d00 (Suc (length [])) \<inter> mem_bytes boot_mem (init_view 0x2000000) = {}"
  using boot_thread_bytes [of "0xc0000d00"] boot_mem_bytes [of "0xc0000d00"] by auto

subsection \<open>Properties\<close>

text \<open>
  C20: \<open>thread_init\<close>, called after \<open>mem_init\<close> on the stack of the main thread, establishes
  the invariants of the kernel: two well-formed queues, the ready one empty, the other
  holding the main thread, whose control block is filled in with status RUNNING and
  priority 31. It writes the globals and the page of the main thread only.
\<close>

theorem thread_init_correct:
  assumes "mem_inv s mo m" "tasks_ok s to [cur]" "on_stack s cur"
    and "cstr s nm cs" "length cs \<le> 15" "span nm (Suc (length cs)) \<inter> thread_bytes to [cur] = {}"
    and "mem_bytes mo m \<inter> thread_bytes to [cur] = {}"
  shows "\<exists>t. thread_init to nm s = Inr ((), t) \<and> kernel_inv t mo m to cur [] [] [cur] \<and>
    peek32 t (main_thread to) = cur \<and> pcb t cur cs (status_code TASK_RUNNING) 31 \<and>
    (\<exists>x. upd_within (thread_bytes to [cur]) (s\<lparr>console := x\<rparr>) t)"
  using thread_init_spec [OF assms] by blast

theorem thread_init_correct_witness:
  "\<exists>s t :: machine. thread_init boot_threads 0xc0000d00 s = Inr ((), t) \<and>
     kernel_inv t boot_mem (init_view 0x2000000) boot_threads 0xc009e000 [] [] [0xc009e000]"
proof -
  from boot_before_threads obtain s :: machine where
    s: "mem_inv s boot_mem (init_view 0x2000000)" "tasks_ok s boot_threads [0xc009e000]" "on_stack s 0xc009e000" "cstr s 0xc0000d00 []"
    by blast
  from thread_init_correct [OF s _ boot_name(1) boot_apart] show ?thesis by auto
qed

lemma boot_kernel:
  "\<exists>s :: machine. kernel_inv s boot_mem (init_view 0x2000000) boot_threads 0xc009e000 [] [] [0xc009e000] \<and>
     peek32 s (main_thread boot_threads) = 0xc009e000 \<and> status s 0xc009e000 = status_code TASK_RUNNING \<and>
     esp s = 0xc009efd0 \<and> intr_off s \<and> cstr s 0xc0000d00 [] \<and> pcb s 0xc009e000 [] (status_code TASK_RUNNING) 31 \<and>
     kaddr s = kaddr boot_machine"
proof -
  from boot_before_threads obtain s :: machine where
    s: "mem_inv s boot_mem (init_view 0x2000000)" "tasks_ok s boot_threads [0xc009e000]" "on_stack s 0xc009e000" "cstr s 0xc0000d00 []"
      "esp s = 0xc009efd0" "intr_off s" "kaddr s = kaddr boot_machine"
    by blast
  from thread_init_spec [OF s(1-4) _ boot_name(1) boot_apart] obtain t x where
    t: "kernel_inv t boot_mem (init_view 0x2000000) boot_threads 0xc009e000 [] [] [0xc009e000]"
      "peek32 t (main_thread boot_threads) = 0xc009e000" "pcb t 0xc009e000 [] (status_code TASK_RUNNING) 31"
      "esp t = esp s" "eflags t = eflags s" "upd_within (thread_bytes boot_threads [0xc009e000]) (s\<lparr>console := x\<rparr>) t" by auto
  have "cstr t 0xc0000d00 []" by (rule upd_within_cstr [OF t(6) boot_name(1)]) (use s(4) in simp)
  moreover have "kaddr t = kaddr boot_machine" using s(7) upd_within_kaddr [OF t(6)] by simp
  ultimately show ?thesis using t(1-5) s(5,6) by (intro exI [of _ t]) (simp add: pcb_def intr_off_def)
qed

lemma thread_start_ex:
  assumes "kernel_inv s mo m to cur rdy bl alls"
    and "free_frames (kbits m) \<noteq> {}" "free_frames (vbits m) \<noteq> {}"
    and "cstr s nm cs" "length cs \<le> 15" "span nm (Suc (length cs)) \<inter> mem_bytes mo m = {}"
    and "peek32 s (main_thread to) \<in> set (cur # rdy @ bl)"
  shows "\<exists>p t m'. thread_start mo to ka nm prio fn args s = Inr (p, t) \<and>
    kernel_inv t mo m' to cur (rdy @ [p]) bl (alls @ [p]) \<and> Suc (card (free_frames (kbits m'))) = card (free_frames (kbits m)) \<and>
    saved t p = \<lparr>c_sp = p + 3684, c_ebp = 0, c_ebx = 0, c_edi = 0, c_esi = 0, c_eip = ka\<rparr> \<and>
    peek32 t (p + 3684 + 4) = fn \<and> peek32 t (p + 3684 + 8) = args \<and> pcb t p cs (status_code TASK_READY) (of_int prio) \<and>
    (\<forall>x \<in> set (rdy @ bl). saved t x = saved s x) \<and> status t cur = status s cur \<and> esp t = esp s \<and> eflags t = eflags s"
proof -
  let ?p = "K_HEAD_START + of_nat (first_free (vbits m) * 4096)"
    and ?m = "\<lambda>bs. m\<lparr>kbits := bs, vbits := bm_update (vbits m) (first_free (vbits m)) True\<rparr>"
  have "kbits (?m bs) = bs" for bs by simp
  moreover have "?p + 3684 + 4 = ?p + 3688" "?p + 3684 + 8 = ?p + 3692" by (simp_all only: add.assoc) simp_all
  moreover from thread_start_spec [OF assms, of ka prio fn args] obtain t bs where
    "thread_start mo to ka nm prio fn args s = Inr (?p, t)" "kernel_inv t mo (?m bs) to cur (rdy @ [?p]) bl (alls @ [?p])"
    "Suc (card (free_frames bs)) = card (free_frames (kbits m))"
    "saved t ?p = \<lparr>c_sp = ?p + 3684, c_ebp = 0, c_ebx = 0, c_edi = 0, c_esi = 0, c_eip = ka\<rparr>"
    "peek32 t (?p + 3688) = fn" "peek32 t (?p + 3692) = args" "pcb t ?p cs (status_code TASK_READY) (of_int prio)"
    "\<forall>x \<in> set (rdy @ bl). saved t x = saved s x" "status t cur = status s cur" "esp t = esp s" "eflags t = eflags s"
    by blast
  ultimately show ?thesis by (intro exI [of _ ?p] exI [of _ t] exI [of _ "?m bs"]) (simp only: simp_thms)
qed

text \<open>
  C25: \<open>thread_start\<close> allocates a fresh page for the new thread, fills in its control block,
  prepares the context it will first be switched to (\<open>kernel_thread\<close>, with the function and its
  argument above the return address), and appends it to both queues; the invariants hold
  again with one frame less, and no other thread's saved context changes.
\<close>

theorem thread_start_correct:
  assumes "kernel_inv s mo m to cur rdy bl alls"
    and "free_frames (kbits m) \<noteq> {}" "free_frames (vbits m) \<noteq> {}"
    and "cstr s nm cs" "length cs \<le> 15" "span nm (Suc (length cs)) \<inter> mem_bytes mo m = {}"
    and "peek32 s (main_thread to) \<in> set (cur # rdy @ bl)"
  shows "\<exists>p t m'. thread_start mo to ka nm prio fn args s = Inr (p, t) \<and>
    kernel_inv t mo m' to cur (rdy @ [p]) bl (alls @ [p]) \<and> Suc (card (free_frames (kbits m'))) = card (free_frames (kbits m)) \<and>
    saved t p = \<lparr>c_sp = p + 3684, c_ebp = 0, c_ebx = 0, c_edi = 0, c_esi = 0, c_eip = ka\<rparr> \<and>
    peek32 t (p + 3684 + 4) = fn \<and> peek32 t (p + 3684 + 8) = args \<and> pcb t p cs (status_code TASK_READY) (of_int prio) \<and>
    (\<forall>x \<in> set (rdy @ bl). saved t x = saved s x)"
  using thread_start_ex [OF assms, of ka prio fn args] by blast

theorem thread_start_correct_witness:
  "\<exists>(s :: machine) t p. thread_start boot_mem boot_threads 0xc0002000 0xc0000d00 8 0xc0003000 7 s = Inr (p, t) \<and>
     c_eip (saved t p) = 0xc0002000 \<and> peek32 t (p + 3688) = 0xc0003000 \<and> peek32 t (p + 3692) = 7"
proof -
  from boot_kernel obtain s :: machine where
    s: "kernel_inv s boot_mem (init_view 0x2000000) boot_threads 0xc009e000 [] [] [0xc009e000]"
      "peek32 s (main_thread boot_threads) \<in> set (0xc009e000 # [] @ [])" "cstr s 0xc0000d00 []" by auto
  have f: "free_frames (kbits (init_view 0x2000000)) \<noteq> {}" "free_frames (vbits (init_view 0x2000000)) \<noteq> {}"
    by (simp_all add: init_view_32mb free_frames_fresh lessThan_empty_iff)
  from thread_start_correct [OF s(1) f s(3) _ boot_name(2) s(2), of "0xc0002000" 8 "0xc0003000" 7] obtain p t m' where
    "thread_start boot_mem boot_threads 0xc0002000 0xc0000d00 8 0xc0003000 7 s = Inr (p, t)"
    "saved t p = \<lparr>c_sp = p + 3684, c_ebp = 0, c_ebx = 0, c_edi = 0, c_esi = 0, c_eip = 0xc0002000\<rparr>"
    "peek32 t (p + 3684 + 4) = 0xc0003000 \<and> peek32 t (p + 3684 + 8) = 7" by auto
  then show ?thesis by (intro exI [of _ s] exI [of _ t] exI [of _ p]) (simp add: add.assoc)
qed

text \<open>Two threads: the main one running and one just started.\<close>

lemma boot_two_threads:
  "\<exists>(s :: machine) p. sched_rel boot_threads [0xc009e000, p] s
       \<lparr>running = 0xc009e000, ready = [p], blocked = [], contexts = saved s\<rparr> \<and>
     intr_off s \<and> esp_ok s 0xc009e000 \<and> saved s p = \<lparr>c_sp = p + 3684, c_ebp = 0, c_ebx = 0, c_edi = 0, c_esi = 0, c_eip = 0xc0002000\<rparr>"
proof -
  from boot_kernel obtain s :: machine where
    s: "kernel_inv s boot_mem (init_view 0x2000000) boot_threads 0xc009e000 [] [] [0xc009e000]"
      "peek32 s (main_thread boot_threads) \<in> set (0xc009e000 # [] @ [])" "cstr s 0xc0000d00 []"
      "status s 0xc009e000 = status_code TASK_RUNNING" "esp s = 0xc009efd0" "intr_off s" by auto
  have f: "free_frames (kbits (init_view 0x2000000)) \<noteq> {}" "free_frames (vbits (init_view 0x2000000)) \<noteq> {}"
    by (simp_all add: init_view_32mb free_frames_fresh lessThan_empty_iff)
  have l0: "length ([] :: u8 list) \<le> 15" by simp
  from thread_start_ex [OF s(1) f s(3) l0 boot_name(2) s(2), of "0xc0002000" 8 "0xc0003000" 7] obtain p m' and t :: machine where
    t0: "kernel_inv t boot_mem m' boot_threads 0xc009e000 ([] @ [p]) [] ([0xc009e000] @ [p])"
    and t: "saved t p = \<lparr>c_sp = p + 3684, c_ebp = 0, c_ebx = 0, c_edi = 0, c_esi = 0, c_eip = 0xc0002000\<rparr>"
      "status t 0xc009e000 = status s 0xc009e000" "esp t = esp s" "eflags t = eflags s"
    by blast
  have "sched_rel boot_threads [0xc009e000, p] t \<lparr>running = 0xc009e000, ready = [p], blocked = [], contexts = saved t\<rparr>"
    using t0 t(2) s(4) by (simp add: sched_rel_def kernel_inv_def)
  moreover have "esp_ok t 0xc009e000" using t(3) s(5) by (simp add: esp_ok_def)
  ultimately show ?thesis using t(1,4) s(6) by (intro exI [of _ t] exI [of _ p]) (simp add: intr_off_def)
qed

text \<open>Two preemptions there: the new thread runs, then the main one again.\<close>

lemma boot_two_switches:
  "\<exists>(s :: machine) t u p v1 c c'. sched_rel boot_threads [0xc009e000, p] s
       \<lparr>running = 0xc009e000, ready = [p], blocked = [], contexts = saved s\<rparr> \<and>
     sched_spec (Preempt c) \<lparr>running = 0xc009e000, ready = [p], blocked = [], contexts = saved s\<rparr> = Some v1 \<and>
     sched_step boot_threads [0xc009e000, p] s (Preempt c) t \<and> running v1 = p \<and> p \<noteq> 0xc009e000 \<and>
     sched_step boot_threads [0xc009e000, p] t (Preempt c') u \<and> this_thread u = 0xc009e000 \<and> c = current 0xc0001234 s"
proof -
  let ?to = boot_threads and ?ps = "\<lambda>p. [0xc009e000, p]" and ?v = "\<lambda>p s. \<lparr>running = 0xc009e000, ready = [p], blocked = [], contexts = saved s\<rparr>"
  from boot_two_threads obtain s :: machine and p where
    s: "sched_rel ?to (?ps p) s (?v p s)" "intr_off s" "esp_ok s 0xc009e000" "c_sp (saved s p) = p + 3684" by auto
  have p: "p \<noteq> 0xc009e000" using rel_parts(4) [OF s(1)] by auto
  from preempt_simulates [OF s(1,2), of "0xc0001234"] s(3) obtain t v1 where
    t: "schedule ?to 0xc0001234 s = Inr ((), t)" "sched_spec (Preempt (current 0xc0001234 s)) (?v p s) = Some v1"
      "sched_rel ?to (?ps p) t v1" "cpu t = contexts v1 (running v1)" "intr_off t" by auto
  have v1: "running v1 = p" "ready v1 = [0xc009e000]" "contexts v1 p = saved s p" using t(2) p by auto
  have "esp t = p + 3684" using arg_cong [OF t(4), of c_sp] v1 s(4) by (simp add: cpu_def)
  then have "esp_ok t (running v1)" by (simp add: esp_ok_def v1(1))
  from preempt_simulates [OF t(3,5) this, of "0xc0005678"] obtain u v2 where
    u: "schedule ?to 0xc0005678 t = Inr ((), u)" "sched_spec (Preempt (current 0xc0005678 t)) v1 = Some v2" "sched_rel ?to (?ps p) u v2"
    by blast
  have "sched_step ?to (?ps p) s (Preempt (current 0xc0001234 s)) t"
    by (rule sched_step.preempt [OF s(2) _ t(1)]) (use s(3) rel_parts(2) [OF s(1)] in simp)
  moreover have "sched_step ?to (?ps p) t (Preempt (current 0xc0005678 t)) u"
    by (rule sched_step.preempt [OF t(5) _ u(1)]) (use \<open>esp_ok t (running v1)\<close> rel_parts(2) [OF t(3)] in simp)
  moreover have "this_thread u = 0xc009e000" using rel_parts(2) [OF u(3)] u(2) v1(1,2) by auto
  ultimately show ?thesis using s(1) t(2) v1(1) p by blast
qed

text \<open>
  C10: with interrupts off and room on the stack, \<open>schedule\<close> called by a running thread always
  returns, in the thread that has waited longest: the caller goes to the end of the ready
  queue with its context saved, the first ready thread becomes the running one and the
  processor holds exactly the context that thread was switched out with.
\<close>

theorem schedule_correct:
  assumes "sched_rel to ps s v" "intr_off s" "esp_ok s (running v)"
  shows "\<exists>t v'. schedule to ra s = Inr ((), t) \<and> sched_rel to ps t v' \<and>
    running v' # ready v' = ready v @ [running v] \<and> blocked v' = blocked v \<and>
    contexts v' = (contexts v)(running v := current ra s) \<and> cpu t = contexts v' (running v') \<and> intr_off t"
proof -
  from preempt_simulates [OF assms, of ra] obtain t v' where
    t: "schedule to ra s = Inr ((), t)" "sched_spec (Preempt (current ra s)) v = Some v'" "sched_rel to ps t v'"
      "cpu t = contexts v' (running v')" "intr_off t" by blast
  have "running v' # ready v' = ready v @ [running v]" "blocked v' = blocked v" "contexts v' = (contexts v)(running v := current ra s)"
    using t(2) by (cases "ready v @ [running v]"; auto)+
  with t(1,3-5) show ?thesis by blast
qed

theorem schedule_correct_witness:
  "\<exists>(s :: machine) t p. this_thread s = 0xc009e000 \<and> schedule boot_threads 0xc0001234 s = Inr ((), t) \<and>
     this_thread t = p \<and> p \<noteq> 0xc009e000 \<and> eip t = 0xc0002000"
proof -
  from boot_two_threads obtain s :: machine and p where
    s: "sched_rel boot_threads [0xc009e000, p] s \<lparr>running = 0xc009e000, ready = [p], blocked = [], contexts = saved s\<rparr>"
      "intr_off s" "esp_ok s 0xc009e000" "c_eip (saved s p) = 0xc0002000" by auto
  from schedule_correct [OF s(1,2), of "0xc0001234"] s(3) obtain t v' where
    t: "schedule boot_threads 0xc0001234 s = Inr ((), t)" "sched_rel boot_threads [0xc009e000, p] t v'" "running v' = p"
      "contexts v' = (saved s)(0xc009e000 := current 0xc0001234 s)" "cpu t = contexts v' p" by auto
  have p: "p \<noteq> 0xc009e000" using rel_parts(4) [OF s(1)] by auto
  then have "eip t = 0xc0002000" using t(4) s(4) arg_cong [OF t(5), of c_eip] by (simp add: cpu_def)
  then show ?thesis using t(1,3) p rel_parts(2) [OF s(1)] rel_parts(2) [OF t(2)] by auto
qed

text \<open>
  C3: every execution of the threads, with their own work, preemptions, blocking and
  unblocking in any order, is one of the abstract scheduler: the same events are possible
  there, and at the end the machine's queues, statuses and saved contexts are those of
  the abstract state.
\<close>

theorem scheduler_refines:
  assumes "sched_rel to ps s v" "sched_runs to ps s es t"
  shows "\<exists>v'. sched_specs es v = Some v' \<and> sched_rel to ps t v' \<and> this_thread t = running v'"
  using runs_simulate [OF assms(2,1)] rel_parts(2) by blast

theorem scheduler_refines_witness:
  "\<exists>(s :: machine) u c c' p v v'. sched_runs boot_threads [0xc009e000, p] s [Preempt c, Preempt c'] u \<and>
     sched_specs [Preempt c, Preempt c'] v = Some v' \<and> sched_rel boot_threads [0xc009e000, p] u v' \<and> running v' = 0xc009e000"
proof -
  from boot_two_switches obtain s t u :: machine and p v1 c c' where
    s: "sched_rel boot_threads [0xc009e000, p] s \<lparr>running = 0xc009e000, ready = [p], blocked = [], contexts = saved s\<rparr>"
      "sched_step boot_threads [0xc009e000, p] s (Preempt c) t" "sched_step boot_threads [0xc009e000, p] t (Preempt c') u"
      "this_thread u = 0xc009e000" by blast
  have r: "sched_runs boot_threads [0xc009e000, p] s [Preempt c, Preempt c'] u" using s(2,3) by (auto simp: sched_runs_Cons)
  from scheduler_refines [OF s(1) r] r s(4) show ?thesis by metis
qed

text \<open>
  C9: no ready thread waits for ever while nothing is unblocked: whatever the threads do,
  the \<open>i\<close>-th of the ready queue (counting from 0) is the running one after \<open>i + 1\<close>
  switches.
\<close>

theorem ready_thread_runs:
  assumes "sched_rel to ps s v" "i < length (ready v)" "sched_runs to ps s es t"
    and "\<not> list_ex unblocks es" "length (filter switches es) = Suc i"
  shows "this_thread t = ready v ! i"
proof -
  from runs_simulate [OF assms(3,1)] obtain v' where v': "sched_specs es v = Some v'" "sched_rel to ps t v'" by blast
  have "running v' = ready v ! i" by (rule waiting_runs [OF v'(1) assms(2,4,5)])
  then show ?thesis using rel_parts(2) [OF v'(2)] by simp
qed

theorem ready_thread_runs_witness:
  "\<exists>(s :: machine) t c p. sched_runs boot_threads [0xc009e000, p] s [Preempt c] t \<and> this_thread t = p \<and> p \<noteq> this_thread s"
proof -
  from boot_two_switches obtain s t u :: machine and p v1 c c' where
    s: "sched_rel boot_threads [0xc009e000, p] s \<lparr>running = 0xc009e000, ready = [p], blocked = [], contexts = saved s\<rparr>"
      "sched_step boot_threads [0xc009e000, p] s (Preempt c) t" "p \<noteq> 0xc009e000" by blast
  have r: "sched_runs boot_threads [0xc009e000, p] s [Preempt c] t" using s(2) by (auto simp: sched_runs_Cons)
  from ready_thread_runs [OF s(1) _ r, of 0] have "this_thread t = p" by simp
  with rel_parts(2) [OF s(1)] r s(3) show ?thesis by (intro exI [of _ s] exI [of _ t] exI [of _ c] exI [of _ p]) simp
qed

text \<open>
  C8: a thread switched out, by preemption or by blocking, finds when it next runs exactly
  the stack pointer and registers it was switched out with, and returns to where it
  called: whatever the other threads did in between.
\<close>

theorem context_roundtrip:
  assumes "sched_rel to ps s v" "sched_runs to ps s (e # es @ [e']) t" "context_of e = Some c" "sched_spec e v = Some v1"
    and "running v \<notin> set (on_cpu (es @ [e']) v1)" "switches e'" "this_thread t = running v"
  shows "cpu t = c"
proof -
  from assms(2) obtain s2 where s2: "sched_runs to ps s (e # es) s2" "sched_step to ps s2 e' t"
    using runs_append [of to ps s "e # es" "[e']" t] by (auto simp: sched_runs_Cons)
  from runs_simulate [OF s2(1) assms(1)] obtain v2 where v2: "sched_specs (e # es) v = Some v2" "sched_rel to ps s2 v2" by blast
  from step_simulates [OF v2(2) s2(2)] assms(6) obtain v3 where
    v3: "sched_spec e' v2 = Some v3" "sched_rel to ps t v3" "cpu t = contexts v3 (running v3)" by blast
  have r3: "running v3 = running v" using rel_parts(2) [OF v3(2)] assms(7) by simp
  have "sched_specs (es @ [e']) v1 = Some v3" using v2(1) v3(1) assms(4) by (simp add: specs_append)
  from contexts_kept [OF this assms(5)] show ?thesis using v3(3) r3 spec_saves [OF assms(3,4)] by simp
qed

theorem context_roundtrip_witness:
  "\<exists>(s :: machine) u c c' p. sched_runs boot_threads [0xc009e000, p] s [Preempt c, Preempt c'] u \<and>
     cpu u = current 0xc0001234 s \<and> this_thread u = this_thread s"
proof -
  from boot_two_switches obtain s t u :: machine and p v1 c c' where
    s: "sched_rel boot_threads [0xc009e000, p] s \<lparr>running = 0xc009e000, ready = [p], blocked = [], contexts = saved s\<rparr>"
      "sched_spec (Preempt c) \<lparr>running = 0xc009e000, ready = [p], blocked = [], contexts = saved s\<rparr> = Some v1"
      "sched_step boot_threads [0xc009e000, p] s (Preempt c) t" "sched_step boot_threads [0xc009e000, p] t (Preempt c') u"
      "this_thread u = 0xc009e000" "c = current 0xc0001234 s" "running v1 = p" "p \<noteq> 0xc009e000" by metis
  have r: "sched_runs boot_threads [0xc009e000, p] s (Preempt c # [] @ [Preempt c']) u" using s(3,4) by (auto simp: sched_runs_Cons)
  have n: "running \<lparr>running = 0xc009e000, ready = [p], blocked = [], contexts = saved s\<rparr> \<notin> set (on_cpu ([] @ [Preempt c']) v1)"
    using s(7,8) by (simp split: option.split)
  from context_roundtrip [OF s(1) r _ s(2) n, of c] s(5) have "cpu u = c" by simp
  with s(5,6) rel_parts(2) [OF s(1)] r show ?thesis
    by (intro exI [of _ s] exI [of _ u] exI [of _ c] exI [of _ c'] exI [of _ p]) simp
qed

text \<open>
  C11: blocking and unblocking never fail when they may happen: a running thread that blocks
  while another is ready hands the processor to the first ready thread, and a blocked
  thread that is unblocked goes to the front of the ready queue, the former with
  interrupts off and the old EFLAGS.IF as its result, the latter with EFLAGS as it was.
\<close>

theorem block_unblock_correct:
  assumes "sched_rel to ps s v"
  shows "(esp_ok s (running v) \<and> blocking (status_code st) \<and> ready v = nxt # rest \<longrightarrow>
      (\<exists>t v'. thread_block to ra st s = Inr (intr_status_of (eflags s), t) \<and> sched_rel to ps t v' \<and> intr_off t \<and>
        running v' = nxt \<and> ready v' = rest \<and> blocked v' = running v # blocked v \<and> cpu t = contexts v' nxt)) \<and>
    (p \<in> set (blocked v) \<longrightarrow>
      (\<exists>t. thread_unblock to p s = Inr ((), t) \<and> eflags t = eflags s \<and>
        sched_rel to ps t (v\<lparr>ready := p # ready v, blocked := remove1 p (blocked v)\<rparr>)))"
proof (intro conjI impI)
  note rp = rel_parts [OF assms]
  assume a: "esp_ok s (running v) \<and> blocking (status_code st) \<and> ready v = nxt # rest"
  with rp(1) have i: "sched_inv s to (running v) (nxt # rest) (blocked v)" by simp
  from thread_block_spec [OF i, of st ra] a obtain t where t: "thread_block to ra st s = Inr (intr_status_of (eflags s), t)" by blast
  from block_simulates [OF assms _ t] a obtain v' where
    "sched_spec (Block st (current ra s)) v = Some v'" "sched_rel to ps t v'" "cpu t = contexts v' (running v')" "intr_off t" by blast
  with t a show "\<exists>t v'. thread_block to ra st s = Inr (intr_status_of (eflags s), t) \<and> sched_rel to ps t v' \<and> intr_off t \<and>
        running v' = nxt \<and> ready v' = rest \<and> blocked v' = running v # blocked v \<and> cpu t = contexts v' nxt"
    by (intro exI [of _ t] exI [of _ v']) auto
next
  note rp = rel_parts [OF assms]
  assume p: "p \<in> set (blocked v)"
  from thread_unblock_spec [OF rp(1) p] obtain t where t: "thread_unblock to p s = Inr ((), t)"
    "cells_upd (list_cells (thread_ready_list to) (map general_tag (p # ready v)) \<union> {p + 4}) s t" by blast
  have "p \<in> set ps" using p assms by (simp add: sched_rel_def)
  from unblock_simulates [OF assms this t(1)] p
  have "sched_rel to ps t (v\<lparr>ready := p # ready v, blocked := remove1 p (blocked v)\<rparr>)" by simp
  then show "\<exists>t. thread_unblock to p s = Inr ((), t) \<and> eflags t = eflags s \<and>
        sched_rel to ps t (v\<lparr>ready := p # ready v, blocked := remove1 p (blocked v)\<rparr>)"
    using t cells_upd_regs(6) [OF t(2)] by blast
qed

theorem block_unblock_correct_witness:
  "\<exists>(s :: machine) t p old. thread_block boot_threads 0xc0001234 TASK_BLOCKED s = Inr (old, t) \<and> this_thread t = p \<and>
     p \<noteq> 0xc009e000 \<and> this_thread s = 0xc009e000"
proof -
  from boot_two_threads obtain s :: machine and p where
    s: "sched_rel boot_threads [0xc009e000, p] s \<lparr>running = 0xc009e000, ready = [p], blocked = [], contexts = saved s\<rparr>"
      "esp_ok s 0xc009e000" by auto
  have p: "p \<noteq> 0xc009e000" using rel_parts(4) [OF s(1)] by auto
  have b: "blocking (status_code TASK_BLOCKED)" by (simp add: blocking_def)
  from block_unblock_correct [OF s(1), of TASK_BLOCKED p "[]" "0xc0001234" p] s(2) b obtain t v' where
    t: "thread_block boot_threads 0xc0001234 TASK_BLOCKED s = Inr (intr_status_of (eflags s), t)"
      "sched_rel boot_threads [0xc009e000, p] t v'" "running v' = p" by auto
  then show ?thesis using p rel_parts(2) [OF s(1)] rel_parts(2) [OF t(2)]
    by (intro exI [of _ s] exI [of _ t] exI [of _ p] exI [of _ "intr_status_of (eflags s)"]) simp
qed

text \<open>
  C33: what the scheduler refuses, it refuses by a failed ASSERT: blocking with a status that is not a
  blocked one, blocking when no other thread is ready, and unblocking a thread that is not
  blocked.
\<close>

theorem blocking_errors:
  assumes "sched_rel to ps s v"
  shows "(\<not> blocking (status_code st) \<longrightarrow> thread_block to ra st s = Inl (Panic ''kernel/thread/thread.c'' 131 ''thread_block''
        ''status == TASK_BLOCKED || status == TASK_HANGING || status == TASK_WAITTING'')) \<and>
    (blocking (status_code st) \<and> ready v = [] \<longrightarrow> thread_block to ra st s =
        Inl (Panic ''kernel/thread/thread.c'' 117 ''schedule'' ''!list_empty(&thread_ready_list)'')) \<and>
    (p \<in> set (running v # ready v) \<longrightarrow> thread_unblock to p s = Inl (Panic ''kernel/thread/thread.c'' 149 ''thread_unblock''
        ''pthread->status == TASK_BLOCKED || pthread->status == TASK_HANGING || pthread->status == TASK_WAITTING''))"
proof (intro conjI impI)
  note rp = rel_parts [OF assms]
  show "thread_block to ra st s = Inl (Panic ''kernel/thread/thread.c'' 131 ''thread_block''
        ''status == TASK_BLOCKED || status == TASK_HANGING || status == TASK_WAITTING'')" if "\<not> blocking (status_code st)"
    using that by (simp add: thread_block_def thread_assert_def cseq_def cbind_def assert_or_def)
  show "thread_block to ra st s = Inl (Panic ''kernel/thread/thread.c'' 117 ''schedule'' ''!list_empty(&thread_ready_list)'')"
    if "blocking (status_code st) \<and> ready v = []"
    using thread_block_empty [of s to "running v" "blocked v" st ra] rp(1) that by simp
  assume p: "p \<in> set (running v # ready v)"
  have tp: "task s p" by (rule sched_inv_task [OF rp(1)]) (use p in auto)
  have k: "kcell s (p + 4)" using task_cells(2) [OF tp, of 4] by simp
  have "status s p = status_code TASK_RUNNING \<or> status s p = status_code TASK_READY"
    using p assms rp(1) by (auto simp: sched_rel_def sched_inv_def)
  then have "\<not> blocking (status s p)" by (auto simp: blocking_def)
  then show "thread_unblock to p s = Inl (Panic ''kernel/thread/thread.c'' 149 ''thread_unblock''
        ''pthread->status == TASK_BLOCKED || pthread->status == TASK_HANGING || pthread->status == TASK_WAITTING'')"
    using k by (simp add: thread_unblock_def cbind_def intr_disable_eq status_field_def load32_kcell thread_assert_def
      cseq_def assert_or_def status_def)
qed

theorem blocking_errors_witness:
  "\<exists>s :: machine. thread_unblock boot_threads (this_thread s) s = Inl (Panic ''kernel/thread/thread.c'' 149 ''thread_unblock''
     ''pthread->status == TASK_BLOCKED || pthread->status == TASK_HANGING || pthread->status == TASK_WAITTING'')"
proof -
  from boot_two_threads obtain s :: machine and p where
    s: "sched_rel boot_threads [0xc009e000, p] s \<lparr>running = 0xc009e000, ready = [p], blocked = [], contexts = saved s\<rparr>" by auto
  from blocking_errors [OF s, of _ _ "0xc009e000"] rel_parts(2) [OF s] show ?thesis by (intro exI [of _ s]) simp
qed

end
