(* ===== verification/Sync.thy ===== *)
theory Sync
  imports Scheduling
begin

unbundle bit_operations_syntax

section \<open>Semaphores and locks (kernel/thread/sync.c, include/thread/sync.h)\<close>

text \<open>
  A semaphore is a byte and a list of waiting threads, a lock a semaphore with its holder
  and a count. \<open>semaphore_down\<close> blocks inside a loop; as \<open>thread_block\<close> ends in another
  thread, so does the computation here: it yields \<open>None\<close> when the semaphore has been
  taken, and otherwise the local variables with which \<open>semaphore_down_resume\<close> continues
  once the thread runs again.
\<close>

subsection \<open>Operations\<close>

definition sem_value :: "addr \<Rightarrow> addr" where
  "sem_value p = p"

definition sem_waiters :: "addr \<Rightarrow> addr" where
  "sem_waiters p = p + 4"

definition lock_holder :: "addr \<Rightarrow> addr" where
  "lock_holder p = p"

definition lock_semaphore :: "addr \<Rightarrow> addr" where
  "lock_semaphore p = p + 4"

definition holder_repeat_num :: "addr \<Rightarrow> addr" where
  "holder_repeat_num p = p + 24"

definition sync_assert :: "bool \<Rightarrow> nat \<Rightarrow> string \<Rightarrow> string \<Rightarrow> ('s, unit) comp" where
  "sync_assert b line fn cond = assert_or b (Panic ''kernel/thread/sync.c'' line fn cond)"

definition semaphore_init :: "addr \<Rightarrow> u8 \<Rightarrow> ('z machine_scheme, unit) comp" where
  "semaphore_init psem v = cseq (store8 (sem_value psem) v) (list_init (sem_waiters psem))"

definition lock_init :: "addr \<Rightarrow> ('z machine_scheme, unit) comp" where
  "lock_init lock =
     cseq (store32 (lock_holder lock) NULL)
    (cseq (store32 (holder_repeat_num lock) 0)
          (semaphore_init (lock_semaphore lock) 1))"

text \<open>The locals kept across a switch: the status \<open>semaphore_down\<close> restores and \<open>thread_block\<close>'s.\<close>

type_synonym suspended = "(intr_status \<times> intr_status) option"

text \<open>The loop of \<open>semaphore_down\<close> until it exits or switches, and what follows it.\<close>

definition semaphore_loop :: "thread_objs \<Rightarrow> u32 \<Rightarrow> addr \<Rightarrow> intr_status \<Rightarrow> ('z machine_scheme, suspended) comp" where
  "semaphore_loop to ra psem old_status =
     cbind (load8 (sem_value psem)) (\<lambda>v.
       if v = 0 then
         cbind running_thread (\<lambda>cur.
         cbind (list_find (sem_waiters psem) (general_tag cur)) (\<lambda>r.
         cseq (sync_assert (r = 0) 21 ''semaphore_down'' ''!list_find(&psem->waiters, &cur->general_tag)'')
        (cseq (list_append (sem_waiters psem) (general_tag cur))
        (cbind (thread_block to ra TASK_BLOCKED) (\<lambda>b. ret (Some (old_status, b)))))))
       else
         cseq (store8 (sem_value psem) (v - 1))
        (cbind (load8 (sem_value psem)) (\<lambda>v'.
         cseq (sync_assert (v' = 0) 27 ''semaphore_down'' ''psem->value == 0'')
        (cseq (intr_set_status old_status) (ret None)))))"

definition semaphore_down :: "thread_objs \<Rightarrow> u32 \<Rightarrow> addr \<Rightarrow> ('z machine_scheme, suspended) comp" where
  "semaphore_down to ra psem = cbind intr_disable (semaphore_loop to ra psem)"

definition semaphore_down_resume ::
  "thread_objs \<Rightarrow> u32 \<Rightarrow> addr \<Rightarrow> intr_status \<times> intr_status \<Rightarrow> ('z machine_scheme, suspended) comp" where
  "semaphore_down_resume to ra psem st = cseq (thread_block_resume (snd st)) (semaphore_loop to ra psem (fst st))"

definition semaphore_up :: "thread_objs \<Rightarrow> addr \<Rightarrow> ('z machine_scheme, unit) comp" where
  "semaphore_up to psem =
     cbind intr_disable (\<lambda>old_status.
     cbind (load8 (sem_value psem)) (\<lambda>v.
     cseq (sync_assert (v = 0) 33 ''semaphore_up'' ''psem->value == 0'')
    (cbind (list_empty (sem_waiters psem)) (\<lambda>e.
     cseq (when_do (e = 0) (cbind (list_pop (sem_waiters psem)) (\<lambda>tag. thread_unblock to (tag_entry tag))))
    (cbind (load8 (sem_value psem)) (\<lambda>v.
     cseq (store8 (sem_value psem) (v + 1))
    (cbind (load8 (sem_value psem)) (\<lambda>v'.
     cseq (sync_assert (v' = 1) 41 ''semaphore_up'' ''psem->value == 1'')
    (cseq (intr_set_status old_status) (ret ()))))))))))"

text \<open>What \<open>lock_acquire\<close> does once it has the semaphore.\<close>

definition lock_take :: "addr \<Rightarrow> addr \<Rightarrow> ('z machine_scheme, unit) comp" where
  "lock_take plock cur =
     cseq (store32 (lock_holder plock) cur)
    (cbind (load32 (holder_repeat_num plock)) (\<lambda>n.
     cseq (sync_assert (n = 0) 53 ''lock_acquire'' ''plock->holder_repeat_num == 0'')
          (store32 (holder_repeat_num plock) 1)))"

definition lock_acquire :: "thread_objs \<Rightarrow> u32 \<Rightarrow> addr \<Rightarrow> ('z machine_scheme, suspended) comp" where
  "lock_acquire to ra plock =
     cbind running_thread (\<lambda>cur.
     cbind (load32 (lock_holder plock)) (\<lambda>h.
       if h \<noteq> cur then
         cbind (semaphore_down to ra (lock_semaphore plock)) (\<lambda>r.
           case r of None \<Rightarrow> cseq (lock_take plock cur) (ret None) | Some st \<Rightarrow> ret (Some st))
       else cbind (load32 (holder_repeat_num plock)) (\<lambda>n. cseq (store32 (holder_repeat_num plock) (n + 1)) (ret None))))"

definition lock_acquire_resume ::
  "thread_objs \<Rightarrow> u32 \<Rightarrow> addr \<Rightarrow> addr \<Rightarrow> intr_status \<times> intr_status \<Rightarrow> ('z machine_scheme, suspended) comp" where
  "lock_acquire_resume to ra plock cur st =
     cbind (semaphore_down_resume to ra (lock_semaphore plock) st) (\<lambda>r.
       case r of None \<Rightarrow> cseq (lock_take plock cur) (ret None) | Some st' \<Rightarrow> ret (Some st'))"

definition lock_release :: "thread_objs \<Rightarrow> addr \<Rightarrow> ('z machine_scheme, unit) comp" where
  "lock_release to plock =
     cbind (load32 (lock_holder plock)) (\<lambda>h.
     cbind running_thread (\<lambda>cur.
     cseq (sync_assert (h = cur) 64 ''lock_release'' ''plock->holder == running_thread()'')
    (cbind (load32 (holder_repeat_num plock)) (\<lambda>n.
       if n > 1 then store32 (holder_repeat_num plock) (n - 1)
       else
         cseq (sync_assert (n = 1) 71 ''lock_release'' ''plock->holder_repeat_num == 1'')
        (cseq (store32 (lock_holder plock) NULL)
        (cseq (store32 (holder_repeat_num plock) 0)
              (semaphore_up to (lock_semaphore plock))))))))"

subsection \<open>What a semaphore in memory stands for\<close>

record sem_view =
  sem_count :: u8
  sem_queue :: "addr list"

definition sem_cells :: "addr \<Rightarrow> addr set" where
  "sem_cells psem = insert psem (list_cells (sem_waiters psem) [])"

text \<open>The semaphore's cells are kernel memory, apart from the scheduler's and from the threads' pages.\<close>

definition sem_ok :: "'z machine_scheme \<Rightarrow> thread_objs \<Rightarrow> addr list \<Rightarrow> addr \<Rightarrow> bool" where
  "sem_ok s to ps psem \<longleftrightarrow> (\<forall>c \<in> sem_cells psem. kcell s c \<and> c \<notin> sched_globals to \<and> (\<forall>p \<in> set ps. page_of c \<noteq> page_of p))"

definition sem_rel :: "thread_objs \<Rightarrow> addr list \<Rightarrow> addr \<Rightarrow> 'z machine_scheme \<Rightarrow> sched_view \<Rightarrow> sem_view \<Rightarrow> bool" where
  "sem_rel to ps psem s v q \<longleftrightarrow> sched_rel to ps s v \<and> sem_ok s to ps psem \<and> peek8 s (sem_value psem) = sem_count q \<and>
     klist s (sem_waiters psem) (map general_tag (sem_queue q)) \<and> distinct (sem_queue q) \<and> set (sem_queue q) \<subseteq> set (blocked v)"

text \<open>The semaphore as its users see it; \<open>None\<close>: the kernel stops in an ASSERT.\<close>

fun down_spec :: "thread_context \<Rightarrow> sched_view \<times> sem_view \<Rightarrow> (sched_view \<times> sem_view) option" where
  "down_spec c (v, q) =
     (if sem_count q = 0 then map_option (\<lambda>v'. (v', q\<lparr>sem_queue := sem_queue q @ [running v]\<rparr>)) (sched_spec (Block TASK_BLOCKED c) v)
      else if sem_count q = 1 then Some (v, q\<lparr>sem_count := 0\<rparr>) else None)"

fun up_spec :: "sched_view \<times> sem_view \<Rightarrow> (sched_view \<times> sem_view) option" where
  "up_spec (v, q) =
     (if sem_count q \<noteq> 0 then None
      else case sem_queue q of [] \<Rightarrow> Some (v, q\<lparr>sem_count := 1\<rparr>)
      | w # ws \<Rightarrow> map_option (\<lambda>v'. (v', \<lparr>sem_count = 1, sem_queue = ws\<rparr>)) (sched_spec (Unblock w) v))"

subsection \<open>Frames\<close>

lemma rel_tasks:
  assumes "sched_rel to ps s v"
  shows "tasks_ok s to (running v # ready v @ blocked v)" "set ps = set (running v # ready v @ blocked v)"
    "p \<in> set ps \<Longrightarrow> task s p"
proof -
  show t: "tasks_ok s to (running v # ready v @ blocked v)" "set ps = set (running v # ready v @ blocked v)"
    using assms by (simp_all add: sched_rel_def sched_inv_def)
  show "p \<in> set ps \<Longrightarrow> task s p" unfolding t(2) using tasks_ok_task [OF t(1)] .
qed

text \<open>A change that spares the scheduler's globals, and of the threads' pages touches only queue nodes of threads that are not ready.\<close>

lemma sched_rel_cells:
  assumes r: "sched_rel to ps s v" and u: "cells_upd C s t" and g: "C \<inter> sched_globals to = {}"
    and pc: "\<And>p i. p \<in> set ps \<Longrightarrow> i < 0x1000 \<Longrightarrow> p + i \<in> C \<Longrightarrow> (i = 32 \<or> i = 36) \<and> p \<notin> set (ready v)"
  shows "sched_rel to ps t v"
proof -
  note rp = rel_parts [OF r] and tk = rel_tasks [OF r]
  have q: "klist s (thread_ready_list to) (map general_tag (ready v))" using rp(1) by (simp add: sched_inv_def)
  have "c \<notin> list_cells (thread_ready_list to) (map general_tag (ready v))" if c: "c \<in> C" for c
  proof
    assume "c \<in> list_cells (thread_ready_list to) (map general_tag (ready v))"
    then have "c \<in> list_cells (thread_ready_list to) [] \<or> (\<exists>x \<in> set (ready v). c = x + 32 \<or> c = x + 36)"
      unfolding list_cells_split [of _ "map _ _"] tags_eq by (auto simp: add.assoc)
    then consider "c \<in> list_cells (thread_ready_list to) []" | x i where "x \<in> set (ready v)" "c = x + i" "i = 32 \<or> i = 36" by blast
    then show False
    proof cases
      case 1
      then show False using c g global_heads(1) by blast
    next
      case 2
      then have "x \<in> set ps" "i < 0x1000" unfolding tk(2) by auto
      then show False using pc [of x i] c 2 by blast
    qed
  qed
  then have kl: "klist t (thread_ready_list to) (map general_tag (ready v))" by (intro klist_other [OF u q]) blast
  have nC: "p + i \<notin> C" if "p \<in> set ps" "i < 0x1000" "i \<noteq> 32" "i \<noteq> 36" for p i using pc [OF that(1,2)] that(3,4) by blast
  have st: "status t p = status s p" if "p \<in> set ps" for p
    using cells_upd_other(1) [OF u task_cells(2) [OF tk(3) [OF that], of 4]] nC [OF that, of 4] by (simp add: status_def status_field_def)
  have sv: "saved t p = saved s p" "saved_ok t p" if p: "p \<in> set ps" and ok: "saved_ok s p" for p
  proof -
    have a: "p \<notin> C" using nC [OF p, of 0] by simp
    have b: "\<forall>j. 64 \<le> j \<longrightarrow> j < 0x1000 \<longrightarrow> p + j \<notin> C"
    proof (intro allI impI)
      fix j :: u32 assume "64 \<le> j" and j: "j < 0x1000"
      then have "j \<noteq> 32" "j \<noteq> 36" by auto
      then show "p + j \<notin> C" by (rule nC [OF p j])
    qed
    show "saved t p = saved s p" "saved_ok t p" by (rule saved_other [OF u tk(3) [OF p] ok a b])+
  qed
  have ok: "saved_ok s p" if "p \<in> set (ready v @ blocked v)" for p using rp(1) that by (auto simp: sched_inv_def)
  have "sched_inv t to (running v) (ready v) (blocked v)"
    unfolding sched_inv_def tasks_ok_upd [OF u]
  proof (intro conjI ballI)
    show "tasks_ok s to (running v # ready v @ blocked v)" by (rule tk(1))
    show "klist t (thread_ready_list to) (map general_tag (ready v))" by (rule kl)
    show "on_stack t (running v)" using rp(1) on_stack_regs [of t s] cells_upd_regs(1) [OF u] by (simp add: sched_inv_def)
    fix p
    show "saved_ok t p" if "p \<in> set (ready v)" using that sv(2) ok tk(2) by simp
    show "saved_ok t p" if "p \<in> set (blocked v)" using that sv(2) ok tk(2) by simp
    show "status t p = status_code TASK_READY" if "p \<in> set (ready v)"
      using that st [of p] tk(2) rp(1) by (simp add: sched_inv_def)
    show "blocking (status t p)" if "p \<in> set (blocked v)"
      using that st [of p] tk(2) rp(1) by (simp add: sched_inv_def)
  qed
  moreover have "status t (running v) = status_code TASK_RUNNING" using st [of "running v"] tk(2) r by (simp add: sched_rel_def)
  moreover have "\<forall>p \<in> set (ready v @ blocked v). saved t p = contexts v p"
    using sv(1) ok tk(2) r by (auto simp: sched_rel_def)
  ultimately show ?thesis using tk(2) by (simp add: sched_rel_def)
qed

text \<open>EFLAGS is not part of the relation; \<open>intr_set_status\<close> only changes its interrupt flag.\<close>

lemma eflags_sched [simp]:
  "klist (s\<lparr>eflags := x\<rparr>) l xs = klist s l xs" "task (s\<lparr>eflags := x\<rparr>) = task s" "tasks_ok (s\<lparr>eflags := x\<rparr>) to ps = tasks_ok s to ps"
  "saved_ok (s\<lparr>eflags := x\<rparr>) = saved_ok s" "status (s\<lparr>eflags := x\<rparr>) = status s" "saved (s\<lparr>eflags := x\<rparr>) = saved s"
  "on_stack (s\<lparr>eflags := x\<rparr>) = on_stack s" "esp_ok (s\<lparr>eflags := x\<rparr>) = esp_ok s" "current ra (s\<lparr>eflags := x\<rparr>) = current ra s"
  by (simp_all add: klist_def task_def tasks_ok_def saved_ok_def status_def saved_def on_stack_def esp_ok_def current_def fun_eq_iff)

lemma eflags_rel [simp]:
  "sched_rel to ps (s\<lparr>eflags := x\<rparr>) v = sched_rel to ps s v" "sem_ok (s\<lparr>eflags := x\<rparr>) to ps psem = sem_ok s to ps psem"
  "sem_rel to ps psem (s\<lparr>eflags := x\<rparr>) v q = sem_rel to ps psem s v q"
  by (simp_all add: sched_rel_def sched_inv_def sem_ok_def sem_rel_def)

lemma irq_off_rel [simp]:
  "sched_rel to ps (irq_off s) v = sched_rel to ps s v" "sem_ok (irq_off s) to ps psem = sem_ok s to ps psem"
  "sem_rel to ps psem (irq_off s) v q = sem_rel to ps psem s v q"
  by (simp_all add: irq_off_def)

definition with_if :: "intr_status \<Rightarrow> 'z machine_scheme \<Rightarrow> 'z machine_scheme" where
  "with_if st s = s\<lparr>eflags := (if st = INTR_ON then eflags s OR EFLAGS_IF else eflags s AND NOT EFLAGS_IF)\<rparr>"

lemma with_if_rel [simp]:
  "sched_rel to ps (with_if st s) v = sched_rel to ps s v" "sem_rel to ps psem (with_if st s) v q = sem_rel to ps psem s v q"
  by (simp_all add: with_if_def)

lemma or_and_not: "((e :: u32) AND NOT EFLAGS_IF) OR EFLAGS_IF = e OR EFLAGS_IF"
  by (rule bit_word_eqI) (auto simp: bit_simps)

lemma intr_set_status_off: "intr_set_status st (irq_off s) = Inr (INTR_OFF, with_if st s)"
  by (simp add: intr_set_status_def intr_enable_def intr_disable_def sti_def cli_def intr_get_status_def comp_simps
    irq_off_def with_if_def flag_off or_and_not)

lemma with_if_same: "with_if (intr_status_of (eflags s)) s = s"
proof (cases "EFLAGS_IF AND eflags s = 0")
  case True
  then show ?thesis by (simp add: with_if_def intr_status_of_def flag_already_off)
next
  case False
  then have "eflags s OR EFLAGS_IF = eflags s" using flag_restored [of "eflags s"] or_and_not [of "eflags s"] by simp
  with False show ?thesis by (simp add: with_if_def intr_status_of_def)
qed

lemma sem_rel_parts:
  assumes "sem_rel to ps psem s v q"
  shows "sched_rel to ps s v" "sem_ok s to ps psem" "peek8 s psem = sem_count q" "klist s (sem_waiters psem) (map general_tag (sem_queue q))"
    "kcell s psem" "kaddr s psem"
proof -
  show a: "sched_rel to ps s v" "sem_ok s to ps psem" "peek8 s psem = sem_count q" "klist s (sem_waiters psem) (map general_tag (sem_queue q))"
    using assms by (simp_all add: sem_rel_def sem_value_def)
  then show "kcell s psem" "kaddr s psem" by (simp_all add: sem_ok_def sem_cells_def kcell_def)
qed

lemma sem_cells_page:
  assumes "sem_ok s to ps psem" "c \<in> sem_cells psem" "p \<in> set ps" "task s p" "i < 0x1000"
  shows "p + i \<noteq> c"
  using assms page_cell(1) [OF task_page [OF assms(4)] assms(5)] by (auto simp: sem_ok_def)

lemma waiter_cells:
  assumes "sched_rel to ps s v" "sem_ok s to ps psem" "p \<in> set ps" "i < 0x1000" "set qs \<subseteq> set ps"
  shows "p + i \<in> list_cells (sem_waiters psem) (map general_tag qs) \<longleftrightarrow> p \<in> set qs \<and> (i = 32 \<or> i = 36)"
proof -
  note tk = rel_tasks [OF assms(1)]
  have "p + i \<notin> list_cells (sem_waiters psem) []"
    using sem_cells_page [OF assms(2) _ assms(3) tk(3) [OF assms(3)] assms(4)] by (auto simp: sem_cells_def)
  with tag_cells [OF tk(1) _ assms(4), of p qs "sem_waiters psem" 32] assms(3,5) show ?thesis
    unfolding tags_eq by (simp add: tk(2))
qed

lemma waiter_cells_split:
  "list_cells (sem_waiters psem) (map general_tag qs) = list_cells (sem_waiters psem) [] \<union> (\<Union>x \<in> set qs. {x + 32, x + 36})"
  unfolding list_cells_split [of _ "map _ _"] tags_eq by (auto simp: add.assoc)

lemma waiter_list_apart:
  assumes r: "sched_rel to ps s v" and k: "sem_ok s to ps psem" and sub: "set xs \<subseteq> set ps"
  shows "list_cells (sem_waiters psem) (map general_tag xs) \<inter> sched_globals to = {}"
    "psem \<notin> list_cells (sem_waiters psem) (map general_tag xs)"
proof -
  note tk = rel_tasks [OF r]
  have "x + 32 \<notin> sched_globals to \<and> x + 36 \<notin> sched_globals to" if "x \<in> set xs" for x
    using task_cell_global [OF tk(1), of x] that sub by (auto simp: tk(2))
  moreover have "list_cells (sem_waiters psem) [] \<inter> sched_globals to = {}" using k by (auto simp: sem_ok_def sem_cells_def)
  ultimately show "list_cells (sem_waiters psem) (map general_tag xs) \<inter> sched_globals to = {}" unfolding waiter_cells_split by blast
  have "psem \<noteq> x + 32 \<and> psem \<noteq> x + 36" if "x \<in> set xs" for x
    using sem_cells_page [OF k, of psem x 32] sem_cells_page [OF k, of psem x 36] that sub tk(3) by (auto simp: sem_cells_def)
  moreover have "psem \<notin> list_cells (sem_waiters psem) []" by (simp add: list_cells_iff sem_waiters_def add.assoc)
  ultimately show "psem \<notin> list_cells (sem_waiters psem) (map general_tag xs)" unfolding waiter_cells_split by auto
qed

subsection \<open>The operations do what the abstract ones say\<close>

lemma value_write:
  assumes r: "sem_rel to ps psem s v q" and u: "cells_upd {psem} s t" and x: "peek8 t psem = x"
  shows "sem_rel to ps psem t v (q\<lparr>sem_count := x\<rparr>)"
proof -
  note p = sem_rel_parts [OF r]
  have ng: "psem \<notin> sched_globals to" using p(2) by (simp add: sem_ok_def sem_cells_def)
  have rel: "sched_rel to ps t v"
  proof (rule sched_rel_cells [OF p(1) u])
    show "{psem} \<inter> sched_globals to = {}" using ng by simp
    show "(i = 32 \<or> i = 36) \<and> a \<notin> set (ready v)" if "a \<in> set ps" "i < 0x1000" "a + i \<in> {psem}" for a i
      using sem_cells_page [OF p(2) _ that(1) rel_tasks(3) [OF p(1) that(1)] that(2), of psem] that(3) by (simp add: sem_cells_def)
  qed
  have "klist t (sem_waiters psem) (map general_tag (sem_queue q))"
  proof (rule klist_other [OF u p(4)])
    have sub: "set (sem_queue q) \<subseteq> set ps" using r rel_tasks(2) [OF p(1)] by (auto simp: sem_rel_def)
    show "{psem} \<inter> list_cells (sem_waiters psem) (map general_tag (sem_queue q)) = {}"
      using waiter_list_apart(2) [OF p(1,2) sub] by simp
  qed
  moreover have "sem_ok t to ps psem" using p(2) by (simp add: sem_ok_def cells_upd_kcell [OF u])
  ultimately show ?thesis using rel r x by (simp add: sem_rel_def sem_value_def)
qed

lemma value_update:
  assumes r: "sem_rel to ps psem s v q"
  shows "sem_rel to ps psem (poke8 psem x s) v (q\<lparr>sem_count := x\<rparr>)"
  using value_write [OF r, of "poke8 psem x s" x] cells_upd_poke8 [of s psem 0 x] sem_rel_parts(5,6) [OF r] by (simp add: peek8_poke8)

lemma loop_take:
  assumes r: "sem_rel to ps psem s v q" and c: "sem_count q = 1"
  shows "semaphore_loop to ra psem old (irq_off s) = Inr (None, with_if old (poke8 psem 0 s))"
  using sem_rel_parts [OF r] c intr_set_status_off [of old "poke8 psem 0 s"]
  by (simp add: semaphore_loop_def cbind_def cseq_def sem_value_def load8_kaddr store8_kaddr sync_assert_def assert_or_def
    kaddr_poke8 peek8_poke8 ret_def)

text \<open>
  The scheduler's cells: its globals and cells of the threads' pages, of which queue nodes
  only those of the threads \<open>rs\<close>. They are apart from a semaphore and from the queue
  nodes of other threads.
\<close>

definition sched_side :: "thread_objs \<Rightarrow> addr list \<Rightarrow> addr list \<Rightarrow> addr \<Rightarrow> bool" where
  "sched_side to ps rs c \<longleftrightarrow> c \<in> sched_globals to \<or>
     (\<exists>p i. c = p + i \<and> p \<in> set ps \<and> i < 0x1000 \<and> (i = 32 \<or> i = 36 \<longrightarrow> p \<in> set rs))"

lemma sched_sideI: "p \<in> set ps \<Longrightarrow> i < 0x1000 \<Longrightarrow> (i = 32 \<or> i = 36 \<longrightarrow> p \<in> set rs) \<Longrightarrow> sched_side to ps rs (p + i)"
  unfolding sched_side_def by blast

lemma ready_side:
  assumes "c \<in> list_cells (thread_ready_list to) (map general_tag rs)" "set rs \<subseteq> set ps"
  shows "sched_side to ps rs c"
proof -
  have "c \<in> list_cells (thread_ready_list to) [] \<or> (\<exists>x \<in> set rs. c = x + 32 \<or> c = x + 36)"
    using assms(1) unfolding list_cells_split [of _ "map _ _"] tags_eq by (auto simp: add.assoc)
  then consider "c \<in> sched_globals to" | x i where "x \<in> set rs" "c = x + i" "i = 32 \<or> i = 36" using global_heads(1) by blast
  then show ?thesis
  proof cases
    case 1
    then show ?thesis by (simp add: sched_side_def)
  next
    case 2
    then show ?thesis using assms(2) by (auto intro!: sched_sideI)
  qed
qed

lemma side_apart:
  assumes r: "sched_rel to ps s v" and k: "sem_ok s to ps psem" and q: "set qs \<subseteq> set ps" "set qs \<inter> set rs = {}"
    and D: "\<And>c. c \<in> D \<Longrightarrow> sched_side to ps rs c"
  shows "psem \<notin> D" "D \<inter> list_cells (sem_waiters psem) (map general_tag qs) = {}"
proof -
  note tk = rel_tasks [OF r]
  have a: "c \<notin> D" if c: "c \<in> sem_cells psem" for c
  proof
    assume "c \<in> D"
    from D [OF this] show False
      unfolding sched_side_def using c k sem_cells_page [OF k c] tk(3) by (auto simp: sem_ok_def)
  qed
  have b: "x + j \<notin> D" if x: "x \<in> set qs" "j = 32 \<or> j = 36" for x j
  proof
    assume "x + j \<in> D"
    note D = D [OF this]
    have xin: "x \<in> set ps" and j: "j < 0x1000" using x q(1) by auto
    have "x + j \<notin> sched_globals to" using task_cell_global [OF tk(1) _ j, of x] xin by (simp add: tk(2))
    with D obtain p i where p: "x + j = p + i" "p \<in> set ps" "i < 0x1000" "i = 32 \<or> i = 36 \<longrightarrow> p \<in> set rs"
      unfolding sched_side_def by blast
    then have "x = p" "j = i" using page_cell_eq [OF task_page [OF tk(3) [OF xin]] task_page [OF tk(3) [OF p(2)]] j p(3)] by auto
    then show False using p(4) x q(2) by auto
  qed
  show "psem \<notin> D" using a [of psem] by (simp add: sem_cells_def)
  have "c \<notin> D" if c: "c \<in> list_cells (sem_waiters psem) (map general_tag qs)" for c
  proof -
    from c consider "c \<in> sem_cells psem" | x j where "x \<in> set qs" "c = x + j" "j = 32 \<or> j = 36"
      unfolding waiter_cells_split sem_cells_def by blast
    then show ?thesis using a b by cases auto
  qed
  then show "D \<inter> list_cells (sem_waiters psem) (map general_tag qs) = {}" by blast
qed

lemma sched_cells_side:
  assumes r: "sched_rel to ps s v" and e: "esp_ok s (running v)" and q: "set rs \<subseteq> set ps" "nxt \<in> set ps"
    and c: "c \<in> sched_cells to (esp s) (running v) rs nxt"
  shows "sched_side to ps rs c"
proof -
  note tk = rel_tasks [OF r]
  have cin: "running v \<in> set ps" by (simp add: tk(2))
  from c consider "c \<in> list_cells (thread_ready_list to) (map general_tag rs)" | "c = thread_tag to"
    | i where "c = running v + i" "i \<in> {0, 4, 24}" | "c = nxt + 4" | "c \<in> frame_cells (esp s)"
    unfolding sched_cells_def by force
  then show ?thesis
  proof cases
    case 1
    then show ?thesis by (rule ready_side [OF _ q(1)])
  next
    case 2
    then show ?thesis by (simp add: sched_side_def sched_globals_eq)
  next
    case 3
    then show ?thesis using cin by (auto intro!: sched_sideI)
  next
    case 4
    then show ?thesis using q(2) by (auto intro!: sched_sideI)
  next
    case 5
    from frame_cells_page [OF tk(3) [OF cin] e 5] obtain i where i: "c = running v + i" "64 \<le> i" "i < 0x1000" by blast
    then have "i \<noteq> 32" "i \<noteq> 36" by auto
    then show ?thesis unfolding i(1) using cin i(3) by (intro sched_sideI) auto
  qed
qed

text \<open>Cells of neither the semaphore nor the scheduler nor a thread: the operations keep them.\<close>

definition outside :: "thread_objs \<Rightarrow> addr list \<Rightarrow> addr \<Rightarrow> addr \<Rightarrow> bool" where
  "outside to ps psem c \<longleftrightarrow> c \<notin> sem_cells psem \<and> c \<notin> sched_globals to \<and> (\<forall>p \<in> set ps. page_of c \<noteq> page_of p)"

definition sem_frame :: "thread_objs \<Rightarrow> addr list \<Rightarrow> addr \<Rightarrow> 'z machine_scheme \<Rightarrow> 'z machine_scheme \<Rightarrow> bool" where
  "sem_frame to ps psem s t \<longleftrightarrow> kcell t = kcell s \<and> (\<forall>c. kcell s c \<longrightarrow> outside to ps psem c \<longrightarrow> peek32 t c = peek32 s c)"

lemma sem_frame_trans: "sem_frame to ps psem s t \<Longrightarrow> sem_frame to ps psem t u \<Longrightarrow> sem_frame to ps psem s u"
  by (simp add: sem_frame_def)

lemma sem_frame_eflags [simp]:
  "sem_frame to ps psem (s\<lparr>eflags := x\<rparr>) t = sem_frame to ps psem s t" "sem_frame to ps psem s (t\<lparr>eflags := x\<rparr>) = sem_frame to ps psem s t"
  "sem_frame to ps psem (irq_off s) t = sem_frame to ps psem s t" "sem_frame to ps psem s (with_if st t) = sem_frame to ps psem s t"
  by (simp_all add: sem_frame_def with_if_def)

lemma sem_frame_resume [simp]: "sem_frame to ps psem s (resume c t) = sem_frame to ps psem s t"
  by (simp add: sem_frame_def)

lemma outside_apart:
  assumes "outside to ps psem c" "\<forall>p \<in> set ps. task s p"
  shows "\<not> sched_side to ps rs c" "set xs \<subseteq> set ps \<Longrightarrow> c \<notin> list_cells (sem_waiters psem) (map general_tag xs)"
proof -
  have n: "c \<noteq> p + i" if "p \<in> set ps" "i < 0x1000" for p i
    using assms that page_cell(1) [OF task_page that(2), of s p] by (auto simp: outside_def)
  then show "\<not> sched_side to ps rs c" using assms(1) by (auto simp: sched_side_def outside_def)
  show "c \<notin> list_cells (sem_waiters psem) (map general_tag xs)" if "set xs \<subseteq> set ps"
  proof -
    have "c \<noteq> x + 32 \<and> c \<noteq> x + 36" if "x \<in> set xs" for x using n [of x 32] n [of x 36] that \<open>set xs \<subseteq> set ps\<close> by auto
    then show ?thesis using assms(1) unfolding waiter_cells_split outside_def sem_cells_def by auto
  qed
qed

lemma cells_frame:
  assumes "cells_upd C s t" "\<And>c. c \<in> C \<Longrightarrow> \<not> outside to ps psem c"
  shows "sem_frame to ps psem s t"
  using cells_upd_other(1) [OF assms(1)] cells_upd_kcell [OF assms(1)] assms(2) by (auto simp: sem_frame_def)

lemma value_frame: "sem_ok s to ps psem \<Longrightarrow> sem_frame to ps psem s (poke8 psem x s)"
  using cells_upd_poke8 [of s psem 0 x] by (intro cells_frame) (auto simp: sem_ok_def sem_cells_def outside_def)

text \<open>What the scheduler does to its own cells keeps the semaphore.\<close>

lemma side_kept:
  assumes r: "sched_rel to ps s v" and k: "sem_ok s to ps psem"
    and kl: "klist s (sem_waiters psem) (map general_tag qs)" and q: "set qs \<subseteq> set ps" "set qs \<inter> set rs = {}"
    and u: "cells_upd D s u" and D: "\<And>c. c \<in> D \<Longrightarrow> sched_side to ps rs c"
  shows "klist u (sem_waiters psem) (map general_tag qs)" "peek8 u psem = peek8 s psem" "sem_ok u to ps psem" "sem_frame to ps psem s u"
proof -
  note apart = side_apart [OF r k q D] and tk = rel_tasks(3) [OF r]
  show "klist u (sem_waiters psem) (map general_tag qs)" by (rule klist_other [OF u kl apart(2)])
  have "kcell s psem" using k by (simp add: sem_ok_def sem_cells_def)
  then show "peek8 u psem = peek8 s psem" using cells_upd_other(2) [OF u _ apart(1), of 0] by simp
  show "sem_ok u to ps psem" using k cells_upd_kcell [OF u] by (simp add: sem_ok_def)
  have "\<forall>x \<in> set ps. task s x" using tk by blast
  then show "sem_frame to ps psem s u" using cells_frame [OF u] outside_apart(1) D by blast
qed

text \<open>A thread that has to wait first puts itself on the list of the semaphore.\<close>

lemma wait_enqueue:
  fixes ra :: u32
  assumes r: "sem_rel to ps psem s v q"
  defines "l \<equiv> sem_waiters psem" and "tags \<equiv> map general_tag (sem_queue q @ [running v])"
  shows "running_thread (irq_off s) = Inr (running v, irq_off s)"
    "list_find l (general_tag (running v)) (irq_off s) = Inr (0, irq_off s)"
    "\<exists>t. list_append l (general_tag (running v)) (irq_off s) = Inr ((), t) \<and> klist t l tags \<and> sched_rel to ps t v \<and>
      peek8 t psem = sem_count q \<and> sem_ok t to ps psem \<and> sem_frame to ps psem s t \<and>
      esp t = esp s \<and> current ra t = current ra s \<and> eflags t = eflags (irq_off s)"
proof -
  let ?s0 = "irq_off s" and ?cur = "running v" and ?q = "sem_queue q"
  let ?C = "list_cells l tags"
  note p = sem_rel_parts [OF r] and tk = rel_tasks [OF sem_rel_parts(1) [OF r]] and rp = rel_parts [OF sem_rel_parts(1) [OF r]]
  have dq: "distinct ?q" "set ?q \<subseteq> set (blocked v)" using r by (simp_all add: sem_rel_def)
  have nq: "?cur \<notin> set ?q" "set ?q \<inter> set (ready v) = {}" using dq(2) rp(4) by auto
  have sub: "set (?q @ [?cur]) \<subseteq> set ps" "set ?q \<subseteq> set ps" using dq(2) tk(2) by auto
  have "on_stack s ?cur" using rp(1) by (simp add: sched_inv_def)
  then show "running_thread ?s0 = Inr (?cur, ?s0)" by (intro running_current) (use rp(3) in \<open>simp_all add: irq_off_def on_stack_def\<close>)
  have cin: "?cur \<in> set ps" by (simp add: tk(2))
  have fr: "klist_free ?s0 l (map general_tag ?q) (general_tag ?cur)"
    using waiter_cells [OF p(1,2) cin _ sub(2), of 32] waiter_cells [OF p(1,2) cin _ sub(2), of 36] nq(1)
      task_cells(2) [OF rp(3), of 32] task_cells(2) [OF rp(3), of 36]
    by (simp add: klist_free_def general_tag_def list_cells_def l_def add.commute [of 36])
  have kl: "klist ?s0 l (map general_tag ?q)" using p(4) by (simp add: l_def)
  have "general_tag ?cur \<notin> set (map general_tag ?q)" using nq(1) by (auto simp: general_tag_def)
  then show "list_find l (general_tag ?cur) ?s0 = Inr (0, ?s0)" using list_find_spec [OF kl] by simp
  from list_append_spec [OF kl fr] obtain s1 where
    s1: "list_append l (general_tag ?cur) ?s0 = Inr ((), s1)" "klist s1 l tags" "upd_within (list_bytes l tags) ?s0 s1"
    by (auto simp: tags_def)
  have u1: "cells_upd ?C ?s0 s1" by (rule list_cells_upd [OF s1(3,2)])
  note ng = waiter_list_apart [OF p(1,2) sub(1), folded l_def tags_def]
  have "sched_rel to ps s1 v"
  proof (rule sched_rel_cells [OF _ u1 ng(1)])
    show "sched_rel to ps ?s0 v" using p(1) by simp
    show "(i = 32 \<or> i = 36) \<and> a \<notin> set (ready v)" if "a \<in> set ps" "i < 0x1000" "a + i \<in> ?C" for a i
      using waiter_cells [OF p(1,2) that(1,2) sub(1), folded l_def tags_def] that(3) nq(2) rp(4) by auto
  qed
  moreover have "peek8 s1 psem = sem_count q" using cells_upd_other(2) [OF u1 _ ng(2), of 0] p(3,5) by simp
  moreover have "sem_ok s1 to ps psem" using p(2) cells_upd_kcell [OF u1] by (simp add: sem_ok_def)
  moreover have "sem_frame to ps psem s s1"
    using cells_frame [OF u1, of to ps psem] outside_apart(2) [OF _ _ sub(1), of to psem] tk(3)
    by (fastforce simp: irq_off_def l_def tags_def)
  ultimately show "\<exists>t. list_append l (general_tag ?cur) ?s0 = Inr ((), t) \<and> klist t l tags \<and> sched_rel to ps t v \<and>
      peek8 t psem = sem_count q \<and> sem_ok t to ps psem \<and> sem_frame to ps psem s t \<and>
      esp t = esp s \<and> current ra t = current ra s \<and> eflags t = eflags (irq_off s)"
    using s1(1,2) cells_upd_regs [OF u1] by (intro exI [of _ s1]) (simp add: current_def irq_off_def)
qed

text \<open>Switching to another thread keeps the list and the value.\<close>

lemma wait_block:
  fixes ra :: u32
  assumes r: "sched_rel to ps s v" and k: "sem_ok s to ps psem" and rd: "ready v = nxt # rest" and e: "esp_ok s (running v)"
    and kl: "klist s (sem_waiters psem) (map general_tag qs)" and sub: "set qs \<subseteq> set ps" and dj: "set qs \<inter> set (nxt # rest) = {}"
    and b: "blocking (status_code st)"
  defines "v' \<equiv> v\<lparr>running := nxt, ready := rest, blocked := running v # blocked v, contexts := (contexts v)(running v := current ra s)\<rparr>"
  shows "\<exists>t. thread_block to ra st s = Inr (intr_status_of (eflags s), t) \<and> sched_rel to ps t v' \<and>
    cpu t = contexts v' nxt \<and> intr_off t \<and> klist t (sem_waiters psem) (map general_tag qs) \<and> peek8 t psem = peek8 s psem \<and>
    sem_ok t to ps psem \<and> sem_frame to ps psem s t"
proof -
  let ?cur = "running v"
  note rp = rel_parts [OF r] and tk = rel_tasks [OF r]
  have inv: "sched_inv s to ?cur (nxt # rest) (blocked v)" using rp(1) rd by simp
  from thread_block_spec [OF inv e b, of ra] obtain u where
    u: "thread_block to ra st s = Inr (intr_status_of (eflags s), resume (saved u nxt) u)"
      "cells_upd (sched_cells to (esp s) ?cur (nxt # rest) nxt) (irq_off s) u" by blast
  let ?t = "resume (saved u nxt) u"
  from block_simulates [OF r e u(1)] rd b have
    t: "sched_rel to ps ?t v'" "cpu ?t = contexts v' (running v')" "intr_off ?t" by (auto simp: v'_def)
  have rs: "set (nxt # rest) \<subseteq> set ps" "nxt \<in> set ps" using rd tk(2) by auto
  have i: "sched_rel to ps (irq_off s) v" "sem_ok (irq_off s) to ps psem" "klist (irq_off s) (sem_waiters psem) (map general_tag qs)"
    using r k kl by (simp_all add: sem_ok_def)
  note kept = side_kept [OF i sub dj u(2) sched_cells_side [OF r e rs]]
  have "sem_ok ?t to ps psem" "sem_frame to ps psem s ?t" using kept(3,4) by (simp_all add: sem_ok_def)
  then show ?thesis using t u(1) kept(1,2) by (intro exI [of _ ?t]) (simp add: v'_def)
qed

lemma loop_wait:
  fixes ra :: u32
  assumes r: "sem_rel to ps psem s v q" and c: "sem_count q = 0" and rd: "ready v = nxt # rest" and e: "esp_ok s (running v)"
  defines "v' \<equiv> v\<lparr>running := nxt, ready := rest, blocked := running v # blocked v, contexts := (contexts v)(running v := current ra s)\<rparr>"
    and "q' \<equiv> q\<lparr>sem_queue := sem_queue q @ [running v]\<rparr>"
  shows "\<exists>t. semaphore_loop to ra psem old (irq_off s) = Inr (Some (old, INTR_OFF), t) \<and> sem_rel to ps psem t v' q' \<and>
    cpu t = contexts v' nxt \<and> intr_off t \<and> sem_frame to ps psem s t"
proof -
  note p = sem_rel_parts [OF r] and tk = rel_tasks(2) [OF sem_rel_parts(1) [OF r]] and rp = rel_parts [OF sem_rel_parts(1) [OF r]]
  note w = wait_enqueue [OF r]
  let ?qs = "sem_queue q @ [running v]"
  have dq: "distinct (sem_queue q)" "set (sem_queue q) \<subseteq> set (blocked v)" using r by (simp_all add: sem_rel_def)
  have qs: "set ?qs \<subseteq> set ps" "set ?qs \<inter> set (nxt # rest) = {}" "running v \<notin> set (sem_queue q)" using dq(2) rp(4) tk rd by auto
  from w(3) [of ra] obtain s1 where
    s1: "list_append (sem_waiters psem) (general_tag (running v)) (irq_off s) = Inr ((), s1)"
      "klist s1 (sem_waiters psem) (map general_tag ?qs)" "sched_rel to ps s1 v" "peek8 s1 psem = sem_count q"
      "sem_ok s1 to ps psem" "sem_frame to ps psem s s1" "esp s1 = esp s" "current ra s1 = current ra s" "eflags s1 = eflags (irq_off s)"
    by blast
  have e1: "esp_ok s1 (running v)" using e by (simp add: esp_ok_def s1(7))
  have b: "blocking (status_code TASK_BLOCKED)" by (simp add: blocking_def)
  from wait_block [OF s1(3,5) rd e1 s1(2) qs(1,2) b, of ra] obtain t where
    t: "thread_block to ra TASK_BLOCKED s1 = Inr (intr_status_of (eflags s1), t)" "sched_rel to ps t v'" "cpu t = contexts v' nxt" "intr_off t"
      "klist t (sem_waiters psem) (map general_tag ?qs)" "peek8 t psem = sem_count q" "sem_ok t to ps psem" "sem_frame to ps psem s1 t"
    by (auto simp: v'_def s1(4,8))
  have "intr_status_of (eflags s1) = INTR_OFF" by (simp add: s1(9) intr_status_of_def irq_off_def flag_off)
  then have "semaphore_loop to ra psem old (irq_off s) = Inr (Some (old, INTR_OFF), t)"
    using p(3,6) c w(1,2) s1(1) t(1)
    by (simp add: semaphore_loop_def cbind_def cseq_def sem_value_def load8_kaddr sync_assert_def assert_or_def ret_def)
  moreover have "sem_rel to ps psem t v' q'"
    using t dq qs(3) by (auto simp: sem_rel_def sem_value_def q'_def v'_def)
  moreover have "sem_frame to ps psem s t" by (rule sem_frame_trans [OF s1(6) t(8)])
  ultimately show ?thesis using t(3,4) by blast
qed

text \<open>With no other thread ready there is nothing to switch to: \<open>schedule\<close> stops the kernel.\<close>

lemma loop_alone:
  assumes r: "sem_rel to ps psem s v q" and c: "sem_count q = 0" "ready v = []"
  shows "semaphore_loop to ra psem old (irq_off s) =
    Inl (Panic ''kernel/thread/thread.c'' 117 ''schedule'' ''!list_empty(&thread_ready_list)'')"
proof -
  note p = sem_rel_parts [OF r] and w = wait_enqueue [OF r]
  from w(3) obtain s1 where
    s1: "list_append (sem_waiters psem) (general_tag (running v)) (irq_off s) = Inr ((), s1)" "sched_rel to ps s1 v" by blast
  have "sched_inv s1 to (running v) [] (blocked v)" using rel_parts(1) [OF s1(2)] c(2) by simp
  from thread_block_empty [OF this, of TASK_BLOCKED ra]
  have "thread_block to ra TASK_BLOCKED s1 = Inl (Panic ''kernel/thread/thread.c'' 117 ''schedule'' ''!list_empty(&thread_ready_list)'')"
    by (simp add: blocking_def)
  then show ?thesis
    using p(3,6) c w(1,2) s1(1)
    by (simp add: semaphore_loop_def cbind_def cseq_def sem_value_def load8_kaddr sync_assert_def assert_or_def)
qed

lemma up_empty:
  assumes r: "sem_rel to ps psem s v q" and c: "sem_count q = 0" "sem_queue q = []"
  shows "semaphore_up to psem s = Inr ((), poke8 psem 1 s)"
proof -
  note p = sem_rel_parts [OF r]
  have "list_empty (sem_waiters psem) (irq_off s) = Inr (1, irq_off s)"
    using list_empty_spec [of "irq_off s" "sem_waiters psem" "[]"] p(4) c(2) by simp
  with p(3,6) c(1) intr_restore_irq_off [of "poke8 psem 1 s" s] show ?thesis
    by (simp add: semaphore_up_def cbind_def cseq_def intr_disable_eq sem_value_def load8_kaddr store8_kaddr sync_assert_def assert_or_def
      when_do_def ret_def kaddr_poke8 peek8_poke8)
qed

lemma up_wake:
  assumes r: "sem_rel to ps psem s v q" and c: "sem_count q = 0" "sem_queue q = w # ws"
  shows "\<exists>t. semaphore_up to psem s = Inr ((), t) \<and>
    sem_rel to ps psem t (v\<lparr>ready := w # ready v, blocked := remove1 w (blocked v)\<rparr>) \<lparr>sem_count = 1, sem_queue = ws\<rparr> \<and>
    esp t = esp s \<and> eflags t = eflags s \<and> sem_frame to ps psem s t"
proof -
  let ?s0 = "irq_off s" and ?l = "sem_waiters psem" and ?v = "v\<lparr>ready := w # ready v, blocked := remove1 w (blocked v)\<rparr>"
  let ?C = "list_cells ?l (map general_tag ws)" and ?R = "list_cells (thread_ready_list to) (map general_tag (w # ready v))"
  note p = sem_rel_parts [OF r] and tk = rel_tasks [OF sem_rel_parts(1) [OF r]] and rp = rel_parts [OF sem_rel_parts(1) [OF r]]
  have dq: "distinct (w # ws)" "set (w # ws) \<subseteq> set (blocked v)" using r c(2) by (simp_all add: sem_rel_def)
  have wb: "w \<in> set (blocked v)" "w \<in> set ps" using dq(2) tk(2) by auto
  have sub: "set ws \<subseteq> set ps" "set (w # ready v) \<subseteq> set ps" "set ws \<inter> set (w # ready v) = {}" "set ws \<subseteq> set (remove1 w (blocked v))"
    using dq tk(2) rp(4) wb by auto
  have te: "tag_entry (general_tag w) = w" by (simp add: tag_entry_def general_tag_def)
  have kl: "klist ?s0 ?l (general_tag w # map general_tag ws)" using p(4) c(2) by simp
  from list_empty_spec [OF kl] have ne: "list_empty ?l ?s0 = Inr (0, ?s0)" by simp
  from list_pop_spec [OF kl] obtain s1 where
    s1: "list_pop ?l ?s0 = Inr (general_tag w, s1)" "klist s1 ?l (map general_tag ws)" "upd_within (list_bytes ?l (map general_tag ws)) ?s0 s1"
    by blast
  have u1: "cells_upd ?C ?s0 s1" by (rule list_cells_upd [OF s1(3,2)])
  note ng = waiter_list_apart [OF p(1,2) sub(1)]
  have rel1: "sched_rel to ps s1 v"
  proof (rule sched_rel_cells [OF _ u1 ng(1)])
    show "sched_rel to ps ?s0 v" using p(1) by simp
    show "(i = 32 \<or> i = 36) \<and> a \<notin> set (ready v)" if "a \<in> set ps" "i < 0x1000" "a + i \<in> ?C" for a i
      using waiter_cells [OF p(1,2) that(1,2) sub(1)] that(3) sub(3) by auto
  qed
  have v1: "peek8 s1 psem = 0" using cells_upd_other(2) [OF u1 _ ng(2), of 0] p(3,5) c(1) by simp
  have k1: "sem_ok s1 to ps psem" using p(2) cells_upd_kcell [OF u1] by (simp add: sem_ok_def)
  from thread_unblock_spec [OF rel_parts(1) [OF rel1] wb(1)] obtain s2 where
    s2: "thread_unblock to w s1 = Inr ((), s2)" "cells_upd (?R \<union> {w + 4}) s1 s2" by blast
  from unblock_simulates [OF rel1 wb(2) s2(1)] wb(1) have rel2: "sched_rel to ps s2 ?v" by simp
  have side: "sched_side to ps (w # ready v) c" if "c \<in> ?R \<union> {w + 4}" for c
    using that ready_side [OF _ sub(2)] wb(2) by (auto intro!: sched_sideI)
  note kept = side_kept [OF rel1 k1 s1(2) sub(1,3) s2(2) side]
  have kl2: "klist s2 ?l (map general_tag ws)" and v2: "peek8 s2 psem = 0" and k2: "sem_ok s2 to ps psem" using kept v1 by simp_all
  have "sem_rel to ps psem s2 ?v \<lparr>sem_count = 0, sem_queue = ws\<rparr>"
    using rel2 k2 v2 kl2 dq(1) sub(4) by (simp add: sem_rel_def sem_value_def)
  from value_update [OF this, of 1] have r3: "sem_rel to ps psem (poke8 psem 1 s2) ?v \<lparr>sem_count = 1, sem_queue = ws\<rparr>" by simp
  have k3: "kaddr s2 psem" using k2 by (simp add: sem_ok_def sem_cells_def kcell_def)
  have ef: "eflags s2 = eflags s AND NOT EFLAGS_IF" "esp s2 = esp s"
    using cells_upd_regs(1,6) [OF u1] cells_upd_regs(1,6) [OF s2(2)] by (simp_all add: irq_off_def)
  let ?t = "(poke8 psem 1 s2)\<lparr>eflags := eflags s\<rparr>"
  have "semaphore_up to psem s = Inr ((), ?t)"
    using p(3,6) c(1) ne s1(1) s2(1) te v2 k3 intr_set_status_restores [of "poke8 psem 1 s2" s] ef
    by (simp add: semaphore_up_def cbind_def cseq_def intr_disable_eq sem_value_def load8_kaddr store8_kaddr sync_assert_def assert_or_def
      when_do_def ret_def kaddr_poke8 peek8_poke8)
  moreover have "sem_frame to ps psem s ?t"
  proof -
    have tp: "\<forall>x \<in> set ps. task s x" using tk(3) by blast
    have "sem_frame to ps psem s s1" using cells_frame [OF u1, of to ps psem] outside_apart(2) [OF _ tp sub(1), of to psem] by (fastforce simp: irq_off_def)
    then show ?thesis using kept(4) sem_frame_trans value_frame [OF k2, of 1] by simp blast
  qed
  ultimately show ?thesis using r3 ef(2) by (intro exI [of _ ?t]) simp
qed

subsection \<open>Initialisation, and the operations together\<close>

lemma list_init_heads:
  assumes "\<forall>c \<in> list_cells l []. kcell s c"
  shows "\<exists>t. list_init l s = Inr ((), t) \<and> klist t l [] \<and> cells_upd (list_cells l []) s t"
proof -
  have "\<forall>c \<in> {l, l + 4, l + 8, 12 + l}. kcell s c" using assms by (simp add: list_cells_iff add.commute [of l 12])
  from list_init_spec [OF this] list_cells_upd show ?thesis by blast
qed

lemma semaphore_init_spec:
  assumes r: "sched_rel to ps s v" and k: "sem_ok s to ps psem"
  shows "\<exists>t. semaphore_init psem x s = Inr ((), t) \<and> sem_rel to ps psem t v \<lparr>sem_count = x, sem_queue = []\<rparr> \<and>
    cells_upd (sem_cells psem) s t"
proof -
  let ?s1 = "poke8 psem x s" and ?H = "list_cells (sem_waiters psem) []"
  have kp: "kcell s psem" "kaddr s psem" using k by (simp_all add: sem_ok_def sem_cells_def kcell_def)
  have u1: "cells_upd {psem} s ?s1" using cells_upd_poke8 [OF kp(1), of 0] by simp
  have "\<forall>c \<in> ?H. kcell ?s1 c" using k cells_upd_kcell [OF u1] by (simp add: sem_ok_def sem_cells_def)
  from list_init_heads [OF this] obtain t where
    t: "list_init (sem_waiters psem) ?s1 = Inr ((), t)" "klist t (sem_waiters psem) []" "cells_upd ?H ?s1 t" by blast
  have u: "cells_upd (sem_cells psem) s t" using cells_upd_trans [OF u1 t(3)] by (simp add: sem_cells_def)
  have rel: "sched_rel to ps t v"
  proof (rule sched_rel_cells [OF r u])
    show "sem_cells psem \<inter> sched_globals to = {}" using k by (auto simp: sem_ok_def)
    show "(i = 32 \<or> i = 36) \<and> a \<notin> set (ready v)" if "a \<in> set ps" "i < 0x1000" "a + i \<in> sem_cells psem" for a i
      using sem_cells_page [OF k that(3,1) rel_tasks(3) [OF r that(1)] that(2)] by simp
  qed
  have "psem \<notin> ?H" by (simp add: list_cells_iff sem_waiters_def add.assoc)
  from cells_upd_other(2) [OF t(3) _ this, of 0] kp have "peek8 t psem = x"
    by (simp add: cells_upd_kcell [OF u1] peek8_poke8)
  moreover have "sem_ok t to ps psem" using k cells_upd_kcell [OF u] by (simp add: sem_ok_def)
  moreover have "semaphore_init psem x s = Inr ((), t)"
    using t(1) kp(2) by (simp add: semaphore_init_def sem_value_def store8_kaddr cseq_def cbind_def)
  ultimately show ?thesis using rel t(2) u by (auto simp: sem_rel_def sem_value_def)
qed

lemma down_spec_cases:
  assumes "down_spec c (v, q) = Some (v', q')"
  obtains (take) "sem_count q = 1" "v' = v" "q' = q\<lparr>sem_count := 0\<rparr>"
  | (wait) nxt rest where "sem_count q = 0" "ready v = nxt # rest" "q' = q\<lparr>sem_queue := sem_queue q @ [running v]\<rparr>"
      "v' = v\<lparr>running := nxt, ready := rest, blocked := running v # blocked v, contexts := (contexts v)(running v := c)\<rparr>"
  using assms by (auto split: if_splits list.splits)

lemma loop_refines:
  assumes r: "sem_rel to ps psem s v q" and e: "esp_ok s (running v)" and d: "down_spec (current ra s) (v, q) = Some (v', q')"
  shows "\<exists>t. semaphore_loop to ra psem old (irq_off s) = Inr (if sem_count q = 0 then Some (old, INTR_OFF) else None, t) \<and>
    sem_rel to ps psem t v' q' \<and> sem_frame to ps psem s t \<and> (if sem_count q = 0 then cpu t = contexts v' (running v') \<and> intr_off t
      else t = with_if old (poke8 psem 0 s))"
  using d
proof (cases rule: down_spec_cases)
  case take
  then show ?thesis using loop_take [OF r take(1), of ra old] value_update [OF r, of 0] value_frame [OF sem_rel_parts(2) [OF r], of 0] by simp
next
  case (wait nxt rest)
  from loop_wait [OF r wait(1,2) e, of ra old] wait show ?thesis by auto
qed

lemma down_refines:
  assumes r: "sem_rel to ps psem s v q" and e: "esp_ok s (running v)" and d: "down_spec (current ra s) (v, q) = Some (v', q')"
  shows "\<exists>t. semaphore_down to ra psem s = Inr (if sem_count q = 0 then Some (intr_status_of (eflags s), INTR_OFF) else None, t) \<and>
    sem_rel to ps psem t v' q' \<and> sem_frame to ps psem s t \<and> (if sem_count q = 0 then cpu t = contexts v' (running v') \<and> intr_off t
      else t = poke8 psem 0 s)"
  using loop_refines [OF r e d, of "intr_status_of (eflags s)"] with_if_same [of "poke8 psem 0 s"]
  by (auto simp: semaphore_down_def cbind_def intr_disable_eq)

lemma resume_refines:
  assumes r: "sem_rel to ps psem s v q" and e: "esp_ok s (running v)" and d: "down_spec (current ra s) (v, q) = Some (v', q')"
  shows "\<exists>t. semaphore_down_resume to ra psem (old, INTR_OFF) s = Inr (if sem_count q = 0 then Some (old, INTR_OFF) else None, t) \<and>
    sem_rel to ps psem t v' q' \<and> sem_frame to ps psem s t \<and> (if sem_count q = 0 then cpu t = contexts v' (running v') \<and> intr_off t
      else t = with_if old (poke8 psem 0 s))"
  using loop_refines [OF r e d, of old]
  by (simp add: semaphore_down_resume_def thread_block_resume_def cbind_def cseq_def intr_set_status_def intr_disable_eq ret_def)

lemma up_refines:
  assumes r: "sem_rel to ps psem s v q" and d: "up_spec (v, q) = Some (v', q')"
  shows "\<exists>t. semaphore_up to psem s = Inr ((), t) \<and> sem_rel to ps psem t v' q' \<and> running v' = running v \<and>
    esp t = esp s \<and> eflags t = eflags s \<and> sem_frame to ps psem s t"
proof -
  have c: "sem_count q = 0" using d by (auto split: if_splits)
  show ?thesis
  proof (cases "sem_queue q")
    case Nil
    then have "v' = v" "q' = q\<lparr>sem_count := 1\<rparr>" using d c by auto
    with up_empty [OF r c Nil] value_update [OF r, of 1] value_frame [OF sem_rel_parts(2) [OF r], of 1] show ?thesis by simp
  next
    case (Cons w ws)
    with d c have "v' = v\<lparr>ready := w # ready v, blocked := remove1 w (blocked v)\<rparr>" "q' = \<lparr>sem_count = 1, sem_queue = ws\<rparr>"
      by (auto split: if_splits)
    with up_wake [OF r c Cons] show ?thesis by simp
  qed
qed

text \<open>Where the abstract operation is undefined the kernel stops in an ASSERT.\<close>

lemma down_stops:
  assumes r: "sem_rel to ps psem s v q" and c: "sem_count q \<noteq> 0" "sem_count q \<noteq> 1"
  shows "semaphore_down to ra psem s = Inl (Panic ''kernel/thread/sync.c'' 27 ''semaphore_down'' ''psem->value == 0'')"
  using sem_rel_parts [OF r] c
  by (simp add: semaphore_down_def semaphore_loop_def cbind_def cseq_def intr_disable_eq sem_value_def load8_kaddr store8_kaddr
    sync_assert_def assert_or_def kaddr_poke8 peek8_poke8)

lemma down_alone:
  assumes "sem_rel to ps psem s v q" "sem_count q = 0" "ready v = []"
  shows "semaphore_down to ra psem s =
    Inl (Panic ''kernel/thread/thread.c'' 117 ''schedule'' ''!list_empty(&thread_ready_list)'')"
  using loop_alone [OF assms] by (simp add: semaphore_down_def cbind_def intr_disable_eq)

lemma up_stops:
  assumes r: "sem_rel to ps psem s v q" and c: "sem_count q \<noteq> 0"
  shows "semaphore_up to psem s = Inl (Panic ''kernel/thread/sync.c'' 33 ''semaphore_up'' ''psem->value == 0'')"
  using sem_rel_parts [OF r] c
  by (simp add: semaphore_up_def cbind_def cseq_def intr_disable_eq sem_value_def load8_kaddr sync_assert_def assert_or_def)

end
