(* ===== verification/Lock.thy ===== *)
theory Lock
  imports Sync "HOL-Library.Multiset"
begin

unbundle bit_operations_syntax

section \<open>Locks under every interleaving\<close>

text \<open>
  The threads of a kernel that share one lock, as a state machine: each thread is at one of
  five places in \<open>lock_acquire\<close> and \<open>lock_release\<close>, and a step is what the running thread does
  without being preempted in between, or a scheduling event. The semaphore inside moves by
  \<open>down_spec\<close> and \<open>up_spec\<close>, which the code refines (theory Sync). Mutual exclusion, that no wake-up
  is lost and that no ASSERT of \<open>sync.c\<close> fails are invariants of this machine; the last
  section shows that the code's functions are sequences of its steps.
\<close>

subsection \<open>The state machine\<close>

text \<open>
  \<open>Waiting\<close>: in the loop of \<open>semaphore_down\<close>, blocked or woken up; \<open>Acquired\<close>: past it, the fields of the
  lock not yet set; \<open>Releasing\<close>: the fields cleared, before \<open>semaphore_up\<close>.
\<close>

datatype lock_pc = Outside | Waiting | Acquired | Inside | Releasing

fun owns :: "lock_pc \<Rightarrow> bool" where
  "owns Acquired = True"
| "owns Inside = True"
| "owns Releasing = True"
| "owns Outside = False"
| "owns Waiting = False"

record lock_view =
  lk_sched :: sched_view
  lk_sem :: sem_view
  lk_holder :: addr
  lk_repeat :: u32
  lk_pc :: "addr \<Rightarrow> lock_pc"

abbreviation lk_running :: "lock_view \<Rightarrow> addr" where
  "lk_running L \<equiv> running (lk_sched L)"

inductive lock_step :: "lock_view \<Rightarrow> lock_view \<Rightarrow> bool" where
  enter: "lk_pc L (lk_running L) = Outside \<Longrightarrow> lk_holder L \<noteq> lk_running L \<Longrightarrow>
    down_spec c (lk_sched L, lk_sem L) = Some (v, q) \<Longrightarrow>
    lock_step L (L\<lparr>lk_sched := v, lk_sem := q,
      lk_pc := (lk_pc L)(lk_running L := if sem_count (lk_sem L) = 0 then Waiting else Acquired)\<rparr>)"
| retry: "lk_pc L (lk_running L) = Waiting \<Longrightarrow> down_spec c (lk_sched L, lk_sem L) = Some (v, q) \<Longrightarrow>
    lock_step L (L\<lparr>lk_sched := v, lk_sem := q,
      lk_pc := (lk_pc L)(lk_running L := if sem_count (lk_sem L) = 0 then Waiting else Acquired)\<rparr>)"
| take: "lk_pc L (lk_running L) = Acquired \<Longrightarrow> lk_repeat L = 0 \<Longrightarrow>
    lock_step L (L\<lparr>lk_holder := lk_running L, lk_repeat := 1, lk_pc := (lk_pc L)(lk_running L := Inside)\<rparr>)"
| again: "lk_pc L (lk_running L) = Inside \<Longrightarrow> lk_holder L = lk_running L \<Longrightarrow> lk_repeat L + 1 \<noteq> 0 \<Longrightarrow>
    lock_step L (L\<lparr>lk_repeat := lk_repeat L + 1\<rparr>)"
| leave: "lk_pc L (lk_running L) = Inside \<Longrightarrow> lk_holder L = lk_running L \<Longrightarrow> lk_repeat L > 1 \<Longrightarrow>
    lock_step L (L\<lparr>lk_repeat := lk_repeat L - 1\<rparr>)"
| drop: "lk_pc L (lk_running L) = Inside \<Longrightarrow> lk_holder L = lk_running L \<Longrightarrow> lk_repeat L = 1 \<Longrightarrow>
    lock_step L (L\<lparr>lk_holder := NULL, lk_repeat := 0, lk_pc := (lk_pc L)(lk_running L := Releasing)\<rparr>)"
| up: "lk_pc L (lk_running L) = Releasing \<Longrightarrow> up_spec (lk_sched L, lk_sem L) = Some (v, q) \<Longrightarrow>
    lock_step L (L\<lparr>lk_sched := v, lk_sem := q, lk_pc := (lk_pc L)(lk_running L := Outside)\<rparr>)"
| preempted: "sched_spec (Preempt c) (lk_sched L) = Some v \<Longrightarrow> lock_step L (L\<lparr>lk_sched := v\<rparr>)"
| blocks: "lk_pc L (lk_running L) \<noteq> Waiting \<Longrightarrow> sched_spec (Block st c) (lk_sched L) = Some v \<Longrightarrow>
    lock_step L (L\<lparr>lk_sched := v\<rparr>)"
| unblocks: "p \<notin> set (sem_queue (lk_sem L)) \<Longrightarrow> sched_spec (Unblock p) (lk_sched L) = Some v \<Longrightarrow>
    lock_step L (L\<lparr>lk_sched := v\<rparr>)"

text \<open>A lock just initialised, with every thread outside.\<close>

definition lock_start :: "sched_view \<Rightarrow> lock_view" where
  "lock_start v = \<lparr>lk_sched = v, lk_sem = \<lparr>sem_count = 1, sem_queue = []\<rparr>, lk_holder = NULL, lk_repeat = 0, lk_pc = \<lambda>_. Outside\<rparr>"

definition threads_of :: "sched_view \<Rightarrow> addr list" where
  "threads_of v = running v # ready v @ blocked v"

definition sched_wf :: "sched_view \<Rightarrow> bool" where
  "sched_wf v \<longleftrightarrow> distinct (threads_of v) \<and> NULL \<notin> set (threads_of v)"

subsection \<open>The invariant\<close>

text \<open>Who owns the semaphore, what the two fields of the lock say, and where the waiting threads are.\<close>

definition owner_inv :: "lock_view \<Rightarrow> bool" where
  "owner_inv L \<longleftrightarrow> (if sem_count (lk_sem L) = 0 then \<exists>!t. owns (lk_pc L t) else sem_count (lk_sem L) = 1 \<and> (\<forall>t. \<not> owns (lk_pc L t)))"

definition field_inv :: "lock_view \<Rightarrow> bool" where
  "field_inv L \<longleftrightarrow> (\<forall>t. lk_pc L t = Inside \<longrightarrow> lk_holder L = t \<and> lk_repeat L \<noteq> 0) \<and>
     ((\<forall>t. lk_pc L t \<noteq> Inside) \<longrightarrow> lk_holder L = NULL \<and> lk_repeat L = 0)"

definition wait_inv :: "lock_view \<Rightarrow> bool" where
  "wait_inv L \<longleftrightarrow> distinct (sem_queue (lk_sem L)) \<and> set (sem_queue (lk_sem L)) \<subseteq> set (blocked (lk_sched L)) \<and>
     (\<forall>t \<in> set (sem_queue (lk_sem L)). lk_pc L t = Waiting) \<and>
     (\<forall>t. lk_pc L t = Waiting \<longrightarrow> t \<notin> set (sem_queue (lk_sem L)) \<longrightarrow> t \<in> set (running (lk_sched L) # ready (lk_sched L))) \<and>
     (sem_count (lk_sem L) = 1 \<longrightarrow> sem_queue (lk_sem L) \<noteq> [] \<longrightarrow> (\<exists>t. lk_pc L t = Waiting \<and> t \<notin> set (sem_queue (lk_sem L))))"

definition lock_inv :: "lock_view \<Rightarrow> bool" where
  "lock_inv L \<longleftrightarrow> sched_wf (lk_sched L) \<and> (\<forall>t. lk_pc L t \<noteq> Outside \<longrightarrow> t \<in> set (threads_of (lk_sched L))) \<and>
     owner_inv L \<and> field_inv L \<and> wait_inv L"

lemma spec_threads:
  assumes "sched_spec e v = Some v'"
  shows "set (threads_of v') = set (threads_of v)" "sched_wf v \<Longrightarrow> sched_wf v'"
proof -
  have m: "mset (threads_of v') = mset (threads_of v)"
  proof (cases e)
    case (Preempt c)
    then obtain x xs where x: "ready v @ [running v] = x # xs" "v' = v\<lparr>running := x, ready := xs, contexts := (contexts v)(running v := c)\<rparr>"
      using assms by (auto split: list.splits)
    from arg_cong [OF x(1), of mset] show ?thesis by (simp add: threads_of_def x(2))
  next
    case (Block st c)
    then show ?thesis using assms by (auto simp: threads_of_def split: list.splits if_splits)
  next
    case (Unblock p)
    then show ?thesis using assms by (auto simp: threads_of_def split: if_splits)
  next
    case Work
    then show ?thesis using assms by simp
  qed
  show "set (threads_of v') = set (threads_of v)" by (rule mset_eq_setD [OF m])
  then show "sched_wf v \<Longrightarrow> sched_wf v'" using mset_eq_imp_distinct_iff [OF m] by (simp add: sched_wf_def)
qed

lemma running_not_blocked: "sched_wf v \<Longrightarrow> running v \<notin> set (blocked v)"
  by (simp add: sched_wf_def threads_of_def)

text \<open>The two ways into the semaphore keep the invariant.\<close>

lemma down_inv:
  assumes i: "lock_inv L" and pc: "lk_pc L (lk_running L) = Outside \<or> lk_pc L (lk_running L) = Waiting"
    and d: "down_spec c (lk_sched L, lk_sem L) = Some (v, q)"
  shows "lock_inv (L\<lparr>lk_sched := v, lk_sem := q,
      lk_pc := (lk_pc L)(lk_running L := if sem_count (lk_sem L) = 0 then Waiting else Acquired)\<rparr>)"
  using d
proof (cases rule: down_spec_cases)
  let ?t = "lk_running L" and ?q = "sem_queue (lk_sem L)"
  have wf: "sched_wf (lk_sched L)" and wt: "wait_inv L" and fd: "field_inv L" and ow: "owner_inv L"
    and th: "\<And>t. lk_pc L t \<noteq> Outside \<Longrightarrow> t \<in> set (threads_of (lk_sched L))" using i by (simp_all add: lock_inv_def)
  have tq: "?t \<notin> set ?q" using wt running_not_blocked [OF wf] by (auto simp: wait_inv_def)
  have no: "\<not> owns (lk_pc L ?t)" "lk_pc L ?t \<noteq> Inside" using pc by auto
  have tt: "?t \<in> set (threads_of (lk_sched L))" by (simp add: threads_of_def)
  {
    case take
    let ?L = "L\<lparr>lk_sched := v, lk_sem := q, lk_pc := (lk_pc L)(?t := Acquired)\<rparr>"
    have e: "lk_pc ?L t = Inside \<longleftrightarrow> lk_pc L t = Inside" for t using no by auto
    have "owner_inv ?L" using ow take no by (auto simp: owner_inv_def)
    moreover have "field_inv ?L" using fd unfolding field_inv_def e by simp
    moreover have "wait_inv ?L" using wt tq take by (auto simp: wait_inv_def)
    ultimately show ?thesis using wf th tt take by (simp add: lock_inv_def)
  next
    case (wait nxt rest)
    let ?L = "L\<lparr>lk_sched := v, lk_sem := q, lk_pc := (lk_pc L)(?t := Waiting)\<rparr>"
    have sp: "sched_spec (Block TASK_BLOCKED c) (lk_sched L) = Some v"
      using wait by (simp add: blocking_def)
    have e: "owns (lk_pc ?L t) = owns (lk_pc L t)" "lk_pc ?L t = Inside \<longleftrightarrow> lk_pc L t = Inside" for t using no by auto
    have "owner_inv ?L" using ow wait(1,3) unfolding owner_inv_def e by simp
    moreover have "field_inv ?L" using fd unfolding field_inv_def e by simp
    moreover have "wait_inv ?L" using wt tq wait by (auto simp: wait_inv_def)
    ultimately show ?thesis using spec_threads [OF sp] wf th tt wait(1) by (auto simp: lock_inv_def)
  }
qed

lemma up_inv:
  assumes i: "lock_inv L" and pc: "lk_pc L (lk_running L) = Releasing" and d: "up_spec (lk_sched L, lk_sem L) = Some (v, q)"
  shows "lock_inv (L\<lparr>lk_sched := v, lk_sem := q, lk_pc := (lk_pc L)(lk_running L := Outside)\<rparr>)"
proof -
  let ?t = "lk_running L" and ?L = "L\<lparr>lk_sched := v, lk_sem := q, lk_pc := (lk_pc L)(lk_running L := Outside)\<rparr>"
  have wf: "sched_wf (lk_sched L)" and wt: "wait_inv L" and fd: "field_inv L" and ow: "owner_inv L"
    and th: "\<And>t. lk_pc L t \<noteq> Outside \<Longrightarrow> t \<in> set (threads_of (lk_sched L))" using i by (simp_all add: lock_inv_def)
  have c: "sem_count (lk_sem L) = 0" "sem_count q = 1" using d by (auto split: if_splits list.splits)
  have "\<exists>!t. owns (lk_pc L t)" using ow c(1) by (simp add: owner_inv_def)
  then have others: "\<not> owns (lk_pc L t)" if "t \<noteq> ?t" for t using pc that by (metis owns.simps(3))
  have e: "lk_pc ?L t = Inside \<longleftrightarrow> lk_pc L t = Inside" for t using pc by auto
  have "owner_inv ?L" using others c(2) by (auto simp: owner_inv_def)
  moreover have "field_inv ?L" using fd unfolding field_inv_def e by simp
  moreover have "wait_inv ?L \<and> sched_wf v \<and> set (threads_of v) = set (threads_of (lk_sched L))"
  proof (cases "sem_queue (lk_sem L)")
    case Nil
    then have "v = lk_sched L" "sem_queue q = []" using d c(1) by auto
    then show ?thesis using wt Nil wf by (auto simp: wait_inv_def)
  next
    case (Cons w ws)
    then have u: "sched_spec (Unblock w) (lk_sched L) = Some v" "q = \<lparr>sem_count = 1, sem_queue = ws\<rparr>"
      using d c(1) by (auto split: if_splits)
    have wb: "w \<in> set (blocked (lk_sched L))" using wt Cons by (simp add: wait_inv_def)
    have v: "v = (lk_sched L)\<lparr>ready := w # ready (lk_sched L), blocked := remove1 w (blocked (lk_sched L))\<rparr>" using u(1) wb by simp
    have wt': "w \<noteq> ?t" "lk_pc L w = Waiting" using wb running_not_blocked [OF wf] wt Cons by (auto simp: wait_inv_def)
    have d: "distinct (w # ws)" "set ws \<subseteq> set (blocked (lk_sched L))" "distinct (blocked (lk_sched L))" "\<forall>t \<in> set ws. lk_pc L t = Waiting"
      using wt Cons wf by (auto simp: wait_inv_def sched_wf_def threads_of_def)
    have woken: "\<exists>t. lk_pc ?L t = Waiting \<and> t \<notin> set ws" using wt' d(1) by (intro exI [of _ w]) simp
    have "set ws \<subseteq> set (blocked v)" using d v by auto
    moreover have "\<forall>t \<in> set ws. lk_pc ?L t = Waiting" using d(4) pc by auto
    moreover have "t \<in> set (running v # ready v)" if "lk_pc ?L t = Waiting" "t \<notin> set ws" for t
      using that wt Cons v pc by (cases "t = w") (auto simp: wait_inv_def split: if_splits)
    ultimately have "wait_inv ?L" using d(1) woken unfolding wait_inv_def by (simp add: u(2))
    then show ?thesis using spec_threads [OF u(1)] wf by blast
  qed
  ultimately show ?thesis using th by (simp add: lock_inv_def)
qed

text \<open>Scheduling events of any thread, as long as they do not interfere with the lock's own queue.\<close>

lemma sched_event_inv:
  assumes i: "lock_inv L" and sp: "sched_spec e (lk_sched L) = Some v"
    and b: "set (sem_queue (lk_sem L)) \<subseteq> set (blocked v)"
    and r: "\<And>t. lk_pc L t = Waiting \<Longrightarrow> t \<in> set (running (lk_sched L) # ready (lk_sched L)) \<Longrightarrow> t \<in> set (running v # ready v)"
  shows "lock_inv (L\<lparr>lk_sched := v\<rparr>)"
  using i b r spec_threads [OF sp] by (auto simp: lock_inv_def owner_inv_def field_inv_def wait_inv_def)

text \<open>The owner moves on inside the critical section.\<close>

lemma own_move:
  assumes i: "lock_inv L" and t: "owns (lk_pc L t)" and x: "owns x"
    and f: "x = Inside \<longrightarrow> h = t \<and> n \<noteq> 0" "x \<noteq> Inside \<longrightarrow> h = NULL \<and> n = 0"
  shows "lock_inv (L\<lparr>lk_holder := h, lk_repeat := n, lk_pc := (lk_pc L)(t := x)\<rparr>)"
proof -
  let ?L = "L\<lparr>lk_holder := h, lk_repeat := n, lk_pc := (lk_pc L)(t := x)\<rparr>"
  have ow: "owner_inv L" and wt: "wait_inv L" using i by (simp_all add: lock_inv_def)
  have c: "sem_count (lk_sem L) = 0" and "\<exists>!u. owns (lk_pc L u)" using ow t by (auto simp: owner_inv_def split: if_splits)
  then have others: "\<not> owns (lk_pc L u)" if "u \<noteq> t" for u using t that by blast
  then have oi: "lk_pc L u \<noteq> Inside" if "u \<noteq> t" for u using that by force
  have "owns (lk_pc ?L u) \<longleftrightarrow> u = t" for u using others x by simp
  then have "owner_inv ?L" using c by (auto simp: owner_inv_def)
  moreover have "field_inv ?L" using oi f by (auto simp: field_inv_def)
  moreover have "wait_inv ?L"
  proof -
    have "lk_pc ?L u = Waiting \<longleftrightarrow> lk_pc L u = Waiting" for u using t x by auto
    with wt show ?thesis unfolding wait_inv_def by simp
  qed
  moreover have "u \<in> set (threads_of (lk_sched L))" if "lk_pc ?L u \<noteq> Outside" for u
  proof -
    have "lk_pc L t \<noteq> Outside" using t by auto
    then show ?thesis using i that by (cases "u = t") (simp_all add: lock_inv_def)
  qed
  ultimately show ?thesis using i by (simp add: lock_inv_def)
qed

lemma repeat_inv:
  assumes "lock_inv L" "lk_pc L t = Inside" "n \<noteq> 0"
  shows "lock_inv (L\<lparr>lk_repeat := n\<rparr>)"
proof -
  have "field_inv (L\<lparr>lk_repeat := n\<rparr>)" using assms by (auto simp: lock_inv_def field_inv_def)
  moreover have "owner_inv (L\<lparr>lk_repeat := n\<rparr>)" "wait_inv (L\<lparr>lk_repeat := n\<rparr>)"
    using assms(1) by (simp_all add: lock_inv_def owner_inv_def wait_inv_def)
  ultimately show ?thesis using assms(1) by (simp add: lock_inv_def)
qed

lemma lock_step_inv: "lock_step L L' \<Longrightarrow> lock_inv L \<Longrightarrow> lock_inv L'"
proof (induction rule: lock_step.induct)
  case (enter L c v q)
  then show ?case using down_inv by blast
next
  case (retry L c v q)
  then show ?case using down_inv by blast
next
  case (take L)
  then show ?case by (intro own_move) simp_all
next
  case (again L)
  then show ?case by (intro repeat_inv) simp_all
next
  case (leave L)
  have "lk_repeat L - 1 \<noteq> 0" using leave.hyps(3) by auto
  then show ?case using leave by (intro repeat_inv)
next
  case (drop L)
  then show ?case by (intro own_move) simp_all
next
  case (up L v q)
  then show ?case using up_inv by blast
next
  case (preempted c L v)
  then obtain x xs where x: "ready (lk_sched L) @ [running (lk_sched L)] = x # xs"
    "v = (lk_sched L)\<lparr>running := x, ready := xs, contexts := (contexts (lk_sched L))(running (lk_sched L) := c)\<rparr>"
    by (auto split: list.splits)
  have e: "set (running v # ready v) = set (running (lk_sched L) # ready (lk_sched L))" "blocked v = blocked (lk_sched L)"
    using arg_cong [OF x(1), of set] by (simp_all add: x(2))
  show ?case
    by (rule sched_event_inv [OF preempted.prems preempted.hyps]) (use preempted.prems e in \<open>simp_all add: lock_inv_def wait_inv_def\<close>)
next
  case (blocks L st c v)
  then obtain x xs where x: "ready (lk_sched L) = x # xs" "running v = x" "ready v = xs"
    "blocked v = running (lk_sched L) # blocked (lk_sched L)" by (auto split: list.splits if_splits)
  show ?case
  proof (rule sched_event_inv [OF blocks.prems blocks.hyps(2)])
    show "set (sem_queue (lk_sem L)) \<subseteq> set (blocked v)" using blocks.prems x(4) by (auto simp: lock_inv_def wait_inv_def)
    show "t \<in> set (running v # ready v)" if "lk_pc L t = Waiting" "t \<in> set (running (lk_sched L) # ready (lk_sched L))" for t
      using that x blocks.hyps(1) by auto
  qed
next
  case (unblocks p L v)
  then have x: "p \<in> set (blocked (lk_sched L))" "running v = running (lk_sched L)" "ready v = p # ready (lk_sched L)"
    "blocked v = remove1 p (blocked (lk_sched L))" by (auto split: if_splits)
  have d: "distinct (blocked (lk_sched L))" using unblocks.prems by (simp add: lock_inv_def sched_wf_def threads_of_def)
  show ?case
  proof (rule sched_event_inv [OF unblocks.prems unblocks.hyps(2)])
    show "set (sem_queue (lk_sem L)) \<subseteq> set (blocked v)"
      using unblocks.prems unblocks.hyps(1) x(4) d by (auto simp: lock_inv_def wait_inv_def)
    show "t \<in> set (running v # ready v)" if "lk_pc L t = Waiting" "t \<in> set (running (lk_sched L) # ready (lk_sched L))" for t
      using that x by auto
  qed
qed

lemma lock_start_inv: "sched_wf v \<Longrightarrow> lock_inv (lock_start v)"
  by (simp add: lock_inv_def lock_start_def owner_inv_def field_inv_def wait_inv_def)

interpretation lm: step_invariant lock_step "\<lambda>L. \<exists>v. sched_wf v \<and> L = lock_start v" lock_inv
  by unfold_locales (auto intro: lock_start_inv lock_step_inv)

subsection \<open>The code's functions are sequences of steps\<close>

definition lock_ok :: "'z machine_scheme \<Rightarrow> thread_objs \<Rightarrow> addr list \<Rightarrow> addr \<Rightarrow> bool" where
  "lock_ok s to ps plock \<longleftrightarrow> (\<forall>c \<in> {lock_holder plock, holder_repeat_num plock}. kcell s c \<and> c \<notin> sched_globals to \<and>
     (\<forall>p \<in> set ps. page_of c \<noteq> page_of p))"

definition lock_rel :: "thread_objs \<Rightarrow> addr list \<Rightarrow> addr \<Rightarrow> 'z machine_scheme \<Rightarrow> lock_view \<Rightarrow> bool" where
  "lock_rel to ps plock s L \<longleftrightarrow> sem_rel to ps (lock_semaphore plock) s (lk_sched L) (lk_sem L) \<and> lock_ok s to ps plock \<and>
     peek32 s (lock_holder plock) = lk_holder L \<and> peek32 s (holder_repeat_num plock) = lk_repeat L"

lemma lock_outside:
  assumes "lock_ok s to ps plock" "c \<in> {lock_holder plock, holder_repeat_num plock}"
  shows "kcell s c" "outside to ps (lock_semaphore plock) c"
proof -
  show "kcell s c" using assms by (auto simp: lock_ok_def)
  have "c \<notin> sem_cells (lock_semaphore plock)"
    using assms(2) by (auto simp: sem_cells_def list_cells_iff sem_waiters_def lock_semaphore_def lock_holder_def holder_repeat_num_def)
  then show "outside to ps (lock_semaphore plock) c" using assms by (auto simp: outside_def lock_ok_def)
qed

text \<open>The semaphore's operations keep the fields of the lock, and writing a field keeps the semaphore.\<close>

lemma lock_rel_frame:
  assumes "lock_rel to ps plock s L" "sem_rel to ps (lock_semaphore plock) t v q" "sem_frame to ps (lock_semaphore plock) s t"
  shows "lock_rel to ps plock t (L\<lparr>lk_sched := v, lk_sem := q, lk_pc := f\<rparr>)"
proof -
  have k: "lock_ok s to ps plock" using assms(1) by (simp add: lock_rel_def)
  have "peek32 t c = peek32 s c" if "c \<in> {lock_holder plock, holder_repeat_num plock}" for c
    using assms(3) lock_outside [OF k that] by (simp add: sem_frame_def)
  moreover have "lock_ok t to ps plock" using k assms(3) by (simp add: lock_ok_def sem_frame_def)
  ultimately show ?thesis using assms(1,2) by (simp add: lock_rel_def)
qed

lemma sem_rel_outside:
  assumes r: "sem_rel to ps psem s v q" and k: "kcell s c" "outside to ps psem c"
  shows "sem_rel to ps psem (poke32 c x s) v q"
proof -
  note p = sem_rel_parts [OF r] and tk = rel_tasks [OF sem_rel_parts(1) [OF r]]
  have u: "cells_upd {c} s (poke32 c x s)" by (rule cells_upd_poke [OF k(1)])
  have tp: "\<forall>x \<in> set ps. task s x" using tk(3) by blast
  have rel: "sched_rel to ps (poke32 c x s) v"
  proof (rule sched_rel_cells [OF p(1) u])
    show "{c} \<inter> sched_globals to = {}" using k(2) by (simp add: outside_def)
    show "(i = 32 \<or> i = 36) \<and> a \<notin> set (ready v)" if "a \<in> set ps" "i < 0x1000" "a + i \<in> {c}" for a i
      using that k(2) page_cell(1) [OF task_page [OF tk(3) [OF that(1)]] that(2)] by (auto simp: outside_def)
  qed
  have sub: "set (sem_queue q) \<subseteq> set ps" using r tk(2) by (auto simp: sem_rel_def)
  have "klist (poke32 c x s) (sem_waiters psem) (map general_tag (sem_queue q))"
    by (rule klist_other [OF u p(4)]) (use outside_apart(2) [OF k(2) tp sub] in simp)
  moreover have "peek8 (poke32 c x s) psem = peek8 s psem"
    using cells_upd_other(2) [OF u p(5), of 0] k(2) by (auto simp: outside_def sem_cells_def)
  moreover have "sem_ok (poke32 c x s) to ps psem" using p(2) cells_upd_kcell [OF u] by (simp add: sem_ok_def)
  ultimately show ?thesis using rel r by (simp add: sem_rel_def sem_value_def)
qed

lemma lock_fields:
  assumes r: "lock_rel to ps plock s L"
  shows "lock_rel to ps plock (poke32 (lock_holder plock) h s) (L\<lparr>lk_holder := h, lk_pc := f\<rparr>)"
    "lock_rel to ps plock (poke32 (holder_repeat_num plock) n s) (L\<lparr>lk_repeat := n, lk_pc := f\<rparr>)"
    "kcell s (lock_holder plock)" "kcell s (holder_repeat_num plock)"
    "peek32 s (lock_holder plock) = lk_holder L" "peek32 s (holder_repeat_num plock) = lk_repeat L"
proof -
  have k: "lock_ok s to ps plock" and sr: "sem_rel to ps (lock_semaphore plock) s (lk_sched L) (lk_sem L)"
    and f: "peek32 s (lock_holder plock) = lk_holder L" "peek32 s (holder_repeat_num plock) = lk_repeat L"
    using r by (simp_all add: lock_rel_def)
  note h = lock_outside [OF k, of "lock_holder plock"] and n = lock_outside [OF k, of "holder_repeat_num plock"]
  have ne: "lock_holder plock \<noteq> holder_repeat_num plock" by (simp add: lock_holder_def holder_repeat_num_def)
  show "lock_rel to ps plock (poke32 (lock_holder plock) h s) (L\<lparr>lk_holder := h, lk_pc := f\<rparr>)"
    using sem_rel_outside [OF sr h] h(1) n(1) k f ne by (simp add: lock_rel_def lock_ok_def kcell_poke32 peek32_poke32)
  show "lock_rel to ps plock (poke32 (holder_repeat_num plock) n s) (L\<lparr>lk_repeat := n, lk_pc := f\<rparr>)"
    using sem_rel_outside [OF sr n] h(1) n(1) k f ne by (simp add: lock_rel_def lock_ok_def kcell_poke32 peek32_poke32)
  show "kcell s (lock_holder plock)" "kcell s (holder_repeat_num plock)" "peek32 s (lock_holder plock) = lk_holder L"
    "peek32 s (holder_repeat_num plock) = lk_repeat L" using h n f by simp_all
qed

lemma lock_running:
  assumes "lock_rel to ps plock s L"
  shows "running_thread s = Inr (lk_running L, s)"
proof -
  have "sched_rel to ps s (lk_sched L)" using assms by (simp add: lock_rel_def sem_rel_def)
  note rp = rel_parts [OF this]
  show ?thesis by (rule running_current [OF rp(3)]) (use rp(1) in \<open>simp add: sched_inv_def\<close>)
qed

lemma inv_parts:
  assumes "lock_inv L"
  shows "sem_count (lk_sem L) = 0 \<or> sem_count (lk_sem L) = 1"
    "owns (lk_pc L t) \<Longrightarrow> sem_count (lk_sem L) = 0" "owns (lk_pc L t) \<Longrightarrow> owns (lk_pc L u) \<Longrightarrow> t = u"
    "lk_pc L t = Inside \<Longrightarrow> lk_holder L = t \<and> lk_repeat L \<noteq> 0"
    "(\<And>u. lk_pc L u \<noteq> Inside) \<Longrightarrow> lk_holder L = NULL \<and> lk_repeat L = 0" "lk_running L \<noteq> NULL"
    "set (sem_queue (lk_sem L)) \<subseteq> set (blocked (lk_sched L))"
  using assms by (auto simp: lock_inv_def owner_inv_def field_inv_def wait_inv_def sched_wf_def threads_of_def split: if_splits)

text \<open>What the ASSERTs check holds, and the abstract semaphore operations are defined, at each place.\<close>

lemma inv_asserts:
  assumes i: "lock_inv L"
  shows "lk_pc L (lk_running L) = Acquired \<Longrightarrow> lk_repeat L = 0"
    "lk_pc L (lk_running L) = Outside \<Longrightarrow> lk_holder L \<noteq> lk_running L"
    "lk_pc L (lk_running L) = Releasing \<Longrightarrow> \<exists>x. up_spec (lk_sched L, lk_sem L) = Some x"
    "sem_count (lk_sem L) = 1 \<or> ready (lk_sched L) \<noteq> [] \<Longrightarrow> \<exists>x. down_spec c (lk_sched L, lk_sem L) = Some x"
proof -
  note p = inv_parts [OF i]
  show "lk_repeat L = 0" if a: "lk_pc L (lk_running L) = Acquired"
  proof -
    have "lk_pc L u \<noteq> Inside" for u using p(3) [of "lk_running L" u] a by (cases "u = lk_running L") auto
    then show ?thesis using p(5) by blast
  qed
  show "lk_holder L \<noteq> lk_running L" if a: "lk_pc L (lk_running L) = Outside"
  proof (cases "\<exists>u. lk_pc L u = Inside")
    case True
    then show ?thesis using p(4) a by (metis lock_pc.distinct(5))
  next
    case False
    then show ?thesis using p(5,6) by auto
  qed
  show "\<exists>x. up_spec (lk_sched L, lk_sem L) = Some x" if a: "lk_pc L (lk_running L) = Releasing"
    using p(2) [of "lk_running L"] a p(7) by (auto split: list.splits)
  show "\<exists>x. down_spec c (lk_sched L, lk_sem L) = Some x" if "sem_count (lk_sem L) = 1 \<or> ready (lk_sched L) \<noteq> []"
    using p(1) that by (auto simp: blocking_def split: list.splits)
qed

lemma take_refines:
  assumes r: "lock_rel to ps plock s L" and i: "lock_inv L" and pc: "lk_pc L (lk_running L) = Acquired"
  shows "\<exists>t L'. lock_take plock (lk_running L) s = Inr ((), t) \<and> lock_step L L' \<and> lock_rel to ps plock t L' \<and>
    lk_pc L' = (lk_pc L)(lk_running L := Inside) \<and> lk_sched L' = lk_sched L \<and> esp t = esp s \<and> eflags t = eflags s"
proof -
  let ?s1 = "poke32 (lock_holder plock) (lk_running L) s"
  note f = lock_fields [OF r] and n0 = inv_asserts(1) [OF i pc]
  have r1: "lock_rel to ps plock ?s1 (L\<lparr>lk_holder := lk_running L, lk_pc := lk_pc L\<rparr>)" by (rule f(1))
  note f1 = lock_fields [OF r1]
  let ?t = "poke32 (holder_repeat_num plock) 1 ?s1"
  have "lock_take plock (lk_running L) s = Inr ((), ?t)"
    using f(3) f1(4,6) n0 by (simp add: lock_take_def cseq_def cbind_def store32_kcell load32_kcell sync_assert_def assert_or_def)
  moreover have "lock_rel to ps plock ?t (L\<lparr>lk_holder := lk_running L, lk_repeat := 1, lk_pc := (lk_pc L)(lk_running L := Inside)\<rparr>)"
    using f1(2) [of 1 "(lk_pc L)(lk_running L := Inside)"] by simp
  ultimately show ?thesis using lock_step.take [OF pc n0] by fastforce
qed

lemma down_run:
  assumes "down_spec c (v, q) = Some (v', q')" "sem_count q \<noteq> 0"
  shows "v' = v"
  using assms by (auto split: if_splits)

text \<open>Both ways through the semaphore end in the same lines.\<close>

definition after_down :: "addr \<Rightarrow> addr \<Rightarrow> suspended \<Rightarrow> ('z machine_scheme, suspended) comp" where
  "after_down plock cur r = (case r of None \<Rightarrow> cseq (lock_take plock cur) (ret None) | Some st \<Rightarrow> ret (Some st))"

lemma after_down_refines:
  assumes i: "lock_inv L" and dn: "down_spec c (lk_sched L, lk_sem L) = Some (v, q)"
    and x: "x = None \<longleftrightarrow> sem_count (lk_sem L) \<noteq> 0"
  defines "L1 \<equiv> L\<lparr>lk_sched := v, lk_sem := q, lk_pc := (lk_pc L)(lk_running L := if sem_count (lk_sem L) = 0 then Waiting else Acquired)\<rparr>"
  assumes st: "lock_step L L1" and r1: "lock_rel to ps plock t L1"
  shows "\<exists>u L'. after_down plock (lk_running L) x t = Inr (x, u) \<and> lock_step\<^sup>*\<^sup>* L L' \<and> lock_rel to ps plock u L' \<and>
    lk_pc L' = (lk_pc L)(lk_running L := if x = None then Inside else Waiting) \<and>
    (x = None \<longrightarrow> lk_sched L' = lk_sched L \<and> esp u = esp t \<and> eflags u = eflags t)"
proof (cases x)
  case None
  then have c: "sem_count (lk_sem L) \<noteq> 0" using x by simp
  have v: "v = lk_sched L" by (rule down_run [OF dn c])
  have "lk_pc L1 (lk_running L1) = Acquired" using c v by (simp add: L1_def)
  from take_refines [OF r1 lock_step_inv [OF st i] this] obtain u L' where
    u: "lock_take plock (lk_running L) t = Inr ((), u)" "lock_step L1 L'" "lock_rel to ps plock u L'" "lk_pc L' = (lk_pc L1)(lk_running L := Inside)"
      "lk_sched L' = lk_sched L" "esp u = esp t" "eflags u = eflags t"
    using v by (auto simp: L1_def)
  have "lock_step\<^sup>*\<^sup>* L L'" using st u(2) by (meson r_into_rtranclp rtranclp.rtrancl_into_rtrancl)
  then show ?thesis using u None
    by (intro exI [of _ u] exI [of _ L']) (simp add: after_down_def cseq_def cbind_def ret_def L1_def)
next
  case (Some y)
  then have "sem_count (lk_sem L) = 0" using x by simp
  then show ?thesis using Some st r1 by (intro exI [of _ t] exI [of _ L1]) (auto simp: after_down_def ret_def L1_def)
qed

lemma acquire_refines:
  assumes r: "lock_rel to ps plock s L" and i: "lock_inv L" and e: "esp_ok s (lk_running L)"
    and pc: "lk_pc L (lk_running L) = Outside" and d: "sem_count (lk_sem L) = 1 \<or> ready (lk_sched L) \<noteq> []"
  shows "\<exists>x t L'. lock_acquire to ra plock s = Inr (x, t) \<and> lock_step\<^sup>*\<^sup>* L L' \<and> lock_rel to ps plock t L' \<and>
    lk_pc L' = (lk_pc L)(lk_running L := if x = None then Inside else Waiting) \<and> (x = None \<longleftrightarrow> sem_count (lk_sem L) = 1) \<and>
    (x = None \<longrightarrow> lk_sched L' = lk_sched L \<and> esp t = esp s \<and> eflags t = eflags s)"
proof -
  have sr: "sem_rel to ps (lock_semaphore plock) s (lk_sched L) (lk_sem L)" using r by (simp add: lock_rel_def)
  from inv_asserts(4) [OF i d, of "current ra s"] obtain v q where dn: "down_spec (current ra s) (lk_sched L, lk_sem L) = Some (v, q)" by auto
  note hn = inv_asserts(2) [OF i pc] and lf = lock_fields [OF r]
  from down_refines [OF sr e dn] obtain x t where
    t: "semaphore_down to ra (lock_semaphore plock) s = Inr (x, t)" "x = None \<longleftrightarrow> sem_count (lk_sem L) \<noteq> 0"
      "sem_rel to ps (lock_semaphore plock) t v q" "sem_frame to ps (lock_semaphore plock) s t"
      "x = None \<longrightarrow> esp t = esp s \<and> eflags t = eflags s" by (auto split: if_splits)
  from after_down_refines [OF i dn t(2) lock_step.enter [OF pc hn dn] lock_rel_frame [OF r t(3,4)]] obtain u L' where
    u: "after_down plock (lk_running L) x t = Inr (x, u)" "lock_step\<^sup>*\<^sup>* L L'" "lock_rel to ps plock u L'"
      "lk_pc L' = (lk_pc L)(lk_running L := if x = None then Inside else Waiting)"
      "x = None \<longrightarrow> lk_sched L' = lk_sched L \<and> esp u = esp t \<and> eflags u = eflags t" by blast
  have "lock_acquire to ra plock s = after_down plock (lk_running L) x t"
    using lock_running [OF r] lf(3,5) hn t(1) by (simp add: lock_acquire_def cbind_def load32_kcell after_down_def)
  moreover have "x = None \<longleftrightarrow> sem_count (lk_sem L) = 1" using t(2) inv_parts(1) [OF i] by auto
  ultimately show ?thesis using u t(5) by (intro exI [of _ x] exI [of _ u] exI [of _ L']) simp
qed

lemma acquire_resume_refines:
  assumes r: "lock_rel to ps plock s L" and i: "lock_inv L" and e: "esp_ok s (lk_running L)"
    and pc: "lk_pc L (lk_running L) = Waiting" and d: "sem_count (lk_sem L) = 1 \<or> ready (lk_sched L) \<noteq> []"
  shows "\<exists>x t L'. lock_acquire_resume to ra plock (lk_running L) (old, INTR_OFF) s = Inr (x, t) \<and> lock_step\<^sup>*\<^sup>* L L' \<and> lock_rel to ps plock t L' \<and>
    lk_pc L' = (lk_pc L)(lk_running L := if x = None then Inside else Waiting) \<and> (x = None \<longleftrightarrow> sem_count (lk_sem L) = 1)"
proof -
  have sr: "sem_rel to ps (lock_semaphore plock) s (lk_sched L) (lk_sem L)" using r by (simp add: lock_rel_def)
  from inv_asserts(4) [OF i d, of "current ra s"] obtain v q where dn: "down_spec (current ra s) (lk_sched L, lk_sem L) = Some (v, q)" by auto
  from resume_refines [OF sr e dn, of old] obtain x t where
    t: "semaphore_down_resume to ra (lock_semaphore plock) (old, INTR_OFF) s = Inr (x, t)" "x = None \<longleftrightarrow> sem_count (lk_sem L) \<noteq> 0"
      "sem_rel to ps (lock_semaphore plock) t v q" "sem_frame to ps (lock_semaphore plock) s t" by (auto split: if_splits)
  from after_down_refines [OF i dn t(2) lock_step.retry [OF pc dn] lock_rel_frame [OF r t(3,4)]] obtain u L' where
    u: "after_down plock (lk_running L) x t = Inr (x, u)" "lock_step\<^sup>*\<^sup>* L L'" "lock_rel to ps plock u L'"
      "lk_pc L' = (lk_pc L)(lk_running L := if x = None then Inside else Waiting)" by blast
  have "lock_acquire_resume to ra plock (lk_running L) (old, INTR_OFF) s = after_down plock (lk_running L) x t"
    using t(1) by (simp add: lock_acquire_resume_def cbind_def after_down_def)
  moreover have "x = None \<longleftrightarrow> sem_count (lk_sem L) = 1" using t(2) inv_parts(1) [OF i] by auto
  ultimately show ?thesis using u by (intro exI [of _ x] exI [of _ u] exI [of _ L']) simp
qed

lemma acquire_again_refines:
  assumes r: "lock_rel to ps plock s L" and i: "lock_inv L" and pc: "lk_pc L (lk_running L) = Inside" and n: "lk_repeat L + 1 \<noteq> 0"
  shows "\<exists>t L'. lock_acquire to ra plock s = Inr (None, t) \<and> lock_step L L' \<and> lock_rel to ps plock t L' \<and> lk_pc L' = lk_pc L \<and>
    lk_repeat L' = lk_repeat L + 1"
proof -
  have h: "lk_holder L = lk_running L" using inv_parts(4) [OF i pc] by simp
  note lf = lock_fields [OF r]
  let ?t = "poke32 (holder_repeat_num plock) (lk_repeat L + 1) s"
  have "lock_acquire to ra plock s = Inr (None, ?t)"
    using lock_running [OF r] lf(3-6) h by (simp add: lock_acquire_def cbind_def cseq_def load32_kcell store32_kcell ret_def)
  moreover have "lock_rel to ps plock ?t (L\<lparr>lk_repeat := lk_repeat L + 1\<rparr>)" using lf(2) [of "lk_repeat L + 1" "lk_pc L"] by simp
  ultimately show ?thesis using lock_step.again [OF pc h n] by fastforce
qed

lemma release_refines:
  assumes r: "lock_rel to ps plock s L" and i: "lock_inv L" and pc: "lk_pc L (lk_running L) = Inside"
  shows "\<exists>t L'. lock_release to plock s = Inr ((), t) \<and> lock_step\<^sup>*\<^sup>* L L' \<and> lock_rel to ps plock t L' \<and>
    (if lk_repeat L > 1 then lk_repeat L' = lk_repeat L - 1 \<and> lk_pc L' = lk_pc L
     else lk_holder L' = NULL \<and> lk_pc L' = (lk_pc L)(lk_running L := Outside))"
proof -
  let ?cur = "lk_running L"
  have h: "lk_holder L = ?cur" "lk_repeat L \<noteq> 0" using inv_parts(4) [OF i pc] by auto
  note lf = lock_fields [OF r] and rt = lock_running [OF r]
  show ?thesis
  proof (cases "lk_repeat L > 1")
    case True
    let ?t = "poke32 (holder_repeat_num plock) (lk_repeat L - 1) s"
    have "lock_release to plock s = Inr ((), ?t)"
      using rt lf(3-6) h True
      by (simp add: lock_release_def cbind_def cseq_def load32_kcell store32_kcell sync_assert_def assert_or_def)
    moreover have "lock_rel to ps plock ?t (L\<lparr>lk_repeat := lk_repeat L - 1\<rparr>)" using lf(2) [of "lk_repeat L - 1" "lk_pc L"] by simp
    moreover have "lock_step L (L\<lparr>lk_repeat := lk_repeat L - 1\<rparr>)" by (rule lock_step.leave [OF pc h(1) True])
    ultimately show ?thesis using True
      by (intro exI [of _ ?t] exI [of _ "L\<lparr>lk_repeat := lk_repeat L - 1\<rparr>"]) auto
  next
    case False
    have n: "lk_repeat L = 1"
    proof -
      have "unat (lk_repeat L) \<noteq> 0" "\<not> 1 < unat (lk_repeat L)" using h(2) False by (simp_all add: unat_eq_0 word_less_nat_alt)
      then have "unat (lk_repeat L) = unat (1 :: u32)" by simp
      then show ?thesis by (simp only: word_unat_eq_iff)
    qed
    let ?L1 = "L\<lparr>lk_holder := NULL, lk_repeat := 0, lk_pc := (lk_pc L)(?cur := Releasing)\<rparr>"
    let ?s1 = "poke32 (lock_holder plock) NULL s"
    let ?s2 = "poke32 (holder_repeat_num plock) 0 ?s1"
    have r1: "lock_rel to ps plock ?s1 (L\<lparr>lk_holder := NULL, lk_pc := lk_pc L\<rparr>)" by (rule lf(1))
    note f1 = lock_fields [OF r1]
    have r2: "lock_rel to ps plock ?s2 ?L1" using f1(2) [of 0 "(lk_pc L)(?cur := Releasing)"] by simp
    have s1: "lock_step L ?L1" by (rule lock_step.drop [OF pc h(1) n])
    have i1: "lock_inv ?L1" by (rule lock_step_inv [OF s1 i])
    have pc1: "lk_pc ?L1 (lk_running ?L1) = Releasing" by simp
    from inv_asserts(3) [OF i1 pc1] obtain v q where up: "up_spec (lk_sched ?L1, lk_sem ?L1) = Some (v, q)" by auto
    have sr: "sem_rel to ps (lock_semaphore plock) ?s2 (lk_sched ?L1) (lk_sem ?L1)" using r2 by (simp add: lock_rel_def)
    from up_refines [OF sr up] obtain t where
      t: "semaphore_up to (lock_semaphore plock) ?s2 = Inr ((), t)" "sem_rel to ps (lock_semaphore plock) t v q"
        "sem_frame to ps (lock_semaphore plock) ?s2 t" by blast
    let ?L2 = "?L1\<lparr>lk_sched := v, lk_sem := q, lk_pc := (lk_pc ?L1)(lk_running ?L1 := Outside)\<rparr>"
    have s2: "lock_step ?L1 ?L2" by (rule lock_step.up [OF pc1 up])
    have "lock_release to plock s = Inr ((), t)"
      using rt lf(3-6) h n f1(4) t(1)
      by (simp add: lock_release_def cbind_def cseq_def load32_kcell store32_kcell sync_assert_def assert_or_def)
    moreover have "lock_rel to ps plock t ?L2" by (rule lock_rel_frame [OF r2 t(2,3)])
    moreover have "lock_step\<^sup>*\<^sup>* L ?L2" using s1 s2 by (meson r_into_rtranclp rtranclp.rtrancl_into_rtrancl)
    ultimately show ?thesis using False by (intro exI [of _ t] exI [of _ ?L2]) simp
  qed
qed

end
