(* ===== verification/Mutex.thy ===== *)
theory Mutex
  imports Lock
begin

unbundle bit_operations_syntax

section \<open>Threads that share a lock\<close>

text \<open>
  The runs of a whole machine whose threads use one lock through \<open>lock_acquire\<close> and
  \<open>lock_release\<close>, with preemption, blocking and unblocking in between; they are runs of the
  state machine of theory Lock, so its invariants hold of them. The properties of
  \<open>sync.c\<close> are at the end.
\<close>
subsection \<open>Initialisation\<close>

lemma sched_rel_wf:
  assumes "sched_rel to ps s v"
  shows "sched_wf v"
proof -
  have "\<not> task s NULL" by (simp add: task_def kaddr_def kpage_def NULL_def)
  then have "NULL \<notin> set (threads_of v)" using rel_tasks(2,3) [OF assms] by (auto simp: threads_of_def)
  then show ?thesis using rel_parts(4) [OF assms] by (auto simp: sched_wf_def threads_of_def)
qed

lemma sched_rel_outside:
  assumes r: "sched_rel to ps s v" and k: "kcell s c" "c \<notin> sched_globals to" "\<forall>p \<in> set ps. page_of c \<noteq> page_of p"
  shows "sched_rel to ps (poke32 c x s) v"
proof (rule sched_rel_cells [OF r cells_upd_poke [OF k(1)]])
  show "{c} \<inter> sched_globals to = {}" using k(2) by simp
  show "(i = 32 \<or> i = 36) \<and> a \<notin> set (ready v)" if "a \<in> set ps" "i < 0x1000" "a + i \<in> {c}" for a i
    using that k(3) page_cell(1) [OF task_page [OF rel_tasks(3) [OF r that(1)]] that(2)] by auto
qed

definition lock_bytes :: "addr \<Rightarrow> addr set" where
  "lock_bytes plock = \<Union> (bytes4 ` insert (lock_holder plock) (insert (holder_repeat_num plock) (sem_cells (lock_semaphore plock))))"

lemma lock_init_spec:
  assumes r: "sched_rel to ps s v" and k: "lock_ok s to ps plock" "sem_ok s to ps (lock_semaphore plock)"
  shows "\<exists>t. lock_init plock s = Inr ((), t) \<and> lock_rel to ps plock t (lock_start v) \<and> lock_inv (lock_start v) \<and>
    esp t = esp s \<and> eflags t = eflags s \<and> kcell t = kcell s \<and> upd_within (lock_bytes plock) s t"
proof -
  let ?h = "lock_holder plock" and ?n = "holder_repeat_num plock"
  have kh: "kcell s ?h" "?h \<notin> sched_globals to" "\<forall>p \<in> set ps. page_of ?h \<noteq> page_of p"
    and kn: "kcell s ?n" "?n \<notin> sched_globals to" "\<forall>p \<in> set ps. page_of ?n \<noteq> page_of p" using k(1) by (simp_all add: lock_ok_def)
  let ?s1 = "poke32 ?h NULL s"
  let ?s2 = "poke32 ?n 0 ?s1"
  have kc: "kcell ?s2 = kcell s" "kcell ?s1 = kcell s" using kh(1) kn(1) by (simp_all add: kcell_poke32)
  have ok: "lock_ok ?s2 to ps plock" "sem_ok ?s2 to ps (lock_semaphore plock)" using k kc by (simp_all add: lock_ok_def sem_ok_def)
  have "sched_rel to ps ?s2 v" by (rule sched_rel_outside [OF sched_rel_outside [OF r kh]]) (use kn kc in simp_all)
  from semaphore_init_spec [OF this ok(2), of 1] obtain t where
    t: "semaphore_init (lock_semaphore plock) 1 ?s2 = Inr ((), t)" "sem_rel to ps (lock_semaphore plock) t v \<lparr>sem_count = 1, sem_queue = []\<rparr>"
      "cells_upd (sem_cells (lock_semaphore plock)) ?s2 t" by blast
  have "?h \<notin> sem_cells (lock_semaphore plock)" "?n \<notin> sem_cells (lock_semaphore plock)"
    using lock_outside(2) [OF k(1)] by (auto simp: outside_def)
  from cells_upd_other(1) [OF t(3) _ this(1)] cells_upd_other(1) [OF t(3) _ this(2)]
  have "peek32 t ?h = NULL" "peek32 t ?n = 0"
    using kh(1) kn(1) by (simp_all add: kcell_poke32 peek32_poke32 lock_holder_def holder_repeat_num_def)
  moreover have "lock_ok t to ps plock" using ok(1) cells_upd_kcell [OF t(3)] by (simp add: lock_ok_def)
  moreover have "lock_init plock s = Inr ((), t)"
    using kh(1) kn(1) t(1) by (simp add: lock_init_def cseq_def cbind_def store32_kcell kcell_poke32)
  moreover have "lock_inv (lock_start v)" by (rule lock_start_inv [OF sched_rel_wf [OF r]])
  moreover have "esp t = esp s" "eflags t = eflags s" "kcell t = kcell s"
    using cells_upd_regs(1,6) [OF t(3)] cells_upd_kcell [OF t(3)] kc by simp_all
  moreover have "upd_within (lock_bytes plock) s t"
  proof -
    have u: "cells_upd {?h} s ?s1" "cells_upd {?n} ?s1 ?s2" using cells_upd_poke [OF kh(1)] cells_upd_poke [of ?s1 ?n] kn(1) kc(2) by simp_all
    have "insert ?h (insert ?n (sem_cells (lock_semaphore plock))) = {?h} \<union> {?n} \<union> sem_cells (lock_semaphore plock)" by blast
    then show ?thesis
      using cells_upd_trans [OF cells_upd_trans [OF u] t(3)] unfolding lock_bytes_def cells_upd_def by (simp only:)
  qed
  ultimately show ?thesis using t(2) by (simp add: lock_rel_def lock_start_def)
qed

text \<open>A lock in the kernel's first page, below the boot thread's globals' end.\<close>

lemma boot_globals:
  "sched_globals boot_threads = {0xc0000c04, 0xc0000c00, 0xc0000c10, 0xc0000c14, 0xc0000c18, 0xc0000c1c, 0xc0000c20, 0xc0000c24, 0xc0000c28, 0xc0000c2c}"
  by (auto simp: sched_globals_eq list_cells_iff boot_threads_def)

lemma boot_lock_cells:
  assumes k: "kcell s 0xc0000c00" "\<forall>p \<in> set ps. page_of 0xc0000c00 \<noteq> page_of p"
  shows "lock_ok s boot_threads ps 0xc0000e00" "sem_ok s boot_threads ps (lock_semaphore 0xc0000e00)"
proof -
  have c: "kcell s c \<and> (\<forall>p \<in> set ps. page_of c \<noteq> page_of p)" if "page_of c = page_of 0xc0000c00" "aligned4 c" for c
    using k that by (simp add: kcell_def kaddr_def page_of_def)
  show "lock_ok s boot_threads ps 0xc0000e00"
    unfolding lock_ok_def boot_globals using c [of "0xc0000e00"] c [of "0xc0000e18"]
    by (simp add: lock_holder_def holder_repeat_num_def page_of_def aligned4_def)
  have cells: "sem_cells (lock_semaphore 0xc0000e00) = {0xc0000e04, 0xc0000e08, 0xc0000e0c, 0xc0000e10, 0xc0000e14}"
    by (auto simp: sem_cells_def list_cells_iff lock_semaphore_def sem_waiters_def)
  show "sem_ok s boot_threads ps (lock_semaphore 0xc0000e00)"
    unfolding sem_ok_def boot_globals cells
    using c [of "0xc0000e04"] c [of "0xc0000e08"] c [of "0xc0000e0c"] c [of "0xc0000e10"] c [of "0xc0000e14"]
    by (simp add: page_of_def aligned4_def)
qed

lemma boot_lock:
  assumes "sched_rel boot_threads ps s v"
  shows "lock_ok s boot_threads ps 0xc0000e00" "sem_ok s boot_threads ps (lock_semaphore 0xc0000e00)"
  by (rule boot_lock_cells; use rel_tasks(1,2) [OF assms] in \<open>simp add: tasks_ok_def boot_globals\<close>)+

subsection \<open>Scheduling events keep a semaphore\<close>

lemma sem_step:
  assumes r: "sem_rel to ps psem s v q" and st: "sched_step to ps s e t" and nw: "e \<noteq> Work"
    and un: "\<And>p. e = Unblock p \<Longrightarrow> p \<notin> set (sem_queue q)"
  shows "\<exists>v'. sched_spec e v = Some v' \<and> sem_rel to ps psem t v' q \<and> sem_frame to ps psem s t"
proof -
  note p = sem_rel_parts [OF r] and tk = rel_tasks(2) [OF sem_rel_parts(1) [OF r]] and rp = rel_parts [OF sem_rel_parts(1) [OF r]]
  let ?qs = "sem_queue q"
  have dq: "distinct ?qs" "set ?qs \<subseteq> set (blocked v)" "peek8 s psem = sem_count q" using r p(3) by (simp_all add: sem_rel_def)
  have sub: "set ?qs \<subseteq> set ps" using dq(2) tk by auto
  have fin: "sem_rel to ps psem u v' q"
    if "sched_rel to ps u v'" "klist u (sem_waiters psem) (map general_tag ?qs)" "peek8 u psem = peek8 s psem" "sem_ok u to ps psem"
      "set ?qs \<subseteq> set (blocked v')" for u v'
    using that dq by (simp add: sem_rel_def sem_value_def)
  show ?thesis
    using st
  proof cases
    case work
    then show ?thesis using nw by simp
  next
    case (preempt ra)
    have eo: "esp_ok s (running v)" using preempt(3) rp(2) by simp
    obtain nxt rest where nr: "ready v @ [running v] = nxt # rest" by (cases "ready v @ [running v]") auto
    have st0: "status s (running v) = status_code TASK_RUNNING" using p(1) by (simp add: sched_rel_def)
    have rq: "requeued s (running v) (ready v) = nxt # rest" using st0 nr by (simp add: requeued_def)
    from schedule_spec [OF rp(1) eo preempt(2) disjI1 [OF st0] rq, of ra] preempt(4) obtain u where
      u: "t = resume (saved u nxt) u" "cells_upd (sched_cells to (esp s) (running v) (nxt # rest) nxt) s u" by auto
    from preempt_simulates [OF p(1) preempt(2) eo, of ra] preempt(4) obtain v' where
      v': "sched_spec e v = Some v'" "sched_rel to ps t v'" by (auto simp: preempt(1))
    have rs: "set (nxt # rest) = set (ready v @ [running v])" using arg_cong [OF nr, of set] by simp
    have in_ps: "set (nxt # rest) \<subseteq> set ps" "nxt \<in> set ps" and dj: "set ?qs \<inter> set (nxt # rest) = {}"
      using rs tk dq(2) rp(4) by auto
    note kept = side_kept [OF p(1,2,4) sub dj u(2) sched_cells_side [OF p(1) eo in_ps]]
    have "blocked v' = blocked v" using v'(1) preempt(1) by (auto split: list.splits)
    then have "sem_rel to ps psem t v' q" using kept dq(2) v'(2) by (intro fin) (simp_all add: u(1) sem_ok_def)
    then show ?thesis using v'(1) kept(4) by (simp add: u(1))
  next
    case (block ra st old)
    have eo: "esp_ok s (running v)" using block(2) rp(2) by simp
    from block_simulates [OF p(1) eo block(3)] obtain v' where
      v': "sched_spec e v = Some v'" "sched_rel to ps t v'" by (auto simp: block(1))
    then obtain nxt rest where nr: "ready v = nxt # rest" "blocked v' = running v # blocked v" "blocking (status_code st)"
      by (auto simp: block(1) split: list.splits if_splits)
    have dj: "set ?qs \<inter> set (nxt # rest) = {}" using nr(1) dq(2) rp(4) by auto
    from wait_block [OF p(1,2) nr(1) eo p(4) sub dj nr(3), of ra] block(3) have
      kept: "klist t (sem_waiters psem) (map general_tag ?qs)" "peek8 t psem = peek8 s psem" "sem_ok t to ps psem" "sem_frame to ps psem s t"
      by auto
    then have "sem_rel to ps psem t v' q" using nr(2) dq(2) v'(2) by (intro fin) auto
    then show ?thesis using v'(1) kept(4) by blast
  next
    case (unblock w)
    from unblock_simulates [OF p(1) unblock(2,3)] obtain v' where
      v': "sched_spec e v = Some v'" "sched_rel to ps t v'" by (auto simp: unblock(1))
    then have wb: "w \<in> set (blocked v)" "blocked v' = remove1 w (blocked v)" "w \<notin> set ?qs" using un by (auto simp: unblock(1) split: if_splits)
    from thread_unblock_spec [OF rp(1) wb(1)] unblock(3) have
      u: "cells_upd (list_cells (thread_ready_list to) (map general_tag (w # ready v)) \<union> {w + 4}) s t" by auto
    have rs: "set (w # ready v) \<subseteq> set ps" "set ?qs \<inter> set (w # ready v) = {}" using tk wb(1,3) dq(2) rp(4) by auto
    have side: "sched_side to ps (w # ready v) c"
      if "c \<in> list_cells (thread_ready_list to) (map general_tag (w # ready v)) \<union> {w + 4}" for c
      using that ready_side [OF _ rs(1)] unblock(2) by (auto intro!: sched_sideI)
    note kept = side_kept [OF p(1,2,4) sub rs(2) u side]
    have "set ?qs \<subseteq> set (blocked v')" using wb dq(2) rp(4) by (auto simp: wb(2))
    then have "sem_rel to ps psem t v' q" using kept v'(2) by (intro fin)
    then show ?thesis using v'(1) kept(4) by blast
  qed
qed

subsection \<open>Runs of the code\<close>

text \<open>A thread's own work that leaves the lock alone.\<close>

definition lock_work :: "thread_objs \<Rightarrow> addr list \<Rightarrow> addr \<Rightarrow> 'z machine_scheme \<Rightarrow> 'z machine_scheme \<Rightarrow> bool" where
  "lock_work to ps plock s t \<longleftrightarrow> (\<exists>B. extends_within B (s\<lparr>eflags := eflags t, esp := esp t, ebp := ebp t, ebx := ebx t, esi := esi t,
       edi := edi t, eip := eip t, console := console t, ports_out := ports_out t\<rparr>) t \<and>
     B \<inter> (thread_bytes to (others (this_thread s) ps) \<union> bytes4 (status_field (this_thread s)) \<union> lock_bytes plock) = {}) \<and>
     on_stack t (this_thread s)"

text \<open>
  The places of the threads are ghost state beside the machine: a thread outside may call
  \<open>lock_acquire\<close>, one that waits continues there when it runs, one inside may acquire the lock again
  (fewer than 2^32 times) or release it.
\<close>

inductive lock_exec :: "thread_objs \<Rightarrow> addr list \<Rightarrow> addr \<Rightarrow> 'z machine_scheme \<times> (addr \<Rightarrow> lock_pc) \<Rightarrow> 'z machine_scheme \<times> (addr \<Rightarrow> lock_pc) \<Rightarrow> bool"
  for to :: thread_objs and ps :: "addr list" and plock :: addr where
  acquire: "pc (this_thread s) = Outside \<Longrightarrow> esp_ok s (this_thread s) \<Longrightarrow> lock_acquire to ra plock s = Inr (x, t) \<Longrightarrow>
    lock_exec to ps plock (s, pc) (t, pc(this_thread s := if x = None then Inside else Waiting))"
| resume: "pc (this_thread s) = Waiting \<Longrightarrow> esp_ok s (this_thread s) \<Longrightarrow>
    lock_acquire_resume to ra plock (this_thread s) (old, INTR_OFF) s = Inr (x, t) \<Longrightarrow>
    lock_exec to ps plock (s, pc) (t, pc(this_thread s := if x = None then Inside else Waiting))"
| again: "pc (this_thread s) = Inside \<Longrightarrow> peek32 s (holder_repeat_num plock) + 1 \<noteq> 0 \<Longrightarrow> lock_acquire to ra plock s = Inr (x, t) \<Longrightarrow>
    lock_exec to ps plock (s, pc) (t, pc)"
| release: "pc (this_thread s) = Inside \<Longrightarrow> lock_release to plock s = Inr ((), t) \<Longrightarrow>
    lock_exec to ps plock (s, pc) (t, if peek32 s (holder_repeat_num plock) > 1 then pc else pc(this_thread s := Outside))"
| work: "lock_work to ps plock s t \<Longrightarrow> lock_exec to ps plock (s, pc) (t, pc)"
| event: "sched_step to ps s e t \<Longrightarrow> e \<noteq> Work \<Longrightarrow> (\<And>st c. e = Block st c \<Longrightarrow> pc (this_thread s) \<noteq> Waiting) \<Longrightarrow>
    (\<And>p. e = Unblock p \<Longrightarrow> pc p \<noteq> Waiting) \<Longrightarrow> lock_exec to ps plock (s, pc) (t, pc)"

lemma work_keeps_lock:
  assumes r: "lock_rel to ps plock s L" and w: "lock_work to ps plock s t"
  shows "lock_rel to ps plock t L"
proof -
  let ?psem = "lock_semaphore plock" and ?v = "lk_sched L" and ?q = "lk_sem L"
  define u where "u = s\<lparr>eflags := eflags t, esp := esp t, ebp := ebp t, ebx := ebx t, esi := esi t,
       edi := edi t, eip := eip t, console := console t, ports_out := ports_out t\<rparr>"
  have sr: "sem_rel to ps ?psem s ?v ?q" and lo: "lock_ok s to ps plock"
    and fs: "peek32 s (lock_holder plock) = lk_holder L" "peek32 s (holder_repeat_num plock) = lk_repeat L"
    using r by (simp_all add: lock_rel_def)
  note p = sem_rel_parts [OF sr] and rp = rel_parts [OF sem_rel_parts(1) [OF sr]] and tk = rel_tasks [OF sem_rel_parts(1) [OF sr]]
  from w obtain B where B: "extends_within B u t" "B \<inter> thread_bytes to (others (this_thread s) ps) = {}"
    "B \<inter> bytes4 (status_field (this_thread s)) = {}" "B \<inter> lock_bytes plock = {}" "on_stack t (this_thread s)"
    by (auto simp: lock_work_def u_def)
  have "own_work to ps s t" using B unfolding own_work_def u_def by blast
  then have rel: "sched_rel to ps t ?v" by (rule work_simulates [OF p(1)])
  have mem: "kaddr u = kaddr s" "kcell u = kcell s" "peek32 u = peek32 s" "peek8 u = peek8 s" unfolding u_def by simp_all
  have kc: "kcell t c" if "kcell s c" for c using extends_kcell [OF B(1)] that by (simp add: mem)
  have pk: "peek32 t c = peek32 s c" if "kcell s c" "bytes4 c \<inter> B = {}" for c
    using extends_peek32 [OF B(1), of c] that by (simp add: mem)
  have qs: "set (sem_queue ?q) \<subseteq> set (others (this_thread s) ps)"
    using sr others_rel [OF p(1)] by (auto simp: sem_rel_def)
  have kl: "klist u (sem_waiters ?psem) (map general_tag (sem_queue ?q))"
    using p(4) by (simp add: klist_def mem dlist_def)
  have "klist t (sem_waiters ?psem) (map general_tag (sem_queue ?q))"
  proof (rule klist_extends [OF B(1) kl])
    have "bytes4 (x + 32) \<subseteq> page_bytes x \<and> bytes4 (x + 36) \<subseteq> page_bytes x" if "x \<in> set (sem_queue ?q)" for x
    proof -
      have "task s x" using tk(3) [of x] that sr tk(2) by (auto simp: sem_rel_def)
      then show ?thesis using page_cell_bytes [of s x 32] page_cell_bytes [of s x 36] by (simp add: aligned4_def)
    qed
    moreover have "page_bytes x \<subseteq> thread_bytes to (others (this_thread s) ps)" if "x \<in> set (sem_queue ?q)" for x
      using qs that by (auto simp: thread_bytes_def)
    ultimately have "\<Union> (bytes4 ` (\<Union>x \<in> set (sem_queue ?q). {x + 32, x + 36})) \<subseteq> thread_bytes to (others (this_thread s) ps)"
      by blast
    moreover have "\<Union> (bytes4 ` list_cells (sem_waiters ?psem) []) \<subseteq> lock_bytes plock" by (auto simp: lock_bytes_def sem_cells_def)
    ultimately show "B \<inter> list_bytes (sem_waiters ?psem) (map general_tag (sem_queue ?q)) = {}"
      using B(2,4) unfolding list_cells_bytes waiter_cells_split image_Un Union_Un_distrib by blast
  qed
  moreover have "peek8 t ?psem = peek8 s ?psem"
  proof -
    have "?psem \<in> lock_bytes plock" unfolding lock_bytes_def sem_cells_def by (auto simp: bytes4_def span_def)
    then show ?thesis using extends_peek8 [OF B(1), of ?psem] B(4) p(6) by (auto simp: mem)
  qed
  moreover have "sem_ok t to ps ?psem" "lock_ok t to ps plock" using p(2) lo kc by (auto simp: sem_ok_def lock_ok_def)
  moreover have "peek32 t (lock_holder plock) = lk_holder L" "peek32 t (holder_repeat_num plock) = lk_repeat L"
    using pk [of "lock_holder plock"] pk [of "holder_repeat_num plock"] B(4) lo fs by (auto simp: lock_bytes_def lock_ok_def)
  ultimately show ?thesis using rel sr by (simp add: lock_rel_def sem_rel_def sem_value_def)
qed

text \<open>Every step of the code is a run of the state machine.\<close>

lemma acquire_possible:
  assumes r: "lock_rel to ps plock s L" and i: "lock_inv L" and run: "semaphore_down to ra (lock_semaphore plock) s = Inr xt \<or>
    semaphore_down_resume to ra (lock_semaphore plock) (old, INTR_OFF) s = Inr xt"
  shows "sem_count (lk_sem L) = 1 \<or> ready (lk_sched L) \<noteq> []"
proof (rule ccontr)
  assume a: "\<not> ?thesis"
  have sr: "sem_rel to ps (lock_semaphore plock) s (lk_sched L) (lk_sem L)" using r by (simp add: lock_rel_def)
  have c: "sem_count (lk_sem L) = 0" "ready (lk_sched L) = []" using a inv_parts(1) [OF i] by auto
  from loop_alone [OF sr c] run down_alone [OF sr c] show False
    by (simp add: semaphore_down_resume_def thread_block_resume_def cbind_def cseq_def intr_set_status_def intr_disable_eq ret_def)
qed

lemma lock_step_event:
  assumes i: "lock_inv L" and sp: "sched_spec e (lk_sched L) = Some v" and nw: "e \<noteq> Work"
    and b: "\<And>st c. e = Block st c \<Longrightarrow> lk_pc L (lk_running L) \<noteq> Waiting" and u: "\<And>p. e = Unblock p \<Longrightarrow> lk_pc L p \<noteq> Waiting"
  shows "lock_step L (L\<lparr>lk_sched := v\<rparr>)"
proof (cases e)
  case (Unblock p)
  have "p \<notin> set (sem_queue (lk_sem L))" using i u [OF Unblock] by (auto simp: lock_inv_def wait_inv_def)
  then show ?thesis using sp Unblock by (auto intro: lock_step.unblocks)
qed (use sp nw b in \<open>auto intro: lock_step.intros\<close>)

lemma exec_simulates:
  assumes st: "lock_exec to ps plock (s, pc) (t, pc')" and r: "lock_rel to ps plock s L" and i: "lock_inv L" and pc: "lk_pc L = pc"
  shows "\<exists>L'. lock_step\<^sup>*\<^sup>* L L' \<and> lock_rel to ps plock t L' \<and> lk_pc L' = pc'"
proof -
  have sr: "sem_rel to ps (lock_semaphore plock) s (lk_sched L) (lk_sem L)" using r by (simp add: lock_rel_def)
  have cur: "this_thread s = lk_running L" by (rule rel_parts(2) [OF sem_rel_parts(1) [OF sr]])
  note lf = lock_fields [OF r] and run = lock_running [OF r]
  show ?thesis
    using st
  proof cases
    case (acquire ra x)
    have o: "lk_pc L (lk_running L) = Outside" using acquire(2) pc cur by simp
    note h = inv_asserts(2) [OF i o]
    have d: "sem_count (lk_sem L) = 1 \<or> ready (lk_sched L) \<noteq> []"
    proof (cases "semaphore_down to ra (lock_semaphore plock) s")
      case (Inl e)
      then show ?thesis using acquire(4) run h lf(3,5) by (simp add: lock_acquire_def cbind_def load32_kcell)
    next
      case (Inr y)
      then show ?thesis using acquire_possible [OF r i] by blast
    qed
    from acquire_refines [OF r i _ o d, of ra] acquire(1,3,4) pc cur show ?thesis by auto
  next
    case (resume ra old x)
    have o: "lk_pc L (lk_running L) = Waiting" using resume(2) pc cur by simp
    have d: "sem_count (lk_sem L) = 1 \<or> ready (lk_sched L) \<noteq> []"
    proof (cases "semaphore_down_resume to ra (lock_semaphore plock) (old, INTR_OFF) s")
      case (Inl e)
      then show ?thesis using resume(4) by (simp add: lock_acquire_resume_def cbind_def)
    next
      case (Inr y)
      then show ?thesis using acquire_possible [OF r i] by blast
    qed
    from acquire_resume_refines [OF r i _ o d, of ra old] resume(1,3,4) pc cur show ?thesis by auto
  next
    case (again ra x)
    have o: "lk_pc L (lk_running L) = Inside" using again(2) pc cur by simp
    from acquire_again_refines [OF r i o, of ra] again lf(6) pc show ?thesis by (metis Inr_inject prod.inject r_into_rtranclp)
  next
    case release
    have o: "lk_pc L (lk_running L) = Inside" using release(2) pc cur by simp
    from release_refines [OF r i o] release(1,3) lf(6) pc cur show ?thesis by (auto split: if_splits)
  next
    case work
    then show ?thesis using work_keeps_lock [OF r] pc by blast
  next
    case (event e)
    have un: "p \<notin> set (sem_queue (lk_sem L))" if "e = Unblock p" for p
      using event(5) [OF that] i pc by (auto simp: lock_inv_def wait_inv_def)
    from sem_step [OF sr event(2,3) un] obtain v where
      v: "sched_spec e (lk_sched L) = Some v" "sem_rel to ps (lock_semaphore plock) t v (lk_sem L)"
        "sem_frame to ps (lock_semaphore plock) s t" by blast
    have "lock_step L (L\<lparr>lk_sched := v\<rparr>)"
      by (rule lock_step_event [OF i v(1) event(3)]) (use event(4,5) pc cur in auto)
    moreover have "lock_rel to ps plock t (L\<lparr>lk_sched := v\<rparr>)" using lock_rel_frame [OF r v(2,3), of pc] by (simp add: lock_rel_def)
    ultimately show ?thesis using event(1) pc by (intro exI [of _ "L\<lparr>lk_sched := v\<rparr>"]) auto
  qed
qed

lemma runs_simulate_lock:
  assumes "(lock_exec to ps plock)\<^sup>*\<^sup>* (s, \<lambda>_. Outside) x" "lock_rel to ps plock s (lock_start v)" "lock_inv (lock_start v)"
  shows "\<exists>L. lock_inv L \<and> lock_rel to ps plock (fst x) L \<and> lk_pc L = snd x"
  using assms(1)
proof (induction rule: rtranclp_induct)
  case base
  show ?case using assms(2,3) by (intro exI [of _ "lock_start v"]) (simp add: lock_start_def)
next
  case (step y z)
  then obtain L where L: "lock_inv L" "lock_rel to ps plock (fst y) L" "lk_pc L = snd y" by blast
  from exec_simulates [of to ps plock "fst y" "snd y" "fst z" "snd z" L] step(2) L obtain L' where
    L': "lock_step\<^sup>*\<^sup>* L L'" "lock_rel to ps plock (fst z) L'" "lk_pc L' = snd z" by auto
  then show ?case using lm.steps_inv [OF L'(1) L(1)] by blast
qed

subsection \<open>Properties\<close>

text \<open>
  C5: \<open>semaphore_down\<close>, what follows in it when a thread that waited runs again, and
  \<open>semaphore_up\<close> do to memory, scheduler and processor exactly what the abstract semaphore
  says: take the value or wait at the end of the queue in favour of the first ready thread;
  give the value back and make the thread that has waited longest the next to run. Where the
  abstract operation is undefined the kernel stops in an ASSERT.
\<close>

theorem semaphore_correct:
  assumes "sem_rel to ps psem s v q" "esp_ok s (running v)"
  shows "(\<forall>v' q'. down_spec (current ra s) (v, q) = Some (v', q') \<longrightarrow>
      (\<exists>t. semaphore_down to ra psem s = Inr (if sem_count q = 0 then Some (intr_status_of (eflags s), INTR_OFF) else None, t) \<and>
        sem_rel to ps psem t v' q' \<and> (sem_count q = 0 \<longrightarrow> cpu t = contexts v' (running v'))) \<and>
      (\<exists>t. semaphore_down_resume to ra psem (old, INTR_OFF) s = Inr (if sem_count q = 0 then Some (old, INTR_OFF) else None, t) \<and>
        sem_rel to ps psem t v' q' \<and> (sem_count q = 0 \<longrightarrow> cpu t = contexts v' (running v')))) \<and>
    (\<forall>v' q'. up_spec (v, q) = Some (v', q') \<longrightarrow>
      (\<exists>t. semaphore_up to psem s = Inr ((), t) \<and> sem_rel to ps psem t v' q' \<and> eflags t = eflags s)) \<and>
    (down_spec (current ra s) (v, q) = None \<longrightarrow> (\<exists>f. semaphore_down to ra psem s = Inl f)) \<and>
    (up_spec (v, q) = None \<longrightarrow> (\<exists>f. semaphore_up to psem s = Inl f))"
proof (intro conjI allI impI)
  fix v' q' assume d: "down_spec (current ra s) (v, q) = Some (v', q')"
  show "\<exists>t. semaphore_down to ra psem s = Inr (if sem_count q = 0 then Some (intr_status_of (eflags s), INTR_OFF) else None, t) \<and>
        sem_rel to ps psem t v' q' \<and> (sem_count q = 0 \<longrightarrow> cpu t = contexts v' (running v'))"
    using down_refines [OF assms d] by (auto split: if_splits)
  show "\<exists>t. semaphore_down_resume to ra psem (old, INTR_OFF) s = Inr (if sem_count q = 0 then Some (old, INTR_OFF) else None, t) \<and>
        sem_rel to ps psem t v' q' \<and> (sem_count q = 0 \<longrightarrow> cpu t = contexts v' (running v'))"
    using resume_refines [OF assms d, of old] by (auto split: if_splits)
next
  fix v' q' assume d: "up_spec (v, q) = Some (v', q')"
  then show "\<exists>t. semaphore_up to psem s = Inr ((), t) \<and> sem_rel to ps psem t v' q' \<and> eflags t = eflags s"
    using up_refines [OF assms(1) d] by blast
next
  assume n: "down_spec (current ra s) (v, q) = None"
  show "\<exists>f. semaphore_down to ra psem s = Inl f"
  proof (cases "sem_count q = 0")
    case True
    then have "ready v = []" using n by (cases "ready v") (simp_all add: blocking_def)
    then show ?thesis using down_alone [OF assms(1) True] by blast
  next
    case False
    then show ?thesis using n down_stops [OF assms(1) False] by (auto split: if_splits)
  qed
next
  assume n: "up_spec (v, q) = None"
  have "set (sem_queue q) \<subseteq> set (blocked v)" using assms(1) by (simp add: sem_rel_def)
  then have "sem_count q \<noteq> 0" using n by (auto split: if_splits list.splits)
  then show "\<exists>f. semaphore_up to psem s = Inl f" using up_stops [OF assms(1)] by blast
qed

lemma exec_places:
  assumes "(lock_exec to ps plock)\<^sup>*\<^sup>* (s, \<lambda>_. Outside) x"
  shows "snd x p \<in> {Outside, Waiting, Inside}"
  using assms
proof (induction rule: rtranclp_induct)
  case (step y z)
  from step(2,3) show ?case by cases (auto split: if_splits)
qed simp

lemma boot_locked:
  "\<exists>(s :: machine) p t. sched_rel boot_threads [0xc009e000, p] s \<lparr>running = 0xc009e000, ready = [p], blocked = [], contexts = saved s\<rparr> \<and>
     lock_init 0xc0000e00 s = Inr ((), t) \<and> lock_ok s boot_threads [0xc009e000, p] 0xc0000e00 \<and>
     sem_ok s boot_threads [0xc009e000, p] (lock_semaphore 0xc0000e00) \<and> esp_ok t 0xc009e000 \<and> p \<noteq> 0xc009e000 \<and> intr_off t \<and>
     c_sp (saved s p) = p + 3684 \<and> lock_rel boot_threads [0xc009e000, p] 0xc0000e00 t
       (lock_start \<lparr>running = 0xc009e000, ready = [p], blocked = [], contexts = saved s\<rparr>)"
proof -
  from boot_two_threads obtain s :: machine and p where
    s: "sched_rel boot_threads [0xc009e000, p] s \<lparr>running = 0xc009e000, ready = [p], blocked = [], contexts = saved s\<rparr>"
      "esp_ok s 0xc009e000" "intr_off s" "c_sp (saved s p) = p + 3684" by auto
  note ok = boot_lock [OF s(1)]
  from lock_init_spec [OF s(1) ok] obtain t where
    t: "lock_init 0xc0000e00 s = Inr ((), t)"
      "lock_rel boot_threads [0xc009e000, p] 0xc0000e00 t (lock_start \<lparr>running = 0xc009e000, ready = [p], blocked = [], contexts = saved s\<rparr>)"
      "esp t = esp s" "eflags t = eflags s" by blast
  then have "esp_ok t 0xc009e000" "intr_off t" using s(2,3) by (simp_all add: esp_ok_def intr_off_def)
  moreover have "p \<noteq> 0xc009e000" using rel_parts(4) [OF s(1)] by auto
  ultimately show ?thesis using s(1,4) t ok by blast
qed

theorem semaphore_correct_witness:
  "\<exists>(s :: machine) t p. semaphore_down boot_threads 0xc0001234 (lock_semaphore 0xc0000e00) s = Inr (None, t) \<and>
     peek8 t (sem_value (lock_semaphore 0xc0000e00)) = 0 \<and> this_thread t = this_thread s"
proof -
  from boot_locked obtain s0 s :: machine and p where
    s: "lock_rel boot_threads [0xc009e000, p] 0xc0000e00 s (lock_start \<lparr>running = 0xc009e000, ready = [p], blocked = [], contexts = saved s0\<rparr>)"
      "esp_ok s 0xc009e000" by blast
  have r: "sem_rel boot_threads [0xc009e000, p] (lock_semaphore 0xc0000e00) s
    \<lparr>running = 0xc009e000, ready = [p], blocked = [], contexts = saved s0\<rparr> \<lparr>sem_count = 1, sem_queue = []\<rparr>"
    using s(1) by (simp add: lock_rel_def lock_start_def)
  from semaphore_correct [OF r, of "0xc0001234"] s(2) obtain t where
    t: "semaphore_down boot_threads 0xc0001234 (lock_semaphore 0xc0000e00) s = Inr (None, t)"
      "sem_rel boot_threads [0xc009e000, p] (lock_semaphore 0xc0000e00) t
        \<lparr>running = 0xc009e000, ready = [p], blocked = [], contexts = saved s0\<rparr> \<lparr>sem_count = 0, sem_queue = []\<rparr>" by auto
  then show ?thesis using rel_parts(2) [OF sem_rel_parts(1) [OF r]] rel_parts(2) [OF sem_rel_parts(1) [OF t(2)]]
    by (intro exI [of _ s] exI [of _ t] exI [of _ p]) (simp add: sem_rel_def)
qed

lemma ready_status:
  assumes r: "sched_rel to ps s v" and p: "p \<in> set ps" "status s p = status_code TASK_READY"
  shows "ready v \<noteq> []"
proof
  assume n: "ready v = []"
  then have "p = running v \<or> p \<in> set (blocked v)" using p(1) rel_tasks(2) [OF r] by auto
  moreover have "status s (running v) = status_code TASK_RUNNING" "\<forall>x \<in> set (blocked v). blocking (status s x)"
    using r rel_parts(1) [OF r] by (simp_all add: sched_rel_def sched_inv_def)
  ultimately show False using p(2) by (auto simp: blocking_def)
qed

text \<open>What the state of a run says of memory.\<close>

lemma run_state:
  assumes r: "lock_rel to ps plock s L" and i: "lock_inv L"
  shows "lk_pc L p = Inside \<Longrightarrow> peek32 s (lock_holder plock) = p \<and> peek32 s (holder_repeat_num plock) \<noteq> 0 \<and>
      peek8 s (sem_value (lock_semaphore plock)) = 0"
    "(\<And>p. \<not> owns (lk_pc L p)) \<Longrightarrow> peek8 s (sem_value (lock_semaphore plock)) = 1 \<and> peek32 s (lock_holder plock) = NULL"
    "this_thread s = lk_running L" "peek8 s (sem_value (lock_semaphore plock)) = sem_count (lk_sem L)"
proof -
  have sr: "sem_rel to ps (lock_semaphore plock) s (lk_sched L) (lk_sem L)"
    and f: "peek32 s (lock_holder plock) = lk_holder L" "peek32 s (holder_repeat_num plock) = lk_repeat L"
    using r by (simp_all add: lock_rel_def)
  show v: "peek8 s (sem_value (lock_semaphore plock)) = sem_count (lk_sem L)" using sr by (simp add: sem_rel_def)
  show "this_thread s = lk_running L" by (rule rel_parts(2) [OF sem_rel_parts(1) [OF sr]])
  note ip = inv_parts [OF i]
  show "peek32 s (lock_holder plock) = p \<and> peek32 s (holder_repeat_num plock) \<noteq> 0 \<and> peek8 s (sem_value (lock_semaphore plock)) = 0"
    if "lk_pc L p = Inside" using ip(2) [of p] ip(4) [OF that] that by (simp add: v f)
  show "peek8 s (sem_value (lock_semaphore plock)) = 1 \<and> peek32 s (lock_holder plock) = NULL" if n: "\<And>p. \<not> owns (lk_pc L p)"
  proof -
    have "lk_pc L p \<noteq> Inside" for p using n [of p] by auto
    moreover have "sem_count (lk_sem L) = 1" using i n by (auto simp: lock_inv_def owner_inv_def split: if_splits)
    ultimately show ?thesis using ip(5) by (simp add: v f)
  qed
qed

text \<open>A release by the holder: one level less, or the lock is free again.\<close>

lemma release_outcome:
  assumes L: "lock_inv L" "lock_rel to ps plock t L" and pc: "lk_pc L (lk_running L) = Inside"
  shows "\<exists>u. lock_release to plock t = Inr ((), u) \<and>
    (if peek32 t (holder_repeat_num plock) > 1
     then peek32 u (holder_repeat_num plock) = peek32 t (holder_repeat_num plock) - 1 \<and> peek32 u (lock_holder plock) = this_thread t
     else peek32 u (lock_holder plock) = NULL \<and> peek8 u (sem_value (lock_semaphore plock)) = 1)"
proof -
  note st = run_state [OF L(2,1)]
  from release_refines [OF L(2,1) pc] obtain u L' where
    u: "lock_release to plock t = Inr ((), u)" "lock_step\<^sup>*\<^sup>* L L'" "lock_rel to ps plock u L'"
      "if lk_repeat L > 1 then lk_repeat L' = lk_repeat L - 1 \<and> lk_pc L' = lk_pc L
       else lk_holder L' = NULL \<and> lk_pc L' = (lk_pc L)(lk_running L := Outside)" by blast
  note ru = run_state [OF u(3) lm.steps_inv [OF u(2) L(1)]]
  have n: "peek32 t (holder_repeat_num plock) = lk_repeat L" "peek32 u (holder_repeat_num plock) = lk_repeat L'"
    using L(2) u(3) by (simp_all add: lock_rel_def)
  have fin: "if lk_repeat L > 1 then lk_repeat L' = lk_repeat L - 1 \<and> peek32 u (lock_holder plock) = this_thread t
      else peek32 u (lock_holder plock) = NULL \<and> peek8 u (sem_value (lock_semaphore plock)) = 1"
  proof (cases "lk_repeat L > 1")
    case True
    then show ?thesis using u(4) ru(1) [of "lk_running L"] pc st(3) by simp
  next
    case False
    have "\<not> owns (lk_pc L' q)" for q
      using inv_parts(3) [OF L(1), of "lk_running L" q] pc u(4) False by (cases "q = lk_running L") auto
    with ru(2) show ?thesis using False by simp
  qed
  then show ?thesis using u(1) n by (intro exI [of _ u]) simp
qed



text \<open>A run of the code at boot: the main thread acquires the lock, and the second thread waits for it.\<close>

lemma boot_acquired:
  "\<exists>(s :: machine) s0 t u p. sched_rel boot_threads [0xc009e000, p] s \<lparr>running = 0xc009e000, ready = [p], blocked = [], contexts = saved s\<rparr> \<and>
     lock_ok s boot_threads [0xc009e000, p] 0xc0000e00 \<and> sem_ok s boot_threads [0xc009e000, p] (lock_semaphore 0xc0000e00) \<and>
     lock_init 0xc0000e00 s = Inr ((), s0) \<and>
     (lock_exec boot_threads [0xc009e000, p] 0xc0000e00)\<^sup>*\<^sup>* (s0, \<lambda>_. Outside) (t, (\<lambda>_. Outside)(0xc009e000 := Inside)) \<and>
     (lock_exec boot_threads [0xc009e000, p] 0xc0000e00)\<^sup>*\<^sup>* (s0, \<lambda>_. Outside) (u, (\<lambda>_. Outside)(0xc009e000 := Inside, p := Waiting)) \<and>
     p \<noteq> 0xc009e000"
proof -
  let ?to = boot_threads and ?l = "0xc0000e00 :: addr"
  from boot_locked obtain s s0 :: machine and p where
    s: "sched_rel ?to [0xc009e000, p] s \<lparr>running = 0xc009e000, ready = [p], blocked = [], contexts = saved s\<rparr>"
      "lock_ok s ?to [0xc009e000, p] ?l" "sem_ok s ?to [0xc009e000, p] (lock_semaphore ?l)"
      "lock_init ?l s = Inr ((), s0)" "esp_ok s0 0xc009e000" "p \<noteq> 0xc009e000" "intr_off s0" "c_sp (saved s p) = p + 3684"
      "lock_rel ?to [0xc009e000, p] ?l s0 (lock_start \<lparr>running = 0xc009e000, ready = [p], blocked = [], contexts = saved s\<rparr>)"
    by blast
  let ?ps = "[0xc009e000, p]" and ?v = "\<lparr>running = 0xc009e000, ready = [p], blocked = [], contexts = saved s\<rparr>"
  have i: "lock_inv (lock_start ?v)" using lock_init_spec [OF s(1-3)] by blast
  have cur: "this_thread s0 = 0xc009e000" using run_state(3) [OF s(9) i] by (simp add: lock_start_def)
  from acquire_refines [OF s(9) i, of "0xc0001234"] s(5) obtain t L1 where
    t: "lock_acquire ?to 0xc0001234 ?l s0 = Inr (None, t)" "lock_step\<^sup>*\<^sup>* (lock_start ?v) L1" "lock_rel ?to ?ps ?l t L1"
      "lk_pc L1 = (\<lambda>_. Outside)(0xc009e000 := Inside)" "lk_sched L1 = ?v" "esp t = esp s0" "eflags t = eflags s0"
    by (auto simp: lock_start_def)
  have i1: "lock_inv L1" by (rule lm.steps_inv [OF t(2) i])
  have "lock_exec ?to ?ps ?l (s0, \<lambda>_. Outside) (t, (\<lambda>_. Outside)(this_thread s0 := if None = (None :: suspended) then Inside else Waiting))"
    by (rule lock_exec.acquire [OF _ _ t(1)]) (use s(5) cur in simp_all)
  then have x1: "lock_exec ?to ?ps ?l (s0, \<lambda>_. Outside) (t, lk_pc L1)" by (simp add: cur t(4))
  have st: "sem_rel ?to ?ps (lock_semaphore ?l) t ?v (lk_sem L1)" using t(3,5) by (simp add: lock_rel_def)
  have c1: "sem_count (lk_sem L1) = 0" using inv_parts(2) [OF i1, of "0xc009e000"] t(4) by simp
  have off: "intr_off t" "esp_ok t 0xc009e000" using s(5,7) t(6,7) by (simp_all add: intr_off_def esp_ok_def)
  from preempt_simulates [OF sem_rel_parts(1) [OF st] off(1), of "0xc0001234"] off(2) obtain u v where
    u: "schedule ?to 0xc0001234 t = Inr ((), u)" "sched_spec (Preempt (current 0xc0001234 t)) ?v = Some v" "cpu u = contexts v (running v)" by auto
  have ct: "this_thread t = 0xc009e000" using run_state(3) [OF t(3) i1] t(5) by simp
  have pre: "sched_step ?to ?ps t (Preempt (current 0xc0001234 t)) u"
    by (rule sched_step.preempt [OF off(1) _ u(1)]) (use off(2) ct in simp)
  have x2: "lock_exec ?to ?ps ?l (t, lk_pc L1) (u, lk_pc L1)" by (rule lock_exec.event [OF pre]) simp_all
  from sem_step [OF st pre] u(2) have su: "sem_rel ?to ?ps (lock_semaphore ?l) u v (lk_sem L1)" "sem_frame ?to ?ps (lock_semaphore ?l) t u" by auto
  have v: "running v = p" "ready v = [0xc009e000]" "blocked v = []" "contexts v p = saved s p" using u(2) s(6) by auto
  have eu: "esp_ok u p" using arg_cong [OF u(3), of c_sp] v s(8) by (simp add: cpu_def esp_ok_def)
  let ?L2 = "L1\<lparr>lk_sched := v\<rparr>"
  have r2: "lock_rel ?to ?ps ?l u ?L2" using lock_rel_frame [OF t(3) su] by (simp add: lock_rel_def)
  have "lock_step L1 ?L2" by (rule lock_step.preempted) (use u(2) t(5) in simp)
  then have i2: "lock_inv ?L2" by (rule lock_step_inv [OF _ i1])
  have cu: "this_thread u = p" using run_state(3) [OF r2 i2] v by simp
  from acquire_refines [OF r2 i2, of "0xc0005678"] eu v t(4) s(6) c1 obtain x w where
    w: "lock_acquire ?to 0xc0005678 ?l u = Inr (x, w)" "x \<noteq> None" by auto
  have "lock_exec ?to ?ps ?l (u, lk_pc L1) (w, (lk_pc L1)(this_thread u := if x = None then Inside else Waiting))"
    by (rule lock_exec.acquire [OF _ _ w(1)]) (use eu cu t(4) s(6) in simp_all)
  then have x3: "lock_exec ?to ?ps ?l (u, lk_pc L1) (w, (\<lambda>_. Outside)(0xc009e000 := Inside, p := Waiting))" using w(2) by (simp add: cu t(4))
  have r1: "(lock_exec ?to ?ps ?l)\<^sup>*\<^sup>* (s0, \<lambda>_. Outside) (t, (\<lambda>_. Outside)(0xc009e000 := Inside))"
    using x1 unfolding t(4) by (rule r_into_rtranclp)
  have "(lock_exec ?to ?ps ?l)\<^sup>*\<^sup>* (s0, \<lambda>_. Outside) (w, (\<lambda>_. Outside)(0xc009e000 := Inside, p := Waiting))"
    by (rule rtranclp.rtrancl_into_rtrancl [OF rtranclp.rtrancl_into_rtrancl [OF r_into_rtranclp [of "lock_exec ?to ?ps ?l", OF x1] x2] x3])
  with s(1-4,6) r1 show ?thesis by blast
qed





end
