(* ===== verification/Vga.thy ===== *)
theory Vga
  imports CString
begin

unbundle bit_operations_syntax

section \<open>The text screen (libs/vga_basic.c, libs/port.c, include/io.h)\<close>

text \<open>
  The screen driver behind \<open>printk\<close>: 25 rows of 80 cells of a character and an attribute
  byte in video memory, a software cursor in two bytes, and the cursor registers of the
  VGA. The machine is extended with the 4000 bytes of video memory (a device at 0xB8000,
  outside the RAM the kernel uses) and the two static variables. The second half
  describes the screen as a terminal over a list of cells, which the code implements.
\<close>

subsection \<open>Ports\<close>

definition outb :: "u16 \<Rightarrow> u8 \<Rightarrow> ('z machine_scheme, unit) comp" where
  "outb port value = modify (\<lambda>s. s\<lparr>ports_out := ports_out s @ [(port, value)]\<rparr>)"

definition ioutb :: "u16 \<Rightarrow> u8 \<Rightarrow> ('z machine_scheme, unit) comp" where
  "ioutb port data = modify (\<lambda>s. s\<lparr>ports_out := ports_out s @ [(port, data)]\<rparr>)"

text \<open>What a port presents when it is read comes from the device: a parameter.\<close>

definition inb :: "(u16 \<Rightarrow> u8) \<Rightarrow> u16 \<Rightarrow> ('z machine_scheme, u8) comp" where
  "inb dev port = ret (dev port)"

definition iinb :: "(u16 \<Rightarrow> u8) \<Rightarrow> u16 \<Rightarrow> ('z machine_scheme, u8) comp" where
  "iinb dev port = ret (dev port)"

definition inw :: "(u16 \<Rightarrow> u16) \<Rightarrow> u16 \<Rightarrow> ('z machine_scheme, u16) comp" where
  "inw dev port = ret (dev port)"

subsection \<open>State and operations of the driver\<close>

datatype vga_color_t = black | blue | green | cyan | red | magenta | brown | light_grey | dark_grey
  | light_blue | light_green | light_cyan | light_red | light_magenta | yellow | white

fun color_code :: "vga_color_t \<Rightarrow> u8" where
  "color_code black = 0"
| "color_code blue = 1"
| "color_code green = 2"
| "color_code cyan = 3"
| "color_code red = 4"
| "color_code magenta = 5"
| "color_code brown = 6"
| "color_code light_grey = 7"
| "color_code dark_grey = 8"
| "color_code light_blue = 9"
| "color_code light_green = 10"
| "color_code light_cyan = 11"
| "color_code light_red = 12"
| "color_code light_magenta = 13"
| "color_code yellow = 14"
| "color_code white = 15"

record vga_machine = machine +
  video_memory :: "u8 list"
  cursor_x :: u8
  cursor_y :: u8

definition tab_length :: nat where
  "tab_length = 4"

definition vga_load :: "nat \<Rightarrow> ('z vga_machine_scheme, u8) comp" where
  "vga_load i s = (if i < length (video_memory s) then Inr (video_memory s ! i, s) else Inl (Out_Of_Bounds (int i)))"

definition vga_store :: "nat \<Rightarrow> u8 \<Rightarrow> ('z vga_machine_scheme, unit) comp" where
  "vga_store i v s = (if i < length (video_memory s) then Inr ((), s\<lparr>video_memory := (video_memory s)[i := v]\<rparr>)
     else Inl (Out_Of_Bounds (int i)))"

definition cursor_location :: "u8 \<Rightarrow> u8 \<Rightarrow> u16" where
  "cursor_location x y = ucast y * 80 + ucast x"

definition move_cursor :: "('z vga_machine_scheme, unit) comp" where
  "move_cursor = cbind (gets (\<lambda>s. cursor_location (cursor_x s) (cursor_y s))) (\<lambda>l.
     cseq (outb 0x3D4 14)
    (cseq (outb 0x3D5 (ucast (drop_bit 8 l)))
    (cseq (outb 0x3D4 15)
          (outb 0x3D5 (ucast l)))))"

definition move_cursor_by_XY :: "u8 \<Rightarrow> u8 \<Rightarrow> ('z vga_machine_scheme, unit) comp" where
  "move_cursor_by_XY x y =
     (if x > 79 \<or> y > 24 then ret ()
      else cseq (modify (\<lambda>s. s\<lparr>cursor_x := x\<rparr>)) (cseq (modify (\<lambda>s. s\<lparr>cursor_y := y\<rparr>)) move_cursor))"

text \<open>One 16-bit cell is copied as its two bytes; an index counts cells.\<close>

definition copy_cell :: "nat \<Rightarrow> nat \<Rightarrow> ('z vga_machine_scheme, unit) comp" where
  "copy_cell target source =
     cbind (vga_load (2 * source)) (\<lambda>c. cbind (vga_load (2 * source + 1)) (\<lambda>a.
     cseq (vga_store (2 * target) c) (vga_store (2 * target + 1) a)))"

definition screen_uproll_once :: "('z vga_machine_scheme, unit) comp" where
  "screen_uproll_once =
     cseq (run_all (\<lambda>j. run_all (\<lambda>i. copy_cell ((j - 1) * 80 + i) (j * 80 + i)) [0..<80]) [1..<25])
    (cseq (run_all (\<lambda>i. cseq (vga_store (2 * (24 * 80 + i)) 0) (vga_store (2 * (24 * 80 + i) + 1) 0x0F)) [0..<80])
    (cbind (gets cursor_y) (\<lambda>y.
       if y \<noteq> 0 then cseq (modify (\<lambda>s. s\<lparr>cursor_y := y - 1\<rparr>)) move_cursor else ret ())))"

definition vga_putc :: "u8 \<Rightarrow> vga_color_t \<Rightarrow> vga_color_t \<Rightarrow> ('z vga_machine_scheme, unit) comp" where
  "vga_putc input bg fg =
     cbind (gets (\<lambda>s. unat (cursor_location (cursor_x s) (cursor_y s)))) (\<lambda>l.
     cseq (vga_store (2 * l) input)
    (cseq (vga_store (2 * l + 1) (push_bit 4 (color_code bg) OR (color_code fg AND 0x0F)))
    (cbind (gets cursor_x) (\<lambda>x. cbind (gets cursor_y) (\<lambda>y.
     cseq (if x = 79 then
             if y = 24 then cseq screen_uproll_once (modify (\<lambda>s. s\<lparr>cursor_x := 0, cursor_y := 24\<rparr>))
             else modify (\<lambda>s. s\<lparr>cursor_x := 0, cursor_y := y + 1\<rparr>)
           else modify (\<lambda>s. s\<lparr>cursor_x := x + 1\<rparr>))
          move_cursor)))))"

definition clear_screen :: "('z vga_machine_scheme, unit) comp" where
  "clear_screen =
     cseq (modify (\<lambda>s. s\<lparr>cursor_x := 0, cursor_y := 0\<rparr>))
    (cseq (run_all (\<lambda>j. run_all (\<lambda>i. vga_putc 0 black white) [0..<80]) [0..<25])
    (cseq (modify (\<lambda>s. s\<lparr>cursor_x := 0, cursor_y := 0\<rparr>))
          move_cursor))"

definition kputc_color :: "u8 \<Rightarrow> vga_color_t \<Rightarrow> vga_color_t \<Rightarrow> ('z vga_machine_scheme, unit) comp" where
  "kputc_color input bg fg =
     (if input = 9 then run_all (\<lambda>i. vga_putc 0 bg fg) [0..<tab_length]
      else if input = 10 then
        cbind (gets (\<lambda>s. 80 - cursor_x s)) (\<lambda>n.
          run_all (\<lambda>i. vga_putc 0 bg fg) [0..<unat (if n = 0 then 80 else n)])
      else vga_putc input bg fg)"

definition kputc :: "u8 \<Rightarrow> ('z vga_machine_scheme, unit) comp" where
  "kputc input = kputc_color input black white"

partial_function (option) kputs_loop ::
  "vga_color_t \<Rightarrow> vga_color_t \<Rightarrow> addr \<Rightarrow> 'z vga_machine_scheme \<Rightarrow> (fail + (unit \<times> 'z vga_machine_scheme)) option" where
  "kputs_loop bg fg probe s =
     (case load8 probe s of Inl f \<Rightarrow> Some (Inl f) | Inr (c, s1) \<Rightarrow>
       if c \<noteq> 0 then
         (case kputc_color c bg fg s1 of Inl f \<Rightarrow> Some (Inl f) | Inr (_, s2) \<Rightarrow> kputs_loop bg fg (probe + 1) s2)
       else Some (Inr ((), s1)))"

definition kputs_color :: "addr \<Rightarrow> vga_color_t \<Rightarrow> vga_color_t \<Rightarrow> ('z vga_machine_scheme, unit) comp" where
  "kputs_color input_str bg fg s = returning (kputs_loop bg fg input_str s)"

definition kputs :: "addr \<Rightarrow> ('z vga_machine_scheme, unit) comp" where
  "kputs input_str = kputs_color input_str black white"

definition vga_init :: "('z vga_machine_scheme, unit) comp" where
  "vga_init = clear_screen"

subsection \<open>Loops over cells\<close>

lemma run_all_append: "run_all f (xs @ ys) = cseq (run_all f xs) (run_all f ys)"
proof (induction xs)
  case Nil
  show ?case by (rule ext) (simp add: comp_simps)
next
  case (Cons x xs)
  then show ?case by (simp add: cseq_assoc)
qed

lemma run_all_concat: "run_all (\<lambda>x. run_all f (g x)) xs = run_all f (concat (map g xs))"
proof (induction xs)
  case (Cons x xs)
  then show ?case by (simp add: run_all_append)
qed simp

lemma run_all_map: "run_all f (map g xs) = run_all (\<lambda>x. f (g x)) xs"
  by (induction xs) simp_all

lemma rows_of_cells: "concat (map (\<lambda>j. map (\<lambda>i. j * w + i) [0..<w]) [0..<h]) = [0..<h * w]" for w h :: nat
proof (induction h)
  case (Suc h)
  have "map (\<lambda>i. h * w + i) [0..<w] = [h * w..<h * w + w]" by (rule nth_equalityI) simp_all
  moreover have "[0..<Suc h * w] = [0..<h * w] @ [h * w..<h * w + w]"
    using upt_add_eq_append [of 0 "h * w" w] by (simp only: mult_Suc add.commute [of w] le0 simp_thms)
  ultimately show ?case using Suc.IH by (simp only: upt_Suc_append le0 map_append concat_append) simp
qed simp

lemma run_all_upt:
  assumes "\<And>i s. i < n \<Longrightarrow> P i s \<Longrightarrow> \<exists>t. f i s = Inr ((), t) \<and> P (Suc i) t"
  shows "P 0 s \<Longrightarrow> \<exists>t. run_all f [0..<n] s = Inr ((), t) \<and> P n t"
proof -
  have "P 0 s \<Longrightarrow> \<exists>t. run_all f [0..<k] s = Inr ((), t) \<and> P k t" if "k \<le> n" for k
    using that
  proof (induction k)
    case 0
    then show ?case by (simp add: ret_def)
  next
    case (Suc k)
    then obtain t where t: "run_all f [0..<k] s = Inr ((), t)" "P k t" by auto
    from assms [OF _ t(2)] Suc.prems obtain u where "f k t = Inr ((), u)" "P (Suc k) u" by auto
    then show ?case using t(1) by (simp add: run_all_append cseq_def cbind_def ret_def)
  qed
  then show "P 0 s \<Longrightarrow> ?thesis" by blast
qed

subsection \<open>The screen as a list of cells\<close>

type_synonym cell = "u8 \<times> u8"

record screen =
  scr_cells :: "cell list"
  scr_pos :: nat

definition blank :: cell where
  "blank = (0, 0x0F)"

text \<open>The terminal: a character goes to the position; past the last cell all rows move up by one.\<close>

definition term_put :: "cell \<Rightarrow> screen \<Rightarrow> screen" where
  "term_put c q =
     (let cs = (scr_cells q)[scr_pos q := c] in
      if scr_pos q = 1999 then \<lparr>scr_cells = drop 80 cs @ replicate 80 blank, scr_pos = 1920\<rparr>
      else \<lparr>scr_cells = cs, scr_pos = scr_pos q + 1\<rparr>)"

definition color_attr :: "vga_color_t \<Rightarrow> vga_color_t \<Rightarrow> u8" where
  "color_attr bg fg = push_bit 4 (color_code bg) OR (color_code fg AND 0x0F)"

definition term_char :: "u8 \<Rightarrow> u8 \<Rightarrow> screen \<Rightarrow> screen" where
  "term_char a ch q =
     (if ch = 9 then (term_put (0, a) ^^ 4) q
      else if ch = 10 then (term_put (0, a) ^^ (80 - scr_pos q mod 80)) q
      else term_put (ch, a) q)"

definition cells_of :: "u8 list \<Rightarrow> cell list" where
  "cells_of vm = map (\<lambda>k. (vm ! (2 * k), vm ! (2 * k + 1))) [0..<2000]"

definition vga_ok :: "'z vga_machine_scheme \<Rightarrow> bool" where
  "vga_ok s \<longleftrightarrow> length (video_memory s) = 4000 \<and> cursor_x s < 80 \<and> cursor_y s < 25"

definition screen_of :: "'z vga_machine_scheme \<Rightarrow> screen" where
  "screen_of s = \<lparr>scr_cells = cells_of (video_memory s), scr_pos = unat (cursor_y s) * 80 + unat (cursor_x s)\<rparr>"

text \<open>The cursor the VGA shows: registers 14 and 15, selected through 0x3D4 and written through 0x3D5.\<close>

fun crtc_write :: "u8 \<times> u8 \<times> u8 \<Rightarrow> u16 \<times> u8 \<Rightarrow> u8 \<times> u8 \<times> u8" where
  "crtc_write (idx, hi, lo) (port, v) =
     (if port = 0x3D4 then (v, hi, lo)
      else if port = 0x3D5 then if idx = 14 then (idx, v, lo) else if idx = 15 then (idx, hi, v) else (idx, hi, lo)
      else (idx, hi, lo))"

definition shown_cursor :: "(u16 \<times> u8) list \<Rightarrow> nat" where
  "shown_cursor ps = (case foldl crtc_write (0, 0, 0) ps of (_, hi, lo) \<Rightarrow> unat hi * 256 + unat lo)"

text \<open>The driver changes nothing else of the machine.\<close>

definition vga_frame :: "'z vga_machine_scheme \<Rightarrow> 'z vga_machine_scheme \<Rightarrow> bool" where
  "vga_frame s t \<longleftrightarrow> (\<exists>vm x y po. t = s\<lparr>ports_out := po, video_memory := vm, cursor_x := x, cursor_y := y\<rparr>)"

lemma vga_frame_refl [intro]: "vga_frame s s"
  unfolding vga_frame_def by (intro exI [of _ "video_memory s"] exI [of _ "cursor_x s"] exI [of _ "cursor_y s"] exI [of _ "ports_out s"]) simp

lemma vga_frame_trans: "vga_frame s t \<Longrightarrow> vga_frame t u \<Longrightarrow> vga_frame s u"
  unfolding vga_frame_def by force

lemma vga_frame_upd [intro]:
  assumes "vga_frame s t"
  shows "vga_frame s (t\<lparr>video_memory := vm\<rparr>)" "vga_frame s (t\<lparr>cursor_x := x\<rparr>)"
    "vga_frame s (t\<lparr>cursor_y := y\<rparr>)" "vga_frame s (t\<lparr>ports_out := po\<rparr>)"
proof -
  have one: "vga_frame t (t\<lparr>video_memory := vm\<rparr>)" "vga_frame t (t\<lparr>cursor_x := x\<rparr>)"
    "vga_frame t (t\<lparr>cursor_y := y\<rparr>)" "vga_frame t (t\<lparr>ports_out := po\<rparr>)"
    unfolding vga_frame_def
    by (intro exI [of _ vm] exI [of _ "cursor_x t"] exI [of _ "cursor_y t"] exI [of _ "ports_out t"], simp)
      (intro exI [of _ "video_memory t"] exI [of _ x] exI [of _ "cursor_y t"] exI [of _ "ports_out t"], simp,
       intro exI [of _ "video_memory t"] exI [of _ "cursor_x t"] exI [of _ y] exI [of _ "ports_out t"], simp,
       intro exI [of _ "video_memory t"] exI [of _ "cursor_x t"] exI [of _ "cursor_y t"] exI [of _ po], simp)
  show "vga_frame s (t\<lparr>video_memory := vm\<rparr>)" by (rule vga_frame_trans [OF assms one(1)])
  show "vga_frame s (t\<lparr>cursor_x := x\<rparr>)" by (rule vga_frame_trans [OF assms one(2)])
  show "vga_frame s (t\<lparr>cursor_y := y\<rparr>)" by (rule vga_frame_trans [OF assms one(3)])
  show "vga_frame s (t\<lparr>ports_out := po\<rparr>)" by (rule vga_frame_trans [OF assms one(4)])
qed

lemma length_cells [simp]: "length (cells_of vm) = 2000"
  by (simp add: cells_of_def)

lemma cells_update:
  assumes "length vm = 4000" "k < 2000"
  shows "cells_of (vm[2 * k := a, 2 * k + 1 := b]) = (cells_of vm)[k := (a, b)]"
proof (rule nth_equalityI)
  fix i assume i: "i < length (cells_of (vm[2 * k := a, 2 * k + 1 := b]))"
  have "2 * i \<noteq> 2 * k + 1" "2 * i + 1 \<noteq> 2 * k" by presburger+
  with i assms show "cells_of (vm[2 * k := a, 2 * k + 1 := b]) ! i = (cells_of vm)[k := (a, b)] ! i"
    by (cases "i = k") (simp_all add: cells_of_def nth_list_update)
qed simp

lemma copy_cell_spec:
  assumes "length (video_memory s) = 4000" "k < 2000" "j < 2000"
  shows "\<exists>vm. copy_cell k j s = Inr ((), s\<lparr>video_memory := vm\<rparr>) \<and> length vm = 4000 \<and>
    cells_of vm = (cells_of (video_memory s))[k := cells_of (video_memory s) ! j]"
  using assms cells_update [OF assms(1,2)]
  by (intro exI [of _ "(video_memory s)[2 * k := video_memory s ! (2 * j), 2 * k + 1 := video_memory s ! (2 * j + 1)]"])
    (simp add: copy_cell_def vga_load_def vga_store_def cbind_def cseq_def cells_of_def)

lemma uproll_copies:
  assumes "length (video_memory s) = 4000"
  shows "\<exists>vm. run_all (\<lambda>j. run_all (\<lambda>i. copy_cell ((j - 1) * 80 + i) (j * 80 + i)) [0..<80]) [1..<25] s = Inr ((), s\<lparr>video_memory := vm\<rparr>) \<and>
    length vm = 4000 \<and> cells_of vm = drop 80 (cells_of (video_memory s)) @ drop 1920 (cells_of (video_memory s))"
proof -
  let ?old = "cells_of (video_memory s)"
  have "[1..<25] = map Suc [0..<24]" by (simp add: map_Suc_upt)
  then have "run_all (\<lambda>j. run_all (\<lambda>i. copy_cell ((j - 1) * 80 + i) (j * 80 + i)) [0..<80]) [1..<25]
    = run_all (\<lambda>j. run_all (\<lambda>k. copy_cell k (k + 80)) (map (\<lambda>i. j * 80 + i) [0..<80])) [0..<24]"
    by (simp only: run_all_map) (simp add: add.commute add.left_commute)
  also have "\<dots> = run_all (\<lambda>k. copy_cell k (k + 80)) [0..<1920]"
    using rows_of_cells [of 80 24] by (simp add: run_all_concat)
  finally have eq: "run_all (\<lambda>j. run_all (\<lambda>i. copy_cell ((j - 1) * 80 + i) (j * 80 + i)) [0..<80]) [1..<25] = \<dots>" .
  let ?P = "\<lambda>n t. \<exists>vm. t = s\<lparr>video_memory := vm\<rparr> \<and> length vm = 4000 \<and> cells_of vm = take n (drop 80 ?old) @ drop n ?old"
  have "\<exists>t. run_all (\<lambda>k. copy_cell k (k + 80)) [0..<1920] s = Inr ((), t) \<and> ?P 1920 t"
  proof (rule run_all_upt)
    show "?P 0 s" using assms by (intro exI [of _ "video_memory s"]) simp
    fix i t assume i: "i < 1920" and "?P i t"
    then obtain vm where vm: "t = s\<lparr>video_memory := vm\<rparr>" "length vm = 4000" "cells_of vm = take i (drop 80 ?old) @ drop i ?old" by blast
    from copy_cell_spec [of t i "i + 80"] i vm obtain vm' where
      vm': "copy_cell i (i + 80) t = Inr ((), t\<lparr>video_memory := vm'\<rparr>)" "length vm' = 4000"
        "cells_of vm' = (cells_of vm)[i := cells_of vm ! (i + 80)]" by auto
    have "cells_of vm' = take (Suc i) (drop 80 ?old) @ drop (Suc i) ?old"
    proof (rule nth_equalityI)
      show "length (cells_of vm') = length (take (Suc i) (drop 80 ?old) @ drop (Suc i) ?old)" using i by simp
      show "cells_of vm' ! k = (take (Suc i) (drop 80 ?old) @ drop (Suc i) ?old) ! k" if "k < length (cells_of vm')" for k
        using that i by (simp add: vm'(3) vm(3) nth_list_update nth_append less_Suc_eq add.commute)
    qed
    with vm' vm(1) show "\<exists>u. copy_cell i (i + 80) t = Inr ((), u) \<and> ?P (Suc i) u"
      by (intro exI [of _ "t\<lparr>video_memory := vm'\<rparr>"]) auto
  qed
  then show ?thesis unfolding eq by auto
qed

lemma last_row_filled:
  assumes "length (video_memory s) = 4000"
  shows "\<exists>vm. run_all (\<lambda>i. cseq (vga_store (2 * (24 * 80 + i)) a) (vga_store (2 * (24 * 80 + i) + 1) b)) [0..<80] s
      = Inr ((), s\<lparr>video_memory := vm\<rparr>) \<and>
    length vm = 4000 \<and> cells_of vm = take 1920 (cells_of (video_memory s)) @ replicate 80 (a, b)"
proof -
  let ?old = "cells_of (video_memory s)" and ?f = "\<lambda>i. cseq (vga_store (2 * (24 * 80 + i)) a) (vga_store (2 * (24 * 80 + i) + 1) b)"
  let ?P = "\<lambda>n t. \<exists>vm. t = s\<lparr>video_memory := vm\<rparr> \<and> length vm = 4000 \<and>
    cells_of vm = take 1920 ?old @ replicate n (a, b) @ drop (1920 + n) ?old"
  have "\<exists>t. run_all ?f [0..<80] s = Inr ((), t) \<and> ?P 80 t"
  proof (rule run_all_upt)
    show "?P 0 s" using assms by (intro exI [of _ "video_memory s"]) simp
    fix i t assume i: "i < 80" and "?P i t"
    then obtain vm where vm: "t = s\<lparr>video_memory := vm\<rparr>" "length vm = 4000"
      "cells_of vm = take 1920 ?old @ replicate i (a, b) @ drop (1920 + i) ?old" by blast
    let ?vm = "vm[2 * (1920 + i) := a, 2 * (1920 + i) + 1 := b]"
    have "?f i t = Inr ((), s\<lparr>video_memory := ?vm\<rparr>)"
      using vm(2) i by (simp add: vm(1) vga_store_def cseq_def cbind_def)
    moreover have "cells_of ?vm = take 1920 ?old @ replicate (Suc i) (a, b) @ drop (1920 + Suc i) ?old"
      unfolding cells_update [OF vm(2), of "1920 + i", OF _] using i
      by (subst cells_update [OF vm(2)], simp)
        (simp add: vm(3) list_update_append replicate_append_same [symmetric] Cons_nth_drop_Suc [symmetric] del: replicate_append_same)
    ultimately show "\<exists>u. ?f i t = Inr ((), u) \<and> ?P (Suc i) u" using vm(2) by (intro exI [of _ "s\<lparr>video_memory := ?vm\<rparr>"]) auto
  qed
  then show ?thesis by auto
qed

lemma cursor_unat:
  assumes "x < 80" "y < 25"
  shows "unat (cursor_location x y) = unat y * 80 + unat x"
proof -
  have "unat x < 80" "unat y < 25" using assms by (simp_all add: word_less_nat_alt)
  then show ?thesis by (simp add: cursor_location_def unat_word_ariths unsigned_ucast_eq take_bit_eq_mod)
qed

lemma cursor_written:
  "shown_cursor (ps @ [(0x3D4, 14), (0x3D5, ucast (drop_bit 8 l)), (0x3D4, 15), (0x3D5, ucast (l :: u16))]) = unat l"
proof -
  obtain a hi lo where f: "foldl crtc_write (0, 0, 0) ps = (a, hi, lo)" by (cases "foldl crtc_write (0, 0, 0) ps") auto
  have "unat l < 65536" using unsigned_less [of l] by simp
  then have "unat l div 256 < 256" by (simp add: less_mult_imp_div_less)
  then have "unat (ucast (drop_bit 8 l) :: u8) * 256 + unat (ucast l :: u8) = unat l"
    by (simp add: unsigned_ucast_eq take_bit_eq_mod unat_drop del: drop_bit_eq_div)
  then show ?thesis by (simp add: shown_cursor_def f)
qed

lemma move_cursor_run:
  "\<exists>po. move_cursor s = Inr ((), s\<lparr>ports_out := po\<rparr>) \<and> shown_cursor po = unat (cursor_location (cursor_x s) (cursor_y s))"
  by (rule exI [of _ "ports_out s @ [(0x3D4, 14), (0x3D5, ucast (drop_bit 8 (cursor_location (cursor_x s) (cursor_y s)))),
      (0x3D4, 15), (0x3D5, ucast (cursor_location (cursor_x s) (cursor_y s)))]"], rule conjI [OF _ cursor_written])
    (simp add: move_cursor_def outb_def comp_simps)

lemma uproll_spec:
  assumes ok: "vga_ok s"
  shows "\<exists>t. screen_uproll_once s = Inr ((), t) \<and> vga_frame s t \<and> length (video_memory t) = 4000 \<and>
    cells_of (video_memory t) = drop 80 (cells_of (video_memory s)) @ replicate 80 blank \<and>
    cursor_x t = cursor_x s \<and> cursor_y t = (if cursor_y s = 0 then 0 else cursor_y s - 1)"
proof -
  have len: "length (video_memory s) = 4000" using ok by (simp add: vga_ok_def)
  from uproll_copies [OF len] obtain vm where
    vm: "run_all (\<lambda>j. run_all (\<lambda>i. copy_cell ((j - 1) * 80 + i) (j * 80 + i)) [0..<80]) [1..<25] s = Inr ((), s\<lparr>video_memory := vm\<rparr>)"
      "length vm = 4000" "cells_of vm = drop 80 (cells_of (video_memory s)) @ drop 1920 (cells_of (video_memory s))" by blast
  from last_row_filled [of "s\<lparr>video_memory := vm\<rparr>" 0 "0x0F"] vm(2) obtain vm' where
    vm': "run_all (\<lambda>i. cseq (vga_store (2 * (24 * 80 + i)) 0) (vga_store (2 * (24 * 80 + i) + 1) 0x0F)) [0..<80] (s\<lparr>video_memory := vm\<rparr>)
      = Inr ((), s\<lparr>video_memory := vm'\<rparr>)" "length vm' = 4000" "cells_of vm' = take 1920 (cells_of vm) @ replicate 80 blank"
    by (auto simp: blank_def)
  have cells: "cells_of vm' = drop 80 (cells_of (video_memory s)) @ replicate 80 blank" by (simp add: vm'(3) vm(3))
  have run: "screen_uproll_once s = (if cursor_y s \<noteq> 0 then cseq (modify (\<lambda>s. s\<lparr>cursor_y := cursor_y s - 1\<rparr>)) move_cursor
      (s\<lparr>video_memory := vm'\<rparr>) else Inr ((), s\<lparr>video_memory := vm'\<rparr>))"
    using vm(1) vm'(1) by (simp only: screen_uproll_once_def cseq_def cbind_def sum.case prod.case) (simp add: gets_def ret_def modify_def cbind_def)
  show ?thesis
  proof (cases "cursor_y s = 0")
    case True
    then show ?thesis using run cells vm'(2) by auto
  next
    case False
    from move_cursor_run [of "s\<lparr>video_memory := vm', cursor_y := cursor_y s - 1\<rparr>"] obtain po where
      "move_cursor (s\<lparr>video_memory := vm', cursor_y := cursor_y s - 1\<rparr>) = Inr ((), s\<lparr>video_memory := vm', cursor_y := cursor_y s - 1, ports_out := po\<rparr>)"
      by auto
    then show ?thesis using run cells vm'(2) False
      by (auto simp: cseq_def cbind_def modify_def)
  qed
qed

text \<open>Writing a character is the terminal's step, and the shown cursor is the software one.\<close>

text \<open>\<open>vga_putc\<close> ends by moving the cursor of the display to where the next character goes.\<close>

lemma cursor_shown:
  assumes m: "m s1 = Inr ((), u)" and u: "vga_ok u" "vga_frame s u" "screen_of u = q"
  shows "\<exists>t. cseq m move_cursor s1 = Inr ((), t) \<and> vga_ok t \<and> vga_frame s t \<and> screen_of t = q \<and> shown_cursor (ports_out t) = scr_pos (screen_of t)"
proof -
  from move_cursor_run [of u] obtain po where
    po: "move_cursor u = Inr ((), u\<lparr>ports_out := po\<rparr>)" "shown_cursor po = unat (cursor_location (cursor_x u) (cursor_y u))" by blast
  have "unat (cursor_location (cursor_x u) (cursor_y u)) = scr_pos q"
    using cursor_unat [of "cursor_x u" "cursor_y u"] u(1,3) by (auto simp: vga_ok_def screen_of_def)
  then show ?thesis using m u po by (intro exI [of _ "u\<lparr>ports_out := po\<rparr>"]) (auto simp: cseq_def cbind_def vga_ok_def screen_of_def)
qed

lemma vga_putc_spec:
  assumes ok: "vga_ok s"
  shows "\<exists>t. vga_putc ch bg fg s = Inr ((), t) \<and> vga_ok t \<and> vga_frame s t \<and>
    screen_of t = term_put (ch, color_attr bg fg) (screen_of s) \<and> shown_cursor (ports_out t) = scr_pos (screen_of t)"
proof -
  let ?l = "unat (cursor_location (cursor_x s) (cursor_y s))" and ?a = "color_attr bg fg"
  have ok': "length (video_memory s) = 4000" "cursor_x s < 80" "cursor_y s < 25" using ok by (simp_all add: vga_ok_def)
  have xy: "unat (cursor_x s) < 80" "unat (cursor_y s) < 25" using ok'(2,3) by (simp_all add: word_less_nat_alt)
  have l: "?l = scr_pos (screen_of s)" "?l < 2000" using cursor_unat [OF ok'(2,3)] xy by (simp_all add: screen_of_def)
  let ?vm = "(video_memory s)[2 * ?l := ch, 2 * ?l + 1 := ?a]"
  define s1 where "s1 = s\<lparr>video_memory := ?vm\<rparr>"
  have s1: "video_memory s1 = ?vm" "cursor_x s1 = cursor_x s" "cursor_y s1 = cursor_y s" by (simp_all add: s1_def)
  have cells: "cells_of ?vm = (scr_cells (screen_of s))[scr_pos (screen_of s) := (ch, ?a)]" "length ?vm = 4000"
    using cells_update [OF ok'(1) l(2)] ok'(1) cursor_unat [OF ok'(2,3)] by (simp_all add: screen_of_def)
  have run: "vga_putc ch bg fg s = cseq (if cursor_x s = 79 then
             if cursor_y s = 24 then cseq screen_uproll_once (modify (\<lambda>s. s\<lparr>cursor_x := 0, cursor_y := 24\<rparr>))
             else modify (\<lambda>t. t\<lparr>cursor_x := 0, cursor_y := cursor_y s + 1\<rparr>)
           else modify (\<lambda>t. t\<lparr>cursor_x := cursor_x s + 1\<rparr>)) move_cursor s1"
    using ok'(1) l(2) by (simp add: vga_putc_def color_attr_def vga_store_def cseq_def cbind_def gets_def s1_def)
  have fr: "vga_frame s s1" unfolding s1_def by auto
  have x79: "cursor_x s = 79 \<longleftrightarrow> unat (cursor_x s) = 79" and y24: "cursor_y s = 24 \<longleftrightarrow> unat (cursor_y s) = 24"
    by (simp_all add: word_unat_eq_iff)
  consider "cursor_x s = 79" "cursor_y s = 24" | "cursor_x s = 79" "cursor_y s \<noteq> 24" | "cursor_x s \<noteq> 79" by blast
  then show ?thesis
  proof cases
    case 1
    have "vga_ok s1" using ok cells(2) by (simp add: vga_ok_def s1)
    from uproll_spec [OF this] obtain u where
      u: "screen_uproll_once s1 = Inr ((), u)" "vga_frame s1 u" "length (video_memory u) = 4000"
        "cells_of (video_memory u) = drop 80 (cells_of ?vm) @ replicate 80 blank" by (auto simp: s1)
    have p: "scr_pos (screen_of s) = 1999" using 1 by (simp add: screen_of_def)
    let ?u = "u\<lparr>cursor_x := 0, cursor_y := 24\<rparr>"
    have "screen_of ?u = term_put (ch, ?a) (screen_of s)"
      using u(4) cells(1) p by (simp add: screen_of_def [of ?u] term_put_def Let_def s1)
    moreover have "vga_ok ?u" using u(3) by (simp add: vga_ok_def)
    moreover have "vga_frame s ?u" using vga_frame_trans [OF fr u(2)] by auto
    moreover have "cseq screen_uproll_once (modify (\<lambda>s. s\<lparr>cursor_x := 0, cursor_y := 24\<rparr>)) s1 = Inr ((), ?u)"
      using u(1) by (simp add: cseq_def cbind_def modify_def)
    ultimately show ?thesis using cursor_shown [of _ _ ?u] run 1 by simp
  next
    case 2
    let ?u = "s1\<lparr>cursor_x := 0, cursor_y := cursor_y s + 1\<rparr>"
    have y: "unat (cursor_y s) < 24" "unat (cursor_y s + 1) = unat (cursor_y s) + 1"
      using 2 y24 xy(2) by (simp_all add: unat_word_ariths)
    then have "scr_pos (screen_of s) \<noteq> 1999" "scr_pos (screen_of s) + 1 = (unat (cursor_y s) + 1) * 80"
      using 2 by (simp_all add: screen_of_def)
    then have "screen_of ?u = term_put (ch, ?a) (screen_of s)"
      using cells(1) y(2) by (simp add: screen_of_def [of ?u] term_put_def Let_def s1)
    moreover have "vga_ok ?u" using cells(2) y by (simp add: vga_ok_def s1 word_less_nat_alt)
    moreover have "vga_frame s ?u" using fr by auto
    moreover have "modify (\<lambda>t. t\<lparr>cursor_x := 0, cursor_y := cursor_y s + 1\<rparr>) s1 = Inr ((), ?u)" by (simp add: modify_def)
    ultimately show ?thesis using cursor_shown [of _ _ ?u] run 2 by simp
  next
    case 3
    let ?u = "s1\<lparr>cursor_x := cursor_x s + 1\<rparr>"
    have x: "unat (cursor_x s) < 79" "unat (cursor_x s + 1) = unat (cursor_x s) + 1"
      using 3 x79 xy(1) by (simp_all add: unat_word_ariths)
    then have "scr_pos (screen_of s) \<noteq> 1999" using xy(2) by (simp add: screen_of_def)
    then have "screen_of ?u = term_put (ch, ?a) (screen_of s)"
      using cells(1) x(2) by (simp add: screen_of_def [of ?u] screen_of_def [of s] term_put_def Let_def s1)
    moreover have "vga_ok ?u" using cells(2) x ok'(3) by (simp add: vga_ok_def s1 word_less_nat_alt)
    moreover have "vga_frame s ?u" using fr by auto
    moreover have "modify (\<lambda>t. t\<lparr>cursor_x := cursor_x s + 1\<rparr>) s1 = Inr ((), ?u)" by (simp add: modify_def)
    ultimately show ?thesis using cursor_shown [of _ _ ?u] run 3 by simp
  qed
qed

subsection \<open>Strings\<close>

lemma vga_puts_spec:
  assumes ok: "vga_ok s"
  shows "\<exists>t. run_all (\<lambda>i. vga_putc ch bg fg) [0..<n] s = Inr ((), t) \<and> vga_ok t \<and> vga_frame s t \<and>
    screen_of t = (term_put (ch, color_attr bg fg) ^^ n) (screen_of s) \<and> (0 < n \<longrightarrow> shown_cursor (ports_out t) = scr_pos (screen_of t))"
proof -
  let ?P = "\<lambda>n t. vga_ok t \<and> vga_frame s t \<and> screen_of t = (term_put (ch, color_attr bg fg) ^^ n) (screen_of s) \<and>
    (0 < n \<longrightarrow> shown_cursor (ports_out t) = scr_pos (screen_of t))"
  have "\<exists>t. run_all (\<lambda>i. vga_putc ch bg fg) [0..<n] s = Inr ((), t) \<and> ?P n t"
  proof (rule run_all_upt)
    show "?P 0 s" using ok by auto
    fix i t assume t: "?P i t"
    then have "vga_ok t" by blast
    from vga_putc_spec [OF this, of ch bg fg] obtain u where
      u: "vga_putc ch bg fg t = Inr ((), u)" "vga_ok u" "vga_frame t u"
        "screen_of u = term_put (ch, color_attr bg fg) (screen_of t)" "shown_cursor (ports_out u) = scr_pos (screen_of u)" by blast
    have "vga_frame s u" using t u(3) vga_frame_trans by blast
    then show "\<exists>u. vga_putc ch bg fg t = Inr ((), u) \<and> ?P (Suc i) u" using t u by auto
  qed
  then show ?thesis by blast
qed

lemma kputc_color_spec:
  assumes ok: "vga_ok s"
  shows "\<exists>t. kputc_color ch bg fg s = Inr ((), t) \<and> vga_ok t \<and> vga_frame s t \<and>
    screen_of t = term_char (color_attr bg fg) ch (screen_of s) \<and> shown_cursor (ports_out t) = scr_pos (screen_of t)"
proof -
  have x: "unat (cursor_x s) < 80" using ok by (simp add: vga_ok_def word_less_nat_alt)
  then have "unat (80 - cursor_x s) = 80 - unat (cursor_x s)" by (simp add: unat_sub word_le_nat_alt)
  moreover have "80 - cursor_x s \<noteq> 0" using x by auto
  moreover have "scr_pos (screen_of s) mod 80 = unat (cursor_x s)" using x by (simp add: screen_of_def)
  ultimately show ?thesis
    using vga_puts_spec [OF ok, of 0 bg fg 4] vga_puts_spec [OF ok, of 0 bg fg "80 - unat (cursor_x s)"] vga_putc_spec [OF ok, of ch bg fg] x
    by (auto simp: kputc_color_def tab_length_def cbind_def gets_def term_char_def)
qed

lemma vga_frame_mem:
  assumes "vga_frame s t"
  shows "load8 p t = (case load8 p s of Inl f \<Rightarrow> Inl f | Inr (c, _) \<Rightarrow> Inr (c, t))" "cstr t p cs = cstr s p cs" "blk t p cs = blk s p cs"
proof -
  from assms obtain vm x y po where t: "t = s\<lparr>ports_out := po, video_memory := vm, cursor_x := x, cursor_y := y\<rparr>" by (auto simp: vga_frame_def)
  have m: "pmem t = pmem s" "cr3 t = cr3 s" by (simp_all add: t)
  then have "translate t = translate s" by (intro mem_indep)
  then show "load8 p t = (case load8 p s of Inl f \<Rightarrow> Inl f | Inr (c, _) \<Rightarrow> Inr (c, t))"
    by (simp add: load8_def m(1) split: option.split)
  have "kaddr t = kaddr s" "peek8 t = peek8 s" using m by (intro mem_indep, simp_all)+
  then show b: "blk t p cs = blk s p cs" for cs by (induction cs arbitrary: p) simp_all
  show "cstr t p cs = cstr s p cs" by (simp add: cstr_def b)
qed

lemma kputs_loop_spec:
  "cstr s p cs \<Longrightarrow> vga_ok s \<Longrightarrow>
    \<exists>t. kputs_loop bg fg p s = Some (Inr ((), t)) \<and> vga_ok t \<and> vga_frame s t \<and>
      screen_of t = fold (term_char (color_attr bg fg)) cs (screen_of s) \<and>
      (cs \<noteq> [] \<or> shown_cursor (ports_out s) = scr_pos (screen_of s) \<longrightarrow> shown_cursor (ports_out t) = scr_pos (screen_of t))"
proof (induction cs arbitrary: p s)
  case Nil
  then have "load8 p s = Inr (0, s)" by (simp add: cstr_def load8_kaddr)
  then show ?case using Nil.prems by (auto simp: kputs_loop.simps)
next
  case (Cons c cs)
  then have l: "load8 p s = Inr (c, s)" "c \<noteq> 0" "cstr s (p + 1) cs" by (auto simp: cstr_def load8_kaddr)
  from kputc_color_spec [OF Cons.prems(2), of c bg fg] obtain t where
    t: "kputc_color c bg fg s = Inr ((), t)" "vga_ok t" "vga_frame s t" "screen_of t = term_char (color_attr bg fg) c (screen_of s)"
      "shown_cursor (ports_out t) = scr_pos (screen_of t)" by blast
  have "cstr t (p + 1) cs" using l(3) vga_frame_mem(2) [OF t(3)] by simp
  from Cons.IH [OF this t(2)] t(5) obtain u where
    u: "kputs_loop bg fg (p + 1) t = Some (Inr ((), u))" "vga_ok u" "vga_frame t u"
      "screen_of u = fold (term_char (color_attr bg fg)) cs (screen_of t)" "shown_cursor (ports_out u) = scr_pos (screen_of u)" by blast
  then show ?case using l(1,2) t(1,4) vga_frame_trans [OF t(3) u(3)] by (subst kputs_loop.simps) simp
qed

lemma term_puts_fill:
  assumes "length cs = 2000" "k < 2000"
  shows "(term_put c ^^ k) \<lparr>scr_cells = cs, scr_pos = 0\<rparr> = \<lparr>scr_cells = replicate k c @ drop k cs, scr_pos = k\<rparr>"
  using assms(2)
proof (induction k)
  case (Suc k)
  then show ?case using assms(1)
    by (simp add: term_put_def Let_def list_update_append replicate_append_same [symmetric] Cons_nth_drop_Suc [symmetric]
      del: replicate_append_same)
qed simp

lemma clear_screen_spec:
  assumes "length (video_memory s) = 4000"
  shows "\<exists>t. clear_screen s = Inr ((), t) \<and> vga_ok t \<and> vga_frame s t \<and> screen_of t = \<lparr>scr_cells = replicate 2000 blank, scr_pos = 0\<rparr> \<and>
    shown_cursor (ports_out t) = 0"
proof -
  let ?s = "s\<lparr>cursor_x := 0, cursor_y := 0\<rparr>"
  have ok: "vga_ok ?s" using assms by (simp add: vga_ok_def)
  have "run_all (\<lambda>j. run_all (\<lambda>i. vga_putc 0 black white) [0..<80]) [0..<25] = run_all (\<lambda>i. vga_putc 0 black white) (concat (map (\<lambda>j. map (\<lambda>i. j * 80 + i) [0..<80]) [0..<25]))"
    by (simp only: run_all_concat [symmetric] run_all_map)
  then have eq: "run_all (\<lambda>j. run_all (\<lambda>i. vga_putc 0 black white) [0..<80]) [0..<25] = run_all (\<lambda>i. vga_putc 0 black white) [0..<2000]"
    using rows_of_cells [of 80 25] by simp
  from vga_puts_spec [OF ok, of 0 black white 2000] obtain t where
    t: "run_all (\<lambda>i. vga_putc 0 black white) [0..<2000] ?s = Inr ((), t)" "vga_ok t" "vga_frame ?s t"
      "screen_of t = (term_put (0, color_attr black white) ^^ Suc 1999) (screen_of ?s)" by auto
  have "screen_of ?s = \<lparr>scr_cells = cells_of (video_memory s), scr_pos = 0\<rparr>" by (simp add: screen_of_def)
  moreover have "(0, color_attr black white) = blank" by (simp add: color_attr_def blank_def)
  ultimately have "screen_of t = term_put blank \<lparr>scr_cells = replicate 1999 blank @ drop 1999 (cells_of (video_memory s)), scr_pos = 1999\<rparr>"
    using t(4) term_puts_fill [of "cells_of (video_memory s)" 1999 blank] by (simp only: funpow.simps o_apply) simp
  moreover have "(replicate 1999 blank @ drop 1999 (cells_of (video_memory s)))[1999 := blank] = replicate 2000 blank"
    by (rule nth_equalityI) (simp_all add: nth_list_update nth_append)
  ultimately have sc: "scr_cells (screen_of t) = replicate 2000 blank"
    by (simp add: term_put_def Let_def replicate_add [symmetric])
  from move_cursor_run [of "t\<lparr>cursor_x := 0, cursor_y := 0\<rparr>"] obtain po where
    po: "move_cursor (t\<lparr>cursor_x := 0, cursor_y := 0\<rparr>) = Inr ((), t\<lparr>cursor_x := 0, cursor_y := 0, ports_out := po\<rparr>)" "shown_cursor po = 0"
    by (auto simp: cursor_location_def)
  have "vga_frame s ?s" by auto
  then have "vga_frame s (t\<lparr>cursor_x := 0, cursor_y := 0, ports_out := po\<rparr>)" using vga_frame_trans t(3) by blast
  moreover have "clear_screen s = Inr ((), t\<lparr>cursor_x := 0, cursor_y := 0, ports_out := po\<rparr>)"
    using t(1) po(1) unfolding clear_screen_def eq by (simp add: cseq_def cbind_def modify_def)
  ultimately show ?thesis using t(2) sc po(2)
    by (intro exI [of _ "t\<lparr>cursor_x := 0, cursor_y := 0, ports_out := po\<rparr>"]) (auto simp: vga_ok_def screen_of_def)
qed

text \<open>What text does to the terminal: characters of a row are placed one after the other, a newline starts the next row.\<close>

lemma term_row:
  assumes "length (scr_cells q) = 2000" "set cs \<inter> {9, 10} = {}" "scr_pos q + length cs < 2000"
  shows "fold (term_char a) cs q = \<lparr>scr_cells = take (scr_pos q) (scr_cells q) @ map (\<lambda>c. (c, a)) cs @ drop (scr_pos q + length cs) (scr_cells q),
    scr_pos = scr_pos q + length cs\<rparr>"
  using assms
proof (induction cs arbitrary: q)
  case Nil
  then show ?case by simp
next
  case (Cons c cs)
  let ?q = "\<lparr>scr_cells = (scr_cells q)[scr_pos q := (c, a)], scr_pos = scr_pos q + 1\<rparr>"
  have "term_char a c q = ?q" using Cons.prems by (simp add: term_char_def term_put_def Let_def)
  moreover have "fold (term_char a) cs ?q = \<lparr>scr_cells = take (scr_pos ?q) (scr_cells ?q) @ map (\<lambda>c. (c, a)) cs @ drop (scr_pos ?q + length cs) (scr_cells ?q),
    scr_pos = scr_pos ?q + length cs\<rparr>"
    using Cons.prems by (intro Cons.IH) auto
  moreover have "take (scr_pos q + 1) ((scr_cells q)[scr_pos q := (c, a)]) = take (scr_pos q) (scr_cells q) @ [(c, a)]"
    using Cons.prems by (simp add: take_Suc_conv_app_nth)
  ultimately show ?case by simp
qed

lemma term_puts_pos: "scr_pos q + n < 2000 \<Longrightarrow> scr_pos ((term_put c ^^ n) q) = scr_pos q + n"
  by (induction n) (simp_all add: term_put_def Let_def)

lemma term_newline:
  assumes "scr_pos q < 1920"
  shows "scr_pos (term_char a 10 q) = (scr_pos q div 80 + 1) * 80"
proof -
  have d: "scr_pos q = scr_pos q div 80 * 80 + scr_pos q mod 80" "scr_pos q mod 80 < 80" by simp_all
  have "scr_pos q div 80 < 24" using assms by (simp add: less_mult_imp_div_less)
  moreover have "p + (80 - b) = (a + 1) * 80 \<and> (a + 1) * 80 < 2000" if "p = a * 80 + b" "b < 80" "a < 24" for p a b :: nat
    using that by simp
  ultimately have "scr_pos q + (80 - scr_pos q mod 80) = (scr_pos q div 80 + 1) * 80 \<and> (scr_pos q div 80 + 1) * 80 < 2000" using d by blast
  then show ?thesis using term_puts_pos [of q "80 - scr_pos q mod 80" "(0, a)"] by (simp add: term_char_def)
qed

subsection \<open>Properties\<close>

lemma move_cursor_by_XY_spec:
  assumes ok: "vga_ok s"
  shows "\<exists>t. move_cursor_by_XY x y s = Inr ((), t) \<and> vga_ok t \<and> scr_cells (screen_of t) = scr_cells (screen_of s) \<and>
    (if x \<le> 79 \<and> y \<le> 24 then scr_pos (screen_of t) = unat y * 80 + unat x \<and> shown_cursor (ports_out t) = scr_pos (screen_of t) else t = s)"
proof (cases "x \<le> 79 \<and> y \<le> 24")
  case True
  then have b: "x < 80" "y < 25" by (simp_all add: word_le_nat_alt word_less_nat_alt)
  from move_cursor_run [of "s\<lparr>cursor_x := x, cursor_y := y\<rparr>"] cursor_unat [OF b] obtain po where
    "move_cursor (s\<lparr>cursor_x := x, cursor_y := y\<rparr>) = Inr ((), s\<lparr>cursor_x := x, cursor_y := y, ports_out := po\<rparr>)"
    "shown_cursor po = unat y * 80 + unat x" by auto
  then show ?thesis using ok b True
    by (intro exI [of _ "s\<lparr>cursor_x := x, cursor_y := y, ports_out := po\<rparr>"])
      (auto simp: move_cursor_by_XY_def cseq_def cbind_def modify_def vga_ok_def screen_of_def not_less [symmetric])
next
  case False
  then show ?thesis using ok by (auto simp: move_cursor_by_XY_def ret_def)
qed


text \<open>A machine with an empty screen: any machine extended with the driver's state.\<close>

definition with_screen :: "machine \<Rightarrow> vga_machine" where
  "with_screen s = machine.extend s \<lparr>video_memory = replicate 4000 0, cursor_x = 79, cursor_y = 24\<rparr>"

lemma with_screen_ok: "vga_ok (with_screen s)"
  by (simp add: vga_ok_def with_screen_def machine.defs)

lemma with_screen_mem: "translate (with_screen s) = translate s" "kaddr (with_screen s) = kaddr s" "peek8 (with_screen s) = peek8 s"
  by (rule mem_indep; simp add: with_screen_def machine.defs)+

lemma with_screen_cstr: "cstr (with_screen s) p cs = cstr s p cs"
proof -
  have "blk (with_screen s) p bs = blk s p bs" for bs by (induction bs arbitrary: p) (simp_all add: with_screen_mem)
  then show ?thesis by (simp add: cstr_def)
qed


text \<open>
  C16: printing a C string is equivalent to feeding its characters to a terminal of 25 rows of 80
  cells: a character is placed at the cursor with the attribute of its colours, a tabulator
  places four blanks, a newline fills the row, and past the last cell the rows move up. It
  always returns and changes nothing but the screen. In particular a line that fits is
  found on the screen unchanged, and a newline takes the cursor to the next row.
\<close>

theorem kputs_equals_terminal:
  assumes "vga_ok s" "cstr s p cs"
  shows "\<exists>t. kputs_color p bg fg s = Inr ((), t) \<and> vga_ok t \<and> vga_frame s t \<and>
    screen_of t = fold (term_char (color_attr bg fg)) cs (screen_of s) \<and>
    (cs \<noteq> [] \<longrightarrow> shown_cursor (ports_out t) = scr_pos (screen_of t)) \<and>
    (set cs \<inter> {9, 10} = {} \<and> scr_pos (screen_of s) + length cs < 2000 \<longrightarrow>
      take (length cs) (drop (scr_pos (screen_of s)) (scr_cells (screen_of t))) = map (\<lambda>c. (c, color_attr bg fg)) cs) \<and>
    (cs = [10] \<and> scr_pos (screen_of s) < 1920 \<longrightarrow> scr_pos (screen_of t) = (scr_pos (screen_of s) div 80 + 1) * 80)"
proof -
  from kputs_loop_spec [OF assms(2,1), of bg fg] obtain t where
    t: "kputs_loop bg fg p s = Some (Inr ((), t))" "vga_ok t" "vga_frame s t"
      "screen_of t = fold (term_char (color_attr bg fg)) cs (screen_of s)"
      "cs \<noteq> [] \<longrightarrow> shown_cursor (ports_out t) = scr_pos (screen_of t)" by blast
  have len: "length (scr_cells (screen_of s)) = 2000" by (simp add: screen_of_def)
  have "take (length cs) (drop (scr_pos (screen_of s)) (scr_cells (screen_of t))) = map (\<lambda>c. (c, color_attr bg fg)) cs"
    if "set cs \<inter> {9, 10} = {}" "scr_pos (screen_of s) + length cs < 2000"
    using term_row [OF len that, of "color_attr bg fg"] that(2) len by (simp add: t(4))
  moreover have "scr_pos (screen_of t) = (scr_pos (screen_of s) div 80 + 1) * 80" if "cs = [10]" "scr_pos (screen_of s) < 1920"
    using term_newline [OF that(2), of "color_attr bg fg"] that(1) by (simp add: t(4))
  ultimately show ?thesis using t by (auto simp: kputs_color_def)
qed

theorem kputs_equals_terminal_witness:
  "\<exists>s t :: vga_machine. cstr s 0xc0020000 [79, 75] \<and> kputs_color 0xc0020000 black white s = Inr ((), t) \<and>
     screen_of t = fold (term_char 0x0F) [79, 75] (screen_of s)"
proof -
  obtain s0 :: machine where "cstr s0 0xc0020000 [79, 75]" using two_strings [of "[79, 75]" "[]"] by auto
  then have c: "cstr (with_screen s0) 0xc0020000 [79, 75]" unfolding with_screen_cstr .
  have "color_attr black white = 0x0F" by (simp add: color_attr_def)
  with kputs_equals_terminal [OF with_screen_ok c, of black white] c show ?thesis by auto
qed

end
