(* ===== verification/PrintAsm.thy ===== *)
theory PrintAsm
  imports Vga
begin

unbundle bit_operations_syntax

section \<open>The second screen driver (kernel/print.S)\<close>

text \<open>
  \<open>aput_char\<close>, which \<open>put_char\<close> calls, is assembly code that writes video memory itself and keeps no
  cursor: it reads the position back from the cursor registers of the VGA. The registers
  that \<open>pushad\<close> saves come back as they were; \<open>bx\<close> is the 16-bit position, and the \<open>jl\<close> after a comparison
  is signed. Of the 32 KB of the video segment the machine has the 4000 bytes on the screen, the only
  ones written while the cursor is on it. The reference is a terminal again, with other rules than that of \<open>vga_basic.c\<close>.
\<close>

subsection \<open>The code\<close>

text \<open>Reading port 0x3D5 gives the cursor register that was selected last.\<close>

definition crtc_in :: "('z machine_scheme, u8) comp" where
  "crtc_in = gets (\<lambda>s. case foldl crtc_write (0, 0, 0) (ports_out s) of (idx, hi, lo) \<Rightarrow>
     if idx = 14 then hi else if idx = 15 then lo else 0)"

definition set_cursor :: "u16 \<Rightarrow> ('z machine_scheme, unit) comp" where
  "set_cursor bx =
     cseq (outb 0x3D4 14)
    (cseq (outb 0x3D5 (ucast (drop_bit 8 bx)))
    (cseq (outb 0x3D4 15)
          (outb 0x3D5 (ucast bx))))"

text \<open>One step of \<open>rep movsd\<close>: four bytes, from the row below.\<close>

definition movsd :: "nat \<Rightarrow> ('z vga_machine_scheme, unit) comp" where
  "movsd i =
     cbind (vga_load (160 + 4 * i)) (\<lambda>a. cbind (vga_load (160 + 4 * i + 1)) (\<lambda>b.
     cbind (vga_load (160 + 4 * i + 2)) (\<lambda>c. cbind (vga_load (160 + 4 * i + 3)) (\<lambda>d.
     cseq (vga_store (4 * i) a) (cseq (vga_store (4 * i + 1) b)
    (cseq (vga_store (4 * i + 2) c) (vga_store (4 * i + 3) d)))))))"

definition roll_screen :: "('z vga_machine_scheme, unit) comp" where
  "roll_screen =
     cseq (run_all movsd [0..<960])
          (run_all (\<lambda>i. cseq (vga_store (3840 + 2 * i) 0x20) (vga_store (3840 + 2 * i + 1) 0x07)) [0..<80])"

definition line_feed :: "u16 \<Rightarrow> ('z vga_machine_scheme, unit) comp" where
  "line_feed bx =
     (let bx = bx - bx mod 80 + 80 in
      if sint bx < 2000 then set_cursor bx else cseq roll_screen (set_cursor 1920))"

text \<open>A character and its attribute at the position \<open>bx\<close>; \<open>bx\<close> is doubled, and halved after the second byte.\<close>

definition put_cell :: "u16 \<Rightarrow> u8 \<Rightarrow> ('z vga_machine_scheme, u16) comp" where
  "put_cell bx ch =
     (let bx = push_bit 1 bx in
      cseq (vga_store (unat bx) ch)
     (cseq (vga_store (unat (bx + 1)) 0x07)
           (ret (drop_bit 1 (bx + 1)))))"

definition aput_char :: "u8 \<Rightarrow> ('z vga_machine_scheme, unit) comp" where
  "aput_char cl =
     cseq (outb 0x3D4 14) (cbind crtc_in (\<lambda>ah.
     cseq (outb 0x3D4 15) (cbind crtc_in (\<lambda>al.
     let bx = push_bit 8 (ucast ah) OR ucast al :: u16 in
     if cl = 0xd \<or> cl = 0xa then line_feed bx
     else if cl = 0x8 then cbind (put_cell (bx - 1) 0x20) set_cursor
     else cbind (put_cell bx cl) (\<lambda>bx.
       if sint (bx + 1) < 2000 then set_cursor (bx + 1) else line_feed (bx + 1))))))"

subsection \<open>The terminal it implements\<close>

definition hw_screen :: "'z vga_machine_scheme \<Rightarrow> screen" where
  "hw_screen s = \<lparr>scr_cells = cells_of (video_memory s), scr_pos = shown_cursor (ports_out s)\<rparr>"

definition term_line :: "screen \<Rightarrow> screen" where
  "term_line q =
     (let p = scr_pos q - scr_pos q mod 80 + 80 in
      if p < 2000 then q\<lparr>scr_pos := p\<rparr>
      else \<lparr>scr_cells = drop 80 (scr_cells q) @ replicate 80 (0x20, 0x07), scr_pos = 1920\<rparr>)"

definition term_aput :: "u8 \<Rightarrow> screen \<Rightarrow> screen" where
  "term_aput ch q =
     (if ch = 13 \<or> ch = 10 then term_line q
      else if ch = 8 then \<lparr>scr_cells = (scr_cells q)[scr_pos q - 1 := (0x20, 0x07)], scr_pos = scr_pos q - 1\<rparr>
      else let r = \<lparr>scr_cells = (scr_cells q)[scr_pos q := (ch, 0x07)], scr_pos = scr_pos q + 1\<rparr> in
        if scr_pos r < 2000 then r else term_line r)"

subsection \<open>Its steps\<close>

lemma set_cursor_run:
  "set_cursor l s = Inr ((), s\<lparr>ports_out := ports_out s @ [(0x3D4, 14), (0x3D5, ucast (drop_bit 8 l)), (0x3D4, 15), (0x3D5, ucast l)]\<rparr>)"
  by (simp add: set_cursor_def outb_def comp_simps)

lemma movsd_cells:
  assumes "length (video_memory s) = 4000" "i < 960"
  shows "movsd i s = cseq (copy_cell (2 * i) (2 * i + 80)) (copy_cell (2 * i + 1) (2 * i + 81)) s"
  using assms
  by (simp add: movsd_def copy_cell_def vga_load_def vga_store_def cbind_def cseq_def nth_list_update add.commute numeral_3_eq_3)

lemma rows_moved:
  assumes "length (video_memory s) = 4000"
  shows "\<exists>vm. run_all movsd [0..<960] s = Inr ((), s\<lparr>video_memory := vm\<rparr>) \<and> length vm = 4000 \<and>
    cells_of vm = drop 80 (cells_of (video_memory s)) @ drop 1920 (cells_of (video_memory s))"
proof -
  let ?old = "cells_of (video_memory s)"
  let ?P = "\<lambda>n t. \<exists>vm. t = s\<lparr>video_memory := vm\<rparr> \<and> length vm = 4000 \<and> cells_of vm = take (2 * n) (drop 80 ?old) @ drop (2 * n) ?old"
  have "\<exists>t. run_all movsd [0..<960] s = Inr ((), t) \<and> ?P 960 t"
  proof (rule run_all_upt)
    show "?P 0 s" using assms by (intro exI [of _ "video_memory s"]) simp
    fix i t assume i: "i < 960" and "?P i t"
    then obtain vm where vm: "t = s\<lparr>video_memory := vm\<rparr>" "length vm = 4000" "cells_of vm = take (2 * i) (drop 80 ?old) @ drop (2 * i) ?old" by blast
    from copy_cell_spec [of t "2 * i" "2 * i + 80"] i vm obtain v1 where
      v1: "copy_cell (2 * i) (2 * i + 80) t = Inr ((), t\<lparr>video_memory := v1\<rparr>)" "length v1 = 4000"
        "cells_of v1 = (cells_of vm)[2 * i := cells_of vm ! (2 * i + 80)]" by auto
    from copy_cell_spec [of "t\<lparr>video_memory := v1\<rparr>" "2 * i + 1" "2 * i + 81"] i v1 obtain v2 where
      v2: "copy_cell (2 * i + 1) (2 * i + 81) (t\<lparr>video_memory := v1\<rparr>) = Inr ((), t\<lparr>video_memory := v2\<rparr>)" "length v2 = 4000"
        "cells_of v2 = (cells_of v1)[2 * i + 1 := cells_of v1 ! (2 * i + 81)]" by auto
    have "cells_of v2 = take (2 * Suc i) (drop 80 ?old) @ drop (2 * Suc i) ?old"
    proof (rule nth_equalityI)
      show "length (cells_of v2) = length (take (2 * Suc i) (drop 80 ?old) @ drop (2 * Suc i) ?old)" using i by simp
      show "cells_of v2 ! k = (take (2 * Suc i) (drop 80 ?old) @ drop (2 * Suc i) ?old) ! k" if "k < length (cells_of v2)" for k
        using that i by (simp add: v2(3) v1(3) vm(3) nth_list_update nth_append less_Suc_eq add.commute)
          (intro impI arg_cong [of _ _ "nth _"], arith)
    qed
    moreover have "movsd i t = Inr ((), s\<lparr>video_memory := v2\<rparr>)"
      using movsd_cells [of t i] i vm(1,2) v1(1) v2(1) by (simp add: cseq_def cbind_def)
    ultimately show "\<exists>u. movsd i t = Inr ((), u) \<and> ?P (Suc i) u" using v2(2) by (intro exI [of _ "s\<lparr>video_memory := v2\<rparr>"]) auto
  qed
  then show ?thesis by auto
qed


lemma roll_screen_spec:
  assumes "length (video_memory s) = 4000"
  shows "\<exists>vm. roll_screen s = Inr ((), s\<lparr>video_memory := vm\<rparr>) \<and> length vm = 4000 \<and>
    cells_of vm = drop 80 (cells_of (video_memory s)) @ replicate 80 (0x20, 0x07)"
proof -
  from rows_moved [OF assms] obtain vm where
    vm: "run_all movsd [0..<960] s = Inr ((), s\<lparr>video_memory := vm\<rparr>)" "length vm = 4000"
      "cells_of vm = drop 80 (cells_of (video_memory s)) @ drop 1920 (cells_of (video_memory s))" by blast
  from last_row_filled [of "s\<lparr>video_memory := vm\<rparr>" "0x20" "0x07"] vm(2) obtain v where
    v: "run_all (\<lambda>i. cseq (vga_store (3840 + 2 * i) 0x20) (vga_store (3840 + 2 * i + 1) 0x07)) [0..<80] (s\<lparr>video_memory := vm\<rparr>)
      = Inr ((), s\<lparr>video_memory := v\<rparr>)" "length v = 4000" "cells_of v = take 1920 (cells_of vm) @ replicate 80 (0x20, 0x07)"
    by auto
  have "roll_screen s = Inr ((), s\<lparr>video_memory := v\<rparr>)"
    using vm(1) v(1) by (simp add: roll_screen_def cseq_def cbind_def)
  then show ?thesis using v(2,3) vm(3) by (intro exI [of _ v]) simp
qed

lemma small_sint: "k < 32768 \<Longrightarrow> sint (of_nat k :: u16) = int k" "k < 32768 \<Longrightarrow> unat (of_nat k :: u16) = k"
  by (simp_all add: signed_of_nat signed_take_bit_int_eq_self unat_of_nat)

lemma position_read:
  assumes "foldl crtc_write (0, 0, 0) ps = (i, hi, lo)"
  shows "push_bit 8 (ucast hi) OR ucast lo = (of_nat (shown_cursor ps) :: u16)"
proof -
  have "unat lo < 256" "unat hi < 256" using unsigned_less [of lo, where 'a = nat] unsigned_less [of hi, where 'a = nat] by simp_all
  have "push_bit 8 (ucast hi :: u16) OR ucast lo = push_bit 8 (ucast hi) + ucast lo"
    by (rule disjunctive_add [symmetric]) (auto simp: bit_simps dest: bit_imp_le_length)
  also have "\<dots> = of_nat (unat hi * 256 + unat lo)" by (simp add: push_bit_eq_mult unsigned_ucast_eq)
  finally show ?thesis using assms by (simp add: shown_cursor_def)
qed


lemma put_cell_run:
  assumes "length (video_memory s) = 4000" "p < 2000"
  shows "put_cell (of_nat p) ch s = Inr (of_nat p, s\<lparr>video_memory := (video_memory s)[2 * p := ch, 2 * p + 1 := 0x07]\<rparr>)"
proof -
  define a b where "a = (of_nat (2 * p) :: u16)" and "b = (of_nat (2 * p + 1) :: u16)"
  have u: "unat a = 2 * p" "unat b = 2 * p + 1" unfolding a_def b_def by (rule small_sint(2), use assms(2) in simp)+
  have d: "push_bit 1 (of_nat p) = a" "a + 1 = b" by (simp_all add: push_bit_eq_mult a_def b_def)
  have "unat (drop_bit 1 b) = p" by (simp only: unat_drop u) simp
  then have h: "drop_bit 1 b = of_nat p" using small_sint(2) [of p] assms(2) by (simp add: word_unat_eq_iff)
  show ?thesis using assms unfolding put_cell_def Let_def d h u by (simp add: vga_store_def cseq_def cbind_def ret_def)
qed

lemma line_feed_spec:
  assumes "length (video_memory s) = 4000" "p \<le> 2000"
  shows "\<exists>vm po. line_feed (of_nat p) s = Inr ((), s\<lparr>video_memory := vm, ports_out := po\<rparr>) \<and> length vm = 4000 \<and> shown_cursor po < 2000 \<and>
    \<lparr>scr_cells = cells_of vm, scr_pos = shown_cursor po\<rparr> = term_line \<lparr>scr_cells = cells_of (video_memory s), scr_pos = p\<rparr>"
proof -
  define k where "k = p - p mod 80 + 80"
  have "of_nat p mod 80 = (of_nat (p mod 80) :: u16)"
    using assms(2) small_sint(2) [of p] small_sint(2) [of "p mod 80"] by (simp add: word_unat_eq_iff unat_mod)
  then have e: "of_nat p - of_nat p mod 80 + 80 = (of_nat k :: u16)" by (simp add: of_nat_diff k_def)
  have si: "sint (of_nat k :: u16) = int k" "unat (of_nat k :: u16) = k" by (rule small_sint; use assms(2) in \<open>simp add: k_def\<close>)+
  show ?thesis
  proof (cases "k < 2000")
    case True
    let ?po = "ports_out s @ [(0x3D4, 14), (0x3D5, ucast (drop_bit 8 (of_nat k :: u16))), (0x3D4, 15), (0x3D5, ucast (of_nat k :: u16))]"
    have "line_feed (of_nat p) s = Inr ((), s\<lparr>video_memory := video_memory s, ports_out := ?po\<rparr>)"
      using True unfolding line_feed_def Let_def e si(1) by (simp add: set_cursor_run)
    moreover have "shown_cursor ?po = k" by (rule trans [OF cursor_written si(2)])
    ultimately show ?thesis using assms(1) True by (intro exI [of _ "video_memory s"] exI [of _ ?po] conjI) (simp_all add: term_line_def k_def)
  next
    case False
    from roll_screen_spec [OF assms(1)] obtain vm where
      vm: "roll_screen s = Inr ((), s\<lparr>video_memory := vm\<rparr>)" "length vm = 4000" "cells_of vm = drop 80 (cells_of (video_memory s)) @ replicate 80 (0x20, 0x07)"
      by blast
    let ?po = "ports_out s @ [(0x3D4, 14), (0x3D5, ucast (drop_bit 8 (1920 :: u16))), (0x3D4, 15), (0x3D5, ucast (1920 :: u16))]"
    have "line_feed (of_nat p) s = Inr ((), s\<lparr>video_memory := vm, ports_out := ?po\<rparr>)"
      using False vm(1) unfolding line_feed_def Let_def e si(1) by (simp add: set_cursor_run cseq_def cbind_def)
    moreover have "shown_cursor ?po = 1920" using cursor_written [of "ports_out s" 1920] by simp
    ultimately show ?thesis using vm(2,3) False
      by (intro exI [of _ vm] exI [of _ ?po] conjI) (simp_all add: term_line_def Let_def k_def)
  qed
qed

text \<open>The position after it is read back.\<close>

lemma aput_start:
  assumes "shown_cursor (ports_out s) = p"
  shows "\<exists>po. shown_cursor po = p \<and> aput_char ch s =
    (if ch = 0xd \<or> ch = 0xa then line_feed (of_nat p)
     else if ch = 0x8 then cbind (put_cell (of_nat p - 1) 0x20) set_cursor
     else cbind (put_cell (of_nat p) ch) (\<lambda>bx. if sint (bx + 1) < 2000 then set_cursor (bx + 1) else line_feed (bx + 1)))
    (s\<lparr>ports_out := po\<rparr>)"
proof -
  obtain i hi lo where f: "foldl crtc_write (0, 0, 0) (ports_out s) = (i, hi, lo)" by (cases "foldl crtc_write (0, 0, 0) (ports_out s)") auto
  let ?po = "ports_out s @ [(0x3D4, 14), (0x3D4, 15)]"
  have "shown_cursor ?po = p" using assms f by (simp add: shown_cursor_def)
  then show ?thesis
    using position_read [OF f] assms
    by (intro exI [of _ ?po]) (simp add: aput_char_def crtc_in_def outb_def comp_simps f)
qed


lemma cursor_placed:
  assumes r: "x = set_cursor (of_nat k) (s\<lparr>ports_out := po, video_memory := vm\<rparr>)" and k: "k < 2000" and l: "length vm = 4000"
    and q: "\<lparr>scr_cells = cells_of vm, scr_pos = k\<rparr> = q"
  shows "\<exists>vm po. x = Inr ((), s\<lparr>video_memory := vm, ports_out := po\<rparr>) \<and> length vm = 4000 \<and> shown_cursor po < 2000 \<and>
    hw_screen (s\<lparr>video_memory := vm, ports_out := po\<rparr>) = q"
proof -
  let ?po = "po @ [(0x3D4, 14), (0x3D5, ucast (drop_bit 8 (of_nat k :: u16))), (0x3D4, 15), (0x3D5, ucast (of_nat k :: u16))]"
  have "shown_cursor ?po = k" using cursor_written [of po "of_nat k"] small_sint(2) [of k] k by simp
  moreover have "x = Inr ((), s\<lparr>video_memory := vm, ports_out := ?po\<rparr>)" using r by (simp add: set_cursor_run)
  ultimately show ?thesis using k l q by (intro exI [of _ vm] exI [of _ ?po] conjI) (simp_all add: hw_screen_def)
qed

lemma cell_written:
  assumes "length vm = 4000" "k < 2000"
  shows "length (vm[2 * k := c, 2 * k + 1 := a]) = 4000 \<and> cells_of (vm[2 * k := c, 2 * k + 1 := a]) = (cells_of vm)[k := (c, a)]"
  using cells_update [OF assms] assms(1) by simp

subsection \<open>Properties\<close>

text \<open>
  C19: \<open>aput_char\<close> is the step of a terminal over the cells and the cursor that the VGA shows:
  with the cursor on the screen every character but a backspace at the top left corner is
  handled, the software cursor of \<open>vga_basic.c\<close> stays where it was, and the cursor stays on
  the screen. There the backspace is written 65534 bytes into video memory, beyond
  the end of the segment: the processor faults.
\<close>

theorem aput_char_correct:
  assumes "length (video_memory s) = 4000" "shown_cursor (ports_out s) < 2000"
  shows "if ch = 8 \<and> shown_cursor (ports_out s) = 0 then aput_char ch s = Inl (Out_Of_Bounds 65534)
    else \<exists>vm po. aput_char ch s = Inr ((), s\<lparr>video_memory := vm, ports_out := po\<rparr>) \<and> length vm = 4000 \<and> shown_cursor po < 2000 \<and>
      hw_screen (s\<lparr>video_memory := vm, ports_out := po\<rparr>) = term_aput ch (hw_screen s)"
proof -
  define p where "p = shown_cursor (ports_out s)"
  have p: "p < 2000" using assms(2) by (simp add: p_def)
  obtain po where po: "shown_cursor po = p" "aput_char ch s = (if ch = 0xd \<or> ch = 0xa then line_feed (of_nat p)
     else if ch = 0x8 then cbind (put_cell (of_nat p - 1) 0x20) set_cursor
     else cbind (put_cell (of_nat p) ch) (\<lambda>bx. if sint (bx + 1) < 2000 then set_cursor (bx + 1) else line_feed (bx + 1)))
    (s\<lparr>ports_out := po\<rparr>)" using aput_start [of s p ch] by (auto simp: p_def)
  let ?u = "s\<lparr>ports_out := po\<rparr>"
  have len: "length (video_memory ?u) = 4000" using assms(1) by simp
  note placed = cursor_placed [where x = "aput_char ch s" and q = "term_aput ch (hw_screen s)"] and cell = cell_written [OF assms(1)]
  consider "ch = 13 \<or> ch = 10" | "ch = 8" "p = 0" | "ch = 8" "0 < p" | "ch \<noteq> 13" "ch \<noteq> 10" "ch \<noteq> 8" by blast
  then show ?thesis
  proof cases
    case 1
    then show ?thesis using line_feed_spec [OF len, of p] p po(2)
      by (auto simp: hw_screen_def term_aput_def p_def [symmetric])
  next
    case 2
    then show ?thesis using po(2) assms(1) by (simp add: put_cell_def vga_store_def cseq_def cbind_def p_def [symmetric])
  next
    case 3
    have e: "of_nat p - 1 = (of_nat (p - 1) :: u16)" using 3 by (simp add: of_nat_diff)
    have k: "p - 1 < 2000" using p by simp
    have "aput_char ch s = set_cursor (of_nat (p - 1)) (?u\<lparr>video_memory := (video_memory s)[2 * (p - 1) := 0x20, 2 * (p - 1) + 1 := 7]\<rparr>)"
      using 3 po(2) put_cell_run [OF len k, of "0x20"] unfolding e by (simp add: cbind_def)
    from placed [OF this k] show ?thesis using cell [OF k, of "0x20" 7] 3 by (simp add: hw_screen_def term_aput_def p_def [symmetric])
  next
    case 4
    let ?vm = "(video_memory s)[2 * p := ch, 2 * p + 1 := 7]"
    have e: "of_nat p + 1 = (of_nat (p + 1) :: u16)" by simp
    have si: "sint (of_nat (p + 1) :: u16) = int (p + 1)" by (rule small_sint(1)) (use p in simp)
    have lt: "(sint (of_nat p + 1 :: u16) < 2000) = (p + 1 < 2000)" unfolding e si by linarith
    have "aput_char ch s = (if sint (of_nat p + 1 :: u16) < 2000 then set_cursor (of_nat p + 1) else line_feed (of_nat p + 1)) (?u\<lparr>video_memory := ?vm\<rparr>)"
      using 4 po(2) put_cell_run [OF len p, of ch] by (simp add: cbind_def)
    then have run: "aput_char ch s = (if p + 1 < 2000 then set_cursor (of_nat (p + 1)) else line_feed (of_nat (p + 1))) (?u\<lparr>video_memory := ?vm\<rparr>)"
      unfolding lt unfolding e .
    show ?thesis
    proof (cases "p + 1 < 2000")
      case True
      then have "aput_char ch s = set_cursor (of_nat (p + 1)) (?u\<lparr>video_memory := ?vm\<rparr>)" using run by (simp only: if_True)
      from placed [OF this True] show ?thesis using cell [OF p, of ch 7] True 4 by (simp add: hw_screen_def term_aput_def p_def [symmetric] Let_def)
    next
      case False
      then have "aput_char ch s = line_feed (of_nat (p + 1)) (?u\<lparr>video_memory := ?vm\<rparr>)" using run by (simp only: if_False)
      with line_feed_spec [of "?u\<lparr>video_memory := ?vm\<rparr>" "p + 1"] cell [OF p, of ch 7] p False 4 show ?thesis
        by (auto simp: hw_screen_def term_aput_def p_def [symmetric] Let_def)
    qed
  qed
qed


theorem aput_char_correct_witness:
  "aput_char 8 (with_screen boot_machine) = Inl (Out_Of_Bounds 65534)"
proof -
  have "length (video_memory (with_screen boot_machine)) = 4000" "shown_cursor (ports_out (with_screen boot_machine)) = 0"
    by (simp_all add: with_screen_def machine.defs boot_machine_def shown_cursor_def)
  with aput_char_correct [of "with_screen boot_machine" 8] show ?thesis by simp
qed

end
