(* ===== verification/Idt.thy ===== *)
theory Idt
  imports Mutex Vga
begin

unbundle bit_operations_syntax

section \<open>Interrupt descriptors and the interrupt controller (kernel/interrupt.c)\<close>

text \<open>
  The part of \<open>interrupt.c\<close> beyond the interrupt flag: the gates of the IDT in memory, the table of
  C handlers that the entry code of \<open>kernel.S\<close> calls, the names of the exceptions, the bytes
  sent to the two 8259 controllers, and the default handler, which prints and stops. The
  machine is extended with the register that \<open>lidt\<close> loads.
\<close>

subsection \<open>State and operations\<close>

record idt_machine = vga_machine +
  idtr_limit :: u16
  idtr_base :: u32

text \<open>
  The addresses of the module's arrays, of the general handler and of the string literals;
  \<open>name_lit v\<close> is the literal stored for vector \<open>v\<close>.
\<close>

record idt_objs =
  idt :: addr
  idt_table :: addr
  intr_name :: addr
  intr_entry_table :: addr
  general_handler :: addr
  unknown_lit :: addr
  name_lit :: "nat \<Rightarrow> addr"

definition IDT_DESC_CNT :: nat where
  "IDT_DESC_CNT = 0x30"

definition SELECTOR_K_CODE :: u16 where
  "SELECTOR_K_CODE = push_bit 3 1 + push_bit 2 0 + 0"

definition IDT_DESC_ATTR_DPL0 :: u8 where
  "IDT_DESC_ATTR_DPL0 = push_bit 7 1 + push_bit 5 0 + 0xE"

definition store16 :: "addr \<Rightarrow> u16 \<Rightarrow> ('z machine_scheme, unit) comp" where
  "store16 a v = cseq (store8 a (ucast v)) (store8 (a + 1) (ucast (drop_bit 8 v)))"

text \<open>The fields of \<open>struct gate_desc\<close> are at offsets 0, 2, 4, 5 and 6.\<close>

definition make_idt_desc :: "addr \<Rightarrow> u8 \<Rightarrow> addr \<Rightarrow> ('z machine_scheme, unit) comp" where
  "make_idt_desc p_gdesc attr entry =
     cseq (store16 p_gdesc (ucast (entry AND 0x0000FFFF)))
    (cseq (store16 (p_gdesc + 2) SELECTOR_K_CODE)
    (cseq (store8 (p_gdesc + 4) 0)
    (cseq (store8 (p_gdesc + 5) attr)
          (store16 (p_gdesc + 6) (ucast (drop_bit 16 (entry AND 0xFFFF0000)))))))"

definition idt_desc_init :: "idt_objs \<Rightarrow> ('z machine_scheme, unit) comp" where
  "idt_desc_init io =
     cseq (run_all (\<lambda>i. cbind (load32 (intr_entry_table io + of_nat (4 * i)))
             (make_idt_desc (idt io + of_nat (8 * i)) IDT_DESC_ATTR_DPL0)) [0..<IDT_DESC_CNT])
          (log_console (PutStr ''idt_desc_init done.\<newline>''))"

definition custom_vectors :: "nat list" where
  "custom_vectors = [0, 1, 2, 3, 4, 5, 6, 7, 8, 9, 10, 11, 12, 13, 14, 16, 17, 18, 19]"

definition init_custom_handler_name :: "idt_objs \<Rightarrow> ('z machine_scheme, unit) comp" where
  "init_custom_handler_name io = run_all (\<lambda>i. store32 (intr_name io + of_nat (4 * i)) (name_lit io i)) custom_vectors"

definition exception_handler_init :: "idt_objs \<Rightarrow> ('z machine_scheme, unit) comp" where
  "exception_handler_init io =
     cseq (run_all (\<lambda>i. cseq (store32 (idt_table io + of_nat (4 * i)) (general_handler io))
                            (store32 (intr_name io + of_nat (4 * i)) (unknown_lit io))) [0..<IDT_DESC_CNT])
          (init_custom_handler_name io)"

definition pic_init :: "('z machine_scheme, unit) comp" where
  "pic_init =
     cseq (ioutb 0x20 0x11)
    (cseq (ioutb 0x21 0x20)
    (cseq (ioutb 0x21 0x04)
    (cseq (ioutb 0x21 0x01)
    (cseq (ioutb 0xa0 0x11)
    (cseq (ioutb 0xa1 0x28)
    (cseq (ioutb 0xa1 0x02)
    (cseq (ioutb 0xa1 0x01)
    (cseq (ioutb 0x21 0xfd)
    (cseq (ioutb 0xa1 0xff)
          (log_console (PutStr ''pic_init done.\<newline>'')))))))))))"

text \<open>The shift of the table's address is done on 32 bits, before the cast to 64.\<close>

definition idt_operand :: "addr \<Rightarrow> 64 word" where
  "idt_operand a = of_nat (8 * IDT_DESC_CNT - 1) OR ucast (push_bit 16 a)"

definition lidt :: "64 word \<Rightarrow> ('z idt_machine_scheme, unit) comp" where
  "lidt d = modify (\<lambda>s. s\<lparr>idtr_limit := ucast d, idtr_base := ucast (drop_bit 16 d)\<rparr>)"

definition idt_init :: "idt_objs \<Rightarrow> ('z idt_machine_scheme, unit) comp" where
  "idt_init io =
     cseq (log_console (PutStr ''idt_init start.\<newline>''))
    (cseq (idt_desc_init io)
    (cseq (exception_handler_init io)
    (cseq pic_init
    (cseq (lidt (idt_operand (idt io)))
          (log_console (PutStr ''idt_init done.\<newline>''))))))"

definition register_handler :: "idt_objs \<Rightarrow> u8 \<Rightarrow> addr \<Rightarrow> ('z machine_scheme, unit) comp" where
  "register_handler io vec_no handler = store32 (idt_table io + of_nat (4 * unat vec_no)) handler"

text \<open>CR2 after a page fault is set by the processor: a parameter.\<close>

definition general_intr_handler :: "idt_objs \<Rightarrow> u32 \<Rightarrow> u8 \<Rightarrow> ('z machine_scheme, unit) comp" where
  "general_intr_handler io cr2 vec_nr =
     (if vec_nr = 0x27 \<or> vec_nr = 0x2f then ret ()
      else
        cseq (log_console (SetCursor 0))
       (cseq (run_all (\<lambda>_. log_console (PutChar 32)) [0..<320])
       (cseq (log_console (SetCursor 0))
       (cseq (log_console (PutStr ''---------------Exception message:\<newline>''))
       (cseq (log_console (SetCursor 88))
       (cbind (load32 (intr_name io + of_nat (4 * unat vec_nr))) (\<lambda>p.
        cseq (log_console (PutStrAt p))
       (cseq (when_do (vec_nr = 14) (cseq (log_console (PutStr ''\<newline>Page fault address is: '')) (log_console (PutInt cr2))))
       (cseq (log_console (PutStr ''\<newline>---------------Exception message end.\<newline>''))
             (fail_with Diverge))))))))))"

subsection \<open>Arrays of words\<close>

definition wroom :: "'z machine_scheme \<Rightarrow> addr \<Rightarrow> nat \<Rightarrow> bool" where
  "wroom s p n \<longleftrightarrow> n \<le> 2 ^ 16 \<and> (\<forall>i < n. kcell s (p + of_nat (4 * i)))"

definition warr :: "'z machine_scheme \<Rightarrow> addr \<Rightarrow> u32 list \<Rightarrow> bool" where
  "warr s p ws \<longleftrightarrow> wroom s p (length ws) \<and> (\<forall>i < length ws. peek32 s (p + of_nat (4 * i)) = ws ! i)"

definition wspan :: "addr \<Rightarrow> nat \<Rightarrow> addr set" where
  "wspan p n = (\<Union>i < n. bytes4 (p + of_nat (4 * i)))"

lemma index_inj:
  assumes "i < 2 ^ 16" "j < 2 ^ 16" "p + of_nat (4 * i) = (p :: addr) + of_nat (4 * j)"
  shows "i = j"
  using span_inj [of "4 * i" "4 * j" p] assms by simp

lemma wroom_upd: "upd_within B s t \<Longrightarrow> wroom t p n = wroom s p n"
  by (simp add: wroom_def upd_within_kcell)

lemma warr_upd:
  assumes "upd_within B s t" "warr s p ws" "B \<inter> wspan p (length ws) = {}"
  shows "warr t p ws"
proof -
  have "peek32 t (p + of_nat (4 * i)) = ws ! i" if "i < length ws" for i
  proof -
    have "kcell s (p + of_nat (4 * i))" using assms(2) that by (simp add: warr_def wroom_def)
    moreover have "bytes4 (p + of_nat (4 * i)) \<inter> B = {}" using assms(3) that by (auto simp: wspan_def)
    ultimately show ?thesis using upd_within_peek32 [OF assms(1)] assms(2) that by (simp add: warr_def)
  qed
  then show ?thesis using assms(1,2) by (simp add: warr_def wroom_upd)
qed

text \<open>Storing at one index.\<close>

lemma warr_store:
  assumes "warr s p ws" "i < length ws"
  shows "store32 (p + of_nat (4 * i)) w s = Inr ((), poke32 (p + of_nat (4 * i)) w s)"
    "warr (poke32 (p + of_nat (4 * i)) w s) p (ws[i := w])"
    "upd_within (wspan p (length ws)) s (poke32 (p + of_nat (4 * i)) w s)"
proof -
  have r: "wroom s p (length ws)" and n: "length ws \<le> 2 ^ 16" using assms(1) by (simp_all add: warr_def wroom_def)
  have k: "kcell s (p + of_nat (4 * i))" using r assms(2) by (simp add: wroom_def)
  then show "store32 (p + of_nat (4 * i)) w s = Inr ((), poke32 (p + of_nat (4 * i)) w s)" by (rule store32_kcell)
  show u: "upd_within (wspan p (length ws)) s (poke32 (p + of_nat (4 * i)) w s)"
    by (rule upd_within_poke32 [OF k]) (use assms(2) in \<open>auto simp: wspan_def\<close>)
  have "peek32 (poke32 (p + of_nat (4 * i)) w s) (p + of_nat (4 * j)) = ws[i := w] ! j" if j: "j < length ws" for j
  proof -
    have kj: "kcell s (p + of_nat (4 * j))" using r j by (simp add: wroom_def)
    have "p + of_nat (4 * j) = p + of_nat (4 * i) \<longleftrightarrow> j = i" using index_inj [of j i p] j assms(2) n by auto
    then show ?thesis using assms(1) j k kj peek32_poke32 [OF k kj, of w] by (cases "j = i") (auto simp: warr_def)
  qed
  then show "warr (poke32 (p + of_nat (4 * i)) w s) p (ws[i := w])" using r wroom_upd [OF u] by (simp add: warr_def)
qed

text \<open>Every array is some list of words.\<close>

lemma warr_ex: "wroom s p n \<Longrightarrow> warr s p (map (\<lambda>i. peek32 s (p + of_nat (4 * i))) [0..<n])"
  by (simp add: warr_def)

subsection \<open>Gates\<close>

definition gate_bytes :: "addr \<Rightarrow> u8 list" where
  "gate_bytes f = [ucast f, ucast (drop_bit 8 f), 8, 0, 0, 0x8E, ucast (drop_bit 16 f), ucast (drop_bit 24 f)]"

lemma length_gate_bytes: "length (gate_bytes f) = 8"
  by (simp add: gate_bytes_def)

text \<open>What the processor takes from a gate: handler, selector, attributes.\<close>

fun decode_gate :: "u8 list \<Rightarrow> addr \<times> u16 \<times> u8" where
  "decode_gate [a, b, c, d, z, e, f, g] =
     (ucast a OR push_bit 8 (ucast b) OR push_bit 16 (ucast f) OR push_bit 24 (ucast g), ucast c OR push_bit 8 (ucast d), e)"

lemma decode_gate_bytes: "decode_gate (gate_bytes f) = (f, 8, 0x8E)"
proof -
  have "(ucast (ucast f :: u8) :: u32) OR push_bit 8 (ucast (ucast (drop_bit 8 f) :: u8)) OR push_bit 16 (ucast (ucast (drop_bit 16 f) :: u8))
     OR push_bit 24 (ucast (ucast (drop_bit 24 f) :: u8)) = f"
  proof (rule bit_word_eqI)
    fix n assume "n < LENGTH(32)"
    then consider "n < 8" | "8 \<le> n" "n < 16" | "16 \<le> n" "n < 24" | "24 \<le> n" "n < 32" by fastforce
    then show "bit ((ucast (ucast f :: u8) :: u32) OR push_bit 8 (ucast (ucast (drop_bit 8 f) :: u8)) OR
        push_bit 16 (ucast (ucast (drop_bit 16 f) :: u8)) OR push_bit 24 (ucast (ucast (drop_bit 24 f) :: u8))) n = bit f n"
      by cases (auto simp: bit_simps)
  qed
  then show ?thesis by (simp add: gate_bytes_def)
qed

lemma poke8_step: "upd_within B s t \<Longrightarrow> kaddr s a \<Longrightarrow> a \<in> B \<Longrightarrow> upd_within B s (poke8 a v t)"
  using upd_within_trans [of B s t "poke8 a v t"] upd_within_poke8 [of t a B v] upd_within_kaddr [of B s t] by simp

lemma handler_halves:
  "ucast (ucast (f AND 0xFFFF) :: u16) = (ucast (f :: u32) :: u8)" "ucast (drop_bit 8 (ucast (f AND 0xFFFF) :: u16)) = (ucast (drop_bit 8 f) :: u8)"
  "ucast (ucast (drop_bit 16 (f AND 0xFFFF0000)) :: u16) = (ucast (drop_bit 16 f) :: u8)"
  "ucast (drop_bit 8 (ucast (drop_bit 16 (f AND 0xFFFF0000)) :: u16)) = (ucast (drop_bit 24 f) :: u8)"
proof -
  have lo: "f AND 0xFFFF = take_bit 16 f" by (simp add: take_bit_eq_mask mask_eq_exp_minus_1)
  have "drop_bit 16 (0xFFFF0000 :: u32) = mask 16" by (simp add: mask_eq_exp_minus_1)
  then have hi: "drop_bit 16 (f AND 0xFFFF0000) = take_bit 16 (drop_bit 16 f)" by (simp only: drop_bit_and take_bit_eq_mask)
  show "ucast (ucast (f AND 0xFFFF) :: u16) = (ucast f :: u8)" "ucast (drop_bit 8 (ucast (f AND 0xFFFF) :: u16)) = (ucast (drop_bit 8 f) :: u8)"
    "ucast (ucast (drop_bit 16 (f AND 0xFFFF0000)) :: u16) = (ucast (drop_bit 16 f) :: u8)"
    "ucast (drop_bit 8 (ucast (drop_bit 16 (f AND 0xFFFF0000)) :: u16)) = (ucast (drop_bit 24 f) :: u8)"
    unfolding lo hi by (rule bit_word_eqI, force simp: bit_simps)+
qed

lemma make_idt_desc_spec:
  assumes "room s p 8"
  shows "\<exists>t. make_idt_desc p IDT_DESC_ATTR_DPL0 f s = Inr ((), t) \<and> blk t p (gate_bytes f) \<and> upd_within (span p 8) s t"
proof -
  have k: "kaddr s p" "kaddr s (p + 1)" "kaddr s (p + 2)" "kaddr s (p + 3)" "kaddr s (p + 4)" "kaddr s (p + 5)" "kaddr s (p + 6)" "kaddr s (p + 7)"
    using room_at [OF assms, of 0] room_at [OF assms, of 1] room_at [OF assms, of 2] room_at [OF assms, of 3]
      room_at [OF assms, of 4] room_at [OF assms, of 5] room_at [OF assms, of 6] room_at [OF assms, of 7] by simp_all
  have m: "p + of_nat i \<in> span p 8" if "i < 8" for i using that by (auto simp: span_iff)
  define t where "t = poke8 (p + 7) (ucast (drop_bit 24 f)) (poke8 (p + 6) (ucast (drop_bit 16 f)) (poke8 (p + 5) 0x8E (poke8 (p + 4) 0
    (poke8 (p + 3) 0 (poke8 (p + 2) 8 (poke8 (p + 1) (ucast (drop_bit 8 f)) (poke8 p (ucast f) s)))))))"
  have "make_idt_desc p IDT_DESC_ATTR_DPL0 f s = Inr ((), t)"
    using k by (simp add: make_idt_desc_def store16_def cseq_def cbind_def store8_kaddr kaddr_poke8 handler_halves t_def
      SELECTOR_K_CODE_def IDT_DESC_ATTR_DPL0_def add.assoc)
  moreover have "blk t p (gate_bytes f)"
    using k by (simp add: gate_bytes_def t_def kaddr_poke8 peek8_poke8 add.assoc)
  moreover have "upd_within (span p 8) s t"
    unfolding t_def using k m [of 0] m [of 1] m [of 2] m [of 3] m [of 4] m [of 5] m [of 6] m [of 7]
    by (intro poke8_step upd_within_refl) simp_all
  ultimately show ?thesis by blast
qed

lemma room_gate: "room s p (8 * n) \<Longrightarrow> i < n \<Longrightarrow> room s (p + of_nat (8 * i)) 8"
  using room_shift [of s p "8 * n" "8 * i" 8] by linarith

lemma span_gates:
  assumes "i < n" "j < n" "i \<noteq> j" "8 * n \<le> 2 ^ 30"
  shows "span (p + of_nat (8 * i)) 8 \<inter> span (p + of_nat (8 * j)) 8 = {}"
proof -
  have *: "span (p + of_nat (8 * i)) 8 \<inter> span (p + of_nat (8 * j)) 8 = {}" if "i < j" "j < n" for i j
  proof -
    have "p + of_nat (8 * j) = (p + of_nat (8 * i)) + of_nat (8 * j - 8 * i)"
      using that by (simp add: add.assoc of_nat_add [symmetric] del: of_nat_add)
    then show ?thesis using span_apart [of 8 "8 * j - 8 * i" 8 "p + of_nat (8 * i)"] that assms(4) by simp
  qed
  from assms(3) show ?thesis
  proof (cases "i < j")
    case True
    then show ?thesis using * assms(2) by blast
  next
    case False
    then have "j < i" using assms(3) by simp
    then show ?thesis using * [of j i] assms(1) by blast
  qed
qed

lemma gates_written:
  assumes r: "room s p (8 * n)" and e: "warr s entries fs" "length fs = n" and d: "span p (8 * n) \<inter> wspan entries n = {}"
  shows "\<exists>t. run_all (\<lambda>i. cbind (load32 (entries + of_nat (4 * i))) (make_idt_desc (p + of_nat (8 * i)) IDT_DESC_ATTR_DPL0)) [0..<n] s = Inr ((), t) \<and>
    upd_within (span p (8 * n)) s t \<and> (\<forall>i < n. blk t (p + of_nat (8 * i)) (gate_bytes (fs ! i)))"
proof -
  have n: "8 * n \<le> 2 ^ 30" by (rule room_less [OF r])
  let ?f = "\<lambda>i. cbind (load32 (entries + of_nat (4 * i))) (make_idt_desc (p + of_nat (8 * i)) IDT_DESC_ATTR_DPL0)"
  let ?P = "\<lambda>k t. upd_within (span p (8 * n)) s t \<and> (\<forall>i < k. blk t (p + of_nat (8 * i)) (gate_bytes (fs ! i)))"
  have "\<exists>t. run_all ?f [0..<n] s = Inr ((), t) \<and> ?P n t"
  proof (rule run_all_upt [where P = ?P])
    show "?P 0 s" by auto
    fix i t assume i: "i < n" and t: "?P i t"
    have u: "upd_within (span p (8 * n)) s t" using t by blast
    have "warr t entries fs" by (rule warr_upd [OF u e(1)]) (use d e(2) in simp)
    then have l: "load32 (entries + of_nat (4 * i)) t = Inr (fs ! i, t)"
      using i e(2) by (simp add: warr_def wroom_def load32_kcell)
    have "room t (p + of_nat (8 * i)) 8" using room_gate [OF r i] upd_within_room [OF u] by simp
    from make_idt_desc_spec [OF this, of "fs ! i"] obtain t' where
      t': "make_idt_desc (p + of_nat (8 * i)) IDT_DESC_ATTR_DPL0 (fs ! i) t = Inr ((), t')" "blk t' (p + of_nat (8 * i)) (gate_bytes (fs ! i))"
        "upd_within (span (p + of_nat (8 * i)) 8) t t'" by blast
    have "span (p + of_nat (8 * i)) 8 \<subseteq> span p (8 * n)" using i by (intro span_shift) simp
    then have u': "upd_within (span p (8 * n)) s t'" using upd_within_trans [OF u] upd_within_mono [OF t'(3)] by blast
    have "blk t' (p + of_nat (8 * j)) (gate_bytes (fs ! j))" if "j < Suc i" for j
    proof (cases "j = i")
      case False
      have "span (p + of_nat (8 * i)) 8 \<inter> span (p + of_nat (8 * j)) 8 = {}" using False that i n by (intro span_gates [of _ n]) simp_all
      then have "span (p + of_nat (8 * j)) (length (gate_bytes (fs ! j))) \<inter> span (p + of_nat (8 * i)) 8 = {}" by (simp only: length_gate_bytes Int_commute)
      moreover have "blk t (p + of_nat (8 * j)) (gate_bytes (fs ! j))" using t that False by (metis less_SucE)
      ultimately show ?thesis by (rule upd_within_blk [OF t'(3)])
    qed (use t' in simp)
    then show "\<exists>u. ?f i t = Inr ((), u) \<and> ?P (Suc i) u" using l t'(1) u' by (intro exI [of _ t']) (simp add: cbind_def)
  qed
  then show ?thesis by blast
qed

subsection \<open>Initialisation\<close>

lemma foldl_update_nth:
  assumes "i < length ws"
  shows "length (foldl (\<lambda>w i. w[i := f i]) ws is) = length ws"
    "foldl (\<lambda>w i. w[i := f i]) ws is ! i = (if i \<in> set is then f i else ws ! i)"
proof -
  show "length (foldl (\<lambda>w i. w[i := f i]) ws is) = length ws" by (induction "is" arbitrary: ws) auto
  show "foldl (\<lambda>w i. w[i := f i]) ws is ! i = (if i \<in> set is then f i else ws ! i)"
    using assms by (induction "is" arbitrary: ws) (auto simp: nth_list_update)
qed

lemma stores_run:
  assumes "warr s p ws" "\<forall>i \<in> set is. i < length ws"
  shows "\<exists>t. run_all (\<lambda>i. store32 (p + of_nat (4 * i)) (f i)) is s = Inr ((), t) \<and> upd_within (wspan p (length ws)) s t \<and>
    warr t p (foldl (\<lambda>w i. w[i := f i]) ws is)"
  using assms
proof (induction "is" arbitrary: s ws)
  case Nil
  then show ?case by (auto simp: ret_def)
next
  case (Cons i "is")
  note st = warr_store [OF Cons.prems(1), of i "f i"]
  from Cons.IH [of "poke32 (p + of_nat (4 * i)) (f i) s" "ws[i := f i]"] st(2) Cons.prems(2) obtain t where
    t: "run_all (\<lambda>i. store32 (p + of_nat (4 * i)) (f i)) is (poke32 (p + of_nat (4 * i)) (f i) s) = Inr ((), t)"
      "upd_within (wspan p (length ws)) (poke32 (p + of_nat (4 * i)) (f i) s) t" "warr t p (foldl (\<lambda>w i. w[i := f i]) (ws[i := f i]) is)" by auto
  then show ?case using st(1,3) Cons.prems(2) upd_within_trans
    by (intro exI [of _ t]) (auto simp: cseq_def cbind_def)
qed

definition idt_ok :: "'z machine_scheme \<Rightarrow> idt_objs \<Rightarrow> addr list \<Rightarrow> bool" where
  "idt_ok s io fs \<longleftrightarrow> room s (idt io) 384 \<and> wroom s (idt_table io) 48 \<and> wroom s (intr_name io) 48 \<and>
     warr s (intr_entry_table io) fs \<and> length fs = 48 \<and>
     span (idt io) 384 \<inter> wspan (intr_entry_table io) 48 = {} \<and> span (idt io) 384 \<inter> wspan (idt_table io) 48 = {} \<and>
     span (idt io) 384 \<inter> wspan (intr_name io) 48 = {} \<and> wspan (idt_table io) 48 \<inter> wspan (intr_name io) 48 = {}"

definition exception_names :: "idt_objs \<Rightarrow> addr list" where
  "exception_names io = map (\<lambda>i. if i \<in> set custom_vectors then name_lit io i else unknown_lit io) [0..<48]"

lemma handlers_run:
  assumes "wroom s p 48" "wroom s q 48" "wspan p 48 \<inter> wspan q 48 = {}"
  shows "\<exists>t. run_all (\<lambda>i. cseq (store32 (p + of_nat (4 * i)) g) (store32 (q + of_nat (4 * i)) u)) [0..<48] s = Inr ((), t) \<and>
    upd_within (wspan p 48 \<union> wspan q 48) s t \<and> warr t p (replicate 48 g) \<and> warr t q (replicate 48 u)"
proof -
  define a where "a = map (\<lambda>i. peek32 s (p + of_nat (4 * i))) [0..<48]"
  define b where "b = map (\<lambda>i. peek32 s (q + of_nat (4 * i))) [0..<48]"
  have ab: "warr s p a" "warr s q b" "length a = 48" "length b = 48" using assms(1,2) warr_ex by (simp_all add: a_def b_def)
  let ?f = "\<lambda>i. cseq (store32 (p + of_nat (4 * i)) g) (store32 (q + of_nat (4 * i)) u)"
  let ?P = "\<lambda>k t. upd_within (wspan p 48 \<union> wspan q 48) s t \<and> warr t p (replicate k g @ drop k a) \<and> warr t q (replicate k u @ drop k b)"
  have "\<exists>t. run_all ?f [0..<48] s = Inr ((), t) \<and> ?P 48 t"
  proof (rule run_all_upt [where P = ?P])
    show "?P 0 s" using ab by auto
    fix i t assume i: "i < 48" and t: "?P i t"
    have upd: "(replicate i x @ drop i c)[i := x] = replicate (Suc i) x @ drop (Suc i) c" if "length c = 48" for x and c :: "u32 list"
      using i that by (simp add: list_update_append replicate_append_same [symmetric] Cons_nth_drop_Suc [symmetric] del: replicate_append_same)
    have ip: "i < length (replicate i g @ drop i a)" "i < length (replicate i u @ drop i b)"
      "length (replicate i g @ drop i a) = 48" "length (replicate i u @ drop i b) = 48" using i ab(3,4) by simp_all
    have tp: "warr t p (replicate i g @ drop i a)" "warr t q (replicate i u @ drop i b)" using t by blast+
    note s1 = warr_store [OF tp(1) ip(1), of g]
    let ?t1 = "poke32 (p + of_nat (4 * i)) g t"
    have q1: "warr ?t1 q (replicate i u @ drop i b)" by (rule warr_upd [OF s1(3) tp(2)]) (use assms(3) ip in simp)
    note s2 = warr_store [OF q1 ip(2), of u]
    let ?t2 = "poke32 (q + of_nat (4 * i)) u ?t1"
    have p2: "warr ?t2 p ((replicate i g @ drop i a)[i := g])" by (rule warr_upd [OF s2(3) s1(2)]) (use assms(3) ip in auto)
    have "upd_within (wspan p 48 \<union> wspan q 48) t ?t2"
      using upd_within_trans2 [OF s1(3) s2(3)] ip(3,4) by simp
    then have "upd_within (wspan p 48 \<union> wspan q 48) s ?t2" using t upd_within_trans by blast
    moreover have "?f i t = Inr ((), ?t2)" using s1(1) s2(1) by (simp add: cseq_def cbind_def)
    ultimately show "\<exists>u. ?f i t = Inr ((), u) \<and> ?P (Suc i) u"
      using p2 s2(2) unfolding upd [OF ab(3)] upd [OF ab(4)] by blast
  qed
  then show ?thesis using ab(3,4) by simp
qed

lemma exception_handlers_run:
  assumes "wroom s (idt_table io) 48" "wroom s (intr_name io) 48" "wspan (idt_table io) 48 \<inter> wspan (intr_name io) 48 = {}"
  shows "\<exists>t. exception_handler_init io s = Inr ((), t) \<and> upd_within (wspan (idt_table io) 48 \<union> wspan (intr_name io) 48) s t \<and>
    warr t (idt_table io) (replicate 48 (general_handler io)) \<and> warr t (intr_name io) (exception_names io)"
proof -
  from handlers_run [OF assms, of "general_handler io" "unknown_lit io"] obtain t1 where
    t1: "run_all (\<lambda>i. cseq (store32 (idt_table io + of_nat (4 * i)) (general_handler io)) (store32 (intr_name io + of_nat (4 * i)) (unknown_lit io))) [0..<48] s
        = Inr ((), t1)" "upd_within (wspan (idt_table io) 48 \<union> wspan (intr_name io) 48) s t1"
      "warr t1 (idt_table io) (replicate 48 (general_handler io))" "warr t1 (intr_name io) (replicate 48 (unknown_lit io))" by blast
  have "\<forall>i \<in> set custom_vectors. i < length (replicate 48 (unknown_lit io))" by (simp add: custom_vectors_def)
  from stores_run [OF t1(4) this, of "name_lit io"] obtain t where
    t: "init_custom_handler_name io t1 = Inr ((), t)" "upd_within (wspan (intr_name io) 48) t1 t"
      "warr t (intr_name io) (foldl (\<lambda>w i. w[i := name_lit io i]) (replicate 48 (unknown_lit io)) custom_vectors)"
    by (auto simp: init_custom_handler_name_def)
  have "foldl (\<lambda>w i. w[i := name_lit io i]) (replicate 48 (unknown_lit io)) custom_vectors = exception_names io"
    using foldl_update_nth(1) [of 0 "replicate 48 (unknown_lit io)"]
    by (intro nth_equalityI) (simp_all add: foldl_update_nth exception_names_def)
  moreover have "upd_within (wspan (idt_table io) 48 \<union> wspan (intr_name io) 48) s t"
    using upd_within_trans [OF t1(2)] upd_within_mono [OF t(2)] by blast
  moreover have "warr t (idt_table io) (replicate 48 (general_handler io))"
    by (rule warr_upd [OF t(2) t1(3)]) (use assms(3) in auto)
  ultimately show ?thesis using t1(1) t(1,3)
    by (intro exI [of _ t]) (simp add: exception_handler_init_def IDT_DESC_CNT_def cseq_def cbind_def)
qed

lemma same_mem:
  fixes s :: "'a machine_scheme" and t :: "'b machine_scheme"
  assumes "pmem t = pmem s" "cr3 t = cr3 s"
  shows "room t p n = room s p n" "wroom t p n = wroom s p n" "warr t p ws = warr s p ws" "blk t p bs = blk s p bs"
proof -
  note i = mem_indep [of t s, OF assms]
  show "room t p n = room s p n" by (simp add: room_def i)
  show w: "wroom t p n = wroom s p n" for n by (simp add: wroom_def i)
  show "warr t p ws = warr s p ws" by (simp add: warr_def w i)
  show "blk t p bs = blk s p bs" by (induction bs arbitrary: p) (simp_all add: i)
qed

lemma idtr_loaded: "ucast (idt_operand a) = (383 :: u16)" "ucast (drop_bit 16 (idt_operand a)) = a AND 0xFFFF"
proof -
  have op: "idt_operand a = 383 OR ucast (push_bit 16 a)" by (simp add: idt_operand_def IDT_DESC_CNT_def)
  have "(383 :: 64 word) = take_bit 9 383" by simp
  then have hi: "\<not> bit (383 :: 64 word) n" if "9 \<le> n" for n using that by (metis bit_take_bit_iff not_le)
  have "ucast (idt_operand a) = (ucast (383 :: 64 word) :: u16)"
    unfolding op by (rule bit_word_eqI) (auto simp: bit_simps)
  then show "ucast (idt_operand a) = (383 :: u16)" by simp
  have "a AND 0xFFFF = take_bit 16 a" by (simp add: take_bit_eq_mask mask_eq_exp_minus_1)
  then show "ucast (drop_bit 16 (idt_operand a)) = a AND 0xFFFF"
    unfolding op by (intro bit_word_eqI) (auto simp: bit_simps hi)
qed

definition pic_bytes :: "(u16 \<times> u8) list" where
  "pic_bytes = [(0x20, 0x11), (0x21, 0x20), (0x21, 0x04), (0x21, 0x01), (0xa0, 0x11), (0xa1, 0x28), (0xa1, 0x02), (0xa1, 0x01),
     (0x21, 0xfd), (0xa1, 0xff)]"

lemma pic_init_run: "pic_init s = Inr ((), s\<lparr>ports_out := ports_out s @ pic_bytes, console := console s @ [PutStr ''pic_init done.\<newline>'']\<rparr>)"
  by (simp add: pic_init_def ioutb_def comp_simps log_console_def pic_bytes_def)

definition idt_area :: "idt_objs \<Rightarrow> addr set" where
  "idt_area io = span (idt io) 384 \<union> wspan (idt_table io) 48 \<union> wspan (intr_name io) 48"

lemma idt_init_spec:
  assumes ok: "idt_ok s io fs"
  shows "\<exists>t. idt_init io s = Inr ((), t) \<and> (\<forall>i < 48. blk t (idt io + of_nat (8 * i)) (gate_bytes (fs ! i))) \<and>
    warr t (idt_table io) (replicate 48 (general_handler io)) \<and> warr t (intr_name io) (exception_names io) \<and>
    idtr_limit t = 383 \<and> idtr_base t = idt io AND 0xFFFF \<and> ports_out t = ports_out s @ pic_bytes \<and>
    upd_within (idt_area io) (s\<lparr>console := console t, ports_out := ports_out t, idtr_limit := 383, idtr_base := idt io AND 0xFFFF\<rparr>) t"
proof -
  note o = ok [unfolded idt_ok_def]
  define s1 where "s1 = s\<lparr>console := console s @ [PutStr ''idt_init start.\<newline>'']\<rparr>"
  have m1: "room s1 p n = room s p n" "warr s1 p ws = warr s p ws" "wroom s1 p n = wroom s p n" for p n ws
    by (rule same_mem, simp_all add: s1_def)+
  have "room s1 (idt io) (8 * 48)" "warr s1 (intr_entry_table io) fs" "length fs = 48" "span (idt io) (8 * 48) \<inter> wspan (intr_entry_table io) 48 = {}"
    using o by (simp_all add: m1)
  from gates_written [OF this] obtain s2 where
    s2: "run_all (\<lambda>i. cbind (load32 (intr_entry_table io + of_nat (4 * i))) (make_idt_desc (idt io + of_nat (8 * i)) IDT_DESC_ATTR_DPL0)) [0..<48] s1
        = Inr ((), s2)" "upd_within (span (idt io) (8 * 48)) s1 s2" "\<forall>i < 48. blk s2 (idt io + of_nat (8 * i)) (gate_bytes (fs ! i))" by blast
  define s3 where "s3 = s2\<lparr>console := console s2 @ [PutStr ''idt_desc_init done.\<newline>'']\<rparr>"
  have m3: "wroom s3 p n = wroom s2 p n" "blk s3 p bs = blk s2 p bs" for p n bs by (rule same_mem, simp_all add: s3_def)+
  have w3: "wroom s3 (idt_table io) 48" "wroom s3 (intr_name io) 48" using o by (simp_all add: m3 wroom_upd [OF s2(2)] m1)
  from exception_handlers_run [OF w3] o obtain s4 where
    s4: "exception_handler_init io s3 = Inr ((), s4)" "upd_within (wspan (idt_table io) 48 \<union> wspan (intr_name io) 48) s3 s4"
      "warr s4 (idt_table io) (replicate 48 (general_handler io))" "warr s4 (intr_name io) (exception_names io)" by blast
  have g4: "blk s4 (idt io + of_nat (8 * i)) (gate_bytes (fs ! i))" if "i < 48" for i
  proof (rule upd_within_blk [OF s4(2)])
    have "span (idt io + of_nat (8 * i)) 8 \<subseteq> span (idt io) 384" using that by (intro span_shift) simp
    then show "span (idt io + of_nat (8 * i)) (length (gate_bytes (fs ! i))) \<inter> (wspan (idt_table io) 48 \<union> wspan (intr_name io) 48) = {}"
      unfolding length_gate_bytes using o by blast
    show "blk s3 (idt io + of_nat (8 * i)) (gate_bytes (fs ! i))" using s2(3) that by (simp only: m3)
  qed
  define t where "t = s4\<lparr>ports_out := ports_out s4 @ pic_bytes, console := (console s4 @ [PutStr ''pic_init done.\<newline>'']) @ [PutStr ''idt_init done.\<newline>''],
    idtr_limit := 383, idtr_base := idt io AND 0xFFFF\<rparr>"
  have mt: "warr t p ws = warr s4 p ws" "blk t p bs = blk s4 p bs" for p ws bs by (rule same_mem, simp_all add: t_def)+
  have po: "ports_out s4 = ports_out s" using s2(2) s4(2) by (auto simp: upd_within_def tables_same_def s1_def s3_def)
  have "idt_init io s = Inr ((), t)"
    using s2(1) s4(1)
    by (simp add: idt_init_def idt_desc_init_def IDT_DESC_CNT_def cseq_def cbind_def log_console_def s1_def [symmetric] s3_def [symmetric]
      pic_init_run lidt_def modify_def idtr_loaded t_def)
  moreover have "upd_within (idt_area io) (s\<lparr>console := console t, ports_out := ports_out t, idtr_limit := 383, idtr_base := idt io AND 0xFFFF\<rparr>) t"
  proof -
    let ?f = "\<lambda>x. x\<lparr>console := console t, ports_out := ports_out t, idtr_limit := 383, idtr_base := idt io AND 0xFFFF\<rparr>"
    have "upd_within (idt_area io) (?f s1) (?f s2)"
      by (rule upd_within_map [OF upd_within_mono [OF s2(2)], of _ ?f]) (auto simp: idt_area_def)
    also have "?f s2 = ?f s3" by (simp add: s3_def)
    also have "upd_within (idt_area io) (?f s3) (?f s4)"
      by (rule upd_within_map [OF upd_within_mono [OF s4(2)], of _ ?f]) (auto simp: idt_area_def)
    also have "?f s4 = t" by (simp add: t_def)
    finally show ?thesis by (simp add: s1_def)
  qed
  ultimately show ?thesis using g4 s4(3,4) po by (intro exI [of _ t]) (simp only: mt, simp add: t_def)
qed

text \<open>\<open>panic_spin\<close> of \<open>debug.c\<close>, where a failed ASSERT ends.\<close>

definition panic_spin :: "addr \<Rightarrow> u32 \<Rightarrow> addr \<Rightarrow> addr \<Rightarrow> ('z machine_scheme, unit) comp" where
  "panic_spin filename line fn condition =
     cseq (cbind intr_disable (\<lambda>_. ret ()))
    (cseq (log_console (PutStr ''Something wrong...''))
    (cseq (log_console (PutStr ''FileName: ''))
    (cseq (log_console (PutStrAt filename))
    (cseq (log_console (PutChar 10))
    (cseq (log_console (PutStr ''Line: ''))
    (cseq (log_console (PutInt line))
    (cseq (log_console (PutChar 10))
    (cseq (log_console (PutStr ''Function: ''))
    (cseq (log_console (PutStrAt fn))
    (cseq (log_console (PutChar 10))
    (cseq (log_console (PutStr ''Condition: ''))
    (cseq (log_console (PutStrAt condition))
    (cseq (log_console (PutChar 10))
          (fail_with Diverge))))))))))))))"

lemma logs_run: "\<exists>c. run_all (\<lambda>_. log_console x) xs s = Inr ((), s\<lparr>console := c\<rparr>)"
proof (induction xs arbitrary: s)
  case Nil
  show ?case by (intro exI [of _ "console s"]) (simp add: ret_def)
next
  case (Cons a xs)
  from Cons.IH [of "s\<lparr>console := console s @ [x]\<rparr>"] show ?case by (auto simp: cseq_def cbind_def log_console_def)
qed

subsection \<open>Properties\<close>

text \<open>
  C26: after \<open>idt_init\<close> each of the 48 gates, decoded as the processor does, holds the address of
  its entry routine with the kernel code selector and the attributes of a present 32-bit
  interrupt gate, every vector is handled by the general handler and has its name, the
  controllers have been sent their ten bytes, and \<open>register_handler\<close> then changes the handler of
  its vector only. The limit loaded by \<open>lidt\<close> is that of the table; the base is the table's
  address without its upper half.
\<close>

theorem idt_init_correct:
  assumes "idt_ok s io fs"
  shows "\<exists>t. idt_init io s = Inr ((), t) \<and>
    (\<forall>i < 48. \<exists>bs. length bs = 8 \<and> blk t (idt io + of_nat (8 * i)) bs \<and> decode_gate bs = (fs ! i, 8, 0x8E)) \<and>
    warr t (idt_table io) (replicate 48 (general_handler io)) \<and> warr t (intr_name io) (exception_names io) \<and>
    idtr_limit t = 383 \<and> idtr_base t = idt io AND 0xFFFF \<and> ports_out t = ports_out s @ pic_bytes \<and>
    (\<forall>vec h. vec < 48 \<longrightarrow> (\<exists>u. register_handler io vec h t = Inr ((), u) \<and>
      warr u (idt_table io) ((replicate 48 (general_handler io))[unat vec := h])))"
proof -
  from idt_init_spec [OF assms] obtain t where
    t: "idt_init io s = Inr ((), t)" "\<forall>i < 48. blk t (idt io + of_nat (8 * i)) (gate_bytes (fs ! i))"
      "warr t (idt_table io) (replicate 48 (general_handler io))" "warr t (intr_name io) (exception_names io)"
      "idtr_limit t = 383" "idtr_base t = idt io AND 0xFFFF" "ports_out t = ports_out s @ pic_bytes" by blast
  have "\<exists>u. register_handler io vec h t = Inr ((), u) \<and> warr u (idt_table io) ((replicate 48 (general_handler io))[unat vec := h])"
    if "vec < 48" for vec h
    using warr_store [OF t(3), of "unat vec" h] that unfolding register_handler_def by (auto simp: word_less_nat_alt)
  moreover have "\<exists>bs. length bs = 8 \<and> blk t (idt io + of_nat (8 * i)) bs \<and> decode_gate bs = (fs ! i, 8, 0x8E)" if "i < 48" for i
    using t(2) that decode_gate_bytes length_gate_bytes by blast
  ultimately show ?thesis using t by blast
qed

text \<open>The boot machine with a screen and the descriptor register, and the arrays in its memory.\<close>

definition with_idtr :: "machine \<Rightarrow> idt_machine" where
  "with_idtr s = vga_machine.extend (with_screen s) \<lparr>idtr_limit = 0, idtr_base = 0\<rparr>"

lemma with_idtr_mem: "kaddr (with_idtr s) = kaddr s" "kcell (with_idtr s) = kcell s"
  by (rule mem_indep; simp add: with_idtr_def with_screen_def machine.defs vga_machine.defs)+

definition boot_idt :: idt_objs where
  "boot_idt = \<lparr>idt = 0xc0020000, idt_table = 0xc0020200, intr_name = 0xc0020300, intr_entry_table = 0xc0020400,
     general_handler = 0xc0002000, unknown_lit = 0xc0003000, name_lit = \<lambda>v. 0xc0003000 + of_nat (32 * v)\<rparr>"

lemma wspan_span: "wspan p n \<subseteq> span p (4 * n)"
proof
  fix a assume "a \<in> wspan p n"
  then obtain i where i: "i < n" "a - (p + of_nat (4 * i)) < 4" by (auto simp: wspan_def in_bytes4)
  define k where "k = unat (a - (p + of_nat (4 * i)))"
  have "k < 4" using i(2) by (simp add: k_def word_less_nat_alt)
  moreover have "of_nat k = a - (p + of_nat (4 * i))" by (simp add: k_def)
  then have "a = p + of_nat (4 * i + k)" by (simp add: algebra_simps)
  ultimately show "a \<in> span p (4 * n)" using i(1) unfolding span_iff by (intro exI [of _ "4 * i + k"]) simp
qed

lemma boot_idt_ok: "idt_ok (with_idtr boot_machine) boot_idt (map (\<lambda>i. peek32 (with_idtr boot_machine) (0xc0020400 + of_nat (4 * i))) [0..<48])"
proof -
  let ?s = "with_idtr boot_machine"
  have room: "room ?s 0xc0020000 384"
    using boot_room [of "0xc0020000" 384] by (simp add: room_def with_idtr_mem)
  have wr: "wroom ?s p 48" if p: "p \<in> {0xc0020200, 0xc0020300, 0xc0020400}" for p
  proof -
    have "kcell ?s (p + of_nat (4 * i))" if i: "i < 48" for i
    proof -
      have u: "unat (p + of_nat (4 * i)) = unat p + 4 * i" using p i by (auto simp: unat_word_ariths unat_of_nat)
      have "aligned4 (p + of_nat (4 * i))"
      proof -
        have "unat (p + of_nat (4 * i)) mod 4 = 0" using p unfolding u by auto
        then show ?thesis by (simp only: aligned4_unat)
      qed
      moreover have "0xc0000000 \<le> p + of_nat (4 * i)" "p + of_nat (4 * i) < 0xc0100000"
        using p i u by (auto simp: word_le_nat_alt word_less_nat_alt)
      ultimately show ?thesis using boot_kcell by (simp add: with_idtr_mem)
    qed
    then show ?thesis by (simp add: wroom_def)
  qed
  have ap: "span p n \<inter> wspan q 48 = {}" if "unat p + n \<le> unat q" "unat q + 192 \<le> 2 ^ 32" for p q n
    using span_sep [of p n q "4 * 48"] that wspan_span [of q 48] by auto
  have "wspan 0xc0020200 48 \<inter> wspan 0xc0020300 48 = {}"
    using ap [of "0xc0020200" 192 "0xc0020300"] wspan_span [of "0xc0020200" 48] by auto
  moreover have "warr ?s 0xc0020400 (map (\<lambda>i. peek32 ?s (0xc0020400 + of_nat (4 * i))) [0..<48])" by (rule warr_ex) (rule wr, simp)
  ultimately show ?thesis
    using room wr ap [of "0xc0020000" 384 "0xc0020400"] ap [of "0xc0020000" 384 "0xc0020300"] ap [of "0xc0020000" 384 "0xc0020200"]
    by (simp add: idt_ok_def boot_idt_def)
qed

theorem idt_init_correct_witness:
  "\<exists>t. idt_init boot_idt (with_idtr boot_machine) = Inr ((), t) \<and> idtr_limit t = 383 \<and> idtr_base t = 0 \<and>
     (\<exists>u. register_handler boot_idt 0x20 0xc0004000 t = Inr ((), u))"
proof -
  have "(0x20 :: u8) < 48" "idt boot_idt AND 0xFFFF = 0" by (simp_all add: boot_idt_def)
  with idt_init_correct [OF boot_idt_ok] show ?thesis by fastforce
qed



end
