(* ===== verification/PortIO.thy ===== *)
theory PortIO
  imports Idt
begin

unbundle bit_operations_syntax

section \<open>Block transfers through a port (include/io.h)\<close>

text \<open>
  \<open>outsw\<close> and \<open>insw\<close> are one string instruction each, repeated \<open>word_cnt\<close> times with the direction
  flag clear: words go from memory to the port or back, the address rising by two. What
  the port presents is a parameter, one word for each read; what is sent is the result.
\<close>

definition load16 :: "addr \<Rightarrow> ('z machine_scheme, u16) comp" where
  "load16 a = cbind (load8 a) (\<lambda>l. cbind (load8 (a + 1)) (\<lambda>h. ret (push_bit 8 (ucast h) OR ucast l)))"

fun rep_outsw :: "u16 \<Rightarrow> addr \<Rightarrow> nat \<Rightarrow> ('z machine_scheme, (u16 \<times> u16) list) comp" where
  "rep_outsw port addr 0 = ret []"
| "rep_outsw port addr (Suc n) =
     cbind (load16 addr) (\<lambda>w. cbind (rep_outsw port (addr + 2) n) (\<lambda>ws. ret ((port, w) # ws)))"

definition outsw :: "u16 \<Rightarrow> addr \<Rightarrow> u32 \<Rightarrow> ('z machine_scheme, (u16 \<times> u16) list) comp" where
  "outsw port addr word_cnt = rep_outsw port addr (unat word_cnt)"

fun rep_insw :: "addr \<Rightarrow> u16 list \<Rightarrow> ('z machine_scheme, unit) comp" where
  "rep_insw addr [] = ret ()"
| "rep_insw addr (w # ws) = cseq (store16 addr w) (rep_insw (addr + 2) ws)"

definition insw :: "(u16 \<Rightarrow> nat \<Rightarrow> u16) \<Rightarrow> u16 \<Rightarrow> addr \<Rightarrow> u32 \<Rightarrow> ('z machine_scheme, unit) comp" where
  "insw dev port addr word_cnt = rep_insw addr (map (dev port) [0..<unat word_cnt])"

subsection \<open>What they transfer\<close>

fun word_bytes :: "u16 list \<Rightarrow> u8 list" where
  "word_bytes [] = []"
| "word_bytes (w # ws) = ucast w # ucast (drop_bit 8 w) # word_bytes ws"

lemma length_word_bytes [simp]: "length (word_bytes ws) = 2 * length ws"
  by (induction ws) simp_all

lemma word_halves: "push_bit 8 (ucast (ucast (drop_bit 8 w) :: u8)) OR ucast (ucast w :: u8) = (w :: u16)"
  by (rule bit_word_eqI) (auto simp: bit_simps)

lemma outsw_sends: "blk s p (word_bytes ws) \<Longrightarrow> rep_outsw port p (length ws) s = Inr (map (Pair port) ws, s)"
proof (induction ws arbitrary: p)
  case (Cons w ws)
  then have b: "kaddr s p" "peek8 s p = ucast w" "kaddr s (p + 1)" "peek8 s (p + 1) = ucast (drop_bit 8 w)" "blk s (p + 2) (word_bytes ws)"
    by (simp_all add: add.assoc)
  have "load16 p s = Inr (w, s)" using b(1-4) by (simp add: load16_def cbind_def ret_def load8_kaddr word_halves)
  then show ?case using Cons.IH [OF b(5)] by (simp add: cbind_def ret_def)
qed (simp add: ret_def)

lemma insw_stores:
  "room s p (2 * length ws) \<Longrightarrow> \<exists>t. rep_insw p ws s = Inr ((), t) \<and> blk t p (word_bytes ws) \<and> upd_within (span p (2 * length ws)) s t"
proof (induction ws arbitrary: p s)
  case Nil
  then show ?case by (auto simp: ret_def)
next
  case (Cons w ws)
  let ?u = "poke8 (p + 1) (ucast (drop_bit 8 w)) (poke8 p (ucast w) s)"
  have n: "2 * length (w # ws) = Suc (Suc (2 * length ws))" by simp
  note r = Cons.prems [unfolded n]
  have k: "kaddr s p" "kaddr s (p + 1)" "room s (p + 1 + 1) (2 * length ws)" using r by simp_all
  have d: "p \<notin> span (p + 1) (Suc (2 * length ws))" by (rule room_not_in [OF r])
  have d1: "p + 1 \<notin> span (p + 1 + 1) (2 * length ws)" by (rule room_not_in [of s]) (use r in simp)
  have B: "upd_within {p, p + 1} s ?u"
    by (rule upd_within_trans [OF upd_within_poke8 upd_within_poke8]) (use k in \<open>simp_all add: kaddr_poke8\<close>)
  have v: "peek8 ?u p = ucast w" "peek8 ?u (p + 1) = ucast (drop_bit 8 w)" using k d by (simp_all add: peek8_poke8 kaddr_poke8)
  have st: "store16 p w s = Inr ((), ?u)" using k by (simp add: store16_def cseq_def cbind_def store8_kaddr kaddr_poke8)
  have "room ?u (p + 1 + 1) (2 * length ws)" using k(3) upd_within_room [OF B] by simp
  from Cons.IH [OF this] obtain t where
    t: "rep_insw (p + 1 + 1) ws ?u = Inr ((), t)" "blk t (p + 1 + 1) (word_bytes ws)" "upd_within (span (p + 1 + 1) (2 * length ws)) ?u t" by blast
  have e: "p + 1 + 1 = p + 2" by simp
  have "peek8 t p = ucast w" "peek8 t (p + 1) = ucast (drop_bit 8 w)"
    using upd_within_peek8 [OF t(3), of p] upd_within_peek8 [OF t(3), of "p + 1"] v d d1 k(1,2) upd_within_kaddr [OF B] by auto
  moreover have "kaddr t p" "kaddr t (p + 1)" using k(1,2) upd_within_kaddr [OF B] upd_within_kaddr [OF t(3)] by simp_all
  ultimately have "blk t p (word_bytes (w # ws))" using t(2) by simp
  moreover have "upd_within (span p (2 * length (w # ws))) s t"
    unfolding n by (rule upd_within_mono [OF upd_within_trans2 [OF B t(3)]]) auto
  ultimately show ?case using st t(1) unfolding e by (auto simp: cseq_def cbind_def)
qed

text \<open>
  What \<open>insw\<close> has read from a port into memory \<open>outsw\<close> sends on unchanged, in the same order; \<open>insw\<close>
  writes \<open>2 * word_cnt\<close> bytes, although its comment speaks of \<open>word_cnt\<close> bytes.
\<close>

theorem insw_outsw:
  assumes "room s p (2 * unat cnt)"
  shows "\<exists>t. insw dev port p cnt s = Inr ((), t) \<and> upd_within (span p (2 * unat cnt)) s t \<and>
    outsw port2 p cnt t = Inr (map (\<lambda>i. (port2, dev port i)) [0..<unat cnt], t)"
proof -
  let ?ws = "map (dev port) [0..<unat cnt]"
  from insw_stores [of s p ?ws] assms obtain t where
    t: "rep_insw p ?ws s = Inr ((), t)" "blk t p (word_bytes ?ws)" "upd_within (span p (2 * unat cnt)) s t" by auto
  have "rep_outsw port2 p (unat cnt) t = Inr (map (Pair port2) ?ws, t)" using outsw_sends [OF t(2)] by simp
  then show ?thesis using t(1,3) by (simp add: insw_def outsw_def comp_def)
qed

theorem insw_outsw_witness:
  "\<exists>t. insw (\<lambda>_ i. of_nat i) 0x1f0 0xc0030000 256 boot_machine = Inr ((), t) \<and>
     outsw 0x1f0 0xc0030000 256 t = Inr (map (\<lambda>i. (0x1f0, of_nat i)) [0..<256], t)"
proof -
  have "room boot_machine 0xc0030000 (2 * unat (256 :: u32))" by (rule boot_room) simp_all
  from insw_outsw [OF this, of "\<lambda>_ i. of_nat i" "0x1f0" "0x1f0"] show ?thesis by auto
qed

end
