(* ===== verification/Timer.thy ===== *)
theory Timer
  imports Idt
begin

unbundle bit_operations_syntax

section \<open>The timer (device/timer.c)\<close>

text \<open>
  The handler of the clock interrupt: it counts ticks, and when the running thread has used up
  its time slice it calls the scheduler. The lemmas lead to the length of a slice and to
  round-robin scheduling by the clock. The global \<open>ticks\<close> is at an address \<open>tk\<close>.
\<close>

subsection \<open>Operations\<close>

definition timer_assert :: "bool \<Rightarrow> nat \<Rightarrow> string \<Rightarrow> string \<Rightarrow> ('s, unit) comp" where
  "timer_assert b line fn cond = assert_or b (Panic ''device/timer.c'' line fn cond)"

text \<open>The cast in the last line binds to \<open>counter_value\<close>, so a byte is shifted by eight.\<close>

definition frequency_set :: "u8 \<Rightarrow> u8 \<Rightarrow> u8 \<Rightarrow> u8 \<Rightarrow> u16 \<Rightarrow> ('z machine_scheme, unit) comp" where
  "frequency_set counter_port counter_no rwl counter_mode counter_value =
     cseq (ioutb 0x43 (ucast (push_bit 6 (ucast counter_no) OR push_bit 4 (ucast rwl) OR push_bit 1 (ucast counter_mode) :: u32)))
    (cseq (ioutb (ucast counter_port) (ucast counter_value))
          (ioutb (ucast counter_port) (ucast (drop_bit 8 (ucast (ucast counter_value :: u8) :: u32)))))"

definition intr_timer_handler :: "thread_objs \<Rightarrow> addr \<Rightarrow> u32 \<Rightarrow> ('z machine_scheme, unit) comp" where
  "intr_timer_handler to tk ra =
     cbind running_thread (\<lambda>cur_thread.
     cbind (load32 (stack_magic cur_thread)) (\<lambda>mg.
     cseq (timer_assert (mg = 0x77777777) 34 ''intr_timer_handler'' ''cur_thread->stack_magic == 0x77777777'')
    (cbind (load32 (elaspsed_ticks cur_thread)) (\<lambda>e.
     cseq (store32 (elaspsed_ticks cur_thread) (e + 1))
    (cbind (load32 tk) (\<lambda>n.
     cseq (store32 tk (n + 1))
    (cbind (load8 (ticks_field cur_thread)) (\<lambda>k.
       if k = 0 then schedule to ra
       else store8 (ticks_field cur_thread) (k - 1)))))))))"

definition COUNTER0_VALUE :: u16 where
  "COUNTER0_VALUE = of_nat (1193180 div 1000)"

definition timer_init :: "idt_objs \<Rightarrow> addr \<Rightarrow> ('z machine_scheme, unit) comp" where
  "timer_init io handler =
     cseq (log_console (PutStr ''timer_init start.\<newline>''))
    (cseq (frequency_set 0x40 0 3 2 COUNTER0_VALUE)
    (cseq (register_handler io 0x20 handler)
          (log_console (PutStr ''timer_init done.\<newline>''))))"

subsection \<open>What the handler does to the running thread\<close>

lemma kcell_bytes_page: "kcell s c \<Longrightarrow> a \<in> bytes4 c \<Longrightarrow> page_of a = page_of c"
  using drop_aligned4_bytes [of c "a - c"] by (simp add: in_bytes4 kcell_def page_of_def)

lemma pages_apart:
  assumes "task s p" "task s q" "p \<noteq> q"
  shows "page_of p \<noteq> page_of q"
proof
  assume "page_of p = page_of q"
  then have "q \<in> page_bytes p" using page_bytes_iff [OF task_page [OF assms(1)]] by simp
  then obtain i where i: "i < 4096" "q = p + of_nat i" by (auto simp: page_bytes_def span_iff)
  have "(of_nat i :: u32) < 0x1000" using i(1) by (simp add: word_less_nat_alt unat_u32_of_nat)
  then have "p = q" using page_cell_eq [OF task_page [OF assms(1)] task_page [OF assms(2)], of "of_nat i" 0] i(2) by simp
  then show False using assms(3) by simp
qed

text \<open>Writing cells of its own page, but not its status, and cells apart from all threads is a thread's own work.\<close>

lemma own_cells:
  assumes r: "sched_rel to ps s v" and u: "cells_upd C s t"
    and C: "\<And>c. c \<in> C \<Longrightarrow> c \<notin> sched_globals to \<and> c \<noteq> status_field (running v) \<and>
      (page_of c = page_of (running v) \<or> (\<forall>p \<in> set ps. page_of c \<noteq> page_of p))"
  shows "own_work to ps s t"
proof -
  let ?B = "\<Union> (bytes4 ` C)"
  note rp = rel_parts [OF r] and tk = rel_tasks [OF r] and rg = cells_upd_regs [OF u]
  have "eip t = eip s" using u by (auto simp: cells_upd_def upd_within_def tables_same_def)
  then have regs: "s\<lparr>eflags := eflags t, esp := esp t, ebp := ebp t, ebx := ebx t, esi := esi t, edi := edi t, eip := eip t,
      console := console t, ports_out := ports_out t\<rparr> = s" using rg by simp
  have k: "kcell s c" if "c \<in> C" for c using u that by (simp add: cells_upd_def)
  have "bytes4 c \<inter> bytes4 g = {}" if "c \<in> C" "g \<in> sched_globals to" for c g
    using k [OF that(1)] C [OF that(1)] tk(1) that(2) by (intro bytes4_disjoint) (auto simp: kcell_def tasks_ok_def)
  moreover have "bytes4 c \<inter> page_bytes p = {}" if c: "c \<in> C" and p: "p \<in> set (others (this_thread s) ps)" for c p
  proof -
    have pin: "p \<in> set ps" "p \<noteq> running v" using p rp(2) by (auto simp: others_def)
    have ne: "page_of p \<noteq> page_of (running v)" by (rule pages_apart [OF tk(3) [OF pin(1)] rp(3) pin(2)])
    have "page_of a = page_of c" if "a \<in> bytes4 c" for a using kcell_bytes_page [OF k [OF c] that] .
    then show ?thesis using C [OF c] ne pin(1) page_bytes_iff [OF task_page [OF tk(3) [OF pin(1)]]] by auto
  qed
  moreover have "bytes4 c \<inter> bytes4 (status_field (running v)) = {}" if "c \<in> C" for c
    using k [OF that] C [OF that] task_cells(2) [OF rp(3), of 4] by (intro bytes4_disjoint) (auto simp: kcell_def status_field_def)
  ultimately have "?B \<inter> (thread_bytes to (others (this_thread s) ps) \<union> bytes4 (status_field (this_thread s))) = {}"
    unfolding thread_bytes_def rp(2) by blast
  moreover have "extends_within ?B s t" by (rule extends_upd [OF cells_upd_upd [OF u]])
  moreover have "on_stack t (this_thread s)" using rp(1,2) rg(1) by (simp add: sched_inv_def on_stack_def)
  ultimately show ?thesis unfolding own_work_def regs by blast
qed

text \<open>A cell of a global variable: neither the scheduler's nor in a thread's page.\<close>

definition global_cell :: "'z machine_scheme \<Rightarrow> thread_objs \<Rightarrow> addr list \<Rightarrow> addr \<Rightarrow> bool" where
  "global_cell s to ps tk \<longleftrightarrow> kcell s tk \<and> tk \<notin> sched_globals to \<and> (\<forall>p \<in> set ps. page_of tk \<noteq> page_of p)"

text \<open>The running thread has \<open>k\<close> ticks left.\<close>

definition time_slice :: "thread_objs \<Rightarrow> addr list \<Rightarrow> addr \<Rightarrow> sched_view \<Rightarrow> nat \<Rightarrow> 'z machine_scheme \<Rightarrow> bool" where
  "time_slice to ps tk v k s \<longleftrightarrow> sched_rel to ps s v \<and> intr_off s \<and> esp_ok s (running v) \<and> global_cell s to ps tk \<and>
     peek32 s (stack_magic (running v)) = 0x77777777 \<and> unat (peek8 s (ticks_field (running v))) = k"

lemma count_tick:
  assumes sl: "time_slice to ps tk v k s"
  defines "cur \<equiv> running v"
  defines "t \<equiv> poke32 tk (peek32 s tk + 1) (poke32 (elaspsed_ticks cur) (peek32 s (elaspsed_ticks cur) + 1) s)"
  shows "intr_timer_handler to tk ra s = (if k = 0 then schedule to ra t else Inr ((), poke8 (ticks_field cur) (of_nat (k - 1)) t))"
    "cells_upd {elaspsed_ticks cur, tk} s t" "time_slice to ps tk v k t" "kcell s (cur + 24)" "kcell s (cur + 28)"
    "peek32 t tk = peek32 s tk + 1" "peek32 t (elaspsed_ticks cur) = peek32 s (elaspsed_ticks cur) + 1"
    "peek8 t (priority_field cur) = peek8 s (priority_field cur)"
proof -
  note d = sl [unfolded time_slice_def global_cell_def, folded cur_def]
  have r: "sched_rel to ps s v" using d by blast
  note rp = rel_parts [OF r, folded cur_def] and tk = rel_tasks [OF r]
  have cin: "cur \<in> set ps" by (simp add: tk(2) cur_def)
  have k: "kcell s (cur + 24)" "kcell s (cur + 28)" "kcell s (cur + 52)"
    using task_cells(2) [OF rp(3), of 24] task_cells(2) [OF rp(3), of 28] task_cells(2) [OF rp(3), of 52] by simp_all
  then show "kcell s (cur + 24)" "kcell s (cur + 28)" by simp_all
  have pg: "page_of (cur + i) = page_of cur" if "i < 0x1000" for i using page_cell(1) [OF task_page [OF rp(3)] that] .
  have tn: "tk \<noteq> cur + i" if "i < 0x1000" for i using d cin pg [OF that] by auto
  have kt: "kcell s tk" using d by blast
  have u1: "cells_upd {elaspsed_ticks cur} s (poke32 (elaspsed_ticks cur) (peek32 s (elaspsed_ticks cur) + 1) s)"
    by (rule cells_upd_poke) (simp add: elaspsed_ticks_def k)
  have u: "cells_upd {tk, elaspsed_ticks cur} s t" unfolding t_def by (rule cells_upd_step [OF u1 kt])
  then show u': "cells_upd {elaspsed_ticks cur, tk} s t" by (simp only: insert_commute)
  have other: "peek32 t (cur + i) = peek32 s (cur + i)" "peek8 t (cur + i + 1) = peek8 s (cur + i + 1)" "peek8 t (cur + i) = peek8 s (cur + i)"
    if "kcell s (cur + i)" "i < 0x1000" "i \<noteq> 28" for i
  proof -
    have "cur + i \<notin> {elaspsed_ticks cur, tk}" using tn [OF that(2)] that(3) by (auto simp: elaspsed_ticks_def)
    note o = cells_upd_other [OF u' that(1) this]
    show "peek32 t (cur + i) = peek32 s (cur + i)" by (rule o(1))
    show "peek8 t (cur + i + 1) = peek8 s (cur + i + 1)" by (rule o(2)) simp
    show "peek8 t (cur + i) = peek8 s (cur + i)" using o(2) [of 0] by simp
  qed
  show "peek8 t (priority_field cur) = peek8 s (priority_field cur)" using other(3) [of 24] k by (simp add: priority_field_def)
  have tick: "peek8 t (ticks_field cur) = peek8 s (ticks_field cur)" using other(2) [of 24] k by (simp add: ticks_field_def add.assoc)
  have "own_work to ps s t"
  proof (rule own_cells [OF r u'])
    fix c assume "c \<in> {elaspsed_ticks cur, tk}"
    then show "c \<notin> sched_globals to \<and> c \<noteq> status_field (running v) \<and> (page_of c = page_of (running v) \<or> (\<forall>p \<in> set ps. page_of c \<noteq> page_of p))"
      using d tn [of 4] pg [of 28] task_cell_global [OF tk(1), of cur 28] cin
      by (auto simp: elaspsed_ticks_def status_field_def cur_def [symmetric] tk(2))
  qed
  from work_simulates [OF r this] have rt: "sched_rel to ps t v" .
  have rg: "esp t = esp s" "eflags t = eflags s" using cells_upd_regs [OF u'] by simp_all
  have "peek32 t (stack_magic cur) = 0x77777777" using other(1) [of 52] k d by (simp add: stack_magic_def)
  then show "time_slice to ps tk v k t"
    using d rt rg tick cells_upd_kcell [OF u'] by (simp add: time_slice_def global_cell_def cur_def [symmetric] intr_off_def esp_ok_def)
  show "peek32 t tk = peek32 s tk + 1" "peek32 t (elaspsed_ticks cur) = peek32 s (elaspsed_ticks cur) + 1"
    using kt k(2) tn [of 28] by (simp_all add: t_def elaspsed_ticks_def peek32_poke32 kcell_poke32)
  have kk: "kcell t = kcell s" by (rule cells_upd_kcell [OF u'])
  have "on_stack s cur" using rp(1) by (simp add: sched_inv_def cur_def)
  then have run: "running_thread s = Inr (cur, s)" by (rule running_current [OF rp(3)])
  have "kcell t (cur + 24)" using k(1) by (simp add: kk)
  then have ka: "kaddr t (ticks_field cur)" using kaddr_byte [of "cur + 24" 1 t] by (simp add: kcell_def ticks_field_def add.assoc)
  have "(if peek8 t (ticks_field cur) = 0 then schedule to ra else store8 (ticks_field cur) (peek8 t (ticks_field cur) - 1)) t =
    (if k = 0 then schedule to ra t else Inr ((), poke8 (ticks_field cur) (of_nat (k - 1)) t))"
  proof -
    have "peek8 t (ticks_field cur) = of_nat k" using d tick by auto
    moreover have "peek8 t (ticks_field cur) = 0 \<longleftrightarrow> k = 0" using d tick by (auto simp: unat_eq_0)
    ultimately show ?thesis using ka by (auto simp: store8_kaddr of_nat_diff)
  qed
  moreover have "intr_timer_handler to tk ra s = (if peek8 t (ticks_field cur) = 0 then schedule to ra else store8 (ticks_field cur) (peek8 t (ticks_field cur) - 1)) t"
    using run k kt tn [of 28] d ka
    by (simp add: intr_timer_handler_def cbind_def cseq_def load32_kcell store32_kcell timer_assert_def assert_or_def stack_magic_def
      elaspsed_ticks_def kcell_poke32 peek32_poke32 t_def load8_kaddr)
  ultimately show "intr_timer_handler to tk ra s = (if k = 0 then schedule to ra t else Inr ((), poke8 (ticks_field cur) (of_nat (k - 1)) t))"
    by simp
qed

lemma tick_counts:
  assumes sl: "time_slice to ps tk v (Suc k) s"
  shows "\<exists>t. intr_timer_handler to tk ra s = Inr ((), t) \<and> time_slice to ps tk v k t \<and> peek32 t tk = peek32 s tk + 1 \<and>
    peek32 t (elaspsed_ticks (running v)) = peek32 s (elaspsed_ticks (running v)) + 1 \<and>
    peek8 t (priority_field (running v)) = peek8 s (priority_field (running v))"
proof -
  let ?cur = "running v"
  define t where "t = poke32 tk (peek32 s tk + 1) (poke32 (elaspsed_ticks ?cur) (peek32 s (elaspsed_ticks ?cur) + 1) s)"
  note c = count_tick [OF sl, folded t_def]
  note d = c(3) [unfolded time_slice_def global_cell_def]
  have r: "sched_rel to ps t v" using d by blast
  note rp = rel_parts [OF r] and tk = rel_tasks [OF r]
  let ?t = "poke8 (ticks_field ?cur) (of_nat k) t"
  have k24: "kcell t (?cur + 24)" using c(4) cells_upd_kcell [OF c(2)] by simp
  have u: "cells_upd {?cur + 24} t ?t" using cells_upd_poke8 [OF k24, of 1] by (simp add: ticks_field_def add.assoc)
  have cin: "?cur \<in> set ps" by (simp add: tk(2))
  have pg: "page_of (?cur + 24) = page_of ?cur" "page_of (?cur + 28) = page_of ?cur"
    using page_cell(1) [OF task_page [OF rp(3)], of 24] page_cell(1) [OF task_page [OF rp(3)], of 28] by simp_all
  have "own_work to ps t ?t"
    by (rule own_cells [OF r u]) (use task_cell_global [OF tk(1), of ?cur 24] pg in \<open>simp add: status_field_def\<close>)
  from work_simulates [OF r this] have rt: "sched_rel to ps ?t v" .
  have ka: "kaddr t (ticks_field ?cur)" using kaddr_byte [of "?cur + 24" 1 t] k24 by (simp add: kcell_def ticks_field_def add.assoc)
  have bound: "unat (peek8 t (ticks_field ?cur)) = Suc k" using d by blast
  then have "Suc k < 256" using unsigned_less [of "peek8 t (ticks_field ?cur)", where 'a = nat] by simp
  then have now: "unat (peek8 ?t (ticks_field ?cur)) = k" using ka by (simp add: peek8_poke8 unat_of_nat)
  have "tk \<noteq> ?cur + 24" using d pg(1) cin by auto
  then have "peek32 ?t tk = peek32 t tk" using cells_upd_other(1) [OF u, of tk] d by simp
  moreover have "peek32 ?t (elaspsed_ticks ?cur) = peek32 t (elaspsed_ticks ?cur)"
    using cells_upd_other(1) [OF u, of "?cur + 28"] c(5) cells_upd_kcell [OF c(2)] by (simp add: elaspsed_ticks_def)
  moreover have "peek32 ?t (stack_magic ?cur) = peek32 t (stack_magic ?cur)"
    using cells_upd_other(1) [OF u, of "?cur + 52"] task_cells(2) [OF rp(3), of 52] by (simp add: stack_magic_def)
  moreover have "peek8 ?t (priority_field ?cur) = peek8 t (priority_field ?cur)"
  proof -
    have "kaddr t (priority_field ?cur)" using k24 by (simp add: kcell_def priority_field_def)
    then show ?thesis using ka by (simp add: peek8_poke8 priority_field_def ticks_field_def)
  qed
  moreover have "time_slice to ps tk v k ?t"
    using rt d now cells_upd_kcell [OF u] cells_upd_regs [OF u] calculation(3)
    by (simp add: time_slice_def global_cell_def intr_off_def esp_ok_def)
  moreover have "intr_timer_handler to tk ra s = Inr ((), ?t)" using c(1) [of ra] by simp
  ultimately show ?thesis using c(6-8) by (intro exI [of _ ?t]) simp
qed

lemma tick_switches:
  assumes sl: "time_slice to ps tk v 0 s"
  shows "\<exists>t v'. intr_timer_handler to tk ra s = Inr ((), t) \<and> sched_rel to ps t v' \<and> running v' # ready v' = ready v @ [running v] \<and>
    blocked v' = blocked v \<and> contexts v' = (contexts v)(running v := current ra s) \<and> cpu t = contexts v' (running v') \<and>
    peek8 t (ticks_field (running v)) = peek8 s (priority_field (running v)) \<and> intr_off t"
proof -
  let ?cur = "running v"
  define s1 where "s1 = poke32 tk (peek32 s tk + 1) (poke32 (elaspsed_ticks ?cur) (peek32 s (elaspsed_ticks ?cur) + 1) s)"
  note c = count_tick [OF sl, folded s1_def]
  note d = c(3) [unfolded time_slice_def]
  have r: "sched_rel to ps s1 v" "intr_off s1" "esp_ok s1 ?cur" using d by blast+
  note rp = rel_parts [OF r(1)]
  from preempt_simulates [OF r, of ra] obtain t v' where
    t: "schedule to ra s1 = Inr ((), t)" "sched_spec (Preempt (current ra s1)) v = Some v'" "sched_rel to ps t v'"
      "cpu t = contexts v' (running v')" "intr_off t" by blast
  have st: "status s1 ?cur = status_code TASK_RUNNING" using r(1) by (simp add: sched_rel_def)
  obtain nxt rest where nr: "ready v @ [?cur] = nxt # rest" by (cases "ready v @ [?cur]") auto
  have rq: "requeued s1 ?cur (ready v) = nxt # rest" using st nr by (simp add: requeued_def)
  from schedule_spec [OF rp(1) r(3,2) disjI1 [OF st] rq, of ra] st t(1) obtain u where
    u: "t = resume (saved u nxt) u" "peek8 u (ticks_field ?cur) = peek8 s1 (priority_field ?cur)" by auto
  have "peek8 t (ticks_field ?cur) = peek8 s (priority_field ?cur)" using u c(8) by simp
  moreover have "current ra s1 = current ra s" using cells_upd_regs [OF c(2)] by (simp add: current_def)
  ultimately show ?thesis using t c(1) [of ra] by (auto split: list.splits)
qed

subsection \<open>A time slice\<close>

text \<open>
  What a thread's own work between two interrupts leaves alone: the cells the handler reads.
  It ends with the entry into the interrupt, that is with interrupts off and on the thread's stack.
\<close>

definition slice_work :: "thread_objs \<Rightarrow> addr list \<Rightarrow> 'z machine_scheme \<Rightarrow> 'z machine_scheme \<Rightarrow> bool" where
  "slice_work to ps s t \<longleftrightarrow> own_work to ps s t \<and> intr_off t \<and> esp_ok t (this_thread s) \<and>
     peek32 t (stack_magic (this_thread s)) = peek32 s (stack_magic (this_thread s)) \<and>
     peek8 t (ticks_field (this_thread s)) = peek8 s (ticks_field (this_thread s)) \<and>
     peek8 t (priority_field (this_thread s)) = peek8 s (priority_field (this_thread s))"

text \<open>Work and \<open>n\<close> clock interrupts, in any order.\<close>

inductive clocked :: "thread_objs \<Rightarrow> addr list \<Rightarrow> addr \<Rightarrow> 'z machine_scheme \<Rightarrow> nat \<Rightarrow> 'z machine_scheme \<Rightarrow> bool"
  for to ps tk s where
  start: "clocked to ps tk s 0 s"
| own: "clocked to ps tk s n t \<Longrightarrow> slice_work to ps t u \<Longrightarrow> clocked to ps tk s n u"
| tick: "clocked to ps tk s n t \<Longrightarrow> intr_timer_handler to tk ra t = Inr ((), u) \<Longrightarrow> clocked to ps tk s (Suc n) u"

lemma own_keeps_kcell: "own_work to ps s t \<Longrightarrow> kcell s a \<Longrightarrow> kcell t a"
  by (auto simp: own_work_def dest!: extends_kcell)

lemma slice_work_keeps:
  assumes "time_slice to ps tk v k s" "slice_work to ps s t"
  shows "time_slice to ps tk v k t"
proof -
  have r: "sched_rel to ps s v" using assms(1) by (simp add: time_slice_def)
  have w: "own_work to ps s t" using assms(2) by (simp add: slice_work_def)
  show ?thesis
    using assms work_simulates [OF r w] rel_parts(2) [OF r] own_keeps_kcell [OF w, of tk]
    by (simp add: time_slice_def slice_work_def global_cell_def)
qed

lemma slice_left:
  assumes "clocked to ps tk s n t" "time_slice to ps tk v k s" "n \<le> k"
  shows "time_slice to ps tk v (k - n) t \<and> peek8 t (priority_field (running v)) = peek8 s (priority_field (running v))"
  using assms
proof (induction rule: clocked.induct)
  case (own n t u)
  then have ih: "time_slice to ps tk v (k - n) t" "peek8 t (priority_field (running v)) = peek8 s (priority_field (running v))" by simp_all
  then have "sched_rel to ps t v" by (simp add: time_slice_def)
  from rel_parts(2) [OF this] have "this_thread t = running v" .
  then show ?case using slice_work_keeps [OF ih(1) own.hyps(2)] own.hyps(2) ih(2) by (simp add: slice_work_def)
next
  case (tick n t ra u)
  then have ih: "time_slice to ps tk v (Suc (k - Suc n)) t" "peek8 t (priority_field (running v)) = peek8 s (priority_field (running v))"
    by (simp_all add: Suc_diff_Suc)
  show ?case using tick_counts [OF ih(1), of ra] tick.hyps(2) ih(2) by auto
qed simp

text \<open>
  C21: a thread with \<open>k\<close> ticks left keeps the processor for exactly \<open>k\<close> clock interrupts,
  whatever work it does between them that leaves its own control block alone; the next one
  always switches, to the thread that has waited longest (to itself when it is alone), saves
  the context of the thread and reloads its slice with its priority.
\<close>

theorem time_slice_correct:
  assumes "time_slice to ps tk v k s" "clocked to ps tk s n t" "n \<le> k"
  shows "this_thread t = running v \<and> sched_rel to ps t v \<and>
    (\<exists>u v'. intr_timer_handler to tk ra t = Inr ((), u) \<and> sched_rel to ps u v' \<and> this_thread u = running v' \<and>
      (if n < k then v' = v \<and> peek32 u tk = peek32 t tk + 1
       else running v' # ready v' = ready v @ [running v] \<and> blocked v' = blocked v \<and>
         contexts v' = (contexts v)(running v := current ra t) \<and> cpu u = contexts v' (running v') \<and>
         peek8 u (ticks_field (running v)) = peek8 s (priority_field (running v))))"
proof -
  note sl = slice_left [OF assms(2,1,3)]
  have r: "sched_rel to ps t v" using sl by (simp add: time_slice_def)
  show ?thesis
  proof (cases "n < k")
    case True
    then have "time_slice to ps tk v (Suc (k - Suc n)) t" using sl by (simp add: Suc_diff_Suc)
    from tick_counts [OF this, of ra] obtain u where
      u: "intr_timer_handler to tk ra t = Inr ((), u)" "sched_rel to ps u v" "peek32 u tk = peek32 t tk + 1"
      by (auto simp: time_slice_def)
    then show ?thesis using True r rel_parts(2) [OF r] rel_parts(2) [OF u(2)] by auto
  next
    case False
    then have "time_slice to ps tk v 0 t" using sl assms(3) by simp
    from tick_switches [OF this, of ra] obtain u v' where
      u: "intr_timer_handler to tk ra t = Inr ((), u)" "sched_rel to ps u v'" "running v' # ready v' = ready v @ [running v]"
        "blocked v' = blocked v" "contexts v' = (contexts v)(running v := current ra t)" "cpu u = contexts v' (running v')"
        "peek8 u (ticks_field (running v)) = peek8 t (priority_field (running v))" by blast
    then show ?thesis using False r sl rel_parts(2) [OF r] rel_parts(2) [OF u(2)] by (intro conjI exI [of _ u] exI [of _ v']) simp_all
  qed
qed

text \<open>Thirty-one interrupts in the state the kernel boots into, its main thread alone.\<close>

lemma boot_slice:
  "\<exists>s :: machine. time_slice boot_threads [0xc009e000] 0xc0000f00
     \<lparr>running = 0xc009e000, ready = [], blocked = [], contexts = saved s\<rparr> 31 s \<and> peek8 s (priority_field 0xc009e000) = 31"
proof -
  from boot_kernel obtain s :: machine where
    s: "kernel_inv s boot_mem (init_view 0x2000000) boot_threads 0xc009e000 [] [] [0xc009e000]"
      "status s 0xc009e000 = status_code TASK_RUNNING" "esp s = 0xc009efd0" "intr_off s"
    and pcb: "pcb s 0xc009e000 [] (status_code TASK_RUNNING) 31" by blast
  note p = pcb [unfolded pcb_def]
  let ?v = "\<lparr>running = 0xc009e000, ready = [], blocked = [], contexts = saved s\<rparr>"
  have r: "sched_rel boot_threads [0xc009e000] s ?v" using s(1,2) by (simp add: sched_rel_def kernel_inv_def)
  have "kcell s 0xc0000c00" "page_of 0xc0000c00 \<noteq> page_of 0xc009e000"
    using rel_tasks(1,2) [OF r] by (simp_all add: tasks_ok_def boot_globals)
  then have "global_cell s boot_threads [0xc009e000] 0xc0000f00"
    unfolding global_cell_def boot_globals by (simp add: kcell_def kaddr_def page_of_def aligned4_def)
  with r show ?thesis using s(3,4) p by (intro exI [of _ s]) (simp add: time_slice_def esp_ok_def)
qed

lemma ticks_possible:
  assumes "time_slice to ps tk v k s" "n \<le> k"
  shows "\<exists>t. clocked to ps tk s n t"
  using assms(2)
proof (induction n)
  case (Suc n)
  then obtain t where t: "clocked to ps tk s n t" by auto
  then have "time_slice to ps tk v (Suc (k - Suc n)) t" using slice_left [OF t assms(1)] Suc.prems by (simp add: Suc_diff_Suc)
  from tick_counts [OF this] show ?case using clocked.tick [OF t] by blast
qed (auto intro: clocked.start)

theorem time_slice_correct_witness:
  "\<exists>(s :: machine) t u. clocked boot_threads [0xc009e000] 0xc0000f00 s 31 t \<and>
     intr_timer_handler boot_threads 0xc0000f00 0xc0001234 t = Inr ((), u) \<and> peek8 u (ticks_field 0xc009e000) = 31"
proof -
  from boot_slice obtain s :: machine where
    s: "time_slice boot_threads [0xc009e000] 0xc0000f00 \<lparr>running = 0xc009e000, ready = [], blocked = [], contexts = saved s\<rparr> 31 s"
      "peek8 s (priority_field 0xc009e000) = 31" by blast
  from ticks_possible [OF s(1), of 31] obtain t where t: "clocked boot_threads [0xc009e000] 0xc0000f00 s 31 t" by auto
  from time_slice_correct [OF s(1) t, of "0xc0001234"] s(2) show ?thesis using t by auto
qed

subsection \<open>Programming the timer\<close>

text \<open>
  What \<open>timer_init\<close> sends: the mode (counter 0, low byte then high byte, rate generator), the
  low byte of the reload value 1193 = 0x4a9, and then always zero: the counter is reloaded
  with 169 and interrupts about seven times as often as \<open>IRQ0_FREQUENCY\<close> says.
\<close>

lemma timer_init_ports:
  assumes "warr s (idt_table io) hs" "length hs = 48"
  shows "\<exists>t. timer_init io handler s = Inr ((), t) \<and> ports_out t = ports_out s @ [(0x43, 0x34), (0x40, 0xa9), (0x40, 0)] \<and>
    warr t (idt_table io) (hs[32 := handler]) \<and>
    upd_within (wspan (idt_table io) 48) (s\<lparr>console := console t, ports_out := ports_out t\<rparr>) t"
proof -
  define u where "u = s\<lparr>console := console s @ [PutStr ''timer_init start.\<newline>''],
    ports_out := ports_out s @ [(0x43, 0x34), (0x40, 0xa9), (0x40, 0)]\<rparr>"
  have "warr u (idt_table io) hs = warr s (idt_table io) hs" by (rule same_mem(3)) (simp_all add: u_def)
  then have w: "warr u (idt_table io) hs" using assms(1) by simp
  note st = warr_store [OF w, of 32 handler]
  define t where "t = poke32 (idt_table io + of_nat (4 * 32)) handler u"
  have r: "register_handler io 0x20 handler u = Inr ((), t)" using st(1) assms(2) by (simp add: register_handler_def t_def)
  have f: "frequency_set 0x40 0 3 2 COUNTER0_VALUE (s\<lparr>console := console s @ [PutStr ''timer_init start.\<newline>'']\<rparr>) = Inr ((), u)"
    by (simp add: frequency_set_def COUNTER0_VALUE_def ioutb_def modify_def cseq_def cbind_def u_def)
  have run: "timer_init io handler s = Inr ((), t\<lparr>console := console t @ [PutStr ''timer_init done.\<newline>'']\<rparr>)"
    using r f by (simp add: timer_init_def cseq_def cbind_def log_console_def)
  have "ports_out t = ports_out u" by (simp add: t_def poke32_def split: option.split)
  have w': "warr t (idt_table io) (hs[32 := handler])" using st(2) assms(2) by (simp add: t_def)
  let ?t = "t\<lparr>console := console t @ [PutStr ''timer_init done.\<newline>'']\<rparr>"
  have "upd_within (wspan (idt_table io) 48) u t" using st(3) assms(2) by (simp add: t_def)
  from upd_within_map [OF this, of "\<lambda>x. x\<lparr>console := console ?t\<rparr>"]
  have "upd_within (wspan (idt_table io) 48) (u\<lparr>console := console ?t\<rparr>) ?t" by simp
  moreover have "u\<lparr>console := console ?t\<rparr> = s\<lparr>console := console ?t, ports_out := ports_out ?t\<rparr>"
    using \<open>ports_out t = ports_out u\<close> by (simp add: u_def)
  ultimately have fr: "upd_within (wspan (idt_table io) 48) (s\<lparr>console := console ?t, ports_out := ports_out ?t\<rparr>) ?t" by (simp only:)
  have "warr ?t (idt_table io) ws = warr t (idt_table io) ws" for ws by (rule same_mem(3)) simp_all
  then show ?thesis
    using run \<open>ports_out t = ports_out u\<close> w'
    by (intro exI [of _ ?t] conjI fr) (simp_all add: u_def)
qed

end
