(* ===== verification/IOQueue.thy ===== *)
theory IOQueue
  imports Timer
begin

unbundle bit_operations_syntax

section \<open>Character queues (device/ioqueue.c, device/ioqueue.h)\<close>

text \<open>
  A ring of 64 characters between an interrupt handler and a thread. \<open>lock\<close> is declared as a
  pointer, but its own address is passed to the operations of locks: the lock lies over
  the fields that follow it. The loops of the two operations end in another thread when the
  caller has to wait, so the computations do too, and a second one continues them.
\<close>

subsection \<open>Operations\<close>

definition queue_lock :: "addr \<Rightarrow> addr" where
  "queue_lock q = q"

definition producer_field :: "addr \<Rightarrow> addr" where
  "producer_field q = q + 4"

definition consumer_field :: "addr \<Rightarrow> addr" where
  "consumer_field q = q + 8"

definition buf_field :: "addr \<Rightarrow> addr" where
  "buf_field q = q + 12"

definition head_field :: "addr \<Rightarrow> addr" where
  "head_field q = q + 76"

definition tail_field :: "addr \<Rightarrow> addr" where
  "tail_field q = q + 80"

definition buf_size :: int where
  "buf_size = 64"

definition queue_assert :: "bool \<Rightarrow> nat \<Rightarrow> string \<Rightarrow> string \<Rightarrow> ('s, unit) comp" where
  "queue_assert b line fn cond = assert_or b (Panic ''device/ioqueue.c'' line fn cond)"

definition ioqueue_init :: "addr \<Rightarrow> ('z machine_scheme, unit) comp" where
  "ioqueue_init queue =
     cseq (lock_init (queue_lock queue))
    (cseq (store32 (tail_field queue) 0)
    (cseq (store32 (head_field queue) 0)
    (cseq (store32 (tail_field queue) NULL)
          (store32 (producer_field queue) NULL))))"

text \<open>\<open>int32_t\<close> arithmetic; \<open>%\<close> rounds towards zero.\<close>

definition next_pos :: "u32 \<Rightarrow> ('s, u32) comp" where
  "next_pos pos =
     (if sint pos + 1 < 2 ^ 31 then ret (word_of_int ((sint pos + 1) smod buf_size)) else fail_with Signed_Overflow)"

definition is_queue_full :: "addr \<Rightarrow> ('z machine_scheme, u32) comp" where
  "is_queue_full queue =
     cbind (load32 (head_field queue)) (\<lambda>h.
     cbind (next_pos h) (\<lambda>n.
     cbind (load32 (tail_field queue)) (\<lambda>t. ret (of_bool (n = t)))))"

definition is_queue_empty :: "addr \<Rightarrow> ('z machine_scheme, u32) comp" where
  "is_queue_empty queue =
     cbind (load32 (head_field queue)) (\<lambda>h.
     cbind (load32 (tail_field queue)) (\<lambda>t. ret (of_bool (h = t))))"

text \<open>Yields the status that \<open>thread_block\<close> restores when the thread runs again.\<close>

definition queue_wait :: "thread_objs \<Rightarrow> u32 \<Rightarrow> addr \<Rightarrow> ('z machine_scheme, intr_status) comp" where
  "queue_wait to ra waiter =
     cbind running_thread (\<lambda>cur.
     cseq (store32 waiter cur)
          (thread_block to ra TASK_BLOCKED))"

definition wakeup :: "thread_objs \<Rightarrow> addr \<Rightarrow> ('z machine_scheme, unit) comp" where
  "wakeup to waiter =
     cbind (load32 waiter) (\<lambda>p.
     cseq (thread_unblock to p)
          (store32 waiter NULL))"

text \<open>Where a caller that has to wait is suspended: in \<open>lock_acquire\<close> or in \<open>thread_block\<close>.\<close>

datatype queue_pc = In_Lock addr "intr_status \<times> intr_status" | In_Wait intr_status

datatype 'a outcome = Done 'a | Suspended queue_pc

text \<open>The body of the loops after the call of \<open>lock_acquire\<close> by the thread \<open>cur\<close>.\<close>

definition queue_waiting :: "thread_objs \<Rightarrow> u32 \<Rightarrow> addr \<Rightarrow> addr \<Rightarrow> suspended \<Rightarrow> ('z machine_scheme, 'a outcome) comp" where
  "queue_waiting to ra waiter cur r =
     (case r of
        None \<Rightarrow> cbind (queue_wait to ra waiter) (\<lambda>old. ret (Suspended (In_Wait old)))
      | Some st \<Rightarrow> ret (Suspended (In_Lock cur st)))"

definition queue_acquire :: "thread_objs \<Rightarrow> u32 \<Rightarrow> addr \<Rightarrow> addr \<Rightarrow> ('z machine_scheme, 'a outcome) comp" where
  "queue_acquire to ra queue waiter =
     cbind running_thread (\<lambda>cur.
     cbind (lock_acquire to ra (queue_lock queue)) (queue_waiting to ra waiter cur))"

definition queue_getchar_loop :: "thread_objs \<Rightarrow> u32 \<Rightarrow> addr \<Rightarrow> ('z machine_scheme, u8 outcome) comp" where
  "queue_getchar_loop to ra queue =
     cbind (is_queue_empty queue) (\<lambda>e.
       if e \<noteq> 0 then queue_acquire to ra queue (consumer_field queue)
       else
         cbind (load32 (tail_field queue)) (\<lambda>t.
         cbind (load8 (buf_field queue + t)) (\<lambda>byte.
         cbind (load32 (tail_field queue)) (\<lambda>t.
         cbind (next_pos t) (\<lambda>n.
         cseq (store32 (tail_field queue) n)
        (cbind (load32 (producer_field queue)) (\<lambda>p.
         cseq (when_do (p \<noteq> NULL) (wakeup to (producer_field queue)))
              (ret (Done byte)))))))))"

definition queue_getchar :: "thread_objs \<Rightarrow> u32 \<Rightarrow> addr \<Rightarrow> ('z machine_scheme, u8 outcome) comp" where
  "queue_getchar to ra queue =
     cbind intr_get_status (\<lambda>ist.
     cseq (queue_assert (ist = INTR_OFF) 38 ''queue_getchar'' ''intr_get_status() == INTR_OFF'')
          (queue_getchar_loop to ra queue))"

text \<open>The value of \<open>queue_putchar\<close> is undefined: it ends without a return statement.\<close>

definition queue_putchar_loop :: "thread_objs \<Rightarrow> u32 \<Rightarrow> addr \<Rightarrow> u8 \<Rightarrow> ('z machine_scheme, unit outcome) comp" where
  "queue_putchar_loop to ra queue byte =
     cbind (is_queue_full queue) (\<lambda>f.
       if f \<noteq> 0 then queue_acquire to ra queue (producer_field queue)
       else
         cbind (load32 (head_field queue)) (\<lambda>h.
         cseq (store8 (buf_field queue + h) byte)
        (cbind (load32 (head_field queue)) (\<lambda>h.
         cbind (next_pos h) (\<lambda>n.
         cseq (store32 (head_field queue) n)
        (cbind (load32 (consumer_field queue)) (\<lambda>c.
         cseq (when_do (c \<noteq> NULL) (wakeup to (consumer_field queue)))
              (ret (Done ())))))))))"

definition queue_putchar :: "thread_objs \<Rightarrow> u32 \<Rightarrow> addr \<Rightarrow> u8 \<Rightarrow> ('z machine_scheme, unit outcome) comp" where
  "queue_putchar to ra queue byte =
     cbind intr_get_status (\<lambda>ist.
     cseq (queue_assert (ist = INTR_OFF) 59 ''queue_putchar'' ''intr_get_status() == INTR_OFF'')
          (queue_putchar_loop to ra queue byte))"

text \<open>What a suspended caller does when it runs again: to the next suspension or to the end.\<close>

definition queue_resume ::
  "thread_objs \<Rightarrow> u32 \<Rightarrow> addr \<Rightarrow> addr \<Rightarrow> ('z machine_scheme, 'a outcome) comp \<Rightarrow> queue_pc \<Rightarrow> ('z machine_scheme, 'a outcome) comp" where
  "queue_resume to ra queue waiter again pc =
     (case pc of
        In_Lock cur st \<Rightarrow> cbind (lock_acquire_resume to ra (queue_lock queue) cur st) (queue_waiting to ra waiter cur)
      | In_Wait old \<Rightarrow> cseq (thread_block_resume old) (cseq (lock_release to (queue_lock queue)) again))"

definition queue_getchar_resume :: "thread_objs \<Rightarrow> u32 \<Rightarrow> addr \<Rightarrow> queue_pc \<Rightarrow> ('z machine_scheme, u8 outcome) comp" where
  "queue_getchar_resume to ra queue = queue_resume to ra queue (consumer_field queue) (queue_getchar_loop to ra queue)"

definition queue_putchar_resume :: "thread_objs \<Rightarrow> u32 \<Rightarrow> addr \<Rightarrow> u8 \<Rightarrow> queue_pc \<Rightarrow> ('z machine_scheme, unit outcome) comp" where
  "queue_putchar_resume to ra queue byte =
     queue_resume to ra queue (producer_field queue) (queue_putchar_loop to ra queue byte)"

subsection \<open>The ring in memory\<close>

definition queue_ok :: "'z machine_scheme \<Rightarrow> thread_objs \<Rightarrow> addr list \<Rightarrow> addr \<Rightarrow> bool" where
  "queue_ok s to ps q \<longleftrightarrow> (\<forall>i < 21. global_cell s to ps (q + of_nat (4 * i)))"

text \<open>The characters of the queue \<open>q\<close>, oldest first.\<close>

definition ring :: "'z machine_scheme \<Rightarrow> addr \<Rightarrow> u8 list \<Rightarrow> bool" where
  "ring s q xs \<longleftrightarrow> length xs < 64 \<and>
     (\<exists>t < 64. peek32 s (tail_field q) = of_nat t \<and> peek32 s (head_field q) = of_nat ((t + length xs) mod 64) \<and>
       (\<forall>i < length xs. peek8 s (buf_field q + of_nat ((t + i) mod 64)) = xs ! i))"

definition ring_cells :: "addr \<Rightarrow> addr set" where
  "ring_cells q = (\<lambda>i. q + of_nat (4 * i)) ` {..<21}"

text \<open>What a step changes: cells of \<open>C\<close> and the scheduler's, no other global variable.\<close>

definition kept :: "thread_objs \<Rightarrow> addr list \<Rightarrow> addr set \<Rightarrow> 'z machine_scheme \<Rightarrow> 'z machine_scheme \<Rightarrow> bool" where
  "kept to ps C s t \<longleftrightarrow> kcell t = kcell s \<and> esp t = esp s \<and> eflags t = eflags s \<and> console t = console s \<and>
     (\<forall>c. global_cell s to ps c \<longrightarrow> c \<notin> C \<longrightarrow> peek32 t c = peek32 s c \<and> (\<forall>i < 4. peek8 t (c + i) = peek8 s (c + i)))"

lemma kept_trans: "kept to ps C s t \<Longrightarrow> kept to ps D t u \<Longrightarrow> kept to ps (C \<union> D) s u"
  by (simp add: kept_def global_cell_def)

lemma kept_global: "kept to ps C s t \<Longrightarrow> global_cell t = global_cell s"
  by (simp add: kept_def global_cell_def fun_eq_iff)

lemma kept_ok: "kept to ps C s t \<Longrightarrow> queue_ok t to ps q = queue_ok s to ps q"
  by (simp add: queue_ok_def kept_global)

lemma cells_kept: "cells_upd D s t \<Longrightarrow> (\<And>c. c \<in> D \<Longrightarrow> global_cell s to ps c \<Longrightarrow> c \<in> C) \<Longrightarrow> kept to ps C s t"
  using cells_upd_other [of D s t] cells_upd_kcell [of D s t] cells_upd_regs [of D s t] by (auto simp: kept_def global_cell_def)

lemma global_work:
  assumes r: "sched_rel to ps s v" and u: "cells_upd C s t" and C: "\<And>c. c \<in> C \<Longrightarrow> global_cell s to ps c"
  shows "sched_rel to ps t v"
proof -
  have "c \<noteq> status_field (running v)" if "c \<in> C" for c
    using C [OF that] rel_tasks(2,3) [OF r] page_cell(1) [OF task_page [OF rel_parts(3) [OF r]], of 4]
    by (auto simp: global_cell_def status_field_def)
  then have "own_work to ps s t" by (intro own_cells [OF r u]) (use C in \<open>auto simp: global_cell_def\<close>)
  then show ?thesis by (rule work_simulates [OF r])
qed

lemma field_cells:
  assumes "queue_ok s to ps q"
  shows "global_cell s to ps (producer_field q)" "global_cell s to ps (consumer_field q)" "global_cell s to ps (head_field q)"
    "global_cell s to ps (tail_field q)"
proof -
  have c: "i < 21 \<Longrightarrow> global_cell s to ps (q + of_nat (4 * i))" for i using assms by (simp add: queue_ok_def)
  show "global_cell s to ps (producer_field q)" using c [of 1] by (simp add: producer_field_def)
  show "global_cell s to ps (consumer_field q)" using c [of 2] by (simp add: consumer_field_def)
  show "global_cell s to ps (head_field q)" using c [of 19] by (simp add: head_field_def)
  show "global_cell s to ps (tail_field q)" using c [of 20] by (simp add: tail_field_def)
qed

text \<open>The cell of a character, and where in it the character is.\<close>

definition char_cell :: "addr \<Rightarrow> nat \<Rightarrow> addr" where
  "char_cell q k = q + of_nat (4 * (3 + k div 4))"

lemma char_cell:
  assumes "queue_ok s to ps q" "k < 64"
  shows "global_cell s to ps (char_cell q k)" "buf_field q + of_nat k = char_cell q k + of_nat (k mod 4)" "(of_nat (k mod 4) :: u32) < 4"
    "char_cell q k \<notin> {producer_field q, consumer_field q, head_field q, tail_field q}" "kaddr s (buf_field q + of_nat k)"
proof -
  have j: "3 + k div 4 < 21" "3 + k div 4 < 19" "3 \<le> 3 + k div 4" using assms(2) by simp_all
  then show g: "global_cell s to ps (char_cell q k)" using assms(1) unfolding queue_ok_def char_cell_def by blast
  have "of_nat k = (of_nat (4 * (k div 4) + k mod 4) :: u32)" by simp
  then show e: "buf_field q + of_nat k = char_cell q k + of_nat (k mod 4)"
    unfolding char_cell_def buf_field_def of_nat_add of_nat_mult by (simp add: algebra_simps)
  show l: "(of_nat (k mod 4) :: u32) < 4" by (simp add: word_less_nat_alt unat_of_nat)
  have "char_cell q k \<noteq> q + of_nat (4 * i)" if "i < 2 ^ 16" "i \<noteq> 3 + k div 4" for i
    using index_inj [of "3 + k div 4" i q] that j(1) unfolding char_cell_def by auto
  from this [of 1] this [of 2] this [of 19] this [of 20] j(2)
  show "char_cell q k \<notin> {producer_field q, consumer_field q, head_field q, tail_field q}"
    by (simp add: producer_field_def consumer_field_def head_field_def tail_field_def)
  show "kaddr s (buf_field q + of_nat k)" unfolding e using g kaddr_byte [OF _ l, of "char_cell q k" s] by (simp add: global_cell_def kcell_def)
qed

lemma in_ring_cells:
  "{producer_field q, consumer_field q, head_field q, tail_field q} \<subseteq> ring_cells q" "k < 64 \<Longrightarrow> char_cell q k \<in> ring_cells q"
proof -
  have c: "i < 21 \<Longrightarrow> q + of_nat (4 * i) \<in> ring_cells q" for i unfolding ring_cells_def by blast
  show "{producer_field q, consumer_field q, head_field q, tail_field q} \<subseteq> ring_cells q"
    using c [of 1] c [of 2] c [of 19] c [of 20] by (simp add: producer_field_def consumer_field_def head_field_def tail_field_def)
  show "char_cell q k \<in> ring_cells q" if "k < 64" using c [of "3 + k div 4"] that unfolding char_cell_def by simp
qed

lemma ring_kept:
  assumes "ring s q xs" "queue_ok s to ps q" "kept to ps C s t" "C \<inter> ring_cells q \<subseteq> {producer_field q, consumer_field q}"
  shows "ring t q xs"
proof -
  have "head_field q \<notin> C" "tail_field q \<notin> C" using assms(4) in_ring_cells(1) [of q]
    by (auto simp: head_field_def tail_field_def producer_field_def consumer_field_def)
  then have f: "peek32 t (tail_field q) = peek32 s (tail_field q)" "peek32 t (head_field q) = peek32 s (head_field q)"
    using assms(3) field_cells(3,4) [OF assms(2)] by (simp_all add: kept_def)
  have b: "peek8 t (buf_field q + of_nat (k mod 64)) = peek8 s (buf_field q + of_nat (k mod 64))" for k
  proof -
    have "k mod 64 < 64" by simp
    note c = char_cell [OF assms(2) this] in_ring_cells(2) [OF this, of q]
    then have "char_cell q (k mod 64) \<notin> C" using assms(4) by auto
    then show ?thesis using c(1-3) assms(3) by (simp add: kept_def)
  qed
  show ?thesis using assms(1) unfolding ring_def f b .
qed

subsection \<open>The queue as its users see it\<close>

record queue_view =
  chars :: "u8 list"
  producer :: addr
  consumer :: addr

definition queue_rel :: "thread_objs \<Rightarrow> addr list \<Rightarrow> addr \<Rightarrow> 'z machine_scheme \<Rightarrow> sched_view \<Rightarrow> queue_view \<Rightarrow> bool" where
  "queue_rel to ps q s v w \<longleftrightarrow> sched_rel to ps s v \<and> queue_ok s to ps q \<and> intr_off s \<and> ring s q (chars w) \<and>
     peek32 s (producer_field q) = producer w \<and> peek32 s (consumer_field q) = consumer w"

datatype queue_op = Put u8 | Get

definition wake_spec :: "addr \<Rightarrow> sched_view \<Rightarrow> sched_view option" where
  "wake_spec p v = (if p = NULL then Some v else sched_spec (Unblock p) v)"

text \<open>A bounded first-in first-out queue; \<open>None\<close>: the caller has to wait. What is yielded are the characters taken.\<close>

fun queue_spec :: "queue_op \<Rightarrow> sched_view \<times> queue_view \<Rightarrow> (u8 list \<times> sched_view \<times> queue_view) option" where
  "queue_spec (Put b) (v, w) =
     (if length (chars w) < 63
      then map_option (\<lambda>v'. ([], v', w\<lparr>chars := chars w @ [b], consumer := NULL\<rparr>)) (wake_spec (consumer w) v) else None)"
| "queue_spec Get (v, w) =
     (case chars w of [] \<Rightarrow> None
      | b # bs \<Rightarrow> map_option (\<lambda>v'. ([b], v', w\<lparr>chars := bs, producer := NULL\<rparr>)) (wake_spec (producer w) v))"

fun queue_specs :: "queue_op list \<Rightarrow> sched_view \<times> queue_view \<Rightarrow> (u8 list \<times> sched_view \<times> queue_view) option" where
  "queue_specs [] vw = Some ([], vw)"
| "queue_specs (x # xs) vw = Option.bind (queue_spec x vw) (\<lambda>(bs, vw'). map_option (map_prod ((@) bs) id) (queue_specs xs vw'))"

text \<open>The same operations of the code, as long as none has to wait.\<close>

definition queue_call :: "thread_objs \<Rightarrow> u32 \<Rightarrow> addr \<Rightarrow> queue_op \<Rightarrow> ('z machine_scheme, u8 list option) comp" where
  "queue_call to ra q x =
     (case x of
        Put b \<Rightarrow> cbind (queue_putchar to ra q b) (\<lambda>r. ret (case r of Done _ \<Rightarrow> Some [] | Suspended _ \<Rightarrow> None))
      | Get \<Rightarrow> cbind (queue_getchar to ra q) (\<lambda>r. ret (case r of Done b \<Rightarrow> Some [b] | Suspended _ \<Rightarrow> None)))"

fun queue_calls :: "thread_objs \<Rightarrow> u32 \<Rightarrow> addr \<Rightarrow> queue_op list \<Rightarrow> ('z machine_scheme, u8 list option) comp" where
  "queue_calls to ra q [] = ret (Some [])"
| "queue_calls to ra q (x # xs) = cbind (queue_call to ra q x) (\<lambda>r. case r of
     None \<Rightarrow> ret None
   | Some bs \<Rightarrow> cbind (queue_calls to ra q xs) (\<lambda>r'. ret (map_option ((@) bs) r')))"

subsection \<open>Waking a thread\<close>

lemma side_not_global:
  assumes "sched_rel to ps s v" "sched_side to ps rs c"
  shows "\<not> global_cell s to ps c"
  using assms(2) rel_tasks(3) [OF assms(1)] page_cell(1) [OF task_page] unfolding sched_side_def global_cell_def by metis

lemma wakeup_spec:
  assumes r: "sched_rel to ps s v" and w: "global_cell s to ps waiter" "peek32 s waiter = p" and p: "p \<in> set (blocked v)"
  shows "\<exists>t. wakeup to waiter s = Inr ((), t) \<and> sched_rel to ps t (v\<lparr>ready := p # ready v, blocked := remove1 p (blocked v)\<rparr>) \<and>
    peek32 t waiter = NULL \<and> kept to ps {waiter} s t"
proof -
  let ?R = "list_cells (thread_ready_list to) (map general_tag (p # ready v)) \<union> {p + 4}"
  note tk = rel_tasks [OF r] and rp = rel_parts [OF r]
  have pin: "p \<in> set ps" "set (p # ready v) \<subseteq> set ps" using p tk(2) by auto
  from thread_unblock_spec [OF rp(1) p] obtain u where u: "thread_unblock to p s = Inr ((), u)" "cells_upd ?R s u" by blast
  from unblock_simulates [OF r pin(1) u(1)] p have ru: "sched_rel to ps u (v\<lparr>ready := p # ready v, blocked := remove1 p (blocked v)\<rparr>)" by simp
  have side: "sched_side to ps (p # ready v) c" if "c \<in> ?R" for c
    using that ready_side [OF _ pin(2)] pin(1) by (auto intro!: sched_sideI)
  have ku: "kept to ps {} s u" by (rule cells_kept [OF u(2)]) (use side_not_global [OF r side] in blast)
  have k: "kcell s waiter" "kcell u waiter" using w(1) ku by (simp_all add: global_cell_def kept_def)
  let ?t = "poke32 waiter NULL u"
  have ut: "cells_upd {waiter} u ?t" by (rule cells_upd_poke [OF k(2)])
  have "sched_rel to ps ?t (v\<lparr>ready := p # ready v, blocked := remove1 p (blocked v)\<rparr>)"
    by (rule global_work [OF ru ut]) (use w(1) kept_global [OF ku] in simp)
  moreover have "kept to ps {waiter} s ?t" using kept_trans [OF ku cells_kept [OF ut, of to ps "{waiter}"]] by simp
  moreover have "wakeup to waiter s = Inr ((), ?t)"
    using k u(1) w(2) by (simp add: wakeup_def cbind_def cseq_def load32_kcell store32_kcell)
  ultimately show ?thesis using k(2) by (intro exI [of _ ?t]) (simp add: peek32_poke32)
qed

text \<open>The end of both operations: the waiting thread, if there is one, is woken.\<close>

lemma wake_waiter:
  assumes r: "sched_rel to ps s v" and w: "global_cell s to ps waiter" and v: "wake_spec (peek32 s waiter) v = Some v'"
  shows "\<exists>t. cbind (load32 waiter) (\<lambda>p. cseq (when_do (p \<noteq> NULL) (wakeup to waiter)) (ret x)) s = Inr (x, t) \<and>
    sched_rel to ps t v' \<and> peek32 t waiter = NULL \<and> kept to ps {waiter} s t"
proof (cases "peek32 s waiter = NULL")
  case True
  then show ?thesis using assms
    by (intro exI [of _ s]) (auto simp: cbind_def cseq_def when_do_def load32_kcell global_cell_def ret_def wake_spec_def kept_def)
next
  case False
  then have p: "peek32 s waiter \<in> set (blocked v)" "v' = v\<lparr>ready := peek32 s waiter # ready v, blocked := remove1 (peek32 s waiter) (blocked v)\<rparr>"
    using v by (auto simp: wake_spec_def split: if_splits)
  from wakeup_spec [OF r w refl p(1)] p(2) False w show ?thesis
    by (auto simp: cbind_def cseq_def when_do_def load32_kcell global_cell_def ret_def)
qed

lemma next_pos_ring:
  assumes "k < 64"
  shows "next_pos (of_nat k) s = Inr (of_nat (Suc k mod 64), s)"
proof -
  have b: "sint (of_nat k :: u32) = int k" using assms by (simp add: signed_of_nat signed_take_bit_int_eq_self)
  have "(int k + 1) smod 64 = int (Suc k mod 64)" by (simp add: signed_modulo_int_def signed_divide_int_def zmod_int add.commute [of 1 "int k"])
  then show ?thesis using assms by (simp add: next_pos_def b ret_def buf_size_def)
qed

lemma ring_index:
  assumes "j < 64" "k < 64"
  shows "(of_nat j :: u32) = of_nat k \<longleftrightarrow> j = k"
proof
  assume e: "(of_nat j :: u32) = of_nat k"
  have "j = unat (of_nat j :: u32)" by (rule unat_u32_of_nat [symmetric]) (use assms in simp)
  also have "\<dots> = unat (of_nat k :: u32)" by (simp only: e)
  also have "\<dots> = k" by (rule unat_u32_of_nat) (use assms in simp)
  finally show "j = k" .
qed simp

lemma ring_wrap: "t < 64 \<Longrightarrow> i < 64 \<Longrightarrow> j < 64 \<Longrightarrow> (t + i) mod 64 = (t + j) mod 64 \<longleftrightarrow> i = (j :: nat)"
  by (cases "t + i < 64"; cases "t + j < 64") (auto simp: le_mod_geq not_less)

lemma byte_apart:
  assumes "queue_ok s to ps q" "j < 64" "k < 64" "j \<noteq> k"
  shows "buf_field q + of_nat j \<noteq> buf_field q + of_nat k"
  using ring_index [OF assms(2,3)] assms(4) by simp

lemma put_byte:
  assumes r: "sched_rel to ps s v" and ok: "queue_ok s to ps q" and g: "ring s q xs" and n: "length xs < 63"
  shows "\<exists>h t. h < 64 \<and> peek32 s (head_field q) = of_nat h \<and> peek32 (poke8 (buf_field q + of_nat h) b s) (head_field q) = of_nat h \<and>
    of_nat (Suc h mod 64) \<noteq> peek32 s (tail_field q) \<and> t = poke32 (head_field q) (of_nat (Suc h mod 64)) (poke8 (buf_field q + of_nat h) b s) \<and>
    ring t q (xs @ [b]) \<and> sched_rel to ps t v \<and> kept to ps (ring_cells q - {producer_field q, consumer_field q}) s t"
proof -
  from g obtain t where t: "t < 64" "peek32 s (tail_field q) = of_nat t" "peek32 s (head_field q) = of_nat ((t + length xs) mod 64)"
    "\<forall>i < length xs. peek8 s (buf_field q + of_nat ((t + i) mod 64)) = xs ! i" by (auto simp: ring_def)
  define h where "h = (t + length xs) mod 64"
  have h: "h < 64" "Suc h mod 64 = (t + Suc (length xs)) mod 64" by (simp_all add: h_def mod_Suc_eq)
  note f = field_cells(3,4) [OF ok, unfolded global_cell_def]
  let ?s1 = "poke8 (buf_field q + of_nat h) b s"
  let ?s2 = "poke32 (head_field q) (of_nat (Suc h mod 64)) ?s1"
  note ch = char_cell [OF ok h(1)]
  have u1: "cells_upd {char_cell q h} s ?s1" using cells_upd_poke8 [of s "char_cell q h"] ch(1-3) by (simp add: global_cell_def)
  have kc: "kcell ?s1 = kcell s" by (rule cells_upd_kcell [OF u1])
  have u2: "cells_upd {head_field q} ?s1 ?s2" by (rule cells_upd_poke) (use f kc in simp)
  have "(t + Suc (length xs)) mod 64 \<noteq> t" using ring_wrap [of t "Suc (length xs)" 0] t(1) n by simp
  then have "of_nat (Suc h mod 64) \<noteq> peek32 s (tail_field q)"
    using t(1) ring_index [of "(t + Suc (length xs)) mod 64" t] unfolding t(2) h(2) by simp
  moreover have "sched_rel to ps ?s2 v"
    by (rule global_work [OF r cells_upd_trans [OF u1 u2]]) (use ch(1) field_cells(3) [OF ok] in auto)
  moreover have "kept to ps (ring_cells q - {producer_field q, consumer_field q}) s ?s2"
    by (rule cells_kept [OF cells_upd_trans [OF u1 u2]]) (use ch(4) in_ring_cells(2) [OF h(1), of q] in_ring_cells(1) [of q] in \<open>auto simp: head_field_def producer_field_def consumer_field_def\<close>)
  moreover have "peek32 ?s1 (head_field q) = of_nat h"
    using cells_upd_other(1) [OF u1, of "head_field q"] f(1) ch(4) t(3) by (auto simp: h_def)
  moreover have "peek32 ?s2 (tail_field q) = of_nat t"
    using cells_upd_other(1) [OF u2, of "tail_field q"] cells_upd_other(1) [OF u1, of "tail_field q"] f ch(4) kc t(2)
    by (auto simp: head_field_def tail_field_def)
  moreover have "peek32 ?s2 (head_field q) = of_nat ((t + length (xs @ [b])) mod 64)"
    using f(1) kc h(2) by (simp add: peek32_poke32)
  moreover have "peek8 ?s2 (buf_field q + of_nat ((t + i) mod 64)) = (xs @ [b]) ! i" if i: "i < length (xs @ [b])" for i
  proof -
    have j: "(t + i) mod 64 < 64" by simp
    note cj = char_cell [OF ok j]
    have "peek8 ?s2 (buf_field q + of_nat ((t + i) mod 64)) = peek8 ?s1 (buf_field q + of_nat ((t + i) mod 64))"
      using cells_upd_other(2) [OF u2 _ _ cj(3)] cj kc by (simp add: global_cell_def)
    also have "\<dots> = (if (t + i) mod 64 = h then b else peek8 s (buf_field q + of_nat ((t + i) mod 64)))"
      using ch(5) cj(5) ring_index [OF j h(1)] by (simp add: peek8_poke8)
    also have "\<dots> = (xs @ [b]) ! i"
      using ring_wrap [of t i "length xs"] t(1,4) i n by (simp add: h_def nth_append)
    finally show ?thesis .
  qed
  ultimately show ?thesis using t(1,3) h(1) n by (intro exI [of _ h] exI [of _ ?s2]) (auto simp: ring_def h_def)
qed

lemma get_byte:
  assumes r: "sched_rel to ps s v" and ok: "queue_ok s to ps q" and g: "ring s q (b # xs)"
  shows "\<exists>i t. i < 64 \<and> peek32 s (tail_field q) = of_nat i \<and> peek32 s (head_field q) \<noteq> of_nat i \<and> peek8 s (buf_field q + of_nat i) = b \<and>
    t = poke32 (tail_field q) (of_nat (Suc i mod 64)) s \<and> ring t q xs \<and> sched_rel to ps t v \<and>
    kept to ps (ring_cells q - {producer_field q, consumer_field q}) s t"
proof -
  from g obtain i where i: "i < 64" "peek32 s (tail_field q) = of_nat i" "peek32 s (head_field q) = of_nat ((i + Suc (length xs)) mod 64)"
    "\<And>j. j < Suc (length xs) \<Longrightarrow> peek8 s (buf_field q + of_nat ((i + j) mod 64)) = (b # xs) ! j" "Suc (length xs) < 64"
    by (auto simp: ring_def)
  note f = field_cells(3,4) [OF ok, unfolded global_cell_def]
  let ?t = "poke32 (tail_field q) (of_nat (Suc i mod 64)) s"
  have u: "cells_upd {tail_field q} s ?t" by (rule cells_upd_poke) (use f in simp)
  have ne: "head_field q \<noteq> tail_field q" by (simp add: head_field_def tail_field_def)
  have "(i + Suc (length xs)) mod 64 \<noteq> i" using ring_wrap [of i "Suc (length xs)" 0] i(1,5) by simp
  then have "peek32 s (head_field q) \<noteq> of_nat i" unfolding i(3) using ring_index [of "(i + Suc (length xs)) mod 64" i] i(1) by simp
  moreover have "peek8 s (buf_field q + of_nat i) = b" using i(4) [of 0] i(1) by simp
  moreover have "peek32 ?t (head_field q) = of_nat ((Suc i mod 64 + length xs) mod 64)"
    using f ne i(3) by (simp add: peek32_poke32 mod_add_left_eq)
  moreover have "peek8 ?t (buf_field q + of_nat ((Suc i mod 64 + j) mod 64)) = xs ! j" if j: "j < length xs" for j
  proof -
    have e: "(Suc i mod 64 + j) mod 64 = (i + Suc j) mod 64" by (simp add: mod_add_left_eq)
    have "(i + Suc j) mod 64 < 64" by simp
    note cj = char_cell [OF ok this]
    have "peek8 ?t (buf_field q + of_nat ((i + Suc j) mod 64)) = peek8 s (buf_field q + of_nat ((i + Suc j) mod 64))"
      using cells_upd_other(2) [OF u _ _ cj(3)] cj(1,2,4) by (simp add: global_cell_def)
    then show ?thesis using i(4) [of "Suc j"] j unfolding e by simp
  qed
  moreover have "peek32 ?t (tail_field q) = of_nat (Suc i mod 64)" using f by (simp add: peek32_poke32)
  ultimately have "ring ?t q xs" using i(5) unfolding ring_def by (intro conjI exI [of _ "Suc i mod 64"]) simp_all
  moreover have "sched_rel to ps ?t v" by (rule global_work [OF r u]) (use field_cells(4) [OF ok] in simp)
  moreover have "kept to ps (ring_cells q - {producer_field q, consumer_field q}) s ?t"
    by (rule cells_kept [OF u]) (use in_ring_cells(1) [of q] in \<open>auto simp: tail_field_def producer_field_def consumer_field_def\<close>)
  ultimately show ?thesis
    using \<open>peek32 s (head_field q) \<noteq> of_nat i\<close> \<open>peek8 s (buf_field q + of_nat i) = b\<close> i(1,2) by blast
qed

subsection \<open>The operations refine the bounded queue\<close>

lemma waiter_woken:
  assumes k: "kept to ps (ring_cells q - {producer_field q, consumer_field q}) s t" and g: "ring t q xs" and st: "sched_rel to ps t v"
    and w: "queue_ok s to ps q" "intr_off s" "waiter = producer_field q \<or> waiter = consumer_field q" "wake_spec (peek32 s waiter) v = Some v'"
  shows "\<exists>u. cbind (load32 waiter) (\<lambda>p. cseq (when_do (p \<noteq> NULL) (wakeup to waiter)) (ret x)) t = Inr (x, u) \<and>
    queue_rel to ps q u v' \<lparr>chars = xs, producer = (if waiter = producer_field q then NULL else peek32 s (producer_field q)),
      consumer = (if waiter = consumer_field q then NULL else peek32 s (consumer_field q))\<rparr> \<and> kept to ps (ring_cells q) s u"
proof -
  note c = field_cells(1,2) [OF w(1)]
  have p: "peek32 t (producer_field q) = peek32 s (producer_field q)" "peek32 t (consumer_field q) = peek32 s (consumer_field q)"
    using k c by (simp_all add: kept_def)
  have ok: "queue_ok t to ps q" using w(1) kept_ok [OF k] by simp
  have ne: "producer_field q \<noteq> consumer_field q" by (simp add: producer_field_def consumer_field_def)
  have gw: "global_cell t to ps waiter" using field_cells(1,2) [OF ok] w(3) by auto
  have "wake_spec (peek32 t waiter) v = Some v'" using w(3,4) p by auto
  from wake_waiter [OF st gw this, of x] obtain u where
    u: "cbind (load32 waiter) (\<lambda>p. cseq (when_do (p \<noteq> NULL) (wakeup to waiter)) (ret x)) t = Inr (x, u)" "sched_rel to ps u v'"
      "peek32 u waiter = NULL" "kept to ps {waiter} t u" by blast
  have "ring u q xs" by (rule ring_kept [OF g ok u(4)]) (use w(3) in blast)
  moreover have "kept to ps (ring_cells q) s u"
    using kept_trans [OF k u(4)] w(3) in_ring_cells(1) [of q] by (auto simp: kept_def)
  moreover have "queue_ok u to ps q" using ok kept_ok [OF u(4)] by simp
  moreover have "intr_off u" using w(2) k u(4) by (simp add: kept_def intr_off_def)
  moreover have "peek32 u (producer_field q) = (if waiter = producer_field q then NULL else peek32 s (producer_field q))"
    "peek32 u (consumer_field q) = (if waiter = consumer_field q then NULL else peek32 s (consumer_field q))"
    using u(3,4) field_cells(1,2) [OF ok] p by (auto simp: kept_def)
  ultimately show ?thesis using u(1,2) by (intro exI [of _ u]) (simp add: queue_rel_def)
qed

lemma view_ends:
  "w\<lparr>chars := xs, consumer := c\<rparr> = \<lparr>chars = xs, producer = producer w, consumer = c\<rparr>"
  "w\<lparr>chars := xs, producer := c\<rparr> = \<lparr>chars = xs, producer = c, consumer = consumer w\<rparr>"
  by (cases w; simp)+

lemma queue_call_refines:
  assumes R: "queue_rel to ps q s v w" and sp: "queue_spec x (v, w) = Some (bs, v', w')"
  shows "\<exists>t. queue_call to ra q x s = Inr (Some bs, t) \<and> queue_rel to ps q t v' w' \<and> kept to ps (ring_cells q) s t"
proof -
  have r: "sched_rel to ps s v" and ok: "queue_ok s to ps q" and off: "intr_off s" and g: "ring s q (chars w)"
    and pc: "peek32 s (producer_field q) = producer w" "peek32 s (consumer_field q) = consumer w"
    using R by (simp_all add: queue_rel_def)
  note f = field_cells [OF ok, unfolded global_cell_def]
  have ne: "producer_field q \<noteq> consumer_field q" by (simp add: producer_field_def consumer_field_def)
  show ?thesis
  proof (cases x)
    case (Put b)
    then have n: "length (chars w) < 63" and wk: "wake_spec (consumer w) v = Some v'" and e: "bs = []" "w' = w\<lparr>chars := chars w @ [b], consumer := NULL\<rparr>"
      using sp by (auto split: if_splits)
    from put_byte [OF r ok g n, of b] obtain h t where
      h: "h < 64" "peek32 s (head_field q) = of_nat h \<and> peek32 (poke8 (buf_field q + of_nat h) b s) (head_field q) = of_nat h" "of_nat (Suc h mod 64) \<noteq> peek32 s (tail_field q)"
        "t = poke32 (head_field q) (of_nat (Suc h mod 64)) (poke8 (buf_field q + of_nat h) b s)" "ring t q (chars w @ [b])"
        "sched_rel to ps t v" "kept to ps (ring_cells q - {producer_field q, consumer_field q}) s t" by blast
    from waiter_woken [OF h(7,5,6) ok off disjI2 [OF refl], of v' "Done ()"] obtain u where
      u: "cbind (load32 (consumer_field q)) (\<lambda>p. cseq (when_do (p \<noteq> NULL) (wakeup to (consumer_field q))) (ret (Done ()))) t = Inr (Done (), u)"
        "queue_rel to ps q u v' w'" "kept to ps (ring_cells q) s u" using wk pc ne e(2) by (auto simp: view_ends)
    have "kcell (poke8 (buf_field q + of_nat h) b s) = kcell s" "kaddr s (buf_field q + of_nat h)"
      using char_cell(5) [OF ok h(1)] by (simp_all add: kcell_def kaddr_poke8 fun_eq_iff)
    then have "queue_putchar to ra q b s = Inr (Done (), u)"
      using u(1) h(1-3) f off
      by (simp add: next_pos_ring [OF h(1)] queue_putchar_def queue_assert_def assert_or_def intr_off_status queue_putchar_loop_def is_queue_full_def
        cbind_def cseq_def ret_def load32_kcell store32_kcell store8_kaddr h(4) [symmetric])
    then show ?thesis using u(2,3) e(1) Put by (simp add: queue_call_def cbind_def ret_def)
  next
    case Get
    then obtain b xs where c: "chars w = b # xs" and wk: "wake_spec (producer w) v = Some v'" and e: "bs = [b]" "w' = w\<lparr>chars := xs, producer := NULL\<rparr>"
      using sp by (auto split: list.splits)
    from get_byte [OF r ok g [unfolded c]] obtain i t where
      i: "i < 64" "peek32 s (tail_field q) = of_nat i" "peek32 s (head_field q) \<noteq> of_nat i" "peek8 s (buf_field q + of_nat i) = b"
        "t = poke32 (tail_field q) (of_nat (Suc i mod 64)) s" "ring t q xs" "sched_rel to ps t v"
        "kept to ps (ring_cells q - {producer_field q, consumer_field q}) s t" by blast
    from waiter_woken [OF i(8,6,7) ok off disjI1 [OF refl], of v' "Done b"] obtain u where
      u: "cbind (load32 (producer_field q)) (\<lambda>p. cseq (when_do (p \<noteq> NULL) (wakeup to (producer_field q))) (ret (Done b))) t = Inr (Done b, u)"
        "queue_rel to ps q u v' w'" "kept to ps (ring_cells q) s u" using wk pc ne e(2) by (auto simp: view_ends)
    have "queue_getchar to ra q s = Inr (Done b, u)"
      using u(1) i(1-4) f off char_cell(5) [OF ok i(1)]
      by (simp add: next_pos_ring [OF i(1)] queue_getchar_def queue_assert_def assert_or_def intr_off_status queue_getchar_loop_def is_queue_empty_def
        cbind_def cseq_def ret_def load32_kcell store32_kcell load8_kaddr i(5) [symmetric])
    then show ?thesis using u(2,3) e(1) Get by (simp add: queue_call_def cbind_def ret_def)
  qed
qed

lemma queue_calls_refine:
  assumes "queue_rel to ps q s v w" "queue_specs xs (v, w) = Some (bs, v', w')"
  shows "\<exists>t. queue_calls to ra q xs s = Inr (Some bs, t) \<and> queue_rel to ps q t v' w'"
  using assms
proof (induction xs arbitrary: s v w bs)
  case Nil
  then show ?case by (simp add: ret_def)
next
  case (Cons x xs)
  then obtain a v1 w1 b where ab: "queue_spec x (v, w) = Some (a, v1, w1)" "queue_specs xs (v1, w1) = Some (b, v', w')" "bs = a @ b"
    by (auto split: bind_splits)
  from queue_call_refines [OF Cons.prems(1) ab(1), of ra] obtain t where
    t: "queue_call to ra q x s = Inr (Some a, t)" "queue_rel to ps q t v1 w1" by blast
  from Cons.IH [OF t(2) ab(2)] t(1) ab(3) show ?case by (auto simp: cbind_def ret_def)
qed

fun puts :: "queue_op list \<Rightarrow> u8 list" where
  "puts [] = []"
| "puts (Put b # xs) = b # puts xs"
| "puts (Get # xs) = puts xs"

lemma queue_specs_fifo:
  assumes "queue_specs xs (v, w) = Some (bs, v', w')"
  shows "chars w @ puts xs = bs @ chars w'"
  using assms
proof (induction xs arbitrary: v w bs)
  case (Cons x xs)
  then obtain a v1 w1 b where ab: "queue_spec x (v, w) = Some (a, v1, w1)" "queue_specs xs (v1, w1) = Some (b, v', w')" "bs = a @ b"
    by (auto split: bind_splits)
  have "chars w @ puts (x # xs) = a @ chars w1 @ puts xs" using ab(1) by (cases x) (auto split: if_splits list.splits)
  then show ?case using Cons.IH [OF ab(2)] ab(3) by simp
qed simp

subsection \<open>Initialisation: the lock of the queue is never free\<close>

lemma peek8_poke32_low: "kcell s a \<Longrightarrow> peek8 (poke32 a x s) a = ucast x"
  using kaddr_translate [of s a] translate_poke32 [of s a x]
  by (auto simp: kcell_def peek8_def poke32_def set_le32_def split: option.splits)

lemma queue_lock_ok:
  assumes "queue_ok s to ps q"
  shows "lock_ok s to ps (queue_lock q)" "sem_ok s to ps (lock_semaphore (queue_lock q))"
    "c \<in> {head_field q, tail_field q} \<Longrightarrow> kcell s c \<and> outside to ps (lock_semaphore (queue_lock q)) c"
proof -
  have c: "i < 21 \<Longrightarrow> global_cell s to ps (q + of_nat (4 * i))" for i using assms by (simp add: queue_ok_def)
  show "lock_ok s to ps (queue_lock q)"
    using c [of 0] c [of 6] by (simp add: lock_ok_def global_cell_def queue_lock_def lock_holder_def holder_repeat_num_def)
  have sc: "sem_cells (lock_semaphore (queue_lock q)) = {q + 4, q + 8, q + 12, q + 16, q + 20}"
    by (auto simp: sem_cells_def list_cells_iff lock_semaphore_def sem_waiters_def queue_lock_def add.assoc)
  show "sem_ok s to ps (lock_semaphore (queue_lock q))"
    unfolding sem_ok_def sc using c [of 1] c [of 2] c [of 3] c [of 4] c [of 5] by (simp add: global_cell_def)
  show "c \<in> {head_field q, tail_field q} \<Longrightarrow> kcell s c \<and> outside to ps (lock_semaphore (queue_lock q)) c"
    using field_cells(3,4) [OF assms] unfolding outside_def sc by (auto simp: global_cell_def head_field_def tail_field_def)
qed

lemma ioqueue_init_spec:
  assumes r: "sched_rel to ps s v" and ok: "queue_ok s to ps q" and off: "intr_off s"
  shows "\<exists>t. ioqueue_init q s = Inr ((), t) \<and> sem_rel to ps (lock_semaphore (queue_lock q)) t v \<lparr>sem_count = 0, sem_queue = []\<rparr> \<and>
    peek32 t (lock_holder (queue_lock q)) = NULL \<and> queue_rel to ps q t v \<lparr>chars = [], producer = NULL, consumer = NULL\<rparr> \<and> esp t = esp s \<and> kcell t = kcell s \<and>
    upd_within (\<Union> (bytes4 ` ring_cells q)) s t"
proof -
  let ?sem = "lock_semaphore (queue_lock q)" and ?h = "head_field q" and ?tl = "tail_field q" and ?p = "producer_field q"
  note lk = queue_lock_ok [OF ok]
  from lock_init_spec [OF r lk(1,2)] obtain s1 where
    s1: "lock_init (queue_lock q) s = Inr ((), s1)" "lock_rel to ps (queue_lock q) s1 (lock_start v)" "esp s1 = esp s" "eflags s1 = eflags s"
      "kcell s1 = kcell s" "upd_within (lock_bytes (queue_lock q)) s s1" by blast
  have m1: "sem_rel to ps ?sem s1 v \<lparr>sem_count = 1, sem_queue = []\<rparr>" "peek32 s1 (lock_holder (queue_lock q)) = NULL"
    using s1(2) by (simp_all add: lock_rel_def lock_start_def)
  have o: "kcell s1 c \<and> outside to ps ?sem c" if "c \<in> {?h, ?tl}" for c using lk(3) [OF that] s1(5) by simp
  define a where "a = poke32 ?tl 0 s1"
  define b where "b = poke32 ?h 0 a"
  define c where "c = poke32 ?tl NULL b"
  define d where "d = poke32 ?p NULL c"
  have ma: "sem_rel to ps ?sem a v \<lparr>sem_count = 1, sem_queue = []\<rparr>" "kcell a = kcell s1"
    unfolding a_def using sem_rel_outside [OF m1(1)] o by (simp_all add: kcell_poke32)
  have mb: "sem_rel to ps ?sem b v \<lparr>sem_count = 1, sem_queue = []\<rparr>" "kcell b = kcell s1"
    unfolding b_def using sem_rel_outside [OF ma(1)] o ma(2) by (simp_all add: kcell_poke32)
  have mc: "sem_rel to ps ?sem c v \<lparr>sem_count = 1, sem_queue = []\<rparr>" "kcell c = kcell s1"
    unfolding c_def using sem_rel_outside [OF mb(1)] o mb(2) by (simp_all add: kcell_poke32)
  have pe: "?p = ?sem" by (simp add: producer_field_def lock_semaphore_def queue_lock_def)
  have kp: "kcell c ?p" using sem_rel_parts(5) [OF mc(1)] by (simp add: pe)
  have "cells_upd {?sem} c d" unfolding d_def pe [symmetric] by (rule cells_upd_poke [OF kp])
  from value_write [OF mc(1) this, of 0] peek8_poke32_low [OF kp, of NULL]
  have md: "sem_rel to ps ?sem d v \<lparr>sem_count = 0, sem_queue = []\<rparr>" by (simp add: d_def pe NULL_def)
  have kd: "kcell d = kcell s" using kcell_poke32 [OF kp] mc(2) s1(5) by (simp add: d_def)
  note f = field_cells [OF ok, unfolded global_cell_def] and fd = producer_field_def consumer_field_def head_field_def tail_field_def
  have hd: "queue_lock q \<noteq> ?tl" "queue_lock q \<noteq> ?h" "queue_lock q \<noteq> ?p" "kcell s (queue_lock q)"
    using lk(1) by (simp_all add: fd queue_lock_def lock_ok_def lock_holder_def)
  have v: "peek32 d ?tl = 0" "peek32 d ?h = 0" "peek32 d ?p = NULL" "peek32 d (lock_holder (queue_lock q)) = NULL"
    using f hd m1(2) ma(2) mb(2) mc(2) s1(5)
    by (simp_all add: d_def c_def b_def a_def peek32_poke32 kcell_poke32 fd NULL_def lock_holder_def)
  have "klist d (sem_waiters ?sem) []" using sem_rel_parts(4) [OF md] by simp
  then have "peek32 d (sem_waiters ?sem) = NULL" by (simp add: klist_def dlist_def)
  then have co: "peek32 d (consumer_field q) = NULL"
    by (simp add: sem_waiters_def lock_semaphore_def queue_lock_def consumer_field_def add.assoc)
  have qo: "queue_ok d to ps q" using ok kd by (simp add: queue_ok_def global_cell_def)
  have rg: "esp d = esp s1" "eflags d = eflags s1" by (simp_all add: d_def c_def b_def a_def poke32_def split: option.split)
  have "ring d q []" unfolding ring_def using v(1,2) by (intro conjI exI [of _ 0]) simp_all
  then have "queue_rel to ps q d v \<lparr>chars = [], producer = NULL, consumer = NULL\<rparr>"
    using sem_rel_parts(1) [OF md] qo v(3) co off rg(2) s1(4) by (simp add: queue_rel_def intr_off_def)
  moreover have "ioqueue_init q s = Inr ((), d)"
    using s1(1,5) f ma(2) mb(2) mc(2) kp
    by (simp add: ioqueue_init_def cbind_def cseq_def store32_kcell a_def [symmetric] b_def [symmetric] c_def [symmetric] d_def [symmetric])
  moreover have "upd_within (\<Union> (bytes4 ` ring_cells q)) s d"
  proof -
    have rc: "i < 21 \<Longrightarrow> q + of_nat (4 * i) \<in> ring_cells q" for i unfolding ring_cells_def by blast
    have "insert (lock_holder (queue_lock q)) (insert (holder_repeat_num (queue_lock q)) (sem_cells ?sem)) = {q, q + 24, q + 4, q + 8, q + 12, q + 16, q + 20}"
      by (auto simp: sem_cells_def list_cells_iff lock_semaphore_def sem_waiters_def queue_lock_def lock_holder_def holder_repeat_num_def add.assoc)
    then have "lock_bytes (queue_lock q) \<subseteq> \<Union> (bytes4 ` ring_cells q)"
      unfolding lock_bytes_def using rc [of 0] rc [of 1] rc [of 2] rc [of 3] rc [of 4] rc [of 5] rc [of 6] by simp blast
    note u1 = upd_within_mono [OF s1(6) this]
    have "bytes4 ?tl \<subseteq> \<Union> (bytes4 ` ring_cells q)" "bytes4 ?h \<subseteq> \<Union> (bytes4 ` ring_cells q)" "bytes4 ?p \<subseteq> \<Union> (bytes4 ` ring_cells q)"
      using in_ring_cells(1) [of q] by blast+
    then show ?thesis
      using f ma(2) mb(2) mc(2) s1(5) kp unfolding d_def c_def b_def a_def
      by (intro upd_within_trans [OF upd_within_trans [OF upd_within_trans [OF upd_within_trans [OF u1 upd_within_poke32] upd_within_poke32] upd_within_poke32] upd_within_poke32])
        (simp_all add: a_def b_def c_def)
  qed
  ultimately show ?thesis using md v(4) rg(1) s1(3) kd by (intro exI [of _ d]) simp
qed

lemma getchar_waits:
  assumes m: "sem_rel to ps (lock_semaphore (queue_lock q)) s v \<lparr>sem_count = 0, sem_queue = []\<rparr>"
    and h: "peek32 s (lock_holder (queue_lock q)) = NULL" and R: "queue_rel to ps q s v \<lparr>chars = [], producer = p, consumer = c\<rparr>"
    and e: "esp_ok s (running v)" and rd: "ready v = nxt # rest"
  shows "\<exists>st t p'. queue_getchar to ra q s = Inr (Suspended (In_Lock (running v) st), t) \<and>
    queue_rel to ps q t (v\<lparr>running := nxt, ready := rest, blocked := running v # blocked v, contexts := (contexts v)(running v := current ra s)\<rparr>)
      \<lparr>chars = [], producer = p', consumer = NULL\<rparr>"
proof -
  let ?sem = "lock_semaphore (queue_lock q)"
    and ?v = "v\<lparr>running := nxt, ready := rest, blocked := running v # blocked v, contexts := (contexts v)(running v := current ra s)\<rparr>"
  have r: "sched_rel to ps s v" and ok: "queue_ok s to ps q" and off: "intr_off s" and g: "ring s q []" using R by (simp_all add: queue_rel_def)
  note f = field_cells [OF ok, unfolded global_cell_def] and lk = queue_lock_ok [OF ok]
  have "down_spec (current ra s) (v, \<lparr>sem_count = 0, sem_queue = []\<rparr>) = Some (?v, \<lparr>sem_count = 0, sem_queue = [running v]\<rparr>)"
    using rd by (simp add: blocking_def)
  from down_refines [OF m e this] obtain t where
    t: "semaphore_down to ra ?sem s = Inr (Some (intr_status_of (eflags s), INTR_OFF), t)"
      "sem_rel to ps ?sem t ?v \<lparr>sem_count = 0, sem_queue = [running v]\<rparr>" "sem_frame to ps ?sem s t" "intr_off t" by auto
  have run: "running_thread s = Inr (running v, s)"
    by (rule running_current [OF rel_parts(3) [OF r]]) (use rel_parts(1) [OF r] in \<open>simp add: sched_inv_def\<close>)
  have nn: "running v \<noteq> NULL" using sched_rel_wf [OF r] by (auto simp: sched_wf_def threads_of_def)
  have kh: "kcell s (lock_holder (queue_lock q))" using lk(1) by (simp add: lock_ok_def)
  have hd: "peek32 s (head_field q) = peek32 s (tail_field q)" using g by (auto simp: ring_def)
  have "queue_getchar to ra q s = Inr (Suspended (In_Lock (running v) (intr_status_of (eflags s), INTR_OFF)), t)"
    using f off hd run nn kh h t(1)
    by (simp add: queue_getchar_def queue_assert_def assert_or_def intr_off_status queue_getchar_loop_def is_queue_empty_def
      cbind_def cseq_def ret_def load32_kcell queue_acquire_def lock_acquire_def queue_waiting_def)
  moreover have "queue_ok t to ps q" using ok t(3) by (simp add: queue_ok_def global_cell_def sem_frame_def)
  moreover have "ring t q []"
    using g lk(3) [of "head_field q"] lk(3) [of "tail_field q"] t(3) by (simp add: ring_def sem_frame_def)
  moreover have "peek32 t (consumer_field q) = NULL"
    using sem_rel_parts(4) [OF t(2)]
    by (simp add: klist_def dlist_def sem_waiters_def lock_semaphore_def queue_lock_def consumer_field_def add.assoc)
  ultimately show ?thesis using sem_rel_parts(1) [OF t(2)] t(4)
    by (intro exI [of _ "(intr_status_of (eflags s), INTR_OFF)"] exI [of _ t] exI [of _ "peek32 t (producer_field q)"])
      (simp add: queue_rel_def)
qed

subsection \<open>Properties\<close>

text \<open>
  C23: as long as no caller has to wait, any sequence of \<open>queue_putchar\<close> and \<open>queue_getchar\<close> is
  that of a first-in first-out queue of at most 63 characters: what has been taken and what
  is left are what was there and what was put, in order. The first character put into the
  queue wakes the waiting consumer, the first one taken the waiting producer, and nothing
  else changes in the scheduler.
\<close>

theorem ioqueue_fifo:
  assumes "queue_rel to ps q s v w" "queue_specs xs (v, w) = Some (bs, v', w')"
  shows "\<exists>t. queue_calls to ra q xs s = Inr (Some bs, t) \<and> queue_rel to ps q t v' w' \<and>
    chars w @ puts xs = bs @ chars w' \<and> length (chars w') \<le> 63"
proof -
  from queue_calls_refine [OF assms, of ra] obtain t where t: "queue_calls to ra q xs s = Inr (Some bs, t)" "queue_rel to ps q t v' w'" by blast
  then have "length (chars w') \<le> 63" by (auto simp: queue_rel_def ring_def)
  with t queue_specs_fifo [OF assms(2)] show ?thesis by blast
qed

lemma boot_queue_cells:
  assumes k: "kcell s 0xc0000c00" "\<forall>p \<in> set ps. page_of 0xc0000c00 \<noteq> page_of p"
  shows "queue_ok s boot_threads ps 0xc0000f00"
proof -
  have "global_cell s boot_threads ps (0xc0000f00 + of_nat (4 * i))" if i: "i < 21" for i
  proof -
    have "i \<in> {0, 1, 2, 3, 4, 5, 6, 7, 8, 9, 10, 11, 12, 13, 14, 15, 16, 17, 18, 19, 20}" using i by (simp add: less_Suc_eq eval_nat_numeral)
    then have "page_of (0xc0000f00 + of_nat (4 * i)) = page_of 0xc0000c00" "aligned4 (0xc0000f00 + of_nat (4 * i))"
      "0xc0000f00 + of_nat (4 * i) \<notin> sched_globals boot_threads"
      unfolding boot_globals by (auto simp: page_of_def aligned4_def)
    then show ?thesis using k by (simp add: global_cell_def kcell_def kaddr_def page_of_def)
  qed
  then show ?thesis by (simp add: queue_ok_def)
qed

lemma boot_queue:
  assumes "sched_rel boot_threads ps s v"
  shows "queue_ok s boot_threads ps 0xc0000f00"
  by (rule boot_queue_cells; use rel_tasks(1,2) [OF assms] in \<open>simp add: tasks_ok_def boot_globals\<close>)

theorem ioqueue_fifo_witness:
  "\<exists>(s :: machine) t. queue_calls boot_threads 0xc0001234 0xc0000f00 [Put 104, Put 105, Get] s = Inr (Some [104], t) \<and> ring t 0xc0000f00 [105]"
proof -
  from boot_two_threads obtain s :: machine and p where
    s: "sched_rel boot_threads [0xc009e000, p] s \<lparr>running = 0xc009e000, ready = [p], blocked = [], contexts = saved s\<rparr>" "intr_off s" by blast
  from ioqueue_init_spec [OF s(1) boot_queue [OF s(1)] s(2)] obtain t :: machine where
    t: "queue_rel boot_threads [0xc009e000, p] 0xc0000f00 t \<lparr>running = 0xc009e000, ready = [p], blocked = [], contexts = saved s\<rparr>
      \<lparr>chars = [], producer = NULL, consumer = NULL\<rparr>" by blast
  have "queue_specs [Put 104, Put 105, Get]
      (\<lparr>running = 0xc009e000, ready = [p], blocked = [], contexts = saved s\<rparr>, \<lparr>chars = [], producer = NULL, consumer = NULL\<rparr>) =
    Some ([104], \<lparr>running = 0xc009e000, ready = [p], blocked = [], contexts = saved s\<rparr>, \<lparr>chars = [105], producer = NULL, consumer = NULL\<rparr>)"
    by (simp add: wake_spec_def)
  from ioqueue_fifo [OF t this, of "0xc0001234"] show ?thesis by (auto simp: queue_rel_def)
qed

text \<open>
  C24: in a queue that \<open>ioqueue_init\<close> has initialised, the first thread that reads while the
  queue is empty never returns: \<open>producer = NULL\<close> has cleared the semaphore that lies over it, so
  the reader blocks inside \<open>lock_acquire\<close> before it has entered itself as the consumer, and
  however many characters arrive (up to the 63 that fit) nobody unblocks it.
\<close>

theorem ioqueue_reader_blocks:
  assumes "sched_rel to ps s v" "queue_ok s to ps q" "intr_off s" "esp_ok s (running v)" "ready v = nxt # rest" "length bs \<le> 63"
  shows "\<exists>t st u v' x. ioqueue_init q s = Inr ((), t) \<and> queue_getchar to ra q t = Inr (Suspended (In_Lock (running v) st), u) \<and>
    running v' = nxt \<and> running v \<in> set (blocked v') \<and>
    queue_calls to ra' q (map Put bs) u = Inr (Some [], x) \<and> ring x q bs \<and> sched_rel to ps x v'"
proof -
  from ioqueue_init_spec [OF assms(1-3)] obtain t where
    t: "ioqueue_init q s = Inr ((), t)" "sem_rel to ps (lock_semaphore (queue_lock q)) t v \<lparr>sem_count = 0, sem_queue = []\<rparr>"
      "peek32 t (lock_holder (queue_lock q)) = NULL" "queue_rel to ps q t v \<lparr>chars = [], producer = NULL, consumer = NULL\<rparr>" "esp t = esp s"
    by blast
  have e: "esp_ok t (running v)" using assms(4) t(5) by (simp add: esp_ok_def)
  from getchar_waits [OF t(2-4) e assms(5), of ra] obtain st u p' where
    u: "queue_getchar to ra q t = Inr (Suspended (In_Lock (running v) st), u)"
      "queue_rel to ps q u (v\<lparr>running := nxt, ready := rest, blocked := running v # blocked v, contexts := (contexts v)(running v := current ra t)\<rparr>)
        \<lparr>chars = [], producer = p', consumer = NULL\<rparr>" by blast
  define v' where "v' = v\<lparr>running := nxt, ready := rest, blocked := running v # blocked v, contexts := (contexts v)(running v := current ra t)\<rparr>"
  have specs: "queue_specs (map Put ys) (v', \<lparr>chars = xs, producer = p', consumer = NULL\<rparr>) =
      Some ([], v', \<lparr>chars = xs @ ys, producer = p', consumer = NULL\<rparr>)" if "length xs + length ys \<le> 63" for xs ys
    using that by (induction ys arbitrary: xs) (simp_all add: wake_spec_def)
  have "queue_specs (map Put bs) (v', \<lparr>chars = [], producer = p', consumer = NULL\<rparr>) = Some ([], v', \<lparr>chars = bs, producer = p', consumer = NULL\<rparr>)"
    using specs [of "[]" bs] assms(6) by simp
  from queue_calls_refine [OF u(2) [folded v'_def] this, of ra'] obtain x where
    x: "queue_calls to ra' q (map Put bs) u = Inr (Some [], x)" "queue_rel to ps q x v' \<lparr>chars = bs, producer = p', consumer = NULL\<rparr>" by blast
  have "running v' = nxt" "running v \<in> set (blocked v')" by (simp_all add: v'_def)
  then show ?thesis using t(1) u(1) x by (auto simp: queue_rel_def)
qed

theorem ioqueue_reader_blocks_witness:
  "\<exists>(s :: machine) t st u x. ioqueue_init 0xc0000f00 s = Inr ((), t) \<and>
     queue_getchar boot_threads 0xc0001234 0xc0000f00 t = Inr (Suspended (In_Lock 0xc009e000 st), u) \<and>
     queue_calls boot_threads 0xc0001234 0xc0000f00 [Put 104, Put 105] u = Inr (Some [], x) \<and> this_thread x \<noteq> 0xc009e000"
proof -
  from boot_two_threads obtain s :: machine and p where
    s: "sched_rel boot_threads [0xc009e000, p] s \<lparr>running = 0xc009e000, ready = [p], blocked = [], contexts = saved s\<rparr>"
      "intr_off s" "esp_ok s 0xc009e000" by blast
  have p: "p \<noteq> 0xc009e000" using rel_parts(4) [OF s(1)] by auto
  have e: "esp_ok s (running \<lparr>running = 0xc009e000, ready = [p], blocked = [], contexts = saved s\<rparr>)" using s(3) by simp
  from ioqueue_reader_blocks [OF s(1) boot_queue [OF s(1)] s(2) e, of p "[]" "[104, 105]" "0xc0001234" "0xc0001234"]
  obtain t st u x v' where
    t: "ioqueue_init 0xc0000f00 s = Inr ((), t)" "queue_getchar boot_threads 0xc0001234 0xc0000f00 t = Inr (Suspended (In_Lock 0xc009e000 st), u)"
      "running v' = p" "queue_calls boot_threads 0xc0001234 0xc0000f00 [Put 104, Put 105] u = Inr (Some [], x)"
      "sched_rel boot_threads [0xc009e000, p] x v'" by auto
  have "this_thread x \<noteq> 0xc009e000" using rel_parts(2) [OF t(5)] t(3) p by simp
  then show ?thesis using t by blast
qed

end
