(* ===== verification/Keyboard.thy ===== *)
theory Keyboard
  imports IOQueue
begin

unbundle bit_operations_syntax

section \<open>The keyboard (device/keyboard.c)\<close>

text \<open>
  The handler of the keyboard interrupt turns scan codes into characters, which it prints and
  puts into a queue, and keeps track of the modifier keys. The static variables are in
  memory, at the addresses of \<open>kbd_objs\<close>; the lemmas show that the handler decodes like a
  keyboard described by its state and its table.
\<close>

subsection \<open>Operations\<close>

record kbd_objs =
  ctrl_status :: addr
  shift_status :: addr
  alt_status :: addr
  caps_lock_status :: addr
  ext_scan_code :: addr
  keyboard_buffer :: addr
  keymap_at :: addr

text \<open>The initial value of the array \<open>keymap\<close>, by make code: without and with shift.\<close>

definition keymap :: "(u8 \<times> u8) list" where
  "keymap =
     [(0, 0), (27, 27), (1, 33), (2, 64), (3, 35), (4, 36), (5, 37), (6, 94), (7, 38), (8, 42),
      (9, 40), (0, 41), (45, 95), (61, 43), (8, 8), (9, 9), (113, 81), (119, 87), (101, 69), (114, 82),
      (116, 84), (121, 89), (117, 85), (105, 73), (111, 79), (112, 80), (91, 123), (93, 125), (13, 13), (0, 0),
      (97, 65), (115, 83), (100, 68), (102, 70), (103, 71), (104, 72), (106, 74), (107, 75), (108, 76), (59, 58),
      (39, 34), (96, 126), (0, 0), (92, 124), (122, 90), (120, 88), (99, 67), (118, 86), (98, 66), (110, 78),
      (109, 77), (44, 60), (46, 62), (47, 63), (0, 0), (42, 42), (0, 0), (32, 32), (0, 0)]"

definition KEYBOARD_BUF_PORT :: u16 where
  "KEYBOARD_BUF_PORT = 0x60"

definition is_ctrl :: "u16 \<Rightarrow> bool" where
  "is_ctrl code \<longleftrightarrow> code = 0x1d \<or> code = 0xe01d"

definition is_shift :: "u16 \<Rightarrow> bool" where
  "is_shift code \<longleftrightarrow> code = 0x2a \<or> code = 0x36"

definition is_alt :: "u16 \<Rightarrow> bool" where
  "is_alt code \<longleftrightarrow> code = 0x38 \<or> code = 0xe038"

definition caps_lock_make :: u16 where
  "caps_lock_make = 0x3a"

text \<open>The branch of the handler for the release of a key.\<close>

definition key_break :: "kbd_objs \<Rightarrow> u16 \<Rightarrow> ('z machine_scheme, unit) comp" where
  "key_break ko make_code =
     (if is_ctrl make_code then store32 (ctrl_status ko) 0
      else if is_shift make_code then store32 (shift_status ko) 0
      else if is_alt make_code then store32 (alt_status ko) 0
      else ret ())"

text \<open>The column of the table.\<close>

definition key_column :: "kbd_objs \<Rightarrow> u16 \<Rightarrow> ('z machine_scheme, u32) comp" where
  "key_column ko code =
     (if code < 0x0e \<or> code = 0x29 \<or> code = 0x1a \<or> code = 0x1b \<or> code = 0x2b \<or> code = 0x27 \<or> code = 0x28 \<or>
         code = 0x33 \<or> code = 0x34 \<or> code = 0x35
      then load32 (shift_status ko)
      else
        cbind (load32 (shift_status ko)) (\<lambda>sh.
        cbind (load32 (caps_lock_status ko)) (\<lambda>caps.
        ret (if sh \<noteq> 0 \<and> caps \<noteq> 0 then 0 else if sh \<noteq> 0 \<or> caps \<noteq> 0 then 1 else 0))))"

text \<open>The end of the handler: a key without a character.\<close>

definition key_status :: "kbd_objs \<Rightarrow> u16 \<Rightarrow> ('z machine_scheme, unit) comp" where
  "key_status ko code =
     (if is_ctrl code then store32 (ctrl_status ko) 1
      else if is_shift code then store32 (shift_status ko) 1
      else if is_alt code then store32 (alt_status ko) 1
      else if code = caps_lock_make then
        cbind (load32 (caps_lock_status ko)) (\<lambda>caps. store32 (caps_lock_status ko) (of_bool (caps = 0)))
      else ret ())"

text \<open>The branch of the handler for a pressed key.\<close>

definition key_make :: "thread_objs \<Rightarrow> u32 \<Rightarrow> kbd_objs \<Rightarrow> u16 \<Rightarrow> ('z machine_scheme, unit outcome) comp" where
  "key_make to ra ko code =
     (if (code \<le> 0 \<or> code > 0x3a) \<and> (code \<noteq> 0xe038 \<and> code \<noteq> 0xe01d)
      then cseq (log_console (PutStr ''Unkown key.\<newline>'')) (ret (Done ()))
      else
        cbind (key_column ko code) (\<lambda>shift.
        cbind (load8 (keymap_at ko + 2 * ucast (ucast (code AND 0x00ff) :: u8) + shift)) (\<lambda>cur_char.
        cbind (if cur_char \<noteq> 0 then cbind (is_queue_full (keyboard_buffer ko)) (\<lambda>f. ret (f = 0)) else ret False) (\<lambda>p.
          if p then
            cseq (log_console (PutChar cur_char))
                 (queue_putchar to ra (keyboard_buffer ko) cur_char)
          else cseq (key_status ko code) (ret (Done ()))))))"

text \<open>What the port presents comes from the device: a parameter.\<close>

definition init_keyboard_handler :: "thread_objs \<Rightarrow> u32 \<Rightarrow> kbd_objs \<Rightarrow> (u16 \<Rightarrow> u8) \<Rightarrow> ('z machine_scheme, unit outcome) comp" where
  "init_keyboard_handler to ra ko dev =
     cbind (iinb dev KEYBOARD_BUF_PORT) (\<lambda>b.
     let code = ucast b :: u16 in
       if code = 0xe0 then cseq (store32 (ext_scan_code ko) 1) (ret (Done ()))
       else
         cbind (load32 (ext_scan_code ko)) (\<lambda>e.
         cbind (if e \<noteq> 0 then cseq (store32 (ext_scan_code ko) 0) (ret (0xe000 OR code)) else ret code) (\<lambda>code.
           if code AND 0x0080 \<noteq> 0 then cseq (key_break ko (code AND 0xff7f)) (ret (Done ()))
           else key_make to ra ko code)))"

definition keyboard_init :: "idt_objs \<Rightarrow> kbd_objs \<Rightarrow> addr \<Rightarrow> ('z machine_scheme, unit) comp" where
  "keyboard_init io ko handler =
     cseq (log_console (PutStr ''Keyboard init start...\<newline>''))
    (cseq (ioqueue_init (keyboard_buffer ko))
    (cseq (register_handler io 0x21 handler)
          (log_console (PutStr ''Keyboard init done.\<newline>''))))"

subsection \<open>The keyboard as the user sees it\<close>

record kbd_view =
  k_ctrl :: bool
  k_shift :: bool
  k_alt :: bool
  k_caps :: bool
  k_ext :: bool

datatype key_event = Typed u8 | Unknown | Silent

text \<open>Caps lock and shift cancel each other for letters; for the other keys only shift counts.\<close>

definition key_char :: "bool \<Rightarrow> bool \<Rightarrow> nat \<Rightarrow> u8" where
  "key_char shift caps c = (case keymap ! c of (lo, hi) \<Rightarrow>
     if 97 \<le> lo \<and> lo \<le> 122 then if shift \<noteq> caps then hi else lo else if shift then hi else lo)"

text \<open>A control or alt key has a left and a right (extended) variant, shift two plain ones.\<close>

definition modifier :: "bool \<Rightarrow> nat \<Rightarrow> bool \<Rightarrow> kbd_view \<Rightarrow> kbd_view" where
  "modifier ext c x k =
     (if c = 0x1d then k\<lparr>k_ctrl := x\<rparr> else if c = 0x38 then k\<lparr>k_alt := x\<rparr>
      else if \<not> ext \<and> (c = 0x2a \<or> c = 0x36) then k\<lparr>k_shift := x\<rparr> else k)"

definition key_spec :: "nat \<Rightarrow> kbd_view \<Rightarrow> kbd_view \<times> key_event" where
  "key_spec b k =
     (if b = 0xe0 then (k\<lparr>k_ext := True\<rparr>, Silent)
      else let k' = k\<lparr>k_ext := False\<rparr>; c = b mod 128 in
        if 128 \<le> b then (modifier (k_ext k) c False k', Silent)
        else if k_ext k then if c = 0x1d \<or> c = 0x38 then (modifier True c True k', Silent) else (k', Unknown)
        else if c = 0 \<or> 0x3a < c then (k', Unknown)
        else if c = 0x3a then (k'\<lparr>k_caps := \<not> k_caps k\<rparr>, Silent)
        else if key_char (k_shift k) (k_caps k) c = 0 then (modifier False c True k', Silent)
        else (k', Typed (key_char (k_shift k) (k_caps k) c)))"

text \<open>What is typed is printed and queued while there is room, and lost otherwise.\<close>

definition kbd_spec :: "nat \<Rightarrow> kbd_view \<times> sched_view \<times> queue_view \<Rightarrow> (kbd_view \<times> sched_view \<times> queue_view \<times> console_call list) option" where
  "kbd_spec b = (\<lambda>(k, v, w). case key_spec b k of
       (k', Typed c) \<Rightarrow> if length (chars w) < 63
         then map_option (\<lambda>(_, v', w'). (k', v', w', [PutChar c])) (queue_spec (Put c) (v, w)) else Some (k', v, w, [])
     | (k', Unknown) \<Rightarrow> Some (k', v, w, [PutStr ''Unkown key.\<newline>''])
     | (k', Silent) \<Rightarrow> Some (k', v, w, []))"

subsection \<open>The static variables\<close>

definition flag_cells :: "kbd_objs \<Rightarrow> addr list" where
  "flag_cells ko = [ctrl_status ko, shift_status ko, alt_status ko, caps_lock_status ko, ext_scan_code ko]"

definition keymap_cells :: "kbd_objs \<Rightarrow> addr set" where
  "keymap_cells ko = (\<lambda>i. keymap_at ko + of_nat (4 * i)) ` {..<30}"

definition keymap_bytes :: "u8 list" where
  "keymap_bytes = concat (map (\<lambda>(a, b). [a, b]) keymap)"

definition kbd_ok :: "'z machine_scheme \<Rightarrow> thread_objs \<Rightarrow> addr list \<Rightarrow> kbd_objs \<Rightarrow> bool" where
  "kbd_ok s to ps ko \<longleftrightarrow> (\<forall>c \<in> set (flag_cells ko) \<union> keymap_cells ko. global_cell s to ps c) \<and> distinct (flag_cells ko) \<and>
     set (flag_cells ko) \<inter> ring_cells (keyboard_buffer ko) = {} \<and> keymap_cells ko \<inter> (set (flag_cells ko) \<union> ring_cells (keyboard_buffer ko)) = {}"

definition keymap_in :: "'z machine_scheme \<Rightarrow> addr \<Rightarrow> bool" where
  "keymap_in s p \<longleftrightarrow> (\<forall>j < 118. peek8 s (p + of_nat j) = keymap_bytes ! j)"

definition flags_in :: "'z machine_scheme \<Rightarrow> kbd_objs \<Rightarrow> kbd_view \<Rightarrow> bool" where
  "flags_in s ko k \<longleftrightarrow> map (peek32 s) (flag_cells ko) = map of_bool [k_ctrl k, k_shift k, k_alt k, k_caps k, k_ext k]"

definition kbd_rel :: "thread_objs \<Rightarrow> addr list \<Rightarrow> kbd_objs \<Rightarrow> 'z machine_scheme \<Rightarrow> kbd_view \<Rightarrow> sched_view \<Rightarrow> queue_view \<Rightarrow> bool" where
  "kbd_rel to ps ko s k v w \<longleftrightarrow> queue_rel to ps (keyboard_buffer ko) s v w \<and> kbd_ok s to ps ko \<and> flags_in s ko k \<and> keymap_in s (keymap_at ko)"

lemma keymap_byte:
  assumes "kbd_ok s to ps ko" "j < 118"
  obtains c where "c \<in> keymap_cells ko" "global_cell s to ps c" "keymap_at ko + of_nat j = c + of_nat (j mod 4)"
    "(of_nat (j mod 4) :: u32) < 4" "kaddr s (keymap_at ko + of_nat j)"
proof -
  define c where "c = keymap_at ko + of_nat (4 * (j div 4))"
  have "j div 4 < 30" using assms(2) by simp
  then have c: "c \<in> keymap_cells ko" unfolding keymap_cells_def c_def by blast
  then have g: "global_cell s to ps c" using assms(1) by (simp add: kbd_ok_def)
  have "of_nat j = (of_nat (4 * (j div 4) + j mod 4) :: u32)" by simp
  then have e: "keymap_at ko + of_nat j = c + of_nat (j mod 4)" unfolding c_def of_nat_add by (simp only: add.assoc)
  have l: "(of_nat (j mod 4) :: u32) < 4" by (simp add: word_less_nat_alt unat_of_nat)
  have "kaddr s (keymap_at ko + of_nat j)"
    unfolding e using g kaddr_byte [OF _ l, of c s] by (simp add: global_cell_def kcell_def)
  with c g e l show thesis by (rule that)
qed

subsection \<open>Decoding\<close>

definition column :: "bool \<Rightarrow> bool \<Rightarrow> u16 \<Rightarrow> nat" where
  "column sh caps code =
     (if code < 0x0e \<or> code = 0x29 \<or> code = 0x1a \<or> code = 0x1b \<or> code = 0x2b \<or> code = 0x27 \<or> code = 0x28 \<or>
         code = 0x33 \<or> code = 0x34 \<or> code = 0x35 then of_bool sh else of_bool (sh \<noteq> caps))"

lemma key_table: "\<forall>c \<in> set [1..<59]. \<forall>sh caps. keymap_bytes ! (2 * c + column sh caps (of_nat c)) = key_char sh caps c"
  by code_simp

lemma silent_keys: "\<forall>c \<in> {0x1d, 0x2a, 0x36, 0x38, 0x3a}. \<forall>sh caps. key_char sh caps c = 0"
  by code_simp

lemma keymap_length: "length keymap_bytes = 118"
  by (simp add: keymap_bytes_def keymap_def)

lemma column_le: "column sh caps code \<le> 1"
  by (simp add: column_def)

subsection \<open>Frames\<close>

lemma queue_kept:
  assumes R: "queue_rel to ps q s v w" and k: "kept to ps C s t" "C \<inter> ring_cells q = {}" and r: "sched_rel to ps t v"
  shows "queue_rel to ps q t v w"
proof -
  have ok: "queue_ok s to ps q" and g: "ring s q (chars w)" using R by (simp_all add: queue_rel_def)
  have "producer_field q \<notin> C" "consumer_field q \<notin> C" using k(2) in_ring_cells(1) [of q] by auto
  then have "peek32 t (producer_field q) = peek32 s (producer_field q)" "peek32 t (consumer_field q) = peek32 s (consumer_field q)"
    using k(1) field_cells [OF ok] by (simp_all add: kept_def)
  moreover have "ring t q (chars w)" by (rule ring_kept [OF g ok k(1)]) (use k(2) in simp)
  moreover have "intr_off t" "queue_ok t to ps q" using R k(1) kept_ok [OF k(1)] by (simp_all add: queue_rel_def kept_def intr_off_def)
  ultimately show ?thesis using R r by (simp add: queue_rel_def)
qed

lemma keymap_kept:
  assumes "kbd_ok s to ps ko" "kept to ps C s t" "C \<inter> keymap_cells ko = {}" "keymap_in s (keymap_at ko)"
  shows "keymap_in t (keymap_at ko)"
proof -
  have "peek8 t (keymap_at ko + of_nat j) = peek8 s (keymap_at ko + of_nat j)" if "j < 118" for j
    using keymap_byte [OF assms(1) that] assms(2,3) unfolding kept_def by (metis disjoint_iff)
  then show ?thesis using assms(4) by (simp add: keymap_in_def)
qed

lemma kbd_kept_ok: "kept to ps C s t \<Longrightarrow> kbd_ok t to ps ko = kbd_ok s to ps ko"
  by (simp add: kbd_ok_def kept_global)

text \<open>Writing one of the flags.\<close>

lemma flag_write:
  fixes x :: u32
  assumes R: "kbd_rel to ps ko s k v w" and c: "c \<in> set (flag_cells ko)"
  defines "t \<equiv> poke32 c x s"
  shows "store32 c x s = Inr ((), t)" "kbd_ok t to ps ko" "queue_rel to ps (keyboard_buffer ko) t v w" "keymap_in t (keymap_at ko)"
    "d \<in> set (flag_cells ko) \<Longrightarrow> peek32 t d = (if d = c then x else peek32 s d)" "console t = console s"
proof -
  have ok: "kbd_ok s to ps ko" and Q: "queue_rel to ps (keyboard_buffer ko) s v w" using R by (simp_all add: kbd_rel_def)
  then have g: "global_cell s to ps c" using c by (simp add: kbd_ok_def)
  then have k: "kcell s c" by (simp add: global_cell_def)
  show "store32 c x s = Inr ((), t)" unfolding t_def by (rule store32_kcell [OF k])
  have u: "cells_upd {c} s t" unfolding t_def by (rule cells_upd_poke [OF k])
  have kt: "kept to ps {c} s t" by (rule cells_kept [OF u]) simp
  have r: "sched_rel to ps t v" using global_work [OF _ u] Q g by (auto simp: queue_rel_def)
  show "kbd_ok t to ps ko" using ok kbd_kept_ok [OF kt] by simp
  show "queue_rel to ps (keyboard_buffer ko) t v w" by (rule queue_kept [OF Q kt _ r]) (use ok c in \<open>auto simp: kbd_ok_def\<close>)
  show "keymap_in t (keymap_at ko)" by (rule keymap_kept [OF ok kt]) (use ok c R in \<open>auto simp: kbd_ok_def kbd_rel_def\<close>)
  show "console t = console s" using kt by (simp add: kept_def)
  assume "d \<in> set (flag_cells ko)"
  then have "kcell s d" using ok by (simp add: kbd_ok_def global_cell_def)
  then show "peek32 t d = (if d = c then x else peek32 s d)" using k by (simp add: t_def peek32_poke32)
qed

lemma flag_stores:
  assumes R: "kbd_rel to ps ko s k v w"
  shows "\<exists>t. store32 (ctrl_status ko) (of_bool x) s = Inr ((), t) \<and> kbd_rel to ps ko t (k\<lparr>k_ctrl := x\<rparr>) v w \<and> console t = console s"
    "\<exists>t. store32 (shift_status ko) (of_bool x) s = Inr ((), t) \<and> kbd_rel to ps ko t (k\<lparr>k_shift := x\<rparr>) v w \<and> console t = console s"
    "\<exists>t. store32 (alt_status ko) (of_bool x) s = Inr ((), t) \<and> kbd_rel to ps ko t (k\<lparr>k_alt := x\<rparr>) v w \<and> console t = console s"
    "\<exists>t. store32 (caps_lock_status ko) (of_bool x) s = Inr ((), t) \<and> kbd_rel to ps ko t (k\<lparr>k_caps := x\<rparr>) v w \<and> console t = console s"
    "\<exists>t. store32 (ext_scan_code ko) (of_bool x) s = Inr ((), t) \<and> kbd_rel to ps ko t (k\<lparr>k_ext := x\<rparr>) v w \<and> console t = console s"
proof -
  note d = R [unfolded kbd_rel_def kbd_ok_def flags_in_def flag_cells_def]
  have ne: "distinct [ctrl_status ko, shift_status ko, alt_status ko, caps_lock_status ko, ext_scan_code ko]" using d by blast
  have fl: "map (peek32 s) [ctrl_status ko, shift_status ko, alt_status ko, caps_lock_status ko, ext_scan_code ko] =
    map of_bool [k_ctrl k, k_shift k, k_alt k, k_caps k, k_ext k]" using d by blast
  have "\<exists>t. store32 c (of_bool x) s = Inr ((), t) \<and> kbd_rel to ps ko t k' v w \<and> console t = console s"
    if c: "c \<in> set (flag_cells ko)"
      and k': "map (\<lambda>d. if d = c then of_bool x else peek32 s d) (flag_cells ko) = map of_bool [k_ctrl k', k_shift k', k_alt k', k_caps k', k_ext k']" for c k'
  proof -
    note f = flag_write [OF R c, where x = "of_bool x"]
    have "map (peek32 (poke32 c (of_bool x) s)) (flag_cells ko) = map (\<lambda>d. if d = c then of_bool x else peek32 s d) (flag_cells ko)"
      using f(5) by (intro map_cong) simp_all
    then have "flags_in (poke32 c (of_bool x) s) ko k'" unfolding flags_in_def k' .
    then show ?thesis using f(1-4,6) by (auto simp: kbd_rel_def)
  qed
  note st = this [unfolded flag_cells_def]
  show "\<exists>t. store32 (ctrl_status ko) (of_bool x) s = Inr ((), t) \<and> kbd_rel to ps ko t (k\<lparr>k_ctrl := x\<rparr>) v w \<and> console t = console s"
    "\<exists>t. store32 (shift_status ko) (of_bool x) s = Inr ((), t) \<and> kbd_rel to ps ko t (k\<lparr>k_shift := x\<rparr>) v w \<and> console t = console s"
    "\<exists>t. store32 (alt_status ko) (of_bool x) s = Inr ((), t) \<and> kbd_rel to ps ko t (k\<lparr>k_alt := x\<rparr>) v w \<and> console t = console s"
    "\<exists>t. store32 (caps_lock_status ko) (of_bool x) s = Inr ((), t) \<and> kbd_rel to ps ko t (k\<lparr>k_caps := x\<rparr>) v w \<and> console t = console s"
    "\<exists>t. store32 (ext_scan_code ko) (of_bool x) s = Inr ((), t) \<and> kbd_rel to ps ko t (k\<lparr>k_ext := x\<rparr>) v w \<and> console t = console s"
    by (rule st; use ne fl in auto)+
qed

text \<open>Reading them.\<close>

lemma flag_loads:
  assumes R: "kbd_rel to ps ko s k v w"
  shows "load32 (shift_status ko) s = Inr (of_bool (k_shift k), s)" "load32 (caps_lock_status ko) s = Inr (of_bool (k_caps k), s)"
    "load32 (ext_scan_code ko) s = Inr (of_bool (k_ext k), s)"
proof -
  note d = R [unfolded kbd_rel_def kbd_ok_def flags_in_def flag_cells_def global_cell_def]
  have "kcell s (shift_status ko)" "kcell s (caps_lock_status ko)" "kcell s (ext_scan_code ko)" using d by auto
  moreover have "peek32 s (shift_status ko) = of_bool (k_shift k)" "peek32 s (caps_lock_status ko) = of_bool (k_caps k)"
    "peek32 s (ext_scan_code ko) = of_bool (k_ext k)" using d by auto
  ultimately show "load32 (shift_status ko) s = Inr (of_bool (k_shift k), s)" "load32 (caps_lock_status ko) s = Inr (of_bool (k_caps k), s)"
    "load32 (ext_scan_code ko) s = Inr (of_bool (k_ext k), s)" by (simp_all add: load32_kcell)
qed

lemma key_column_spec:
  assumes "kbd_rel to ps ko s k v w"
  shows "key_column ko code s = Inr (of_nat (column (k_shift k) (k_caps k) code), s)"
  using flag_loads [OF assms] by (simp add: key_column_def column_def cbind_def ret_def)

lemma keymap_load:
  assumes R: "kbd_rel to ps ko s k v w" and j: "j < 118"
  shows "load8 (keymap_at ko + of_nat j) s = Inr (keymap_bytes ! j, s)"
proof -
  have ok: "kbd_ok s to ps ko" and m: "keymap_in s (keymap_at ko)" using R by (simp_all add: kbd_rel_def)
  from keymap_byte [OF ok j] have "kaddr s (keymap_at ko + of_nat j)" by blast
  then show ?thesis using m j by (simp add: load8_kaddr keymap_in_def)
qed

subsection \<open>Codes\<close>

text \<open>The two-byte code of a key: with the prefix 0xe0 when it is extended.\<close>

definition xcode :: "bool \<Rightarrow> nat \<Rightarrow> u16" where
  "xcode ext c = of_nat (of_bool ext * 57344 + c)"

lemma xcode_unat: "c < 256 \<Longrightarrow> unat (xcode ext c) = of_bool ext * 57344 + c"
  unfolding xcode_def by (subst unat_of_nat) simp

lemma xcode_bit:
  assumes "c < 256"
  shows "xcode ext c AND 0x0080 \<noteq> 0 \<longleftrightarrow> 128 \<le> c"
proof -
  have "xcode ext c AND 0x0080 \<noteq> 0 \<longleftrightarrow> bit (xcode ext c) 7" using and_exp_eq_0_iff_not_bit [of "xcode ext c" 7] by simp
  also have "\<dots> \<longleftrightarrow> odd (unat (xcode ext c) div 128)" using bit_unsigned_iff [where 'a = nat, of "xcode ext c" 7] by (simp add: bit_iff_odd)
  also have "\<dots> \<longleftrightarrow> 128 \<le> c"
  proof -
    have "(of_bool ext * 57344 + c) div 128 = of_bool ext * 448 + c div 128" by simp
    moreover have "c div 128 = of_bool (128 \<le> c)" using assms by (simp add: div_nat_eqI)
    ultimately show ?thesis unfolding xcode_unat [OF assms] by simp
  qed
  finally show ?thesis .
qed

lemma xcode_make:
  assumes "c < 256" "128 \<le> c"
  shows "xcode ext c AND 0xff7f = xcode ext (c mod 128)"
proof -
  have b: "bit (xcode ext c) 7" using xcode_bit [OF assms(1), of ext] assms(2) and_exp_eq_0_iff_not_bit [of "xcode ext c" 7] by simp
  have e: "(0xff7f :: u16) = NOT (push_bit 7 1)" by simp
  have "xcode ext c AND 0xff7f = unset_bit 7 (xcode ext c)" unfolding e unset_bit_eq_and_not ..
  also have "\<dots> = xcode ext c - 128" using unset_bit_eq [of 7 "xcode ext c"] b by simp
  also have "\<dots> = xcode ext (c - 128)" using assms(2) by (simp add: xcode_def of_nat_diff)
  also have "c - 128 = c mod 128" using assms by (simp add: mod_if)
  finally show ?thesis .
qed

lemma xcode_prefix: "c < 256 \<Longrightarrow> 0xe000 OR xcode False c = xcode True c"
proof -
  assume c: "c < 256"
  have "xcode False c = take_bit 8 (xcode False c)" using c xcode_unat [OF c, of False] by (simp add: word_unat_eq_iff unat_take)
  moreover have "(0xe000 :: u16) = push_bit 13 7" by (simp add: push_bit_eq_mult)
  moreover have "push_bit 13 x AND take_bit 8 y = 0" for x y :: u16 by (rule bit_word_eqI) (auto simp: bit_simps)
  ultimately have "0xe000 AND xcode False c = 0" by metis
  then have "0xe000 OR xcode False c = 0xe000 + xcode False c" by (rule disjunctive_add_eq_or [symmetric])
  then show ?thesis by (simp add: xcode_def)
qed

lemma xcode_plain: "(ucast (b :: u8) :: u16) = xcode False (unat b)"
  by (simp add: xcode_def)

lemma xcode_classes:
  assumes "c < 128"
  shows "is_ctrl (xcode ext c) \<longleftrightarrow> c = 0x1d" "is_shift (xcode ext c) \<longleftrightarrow> \<not> ext \<and> (c = 0x2a \<or> c = 0x36)" "is_alt (xcode ext c) \<longleftrightarrow> c = 0x38"
    "xcode ext c = caps_lock_make \<longleftrightarrow> \<not> ext \<and> c = 0x3a"
    "(xcode ext c \<le> 0 \<or> xcode ext c > 0x3a) \<and> (xcode ext c \<noteq> 0xe038 \<and> xcode ext c \<noteq> 0xe01d) \<longleftrightarrow>
      (if ext then c \<noteq> 0x1d \<and> c \<noteq> 0x38 else c = 0 \<or> 0x3a < c)"
  using assms xcode_unat [of c ext]
  by (auto simp: is_ctrl_def is_shift_def is_alt_def caps_lock_make_def word_unat_eq_iff word_less_nat_alt word_le_nat_alt)

lemma key_index:
  assumes "c < 128"
  shows "(ucast (ucast (xcode ext c AND 0x00ff) :: u8) :: u32) = of_nat c"
proof -
  have "xcode ext c AND 0x00ff = take_bit 8 (xcode ext c)" by (simp add: take_bit_eq_mask mask_eq_exp_minus_1)
  moreover have "(of_bool ext * 57344 + c) mod 256 = c" using assms by (cases ext) (simp_all add: mod_add_left_eq [of 57344, symmetric])
  ultimately have "unat (xcode ext c AND 0x00ff) = c" using xcode_unat [of c ext] assms by (simp add: unat_take)
  then have "unat (ucast (xcode ext c AND 0x00ff) :: u8) = take_bit 8 c" by (simp add: unsigned_ucast_eq)
  also have "\<dots> = c" using assms by (simp add: take_bit_nat_eq_self)
  finally have u: "unat (ucast (xcode ext c AND 0x00ff) :: u8) = c" .
  have "(ucast y :: u32) = of_nat (unat y)" for y :: u8 by simp
  from this [of "ucast (xcode ext c AND 0x00ff)"] show ?thesis unfolding u .
qed

subsection \<open>The branches of the handler\<close>

lemma key_break_spec:
  assumes "kbd_rel to ps ko s k v w" "c < 128"
  shows "\<exists>t. key_break ko (xcode ext c) s = Inr ((), t) \<and> kbd_rel to ps ko t (modifier ext c False k) v w \<and> console t = console s"
  using flag_stores [OF assms(1), of False] assms xcode_classes(1-3) [OF assms(2), of ext]
  by (auto simp: key_break_def modifier_def ret_def)

lemma key_status_spec:
  assumes "kbd_rel to ps ko s k v w" "c < 128"
  shows "\<exists>t. key_status ko (xcode ext c) s = Inr ((), t) \<and> console t = console s \<and>
    kbd_rel to ps ko t (if \<not> ext \<and> c = 0x3a then k\<lparr>k_caps := \<not> k_caps k\<rparr> else modifier ext c True k) v w"
  using flag_stores(1-3) [OF assms(1), of True] flag_stores(4) [OF assms(1), of "\<not> k_caps k"] assms xcode_classes(1-4) [OF assms(2), of ext]
    flag_loads(2) [OF assms(1)]
  by (auto simp: key_status_def modifier_def ret_def cbind_def)

lemma is_queue_full_spec:
  assumes "queue_rel to ps q s v w"
  shows "is_queue_full q s = Inr (of_bool (length (chars w) = 63), s)"
proof -
  have ok: "queue_ok s to ps q" and g: "ring s q (chars w)" using assms by (simp_all add: queue_rel_def)
  from g obtain t where t: "t < 64" "peek32 s (tail_field q) = of_nat t" "peek32 s (head_field q) = of_nat ((t + length (chars w)) mod 64)"
    "length (chars w) < 64" by (auto simp: ring_def)
  have "(of_nat ((t + Suc (length (chars w))) mod 64) :: u32) = of_nat t \<longleftrightarrow> length (chars w) = 63"
    using ring_index [of "(t + Suc (length (chars w))) mod 64" t] t(1,4) ring_wrap [of t "Suc (length (chars w))" 0]
    by (cases "length (chars w) = 63") simp_all
  then show ?thesis
    using field_cells(3,4) [OF ok] t(2,3)
    by (simp add: is_queue_full_def cbind_def load32_kcell global_cell_def next_pos_ring mod_Suc_eq ret_def)
qed

lemma console_queue: "queue_rel to ps q (s\<lparr>console := x\<rparr>) v w = queue_rel to ps q s v w"
proof -
  have g: "global_cell (s\<lparr>console := x\<rparr>) = global_cell s" by (simp add: global_cell_def fun_eq_iff)
  have "sched_rel to ps (s\<lparr>console := x\<rparr>) v = sched_rel to ps s v" by (simp add: sched_rel_def)
  then show ?thesis by (simp add: queue_rel_def queue_ok_def g ring_def intr_off_def)
qed

lemma console_keyboard:
  "kbd_rel to ps ko (s\<lparr>console := x\<rparr>) k v w = kbd_rel to ps ko s k v w"
proof -
  have "global_cell (s\<lparr>console := x\<rparr>) = global_cell s" by (simp add: global_cell_def fun_eq_iff)
  then show ?thesis by (simp add: kbd_rel_def console_queue kbd_ok_def flags_in_def keymap_in_def flag_cells_def)
qed

lemma queue_put_spec:
  assumes "queue_rel to ps q s v w" "length (chars w) < 63" "queue_spec (Put c) (v, w) = Some ([], v', w')"
  shows "\<exists>t. queue_putchar to ra q c s = Inr (Done (), t) \<and> queue_rel to ps q t v' w' \<and> kept to ps (ring_cells q) s t"
proof -
  from queue_call_refines [OF assms(1,3), of ra] obtain t where
    t: "queue_call to ra q (Put c) s = Inr (Some [], t)" "queue_rel to ps q t v' w'" "kept to ps (ring_cells q) s t" by blast
  from t(1) obtain x where x: "queue_putchar to ra q c s = Inr (x, t)" "(case x of Done _ \<Rightarrow> Some [] | Suspended _ \<Rightarrow> None) = Some ([] :: u8 list)"
    by (auto simp: queue_call_def cbind_Inr_iff ret_def)
  then have "queue_putchar to ra q c s = Inr (Done (), t)" by (cases x) simp_all
  with t(2,3) show ?thesis by blast
qed

text \<open>The character of a key, as the handler reads it from the table.\<close>

lemma key_load:
  assumes "kbd_rel to ps ko s k v w" "0 < c" "c < 59"
  shows "cbind (key_column ko (xcode ext c)) (\<lambda>shift. load8 (keymap_at ko + 2 * ucast (ucast (xcode ext c AND 0x00ff) :: u8) + shift)) s =
    Inr (keymap_bytes ! (2 * c + column (k_shift k) (k_caps k) (xcode ext c)), s)"
proof -
  let ?n = "2 * c + column (k_shift k) (k_caps k) (xcode ext c)"
  have "?n < 118" using column_le [of "k_shift k" "k_caps k" "xcode ext c"] assms(3) by linarith
  moreover have "keymap_at ko + 2 * of_nat c + of_nat (column (k_shift k) (k_caps k) (xcode ext c)) = keymap_at ko + of_nat ?n"
    by (simp add: add.assoc)
  moreover have "(ucast (ucast (xcode ext c AND 0x00ff) :: u8) :: u32) = of_nat c" using key_index assms(3) by simp
  ultimately show ?thesis using key_column_spec [OF assms(1), of "xcode ext c"] keymap_load [OF assms(1), of ?n]
    by (simp only: cbind_Inr)
qed

lemma key_make_spec:
  fixes s :: "'z machine_scheme" and ext :: bool and c :: nat
  assumes R: "kbd_rel to ps ko s k v w" and c: "c < 128"
  defines "ch \<equiv> keymap_bytes ! (2 * c + column (k_shift k) (k_caps k) (xcode ext c))"
  shows "if (if ext then c \<noteq> 0x1d \<and> c \<noteq> 0x38 else c = 0 \<or> 0x3a < c)
    then key_make to ra ko (xcode ext c) s = Inr (Done (), s\<lparr>console := console s @ [PutStr ''Unkown key.\<newline>'']\<rparr>)
    else if ch \<noteq> 0 \<and> length (chars w) < 63
    then queue_spec (Put ch) (v, w) = Some ([], v', w') \<longrightarrow> (\<exists>t. key_make to ra ko (xcode ext c) s = Inr (Done (), t) \<and>
      kbd_rel to ps ko t k v' w' \<and> console t = console s @ [PutChar ch])
    else \<exists>t. key_make to ra ko (xcode ext c) s = Inr (Done (), t) \<and> console t = console s \<and>
      kbd_rel to ps ko t (if \<not> ext \<and> c = 0x3a then k\<lparr>k_caps := \<not> k_caps k\<rparr> else modifier ext c True k) v w"
proof -
  have Q: "queue_rel to ps (keyboard_buffer ko) s v w" using R by (simp add: kbd_rel_def)
  have n: "length (chars w) = 63 \<longleftrightarrow> \<not> length (chars w) < 63" using Q by (auto simp: queue_rel_def ring_def)
  note u = xcode_classes(5) [OF c, of ext]
  show ?thesis
  proof (cases "if ext then c \<noteq> 0x1d \<and> c \<noteq> 0x38 else c = 0 \<or> 0x3a < c")
    case True
    then show ?thesis using u by (simp add: key_make_def cseq_def cbind_def log_console_def ret_def)
  next
    case False
    then have c': "0 < c" "c < 59" by (auto split: if_splits)
    note nu = False [folded u]
    define body :: "u8 \<Rightarrow> ('z machine_scheme, unit outcome) comp" where "body cur_char = cbind (if cur_char \<noteq> 0 then cbind (is_queue_full (keyboard_buffer ko)) (\<lambda>f. ret (f = 0)) else ret False) (\<lambda>p.
          if p then cseq (log_console (PutChar cur_char)) (queue_putchar to ra (keyboard_buffer ko) cur_char)
          else cseq (key_status ko (xcode ext c)) (ret (Done ())))" for cur_char
    have "key_make to ra ko (xcode ext c) s = cbind (cbind (key_column ko (xcode ext c)) (\<lambda>shift.
        load8 (keymap_at ko + 2 * ucast (ucast (xcode ext c AND 0x00ff) :: u8) + shift))) body s"
      unfolding key_make_def body_def cbind_assoc if_not_P [OF nu] ..
    also have "\<dots> = body ch s" using key_load [OF R c', of ext] by (simp only: cbind_Inr ch_def)
    finally have run: "key_make to ra ko (xcode ext c) s = body ch s" .
    show ?thesis
    proof (cases "ch \<noteq> 0 \<and> length (chars w) < 63")
      case True
      have "\<exists>t. body ch s = Inr (Done (), t) \<and> kbd_rel to ps ko t k v' w' \<and> console t = console s @ [PutChar ch]"
        if sp: "queue_spec (Put ch) (v, w) = Some ([], v', w')"
      proof -
        let ?s = "s\<lparr>console := console s @ [PutChar ch]\<rparr>"
        have R': "kbd_rel to ps ko ?s k v w" using R by (simp add: console_keyboard)
        then have Q': "queue_rel to ps (keyboard_buffer ko) ?s v w" and ok: "kbd_ok ?s to ps ko" by (simp_all add: kbd_rel_def)
        from queue_put_spec [OF Q' _ sp, of ra] True obtain t where
          t: "queue_putchar to ra (keyboard_buffer ko) ch ?s = Inr (Done (), t)" "queue_rel to ps (keyboard_buffer ko) t v' w'"
            "kept to ps (ring_cells (keyboard_buffer ko)) ?s t" by blast
        have "keymap_in t (keymap_at ko)" by (rule keymap_kept [OF ok t(3)]) (use ok R' in \<open>auto simp: kbd_ok_def kbd_rel_def\<close>)
        moreover have "map (peek32 t) (flag_cells ko) = map (peek32 ?s) (flag_cells ko)"
        proof (rule map_cong [OF refl])
          fix d assume "d \<in> set (flag_cells ko)"
          then have "global_cell ?s to ps d" "d \<notin> ring_cells (keyboard_buffer ko)" using ok by (auto simp: kbd_ok_def)
          then show "peek32 t d = peek32 ?s d" using t(3) by (simp add: kept_def)
        qed
        then have "flags_in t ko k = flags_in ?s ko k" unfolding flags_in_def by (simp only:)
        then have "flags_in t ko k" using R' by (simp add: kbd_rel_def)
        moreover have "kbd_ok t to ps ko" using ok kbd_kept_ok [OF t(3)] by simp
        moreover have "console t = console s @ [PutChar ch]" using t(3) by (simp add: kept_def)
        moreover have "body ch s = Inr (Done (), t)"
          using True is_queue_full_spec [OF Q] n t(1) by (simp add: body_def cbind_def cseq_def ret_def log_console_def)
        ultimately show ?thesis using t(2) by (auto simp: kbd_rel_def)
      qed
      then show ?thesis using True \<open>\<not> (if ext then c \<noteq> 0x1d \<and> c \<noteq> 0x38 else c = 0 \<or> 0x3a < c)\<close> run by simp
    next
      case no: False
      have "body ch s = cseq (key_status ko (xcode ext c)) (ret (Done ())) s"
        using no is_queue_full_spec [OF Q] n by (auto simp: body_def cbind_def ret_def)
      moreover from key_status_spec [OF R c, of ext] obtain t where
        "key_status ko (xcode ext c) s = Inr ((), t)" "console t = console s"
        "kbd_rel to ps ko t (if \<not> ext \<and> c = 0x3a then k\<lparr>k_caps := \<not> k_caps k\<rparr> else modifier ext c True k) v w" by blast
      ultimately show ?thesis using False no run by (auto simp: cseq_def cbind_def ret_def)
    qed
  qed
qed

lemma extended_silent: "\<forall>col \<in> {0, 1}. keymap_bytes ! (2 * 0x1d + col) = 0 \<and> keymap_bytes ! (2 * 0x38 + col) = 0"
  by code_simp

lemma key_press_spec:
  assumes R: "kbd_rel to ps ko s k v w" and b: "b < 128" and ext: "k_ext k = False" and k0: "k0 = k\<lparr>k_ext := ext\<rparr>"
    and sp: "kbd_spec b (k0, v, w) = Some (k', v', w', out)"
  shows "\<exists>t. key_make to ra ko (xcode ext b) s = Inr (Done (), t) \<and> kbd_rel to ps ko t k' v' w' \<and> console t = console s @ out"
proof -
  let ?ch = "keymap_bytes ! (2 * b + column (k_shift k) (k_caps k) (xcode ext b))"
  note mk = key_make_spec [OF R b, of ext ra v' w']
  have kk: "k0\<lparr>k_ext := False\<rparr> = k" "k_ext k0 = ext" "k_shift k0 = k_shift k" "k_caps k0 = k_caps k"
    using k0 ext by (cases k; simp)+
  have b': "b mod 128 = b" "\<not> 128 \<le> b" "b \<noteq> 0xe0" using b by simp_all
  have ks: "key_spec b k0 = (if ext then if b = 0x1d \<or> b = 0x38 then (modifier True b True k, Silent) else (k, Unknown)
     else if b = 0 \<or> 0x3a < b then (k, Unknown) else if b = 0x3a then (k\<lparr>k_caps := \<not> k_caps k\<rparr>, Silent)
     else if key_char (k_shift k) (k_caps k) b = 0 then (modifier False b True k, Silent)
     else (k, Typed (key_char (k_shift k) (k_caps k) b)))"
    unfolding key_spec_def Let_def kk using b' by simp
  show ?thesis
  proof (cases "if ext then b \<noteq> 0x1d \<and> b \<noteq> 0x38 else b = 0 \<or> 0x3a < b")
    case True
    then have "key_spec b k0 = (k, Unknown)" unfolding ks by (cases ext) auto
    then have e: "k' = k" "v' = v" "w' = w" "out = [PutStr ''Unkown key.\<newline>'']" using sp by (simp_all add: kbd_spec_def)
    have "kbd_rel to ps ko (s\<lparr>console := console s @ out\<rparr>) k' v' w'" using R by (simp add: console_keyboard e)
    then show ?thesis using mk True by (simp add: e)
  next
    case known: False
    show ?thesis
    proof (cases ext)
      case True
      then have "b = 0x1d \<or> b = 0x38" using known by auto
      moreover have "column (k_shift k) (k_caps k) (xcode ext b) \<in> {0, 1}" by (simp add: column_def)
      ultimately have "?ch = 0" using extended_silent by auto
      moreover have "key_spec b k0 = (modifier True b True k, Silent)" using True known by (simp add: ks)
      then have "k' = modifier True b True k" "v' = v" "w' = w" "out = []" using sp by (simp_all add: kbd_spec_def)
      ultimately show ?thesis using mk known True by auto
    next
      case False
      then have r: "0 < b" "b < 59" using known by auto
      then have "b \<in> set [1..<59]" by simp
      with key_table have "keymap_bytes ! (2 * b + column (k_shift k) (k_caps k) (of_nat b)) = key_char (k_shift k) (k_caps k) b" by blast
      then have ch: "?ch = key_char (k_shift k) (k_caps k) b" using False by (simp add: xcode_def)
      have silent: "key_char (k_shift k) (k_caps k) b = 0" if "b \<in> {0x1d, 0x2a, 0x36, 0x38, 0x3a}" using silent_keys that by blast
      show ?thesis
      proof (cases "?ch = 0")
        case True
        then have "key_char (k_shift k) (k_caps k) b = 0" using ch by metis
        then have "key_spec b k0 = (if b = 0x3a then k\<lparr>k_caps := \<not> k_caps k\<rparr> else modifier False b True k, Silent)"
          using False r by (simp add: ks)
        then have "k' = (if b = 0x3a then k\<lparr>k_caps := \<not> k_caps k\<rparr> else modifier False b True k)" "v' = v" "w' = w" "out = []"
          using sp by (simp_all add: kbd_spec_def)
        then show ?thesis using mk known True False by (cases "b = 0x3a") auto
      next
        case ne: False
        then have b3: "b \<noteq> 0x3a" using ch silent by auto
        have "key_spec b k0 = (k, Typed ?ch)" using False r ne b3 unfolding ks ch by simp
        then have sp': "(if length (chars w) < 63 then map_option (\<lambda>(_, v', w'). (k, v', w', [PutChar ?ch])) (queue_spec (Put ?ch) (v, w))
          else Some (k, v, w, [])) = Some (k', v', w', out)" using sp by (simp add: kbd_spec_def)
        show ?thesis
        proof (cases "length (chars w) < 63")
          case True
          then have "queue_spec (Put ?ch) (v, w) = Some ([], v', w')" "k' = k" "out = [PutChar ?ch]" using sp' by auto
          then show ?thesis using mk known ne True by auto
        next
          case full: False
          then have e: "k' = k" "v' = v" "w' = w" "out = []" using sp' by auto
          have "b \<notin> {0x1d, 0x2a, 0x36, 0x38}" using silent ne ch by auto
          then have "modifier ext b True k = k" by (simp add: modifier_def)
          then show ?thesis using mk known ne full b3 e by auto
        qed
      qed
    qed
  qed
qed

text \<open>Initialisation: an empty queue and the handler in the table.\<close>

lemma keyboard_init_spec:
  assumes "sched_rel to ps s v" "queue_ok s to ps (keyboard_buffer ko)" "intr_off s"
    and h: "global_cell s to ps (idt_table io + 132)" "idt_table io + 132 \<notin> ring_cells (keyboard_buffer ko)"
  shows "\<exists>t. keyboard_init io ko handler s = Inr ((), t) \<and> peek32 t (idt_table io + 132) = handler \<and>
    queue_rel to ps (keyboard_buffer ko) t v \<lparr>chars = [], producer = NULL, consumer = NULL\<rparr> \<and>
    upd_within (\<Union> (bytes4 ` ring_cells (keyboard_buffer ko)) \<union> bytes4 (idt_table io + 132)) (s\<lparr>console := console t\<rparr>) t"
proof -
  let ?q = "keyboard_buffer ko" and ?w = "\<lparr>chars = [], producer = NULL, consumer = NULL\<rparr>" and ?h = "idt_table io + 132"
  define s0 where "s0 = s\<lparr>console := console s @ [PutStr ''Keyboard init start...\<newline>'']\<rparr>"
  have g0: "global_cell s0 = global_cell s" by (simp add: s0_def global_cell_def fun_eq_iff)
  have "sched_rel to ps s0 v" "queue_ok s0 to ps ?q" "intr_off s0"
    using assms(1-3) by (simp_all add: s0_def sched_rel_def queue_ok_def g0 [unfolded s0_def] intr_off_def)
  from ioqueue_init_spec [OF this] obtain s1 where
    s1: "ioqueue_init ?q s0 = Inr ((), s1)" "queue_rel to ps ?q s1 v ?w" "kcell s1 = kcell s0"
      "upd_within (\<Union> (bytes4 ` ring_cells ?q)) s0 s1" by blast
  have g1: "global_cell s1 to ps ?h" using h(1) g0 s1(3) by (simp add: global_cell_def fun_eq_iff s0_def)
  then have k1: "kcell s1 ?h" by (simp add: global_cell_def)
  let ?s2 = "poke32 ?h handler s1"
  have u: "cells_upd {?h} s1 ?s2" by (rule cells_upd_poke [OF k1])
  have "sched_rel to ps ?s2 v" by (rule global_work [OF _ u]) (use s1(2) g1 in \<open>simp_all add: queue_rel_def\<close>)
  with queue_kept [OF s1(2) cells_kept [OF u, of to ps "{?h}"]] h(2) have q2: "queue_rel to ps ?q ?s2 v ?w" by simp
  let ?t = "?s2\<lparr>console := console ?s2 @ [PutStr ''Keyboard init done.\<newline>'']\<rparr>"
  have "keyboard_init io ko handler s = Inr ((), ?t)"
    using s1(1) k1 unfolding s0_def
    by (simp add: keyboard_init_def cseq_def cbind_def log_console_def register_handler_def store32_kcell)
  moreover have "peek32 ?t ?h = handler" using k1 by (simp add: peek32_poke32)
  moreover have "upd_within (\<Union> (bytes4 ` ring_cells ?q) \<union> bytes4 ?h) s0 ?s2"
    by (rule upd_within_trans2 [OF s1(4) upd_within_poke32 [OF k1 order_refl]])
  then have "upd_within (\<Union> (bytes4 ` ring_cells ?q) \<union> bytes4 ?h) (s0\<lparr>console := console ?t\<rparr>) (?s2\<lparr>console := console ?t\<rparr>)"
    by (rule upd_within_map [where f = "\<lambda>x. x\<lparr>console := console ?t\<rparr>"]) simp_all
  ultimately show ?thesis using q2 by (intro exI [of _ ?t]) (simp add: console_queue s0_def)
qed

subsection \<open>Properties\<close>

text \<open>The prefix flag: read and cleared before the scan code is looked at.\<close>

definition take_prefix :: "kbd_objs \<Rightarrow> bool \<Rightarrow> nat \<Rightarrow> ('z machine_scheme, u16) comp" where
  "take_prefix ko ext b = (if ext then cseq (store32 (ext_scan_code ko) 0) (ret (0xe000 OR xcode False b)) else ret (xcode False b))"

lemma take_prefix_spec:
  assumes R: "kbd_rel to ps ko s k v w" and b: "b < 256"
  shows "\<exists>u. take_prefix ko (k_ext k) b s = Inr (xcode (k_ext k) b, u) \<and> kbd_rel to ps ko u (k\<lparr>k_ext := False\<rparr>) v w \<and> console u = console s"
proof (cases "k_ext k")
  case True
  then show ?thesis using flag_stores(5) [OF R, of False] xcode_prefix [OF b] by (auto simp: take_prefix_def cseq_def cbind_def ret_def)
next
  case False
  then have e: "k\<lparr>k_ext := False\<rparr> = k" by (cases k) simp
  show ?thesis unfolding e using R False by (auto simp: take_prefix_def ret_def)
qed

text \<open>
  C22: for every scan code the port presents, in every state of the modifier keys and of the
  queue, the keyboard handler does what the description of the keyboard says: it follows
  the prefix of extended keys, the modifier keys and caps lock, finds the character in the
  table (never outside it), prints it and puts it into the queue when there is room, wakes
  the reader, reports unknown keys and keeps its static variables and the table intact.
\<close>

theorem keyboard_correct:
  assumes "kbd_rel to ps ko s k v w" "kbd_spec (unat (dev KEYBOARD_BUF_PORT)) (k, v, w) = Some (k', v', w', out)"
  shows "\<exists>t. init_keyboard_handler to ra ko dev s = Inr (Done (), t) \<and> kbd_rel to ps ko t k' v' w' \<and> console t = console s @ out"
proof -
  define b where "b = unat (dev KEYBOARD_BUF_PORT)"
  have b: "b < 256" using unsigned_less [of "dev KEYBOARD_BUF_PORT", where 'a = nat] by (simp add: b_def)
  have cd: "ucast (dev KEYBOARD_BUF_PORT) = xcode False b" by (simp only: xcode_plain b_def)
  have pre: "xcode False b = 0xe0 \<longleftrightarrow> b = 0xe0" using xcode_unat [OF b, of False] by (auto simp: word_unat_eq_iff)
  note sp = assms(2) [folded b_def]
  note run = init_keyboard_handler_def iinb_def Let_def cd
  show ?thesis
  proof (cases "b = 0xe0")
    case True
    then have "k' = k\<lparr>k_ext := True\<rparr>" "v' = v" "w' = w" "out = []" using sp by (simp_all add: kbd_spec_def key_spec_def)
    then show ?thesis using flag_stores(5) [OF assms(1), of True] True pre
      by (auto simp: run cbind_def cseq_def ret_def)
  next
    case False
    let ?k = "k\<lparr>k_ext := False\<rparr>"
    from take_prefix_spec [OF assms(1) b] obtain u where
      u: "take_prefix ko (k_ext k) b s = Inr (xcode (k_ext k) b, u)" "kbd_rel to ps ko u ?k v w" "console u = console s" by blast
    have h: "init_keyboard_handler to ra ko dev s = (if xcode (k_ext k) b AND 0x0080 \<noteq> 0
        then cseq (key_break ko (xcode (k_ext k) b AND 0xff7f)) (ret (Done ())) else key_make to ra ko (xcode (k_ext k) b)) u"
      using u(1) False pre flag_loads(3) [OF assms(1)] by (simp add: take_prefix_def run cbind_def ret_def split: if_splits)
    show ?thesis
    proof (cases "128 \<le> b")
      case True
      then have "k' = modifier (k_ext k) (b mod 128) False ?k" "v' = v" "w' = w" "out = []"
        using sp False by (simp_all add: kbd_spec_def key_spec_def Let_def)
      moreover have "init_keyboard_handler to ra ko dev s = cseq (key_break ko (xcode (k_ext k) (b mod 128))) (ret (Done ())) u"
        using True xcode_bit [OF b, of "k_ext k"] xcode_make [OF b True, of "k_ext k"] by (simp add: h)
      ultimately show ?thesis using key_break_spec [OF u(2), of "b mod 128" "k_ext k"] u(3) by (auto simp: cseq_def cbind_def ret_def)
    next
      case make: False
      have "k = ?k\<lparr>k_ext := k_ext k\<rparr>" by (cases k) simp
      from key_press_spec [OF u(2) _ _ this sp, of ra] make
      have "\<exists>t. key_make to ra ko (xcode (k_ext k) b) u = Inr (Done (), t) \<and> kbd_rel to ps ko t k' v' w' \<and> console t = console s @ out"
        by (simp add: u(3))
      then show ?thesis using make xcode_bit [OF b, of "k_ext k"] by (simp add: h)
    qed
  qed
qed

text \<open>A keyboard in the boot machine: the variables and the table as the loader leaves them.\<close>

lemma zero_cells:
  assumes "sched_rel to ps s v" "\<forall>c \<in> set cs. global_cell s to ps c"
  shows "\<exists>t. sched_rel to ps t v \<and> kept to ps (set cs) s t \<and> (\<forall>c \<in> set cs. peek32 t c = 0)"
  using assms
proof (induction cs arbitrary: s)
  case Nil
  then show ?case by (intro exI [of _ s]) (simp add: kept_def)
next
  case (Cons c cs)
  have u: "cells_upd {c} s (poke32 c 0 s)" by (rule cells_upd_poke) (use Cons.prems in \<open>simp add: global_cell_def\<close>)
  have k: "kept to ps {c} s (poke32 c 0 s)" by (rule cells_kept [OF u]) simp
  have r: "sched_rel to ps (poke32 c 0 s) v" by (rule global_work [OF Cons.prems(1) u]) (use Cons.prems in simp)
  have "\<forall>d \<in> set cs. global_cell (poke32 c 0 s) to ps d" using Cons.prems(2) kept_global [OF k] by simp
  from Cons.IH [OF r this] obtain t where
    t: "sched_rel to ps t v" "kept to ps (set cs) (poke32 c 0 s) t" "\<forall>c \<in> set cs. peek32 t c = 0" by blast
  have gc: "global_cell s to ps c" using Cons.prems(2) by simp
  then have "peek32 (poke32 c 0 s) c = 0" by (simp add: peek32_poke32 global_cell_def)
  then have "peek32 t c = 0" using t(2,3) gc kept_global [OF k] by (cases "c \<in> set cs") (simp_all add: kept_def)
  moreover have "kept to ps (set (c # cs)) s t" using kept_trans [OF k t(2)] by simp
  ultimately show ?case using t(1,3) by auto
qed

lemma fill_keymap:
  assumes "sched_rel to ps s v" "kbd_ok s to ps ko" "n \<le> 118"
  shows "\<exists>t. sched_rel to ps t v \<and> kept to ps (keymap_cells ko) s t \<and> (\<forall>j < n. peek8 t (keymap_at ko + of_nat j) = bs ! j)"
  using assms(3)
proof (induction n)
  case 0
  then show ?case using assms(1) by (intro exI [of _ s]) (simp add: kept_def)
next
  case (Suc n)
  then obtain t where t: "sched_rel to ps t v" "kept to ps (keymap_cells ko) s t" "\<forall>j < n. peek8 t (keymap_at ko + of_nat j) = bs ! j" by auto
  have ok: "kbd_ok t to ps ko" using assms(2) kbd_kept_ok [OF t(2)] by simp
  from keymap_byte [OF ok, of n] Suc.prems obtain c where
    c: "c \<in> keymap_cells ko" "global_cell t to ps c" "keymap_at ko + of_nat n = c + of_nat (n mod 4)" "(of_nat (n mod 4) :: u32) < 4"
      "kaddr t (keymap_at ko + of_nat n)" by auto
  let ?u = "poke8 (keymap_at ko + of_nat n) (bs ! n) t"
  have u: "cells_upd {c} t ?u" unfolding c(3) by (rule cells_upd_poke8) (use c(2,4) in \<open>simp_all add: global_cell_def\<close>)
  have "sched_rel to ps ?u v" by (rule global_work [OF t(1) u]) (use c(2) in simp)
  moreover have "kept to ps (keymap_cells ko) s ?u"
    using kept_trans [OF t(2) cells_kept [OF u, of to ps "{c}"]] c(1) by (auto simp: insert_absorb)
  moreover have "peek8 ?u (keymap_at ko + of_nat j) = bs ! j" if "j < Suc n" for j
  proof -
    have b: "j < 118" "j < 2 ^ 30" "n < 2 ^ 30" using that Suc.prems by simp_all
    have "kaddr t (keymap_at ko + of_nat j)" using keymap_byte [OF ok b(1)] by blast
    moreover have "keymap_at ko + of_nat j \<noteq> keymap_at ko + of_nat n" if "j \<noteq> n" using span_inj [OF b(2,3)] that by blast
    ultimately show ?thesis using t(3) that c(5) by (auto simp: peek8_poke8 less_Suc_eq)
  qed
  ultimately show ?case by blast
qed

definition boot_kbd :: kbd_objs where
  "boot_kbd = \<lparr>ctrl_status = 0xc0000f60, shift_status = 0xc0000f64, alt_status = 0xc0000f68, caps_lock_status = 0xc0000f6c,
     ext_scan_code = 0xc0000f70, keyboard_buffer = 0xc0000f00, keymap_at = 0xc0000f80\<rparr>"

lemma boot_kbd_cells:
  assumes "sched_rel boot_threads ps s v"
  shows "kbd_ok s boot_threads ps boot_kbd"
proof -
  have k: "kcell s 0xc0000c00" "\<forall>p \<in> set ps. page_of 0xc0000c00 \<noteq> page_of p"
    using rel_tasks(1,2) [OF assms] by (simp_all add: tasks_ok_def boot_globals)
  have g: "global_cell s boot_threads ps c" if "page_of c = page_of 0xc0000c00" "aligned4 c" "c \<notin> sched_globals boot_threads" for c
    using k that by (simp add: global_cell_def kcell_def kaddr_def page_of_def)
  have km: "keymap_cells boot_kbd = set (map (\<lambda>i. 0xc0000f80 + of_nat (4 * i)) [0..<30])"
    and rc: "ring_cells (keyboard_buffer boot_kbd) = set (map (\<lambda>i. 0xc0000f00 + of_nat (4 * i)) [0..<21])"
    by (auto simp: keymap_cells_def ring_cells_def boot_kbd_def)
  have "\<forall>c \<in> set (flag_cells boot_kbd) \<union> keymap_cells boot_kbd. page_of c = page_of 0xc0000c00 \<and> aligned4 c \<and> c \<notin> sched_globals boot_threads"
    unfolding km boot_globals by (simp add: upt_rec flag_cells_def boot_kbd_def page_of_def aligned4_def)
  moreover have "set (flag_cells boot_kbd) \<inter> ring_cells (keyboard_buffer boot_kbd) = {}"
    "keymap_cells boot_kbd \<inter> (set (flag_cells boot_kbd) \<union> ring_cells (keyboard_buffer boot_kbd)) = {}"
    unfolding km rc by (simp_all add: upt_rec flag_cells_def boot_kbd_def)
  ultimately show ?thesis using g by (simp add: kbd_ok_def flag_cells_def boot_kbd_def)
qed

lemma boot_kbd_rel:
  "\<exists>(s :: machine) ps v. kbd_rel boot_threads ps boot_kbd s \<lparr>k_ctrl = False, k_shift = False, k_alt = False, k_caps = False, k_ext = False\<rparr>
     v \<lparr>chars = [], producer = NULL, consumer = NULL\<rparr>"
proof -
  let ?w = "\<lparr>chars = [], producer = NULL, consumer = NULL\<rparr>" and ?q = "0xc0000f00"
  from boot_two_threads obtain s :: machine and p where
    s: "sched_rel boot_threads [0xc009e000, p] s \<lparr>running = 0xc009e000, ready = [p], blocked = [], contexts = saved s\<rparr>" "intr_off s" by blast
  let ?v = "\<lparr>running = 0xc009e000, ready = [p], blocked = [], contexts = saved s\<rparr>" and ?ps = "[0xc009e000, p]"
  from ioqueue_init_spec [OF s(1) boot_queue [OF s(1)] s(2)] obtain t :: machine where
    t: "queue_rel boot_threads ?ps ?q t ?v ?w" by blast
  then have rt: "sched_rel boot_threads ?ps t ?v" by (simp add: queue_rel_def)
  note okt = boot_kbd_cells [OF rt]
  from zero_cells [OF rt, of "flag_cells boot_kbd"] okt obtain u where
    u: "sched_rel boot_threads ?ps u ?v" "kept boot_threads ?ps (set (flag_cells boot_kbd)) t u" "\<forall>c \<in> set (flag_cells boot_kbd). peek32 u c = 0"
    by (auto simp: kbd_ok_def)
  have oku: "kbd_ok u boot_threads ?ps boot_kbd" using okt kbd_kept_ok [OF u(2)] by simp
  have qu: "queue_rel boot_threads ?ps ?q u ?v ?w" by (rule queue_kept [OF t u(2) _ u(1)]) (use okt in \<open>simp add: kbd_ok_def boot_kbd_def\<close>)
  from fill_keymap [OF u(1) oku, of 118 keymap_bytes] obtain x where
    x: "sched_rel boot_threads ?ps x ?v" "kept boot_threads ?ps (keymap_cells boot_kbd) u x"
      "\<forall>j < 118. peek8 x (keymap_at boot_kbd + of_nat j) = keymap_bytes ! j" by auto
  have "kbd_ok x boot_threads ?ps boot_kbd" using oku kbd_kept_ok [OF x(2)] by simp
  moreover have "queue_rel boot_threads ?ps ?q x ?v ?w"
    by (rule queue_kept [OF qu x(2) _ x(1)]) (use okt in \<open>auto simp: kbd_ok_def boot_kbd_def\<close>)
  moreover have "peek32 x c = 0" if "c \<in> set (flag_cells boot_kbd)" for c
  proof -
    have "global_cell u boot_threads ?ps c" "c \<notin> keymap_cells boot_kbd" using oku that by (auto simp: kbd_ok_def)
    then show ?thesis using x(2) u(3) that by (simp add: kept_def)
  qed
  then have "flags_in x boot_kbd \<lparr>k_ctrl = False, k_shift = False, k_alt = False, k_caps = False, k_ext = False\<rparr>"
    by (simp add: flags_in_def flag_cells_def)
  moreover have "keymap_in x (keymap_at boot_kbd)" using x(3) by (simp add: keymap_in_def)
  moreover have "keyboard_buffer boot_kbd = ?q" by (simp add: boot_kbd_def)
  ultimately show ?thesis unfolding kbd_rel_def by metis
qed

theorem keyboard_correct_witness:
  "\<exists>(s :: machine) t. init_keyboard_handler boot_threads 0xc0001234 boot_kbd (\<lambda>_. 0x1e) s = Inr (Done (), t) \<and>
     ring t 0xc0000f00 [97] \<and> console t = console s @ [PutChar 97]"
proof -
  let ?k = "\<lparr>k_ctrl = False, k_shift = False, k_alt = False, k_caps = False, k_ext = False\<rparr>"
  from boot_kbd_rel obtain s :: machine and ps v where
    s: "kbd_rel boot_threads ps boot_kbd s ?k v \<lparr>chars = [], producer = NULL, consumer = NULL\<rparr>" by blast
  have "key_char False False 30 = 97" by code_simp
  then have "key_spec 30 ?k = (?k, Typed 97)" by (simp add: key_spec_def)
  then have "kbd_spec (unat ((\<lambda>_. 0x1e) KEYBOARD_BUF_PORT :: u8)) (?k, v, \<lparr>chars = [], producer = NULL, consumer = NULL\<rparr>) =
    Some (?k, v, \<lparr>chars = [97], producer = NULL, consumer = NULL\<rparr>, [PutChar 97])"
    by (simp add: kbd_spec_def wake_spec_def)
  from keyboard_correct [OF s this, of "0xc0001234"] show ?thesis
    by (fastforce simp: kbd_rel_def queue_rel_def boot_kbd_def)
qed

end
