(* ===== verification/Printk.thy ===== *)
theory Printk
  imports Idt
begin

unbundle bit_operations_syntax

section \<open>Formatted output (libs/printk.c, include/version.h)\<close>

text \<open>
  \<open>printk\<close> copies the format into a static array of 100 characters, expands the conversions
  there one after the other, and prints the result. The arguments after the format are a
  list of words; the addresses of the arrays and of the string literals are in
  \<open>printk_objs\<close>. The other components' calls of these functions are entries of the console
  log. The lemmas lead to what \<open>printk\<close> shows on the screen.
\<close>

subsection \<open>Operations\<close>

record printk_objs =
  printk_arry :: addr
  color_arry :: addr
  insert_m :: addr
  strings :: string_objs
  lit_percent_s :: addr
  lit_percent_d :: addr
  lit_version :: addr
  lit_starting :: addr

definition insert_str :: "printk_objs \<Rightarrow> addr \<Rightarrow> addr \<Rightarrow> u32 \<Rightarrow> ('z machine_scheme, unit) comp" where
  "insert_str po inserted_str inserting_str offset =
     cseq (memset_loop 100 (insert_m po) 0)
    (cbind (strcpy (insert_m po) (inserted_str + offset + 2)) (\<lambda>_.
     cbind (strlen inserting_str) (\<lambda>n.
     cseq (memcpy (inserted_str + offset) inserting_str (of_nat n))
    (cbind (strlen inserting_str) (\<lambda>n.
     cseq (store8 (inserted_str + offset + of_nat n) 0)
    (cbind (strcat inserted_str (insert_m po)) (\<lambda>_. ret ())))))))"

text \<open>The next argument; reading past the last one has no defined value.\<close>

definition va_arg :: "u32 list \<Rightarrow> ('s, u32 \<times> u32 list) comp" where
  "va_arg args = (case args of [] \<Rightarrow> fail_with (Out_Of_Bounds 0) | a # as \<Rightarrow> ret (a, as))"

text \<open>The conversions \<open>%s\<close>, \<open>%d\<close>, \<open>%H\<close>, \<open>%h\<close>: the string that replaces them. \<open>%c\<close> and others stay.\<close>

definition converts :: "u8 \<Rightarrow> bool" where
  "converts k \<longleftrightarrow> k = 115 \<or> k = 100 \<or> k = 72 \<or> k = 104"

definition conversion :: "printk_objs \<Rightarrow> u8 \<Rightarrow> u32 \<Rightarrow> ('z machine_scheme, addr) comp" where
  "conversion po k a =
     (if k = 115 then ret a
      else if k = 100 then uintTostring (strings po) a
      else if k = 72 then num2hexstr (strings po) (sint a) True
      else num2hexstr (strings po) (sint a) False)"

definition printk_percent :: "printk_objs \<Rightarrow> addr \<Rightarrow> int \<Rightarrow> u32 list \<Rightarrow> ('z machine_scheme, int \<times> u32 list) comp" where
  "printk_percent po output_str offset args =
     cbind (load8 (output_str + of_int offset + 1)) (\<lambda>k.
       if converts k then
         cbind (va_arg args) (\<lambda>(a, args').
         cbind (conversion po k a) (\<lambda>str.
         cseq (insert_str po output_str str (of_int offset))
        (cbind (strlen str) (\<lambda>n. ret (offset + int n - 1, args')))))
       else ret (offset, args))"

partial_function (option) printk_loop ::
  "printk_objs \<Rightarrow> addr \<Rightarrow> int \<Rightarrow> u32 list \<Rightarrow> 'z machine_scheme \<Rightarrow> (fail + (unit \<times> 'z machine_scheme)) option" where
  "printk_loop po output_str offset args s =
     (case load8 (output_str + of_int offset) s of Inl f \<Rightarrow> Some (Inl f) | Inr (c, s1) \<Rightarrow>
       if c = 0 then Some (Inr ((), s1))
       else
         (case (if c = 37 then printk_percent po output_str offset args else ret (offset, args)) s1 of Inl f \<Rightarrow> Some (Inl f)
          | Inr ((offset', args'), s2) \<Rightarrow> printk_loop po output_str (offset' + 1) args' s2))"

definition printk_text :: "printk_objs \<Rightarrow> addr \<Rightarrow> addr \<Rightarrow> u32 list \<Rightarrow> ('z machine_scheme, unit) comp" where
  "printk_text po output_str input_str args =
     cbind (strcpy output_str input_str) (\<lambda>_ s. returning (printk_loop po output_str 0 args s))"

definition printk :: "printk_objs \<Rightarrow> addr \<Rightarrow> u32 list \<Rightarrow> ('z vga_machine_scheme, unit) comp" where
  "printk po input_str args = cseq (printk_text po (printk_arry po) input_str args) (kputs (printk_arry po))"

definition printk_color :: "printk_objs \<Rightarrow> addr \<Rightarrow> vga_color_t \<Rightarrow> vga_color_t \<Rightarrow> u32 list \<Rightarrow> ('z vga_machine_scheme, unit) comp" where
  "printk_color po input_str bg fg args =
     cseq (printk_text po (color_arry po) input_str args) (kputs_color (color_arry po) bg fg)"

partial_function (option) printbasic_loop ::
  "printk_objs \<Rightarrow> addr \<Rightarrow> addr \<Rightarrow> int \<Rightarrow> 'z machine_scheme \<Rightarrow> (fail + (unit \<times> 'z machine_scheme)) option" where
  "printbasic_loop po format_str m i s =
     (case load8 (format_str + of_int i) s of Inl f \<Rightarrow> Some (Inl f) | Inr (c, s1) \<Rightarrow>
       if c = 0 then Some (Inr ((), s1))
       else
         (case (if c = 37 then cbind (load8 (format_str + of_int i + 1)) (\<lambda>k.
                  when_do (k = 115) (insert_str po format_str m (of_int i))) else ret ()) s1 of Inl f \<Rightarrow> Some (Inl f)
          | Inr (_, s2) \<Rightarrow> printbasic_loop po format_str m (i + 1) s2))"

definition printbasic :: "printk_objs \<Rightarrow> addr \<Rightarrow> addr \<Rightarrow> ('z machine_scheme, unit) comp" where
  "printbasic po format_str m s = returning (printbasic_loop po format_str m 0 s)"

definition put_str :: "printk_objs \<Rightarrow> addr \<Rightarrow> ('z vga_machine_scheme, unit) comp" where
  "put_str po message = printk po (lit_percent_s po) [message]"

text \<open>\<open>aput_char\<close> is assembler (kernel/print.S) with a cursor of its own: an entry of the log.\<close>

definition put_char :: "u8 \<Rightarrow> ('z machine_scheme, unit) comp" where
  "put_char char_ascii = log_console (PutChar char_ascii)"

definition put_int :: "printk_objs \<Rightarrow> u32 \<Rightarrow> ('z vga_machine_scheme, unit) comp" where
  "put_int po num = printk po (lit_percent_d po) [num]"

definition main_version :: u32 where
  "main_version = 0"

definition patch_level :: u32 where
  "patch_level = 4"

definition sub_level :: u32 where
  "sub_level = 4"

definition printkDebug :: "printk_objs \<Rightarrow> ('z vga_machine_scheme, unit) comp" where
  "printkDebug po =
     cseq clear_screen
    (cseq (printk po (lit_version po) [main_version, patch_level, sub_level])
          (printk_color po (lit_starting po) blue red []))"

subsection \<open>The text a format stands for\<close>

text \<open>
  \<open>render txt acc fmt args\<close>: the format with each conversion \<open>k\<close> replaced by \<open>txt k a\<close> for its
  argument \<open>a\<close>, after \<open>acc\<close>; \<open>None\<close> when an argument is missing or the array is too short
  for the text with what is left of the format.
\<close>

function render :: "(u8 \<Rightarrow> u32 \<Rightarrow> u8 list) \<Rightarrow> u8 list \<Rightarrow> u8 list \<Rightarrow> u32 list \<Rightarrow> u8 list option" where
  "render txt acc fmt args =
     (if 99 < length acc + length fmt then None
      else case fmt of
        [] \<Rightarrow> Some acc
      | c # rest \<Rightarrow>
          if c = 37 \<and> rest \<noteq> [] \<and> converts (hd rest)
          then (case args of [] \<Rightarrow> None | a # as \<Rightarrow> render txt (acc @ txt (hd rest) a) (tl rest) as)
          else render txt (acc @ [c]) rest args)"
  by auto
termination
  by (relation "measure (\<lambda>(_, _, fmt, _). length fmt)") auto

declare render.simps [simp del]

text \<open>Strings by their address, numbers in decimal or as eight hexadecimal digits.\<close>

definition arg_text :: "(addr \<Rightarrow> u8 list) \<Rightarrow> u8 \<Rightarrow> u32 \<Rightarrow> u8 list" where
  "arg_text str k a =
     (if k = 115 then str a
      else if k = 100 then rev (digits 10 (unat a))
      else if k = 72 then 48 # 120 # hex8 (unat a)
      else hex8 (unat a))"

text \<open>What the functions write, and the literals and arrays they need.\<close>

definition work_bytes :: "printk_objs \<Rightarrow> addr \<Rightarrow> addr set" where
  "work_bytes po arr = span arr 100 \<union> span (insert_m po) 100 \<union> span (static_m (strings po)) 32 \<union> hex_bytes (strings po)"

definition printk_ok :: "printk_objs \<Rightarrow> addr \<Rightarrow> 'z machine_scheme \<Rightarrow> bool" where
  "printk_ok po arr s \<longleftrightarrow> room s arr 100 \<and> room s (insert_m po) 100 \<and> room s (static_m (strings po)) 32 \<and> hex_objs (strings po) s \<and>
     span arr 100 \<inter> span (insert_m po) 100 = {} \<and>
     (span arr 100 \<union> span (insert_m po) 100) \<inter> (span (static_m (strings po)) 32 \<union> hex_bytes (strings po)) = {} \<and>
     lit_empty (strings po) \<notin> work_bytes po arr \<and>
     cstr s (lit_0x00000000 (strings po)) (48 # 120 # replicate 8 48) \<and> span (lit_0x00000000 (strings po)) 11 \<inter> work_bytes po arr = {} \<and>
     cstr s (lit_00000000 (strings po)) (replicate 8 48) \<and> span (lit_00000000 (strings po)) 9 \<inter> work_bytes po arr = {}"

text \<open>A string that is not in the work area.\<close>

definition outside_text :: "printk_objs \<Rightarrow> addr \<Rightarrow> 'z machine_scheme \<Rightarrow> addr \<Rightarrow> u8 list \<Rightarrow> bool" where
  "outside_text po arr s p cs \<longleftrightarrow> cstr s p cs \<and> span p (Suc (length cs)) \<inter> work_bytes po arr = {}"

lemma outside_upd: "upd_within (work_bytes po arr) s t \<Longrightarrow> outside_text po arr s p cs \<Longrightarrow> outside_text po arr t p cs"
  using upd_within_cstr by (fastforce simp: outside_text_def)

lemma printk_ok_upd:
  assumes u: "upd_within (work_bytes po arr) s t" and ok: "printk_ok po arr s"
  shows "printk_ok po arr t"
proof -
  note c = upd_within_cstr [OF u] and r = upd_within_room [OF u]
  have "cstr t (lit_0x00000000 (strings po)) (48 # 120 # replicate 8 48)"
    by (rule c) (use ok in \<open>simp_all add: printk_ok_def\<close>)
  moreover have "cstr t (lit_00000000 (strings po)) (replicate 8 48)"
    by (rule c) (use ok in \<open>simp_all add: printk_ok_def\<close>)
  moreover have "cstr t (lit_empty (strings po)) []"
    by (rule c) (use ok in \<open>simp_all add: printk_ok_def hex_objs_def\<close>)
  then have "hex_objs (strings po) t" using ok by (simp add: printk_ok_def hex_objs_def r)
  ultimately show ?thesis using ok unfolding printk_ok_def r by blast
qed

subsection \<open>Replacing a conversion\<close>

text \<open>The text after the conversion is copied to the cleared buffer \<open>m\<close>.\<close>

lemma save_tail_spec:
  assumes out: "cstr s out (dn @ c # k # rest)" and r: "room s m 100" and len: "length dn + 2 + length rest \<le> 99"
    and apart: "span out 100 \<inter> span m 100 = {}"
  shows "\<exists>u t. memset_loop 100 m 0 s = Inr ((), u) \<and> strcpy m (out + of_nat (length dn) + 2) u = Inr (m, t) \<and>
    cstr t m rest \<and> blk t out dn \<and> upd_within (span m 100) s t"
proof -
  let ?p = "out + of_nat (length dn)"
  from memset_loop_spec [OF r, of 0] obtain u where
    u: "memset_loop 100 m 0 s = Inr ((), u)" "upd_within (span m 100) s u" by blast
  have full: "Suc (length (dn @ c # k # rest)) \<le> 100" using len by simp
  have "cstr u out (dn @ c # k # rest)"
    by (rule upd_within_cstr [OF u(2) _ out]) (use apart span_mono [OF full, of out] in blast)
  then have rest: "cstr u (?p + 2) rest" by (simp add: cstr_append add.assoc)
  have rm: "room u m (Suc (length rest))" unfolding upd_within_room [OF u(2)] by (rule room_mono [OF r]) (use len in simp)
  have sm: "span m (Suc (length rest)) \<subseteq> span m 100" using len by (intro span_mono) simp
  have so: "span (?p + 2) (Suc (length rest)) \<subseteq> span out 100"
  proof -
    have "out + of_nat (length dn + 2) = ?p + 2" by (simp add: add.assoc)
    moreover have "span (out + of_nat (length dn + 2)) (Suc (length rest)) \<subseteq> span out 100" by (rule span_shift) (use len in simp)
    ultimately show ?thesis by (simp only:)
  qed
  have "span m (Suc (length rest)) \<inter> span (?p + 2) (Suc (length rest)) = {}" using sm so apart by blast
  from strcpy_spec [OF rest rm this] obtain t where
    t: "strcpy m (?p + 2) u = Inr (m, t)" "cstr t m rest" "upd_within (span m (Suc (length rest))) u t" by blast
  have w: "upd_within (span m 100) s t" using upd_within_trans [OF u(2) upd_within_mono [OF t(3) sm]] .
  have "blk t out dn"
  proof (rule upd_within_blk [OF w])
    show "span out (length dn) \<inter> span m 100 = {}" using span_mono [of "length dn" 100 out] apart len by fastforce
    show "blk s out dn" using out by (simp add: cstr_append)
  qed
  with u(1) t(1,2) w show ?thesis by blast
qed

text \<open>The argument is written over the conversion and terminated.\<close>

lemma write_arg_spec:
  assumes d: "blk s out dn" and q: "cstr s q txt" and z: "0 \<notin> set dn" and r: "room s out 100" and len: "length dn + length txt \<le> 99"
    and apart: "span q (Suc (length txt)) \<inter> span out 100 = {}"
  defines "p \<equiv> out + of_nat (length dn)"
  shows "\<exists>t. memcpy p q (of_nat (length txt)) s = Inr ((), t) \<and> kaddr t (p + of_nat (length txt)) \<and> cstr t q txt \<and>
    cstr (poke8 (p + of_nat (length txt)) 0 t) out (dn @ txt) \<and>
    upd_within (span p (Suc (length txt))) s (poke8 (p + of_nat (length txt)) 0 t)"
proof -
  let ?i = "length dn" and ?n = "length txt"
  let ?e = "p + of_nat ?n"
  have rp: "room s p (Suc ?n)" unfolding p_def by (rule room_shift [OF r]) (use len in simp)
  have qs: "span p (Suc ?n) \<subseteq> span out 100" unfolding p_def by (rule span_shift) (use len in simp)
  have qt: "span q ?n \<subseteq> span q (Suc ?n)" and pn: "span p ?n \<subseteq> span p (Suc ?n)" by (rule span_mono, simp)+
  have bt: "blk s q txt" using q by (simp add: cstr_def blk_append)
  have a: "span p ?n \<inter> span q ?n = {}" using qs qt pn apart by blast
  have np: "p \<noteq> 0" "q \<noteq> 0" using rp cstr_not_0 [OF q] by auto
  from memcpy_spec [OF bt room_mono [OF rp] a np] obtain t where
    t: "memcpy p q (of_nat ?n) s = Inr ((), t)" "blk t p txt" "upd_within (span p ?n) s t" by auto
  have qt: "cstr t q txt" by (rule upd_within_cstr [OF t(3) _ q]) (use apart qs pn in blast)
  have ke: "kaddr t ?e" using room_at [OF rp, of ?n] by (simp add: upd_within_kaddr [OF t(3)])
  define w where "w = poke8 ?e 0 t"
  have u: "upd_within {?e} t w" unfolding w_def by (rule upd_within_poke8 [OF ke]) simp
  have ns: "?e \<notin> span out (?i + ?n)"
    using span_apart [of "?i + ?n" "?i + ?n" 1 out] len by (simp add: p_def add.assoc)
  have split: "span out ?i \<subseteq> span out (?i + ?n)" "span p ?n \<subseteq> span out (?i + ?n)"
    using span_mono [of ?i "?i + ?n" out] span_shift [of ?i ?n "?i + ?n" out] by (auto simp: p_def)
  have "span out ?i \<inter> span p ?n = {}" unfolding p_def by (rule span_apart) (use len in simp_all)
  then have "blk t out dn" by (intro upd_within_blk [OF t(3) _ d]) simp
  then have d4: "blk w out dn" by (intro upd_within_blk [OF u]) (use ns split in auto)
  have t4: "blk w p txt" by (rule upd_within_blk [OF u _ t(2)]) (use ns split in auto)
  have "0 \<notin> set txt" using q by (simp add: cstr_def)
  moreover have "peek8 w ?e = 0" "kaddr w ?e" using ke upd_within_kaddr [OF u] by (simp_all add: w_def peek8_poke8)
  ultimately have "cstr w out (dn @ txt)" using d4 t4 z by (simp add: cstr_append cstr_def blk_append p_def)
  moreover have "?e \<in> span p (Suc ?n)" by (rule span_at) simp
  then have "upd_within (span p (Suc ?n)) s w"
    using upd_within_trans [OF upd_within_mono [OF t(3) pn] upd_within_mono [OF u]] by simp
  ultimately show ?thesis using t(1) ke qt unfolding w_def by blast
qed

lemma insert_str_spec:
  assumes out: "cstr s out (dn @ c # k # rest)" and q: "cstr s q txt" and r: "room s out 100" "room s (insert_m po) 100"
    and len: "length dn + 2 + length rest \<le> 99" "length dn + length txt + length rest \<le> 99"
    and apart: "span out 100 \<inter> span (insert_m po) 100 = {}" "span q (Suc (length txt)) \<inter> (span out 100 \<union> span (insert_m po) 100) = {}"
  shows "\<exists>t. insert_str po out q (of_nat (length dn)) s = Inr ((), t) \<and> cstr t out (dn @ txt @ rest) \<and> cstr t q txt \<and>
    upd_within (span out 100 \<union> span (insert_m po) 100) s t"
proof -
  let ?m = "insert_m po" and ?n = "length txt"
  let ?p = "out + of_nat (length dn)" and ?W = "span out 100 \<union> span (insert_m po) 100"
  from save_tail_spec [OF out r(2) len(1) apart(1)] obtain s1 s2 where
    s2: "memset_loop 100 ?m 0 s = Inr ((), s1)" "strcpy ?m (?p + 2) s1 = Inr (?m, s2)" "cstr s2 ?m rest" "blk s2 out dn"
      "upd_within (span ?m 100) s s2" by blast
  have q2: "cstr s2 q txt" by (rule upd_within_cstr [OF s2(5) _ q]) (use apart(2) in blast)
  have z: "0 \<notin> set dn" using out by (simp add: cstr_def)
  have aq: "span q (Suc ?n) \<inter> span out 100 = {}" using apart(2) by blast
  have l2: "length dn + ?n \<le> 99" using len(2) by simp
  from write_arg_spec [OF s2(4) q2 z r(1) [folded upd_within_room [OF s2(5)]] l2 aq] obtain s3 where
    s3: "memcpy ?p q (of_nat ?n) s2 = Inr ((), s3)" "kaddr s3 (?p + of_nat ?n)" "cstr s3 q txt"
      "cstr (poke8 (?p + of_nat ?n) 0 s3) out (dn @ txt)" "upd_within (span ?p (Suc ?n)) s2 (poke8 (?p + of_nat ?n) 0 s3)" by blast
  define s4 where "s4 = poke8 (?p + of_nat ?n) 0 s3"
  note c4 = s3(4) [folded s4_def] and u4 = s3(5) [folded s4_def]
  have qs: "span ?p (Suc ?n) \<subseteq> span out 100" by (rule span_shift) (use len(2) in simp)
  have sm: "span ?m (Suc (length rest)) \<subseteq> span ?m 100" using len(1) by (intro span_mono) simp
  have m4: "cstr s4 ?m rest" by (rule upd_within_cstr [OF u4 _ s2(3)]) (use sm qs apart(1) in blast)
  have q4: "cstr s4 q txt" by (rule upd_within_cstr [OF u4 _ q2]) (use aq qs in blast)
  have u04: "upd_within ?W s s4" using upd_within_trans [OF upd_within_mono [OF s2(5)] upd_within_mono [OF u4]] qs by blast
  have L: "Suc (length (dn @ txt) + length rest) \<le> 100" using len(2) by simp
  have ro: "room s4 out (Suc (length (dn @ txt) + length rest))" using room_mono [OF r(1) L] by (simp only: upd_within_room [OF u04])
  have so: "span out (Suc (length (dn @ txt) + length rest)) \<subseteq> span out 100" by (rule span_mono [OF L])
  have "span out (Suc (length (dn @ txt) + length rest)) \<inter> span ?m (Suc (length rest)) = {}" using so sm apart(1) by blast
  from strcat_spec [OF c4 m4 ro this] obtain t where
    t: "strcat out ?m s4 = Inr (out, t)" "cstr t out ((dn @ txt) @ rest)" "upd_within (span out (Suc (length (dn @ txt) + length rest))) s4 t" by blast
  have "cstr t q txt" by (rule upd_within_cstr [OF t(3) _ q4]) (use aq so in blast)
  moreover have "upd_within ?W s t" using upd_within_trans [OF u04 upd_within_mono [OF t(3)]] so by blast
  moreover have "insert_str po out q (of_nat (length dn)) s = Inr ((), t)"
    using s2(1,2) strlen_spec [OF q2] s3(1) strlen_spec [OF s3(3)] s3(2) t(1)
    by (simp add: insert_str_def cseq_def cbind_def store8_kaddr s4_def [symmetric] ret_def)
  ultimately show ?thesis using t(2) by auto
qed

text \<open>The arguments a conversion can take: strings outside the work area, numbers that are not negative for hexadecimal.\<close>

definition good_arg :: "printk_objs \<Rightarrow> addr \<Rightarrow> 'z machine_scheme \<Rightarrow> (addr \<Rightarrow> u8 list) \<Rightarrow> u8 \<Rightarrow> u32 \<Rightarrow> bool" where
  "good_arg po arr s str k a \<longleftrightarrow> (k = 115 \<longrightarrow> outside_text po arr s a (str a)) \<and> (k = 72 \<or> k = 104 \<longrightarrow> a < 0x80000000)"

lemma good_arg_upd: "upd_within (work_bytes po arr) s t \<Longrightarrow> good_arg po arr s str k a \<Longrightarrow> good_arg po arr t str k a"
  using outside_upd by (auto simp: good_arg_def)

lemma hex8_0: "hex8 0 = replicate 8 48"
proof -
  have "digits 16 0 = [48]" by (simp add: digits.simps bit_digits_def)
  then show ?thesis by (simp add: hex8_def eval_nat_numeral)
qed

lemma conversion_spec:
  assumes ok: "printk_ok po arr s" and k: "converts k" and g: "good_arg po arr s str k a"
  shows "\<exists>p t. conversion po k a s = Inr (p, t) \<and> cstr t p (arg_text str k a) \<and> upd_within (work_bytes po arr) s t \<and>
    (\<forall>q cs. cstr s q cs \<and> span q (Suc (length cs)) \<subseteq> span arr 100 \<longrightarrow> cstr t q cs) \<and>
    span p (Suc (length (arg_text str k a))) \<inter> (span arr 100 \<union> span (insert_m po) 100) = {}"
proof -
  let ?S = "strings po"
  let ?B = "span (static_m ?S) 32 \<union> hex_bytes ?S"
  have B: "?B \<subseteq> work_bytes po arr" "?B \<inter> (span arr 100 \<union> span (insert_m po) 100) = {}"
    "span arr 100 \<union> span (insert_m po) 100 \<subseteq> work_bytes po arr"
    using ok by (auto simp: work_bytes_def printk_ok_def)
  have keep: "upd_within (work_bytes po arr) s t \<and> (\<forall>q cs. cstr s q cs \<and> span q (Suc (length cs)) \<subseteq> span arr 100 \<longrightarrow> cstr t q cs)"
    if u: "upd_within ?B s t" for t
    using upd_within_mono [OF u B(1)] upd_within_cstr [OF u] B(2) by blast
  have plain: "cstr s p cs \<Longrightarrow> span p (Suc (length cs)) \<inter> work_bytes po arr = {} \<Longrightarrow> conversion po k a s = Inr (p, s) \<Longrightarrow> arg_text str k a = cs \<Longrightarrow> ?thesis"
    for p cs using keep [of s] B(3) upd_within_refl by blast
  consider (s) "k = 115" | (d) "k = 100" | (zero) "k = 72 \<or> k = 104" "a = 0" | (hex) "k = 72 \<or> k = 104" "a \<noteq> 0"
    using k by (auto simp: converts_def)
  then show ?thesis
  proof cases
    case s
    show ?thesis by (rule plain) (use s g in \<open>simp_all add: good_arg_def outside_text_def conversion_def arg_text_def ret_def\<close>)
  next
    case d
    let ?ds = "rev (digits 10 (unat a))"
    have "room s (static_m ?S) 32" using ok by (simp add: printk_ok_def)
    from uintTostring_spec [OF this, of a] obtain t where
      t: "uintTostring ?S a s = Inr (static_m ?S, t)" "cstr t (static_m ?S) ?ds" "upd_within (span (static_m ?S) 32) s t" by blast
    have "unat a < 10 ^ Suc 9" using unat_u32_less [of a] by simp
    then have "length (digits 10 (unat a)) \<le> 10" using digits_length [of 10 "unat a" 9] by simp
    then have "span (static_m ?S) (Suc (length ?ds)) \<subseteq> ?B" using span_mono [of "Suc (length ?ds)" 32 "static_m ?S"] by auto
    moreover have "upd_within ?B s t" by (rule upd_within_mono [OF t(3)]) simp
    ultimately show ?thesis using keep [of t] B(2) t(1,2) d by (intro exI [of _ "static_m ?S"] exI [of _ t]) (auto simp: conversion_def arg_text_def)
  next
    case zero
    define p where "p = (if k = 72 then lit_0x00000000 ?S else lit_00000000 ?S)"
    have c: "cstr s p (arg_text str k a)" "span p (Suc (length (arg_text str k a))) \<inter> work_bytes po arr = {}"
      using ok zero by (auto simp: printk_ok_def p_def arg_text_def hex8_0 simp del: cstr_Cons span.simps)
    show ?thesis by (rule plain [OF c]) (use zero in \<open>auto simp: conversion_def num2hexstr_def ret_def p_def\<close>)
  next
    case hex
    let ?n = "unat a"
    have n: "0 < ?n" "?n < 2 ^ 31" using hex g by (auto simp: good_arg_def word_less_nat_alt unat_gt_0)
    have sa: "sint a = int ?n" using sint_small [OF n(2)] by simp
    have "hex_objs ?S s" using ok by (simp add: printk_ok_def)
    from num2hexstr_spec [OF n this, of "k = 72"] obtain t where
      t: "num2hexstr ?S (int ?n) (k = 72) s = Inr (static_hexstr ?S, t)" "cstr t (static_hexstr ?S) (if k = 72 then 48 # 120 # hex8 ?n else hex8 ?n)"
        "upd_within (hex_bytes ?S) s t" by blast
    have at: "arg_text str k a = (if k = 72 then 48 # 120 # hex8 ?n else hex8 ?n)" using hex(1) by (auto simp: arg_text_def)
    have "Suc (length (arg_text str k a)) \<le> 11" using hex8_length [OF n(2)] by (simp add: at)
    then have "span (static_hexstr ?S) (Suc (length (arg_text str k a))) \<subseteq> ?B"
      using span_mono [of "Suc (length (arg_text str k a))" 11 "static_hexstr ?S"] by (auto simp: hex_bytes_def)
    moreover have "upd_within ?B s t" by (rule upd_within_mono [OF t(3)]) simp
    moreover have "conversion po k a s = Inr (static_hexstr ?S, t)" using t(1) hex(1) sa by (auto simp: conversion_def)
    ultimately show ?thesis using keep [of t] B(2) t(2) unfolding at by blast
  qed
qed

subsection \<open>The whole format\<close>

text \<open>The conversions of a format with their arguments.\<close>

function converted :: "u8 list \<Rightarrow> u32 list \<Rightarrow> (u8 \<times> u32) list" where
  "converted fmt args =
     (case fmt of
        [] \<Rightarrow> []
      | c # rest \<Rightarrow>
          if c = 37 \<and> rest \<noteq> [] \<and> converts (hd rest)
          then (case args of [] \<Rightarrow> [] | a # as \<Rightarrow> (hd rest, a) # converted (tl rest) as)
          else converted rest args)"
  by auto
termination
  by (relation "measure (\<lambda>(fmt, _). length fmt)") auto

declare converted.simps [simp del]

lemma cstr_at: "cstr s p (as @ bs) \<Longrightarrow> cstr s (p + of_int (int (length as))) bs"
  by (simp add: cstr_append)

lemma printk_percent_spec:
  assumes ok: "printk_ok po arr s" and c: "cstr s arr (dn @ 37 # k # rest)" and k: "converts k" and g: "good_arg po arr s str k a"
    and len: "length dn + 2 + length rest \<le> 99" "length dn + length (arg_text str k a) + length rest \<le> 99"
  shows "\<exists>t. printk_percent po arr (int (length dn)) (a # as) s = Inr ((int (length dn) + int (length (arg_text str k a)) - 1, as), t) \<and>
    cstr t arr (dn @ arg_text str k a @ rest) \<and> upd_within (work_bytes po arr) s t"
proof -
  let ?W = "span arr 100 \<union> span (insert_m po) 100"
  from conversion_spec [OF ok k g] obtain p u where
    u: "conversion po k a s = Inr (p, u)" "cstr u p (arg_text str k a)" "upd_within (work_bytes po arr) s u"
      "\<forall>q cs. cstr s q cs \<and> span q (Suc (length cs)) \<subseteq> span arr 100 \<longrightarrow> cstr u q cs"
      "span p (Suc (length (arg_text str k a))) \<inter> ?W = {}" by blast
  have "span arr (Suc (length (dn @ 37 # k # rest))) \<subseteq> span arr 100" by (rule span_mono) (use len(1) in simp)
  then have cu: "cstr u arr (dn @ 37 # k # rest)" using u(4) c by blast
  have ok': "printk_ok po arr u" by (rule printk_ok_upd [OF u(3) ok])
  then have r: "room u arr 100" "room u (insert_m po) 100" "span arr 100 \<inter> span (insert_m po) 100 = {}" by (simp_all add: printk_ok_def)
  from insert_str_spec [OF cu u(2) r(1,2) len r(3) u(5)] obtain t where
    t: "insert_str po arr p (of_nat (length dn)) u = Inr ((), t)" "cstr t arr (dn @ arg_text str k a @ rest)" "cstr t p (arg_text str k a)"
      "upd_within ?W u t" by blast
  have "load8 (arr + of_int (int (length dn)) + 1) s = Inr (k, s)" using cstr_at [OF c] by (simp add: load8_kaddr)
  then have "printk_percent po arr (int (length dn)) (a # as) s = Inr ((int (length dn) + int (length (arg_text str k a)) - 1, as), t)"
    using k u(1) t(1) strlen_spec [OF t(3)] by (simp add: printk_percent_def va_arg_def cbind_def cseq_def ret_def)
  moreover have "upd_within (work_bytes po arr) s t"
    by (rule upd_within_trans [OF u(3) upd_within_mono [OF t(4)]]) (auto simp: work_bytes_def)
  ultimately show ?thesis using t(2) by blast
qed

lemma printk_plain:
  assumes "cstr s arr (dn @ c # rest)" "\<not> (c = 37 \<and> rest \<noteq> [] \<and> converts (hd rest))"
  shows "(if c = 37 then printk_percent po arr (int (length dn)) args else ret (int (length dn), args)) s = Inr ((int (length dn), args), s)"
proof (cases rest)
  case Nil
  then have "load8 (arr + of_int (int (length dn)) + 1) s = Inr (0, s)" using cstr_at [OF assms(1)] by (simp add: load8_kaddr)
  then show ?thesis by (simp add: printk_percent_def cbind_def ret_def converts_def)
next
  case (Cons k ks)
  then have "load8 (arr + of_int (int (length dn)) + 1) s = Inr (k, s)" using cstr_at [OF assms(1)] by (simp add: load8_kaddr)
  then show ?thesis using assms(2) Cons by (simp add: printk_percent_def cbind_def ret_def)
qed

lemma printk_loop_spec:
  assumes "render (arg_text str) acc fmt args = Some res" "printk_ok po arr s" "cstr s arr (acc @ fmt)"
    "\<forall>(k, a) \<in> set (converted fmt args). good_arg po arr s str k a"
  shows "\<exists>t. printk_loop po arr (int (length acc)) args s = Some (Inr ((), t)) \<and> cstr t arr res \<and> upd_within (work_bytes po arr) s t"
  using assms
proof (induction fmt arbitrary: acc args s rule: length_induct)
  case (1 fmt)
  note P = 1(2-5) and step = render.simps [of "arg_text str" acc fmt args] and cv = converted.simps [of fmt args]
  have len: "length acc + length fmt \<le> 99" using P(1) step by (auto split: if_splits)
  show ?case
  proof (cases fmt)
    case Nil
    then have "load8 (arr + of_int (int (length acc))) s = Inr (0, s)" using cstr_at [OF P(3)] by (simp add: load8_kaddr)
    moreover have "res = acc" using P(1) step Nil by (simp split: if_splits)
    ultimately show ?thesis using P(3) Nil upd_within_refl by (subst printk_loop.simps) auto
  next
    case (Cons c rest)
    have c: "load8 (arr + of_int (int (length acc))) s = Inr (c, s)" "c \<noteq> 0" using cstr_at [OF P(3)] Cons by (simp_all add: load8_kaddr)
    show ?thesis
    proof (cases "c = 37 \<and> rest \<noteq> [] \<and> converts (hd rest)")
      case True
      then obtain k ks where ks: "rest = k # ks" "converts k" by (cases rest) auto
      obtain a as where a: "args = a # as" using P(1) step Cons True by (cases args) (auto split: if_splits)
      let ?tx = "arg_text str k a"
      have rd: "render (arg_text str) (acc @ ?tx) ks as = Some res" using P(1) step Cons True a ks by (simp split: if_splits)
      then have l2: "length acc + length ?tx + length ks \<le> 99" using render.simps [of "arg_text str" "acc @ ?tx" ks as] by (auto split: if_splits)
      have cn: "converted fmt args = (k, a) # converted ks as" using cv Cons True a ks by simp
      then have g: "good_arg po arr s str k a" using P(4) by auto
      have cc: "cstr s arr (acc @ 37 # k # ks)" using P(3) Cons True ks by simp
      from printk_percent_spec [OF P(2) cc ks(2) g _ l2, of as] len Cons ks obtain t where
        t: "printk_percent po arr (int (length acc)) args s = Inr ((int (length acc) + int (length ?tx) - 1, as), t)"
          "cstr t arr ((acc @ ?tx) @ ks)" "upd_within (work_bytes po arr) s t" by (auto simp: a)
      have gs: "\<forall>(k, a) \<in> set (converted ks as). good_arg po arr t str k a" using P(4) good_arg_upd [OF t(3)] by (auto simp: cn)
      have lt: "length ks < length fmt" using Cons ks by simp
      from 1(1) [THEN spec, THEN mp, OF lt, THEN spec, THEN spec, THEN mp, OF rd, THEN spec, THEN mp, OF printk_ok_upd [OF t(3) P(2)],
          THEN mp, OF t(2), THEN mp, OF gs] obtain u where
        u: "printk_loop po arr (int (length (acc @ ?tx))) as t = Some (Inr ((), u))" "cstr u arr res" "upd_within (work_bytes po arr) t u" by blast
      have "printk_loop po arr (int (length acc)) args s = Some (Inr ((), u))"
        using c t(1) u(1) True by (subst printk_loop.simps) simp
      then show ?thesis using u(2) upd_within_trans [OF t(3) u(3)] by blast
    next
      case False
      have rd: "render (arg_text str) (acc @ [c]) rest args = Some res" using P(1) step Cons False by (auto split: if_splits)
      have cn: "converted fmt args = converted rest args" unfolding cv unfolding Cons list.case if_not_P [OF False] ..
      have cs: "cstr s arr ((acc @ [c]) @ rest)" using P(3) Cons by simp
      have lt: "length rest < length fmt" using Cons by simp
      from 1(1) [THEN spec, THEN mp, OF lt, THEN spec, THEN spec, THEN mp, OF rd, THEN spec, THEN mp, OF P(2),
          THEN mp, OF cs, THEN mp, OF P(4) [unfolded cn]] obtain u where
        u: "printk_loop po arr (int (length (acc @ [c]))) args s = Some (Inr ((), u))" "cstr u arr res" "upd_within (work_bytes po arr) s u" by blast
      have cc: "cstr s arr (acc @ c # rest)" using P(3) Cons by simp
      have "printk_loop po arr (int (length acc)) args s = Some (Inr ((), u))"
        using c printk_plain [OF cc False, of po args] u(1) by (subst printk_loop.simps) (simp add: add.commute)
      then show ?thesis using u(2,3) by blast
    qed
  qed
qed

lemma printk_text_spec:
  assumes ok: "printk_ok po arr s" and f: "outside_text po arr s fmt_p fmt"
    and r: "render (arg_text str) [] fmt args = Some res" and g: "\<forall>(k, a) \<in> set (converted fmt args). good_arg po arr s str k a"
  shows "\<exists>t. printk_text po arr fmt_p args s = Inr ((), t) \<and> cstr t arr res \<and> upd_within (work_bytes po arr) s t"
proof -
  have len: "Suc (length fmt) \<le> 100" using r render.simps [of "arg_text str" "[]" fmt args] by (auto split: if_splits)
  have c: "cstr s fmt_p fmt" "span fmt_p (Suc (length fmt)) \<inter> work_bytes po arr = {}" using f by (simp_all add: outside_text_def)
  have sub: "span arr (Suc (length fmt)) \<subseteq> span arr 100" "span arr 100 \<subseteq> work_bytes po arr"
    using span_mono [OF len] by (auto simp: work_bytes_def)
  have rm: "room s arr (Suc (length fmt))" by (rule room_mono [OF _ len]) (use ok in \<open>simp add: printk_ok_def\<close>)
  have ap: "span arr (Suc (length fmt)) \<inter> span fmt_p (Suc (length fmt)) = {}" using c(2) sub by blast
  from strcpy_spec [OF c(1) rm ap] obtain s1 where
    s1: "strcpy arr fmt_p s = Inr (arr, s1)" "cstr s1 arr fmt" "upd_within (span arr (Suc (length fmt))) s s1" by blast
  have u1: "upd_within (work_bytes po arr) s s1" by (rule upd_within_mono [OF s1(3)]) (use sub in blast)
  have g1: "\<forall>(k, a) \<in> set (converted fmt args). good_arg po arr s1 str k a" using g good_arg_upd [OF u1] by auto
  have c1: "cstr s1 arr ([] @ fmt)" using s1(2) by simp
  from printk_loop_spec [OF r printk_ok_upd [OF u1 ok] c1 g1] obtain t where
    t: "printk_loop po arr 0 args s1 = Some (Inr ((), t))" "cstr t arr res" "upd_within (work_bytes po arr) s1 t" by auto
  then show ?thesis using s1(1) upd_within_trans [OF u1 t(3)] by (intro exI [of _ t]) (simp add: printk_text_def cbind_def)
qed

lemma upd_keeps_screen:
  assumes "upd_within B s (t :: 'z vga_machine_scheme)"
  shows "vga_ok t = vga_ok s" "screen_of t = screen_of s" "ports_out t = ports_out s"
  using assms by (auto simp: upd_within_def tables_same_def vga_ok_def screen_of_def)

lemma printk_on:
  fixes s :: "'z vga_machine_scheme"
  assumes "printk_ok po arr s" "vga_ok s" "outside_text po arr s fmt_p fmt" "render (arg_text str) [] fmt args = Some res"
    "\<forall>(k, a) \<in> set (converted fmt args). good_arg po arr s str k a"
  shows "\<exists>u t. cseq (printk_text po arr fmt_p args) (kputs_color arr bg fg) s = Inr ((), t) \<and> vga_ok t \<and>
    screen_of t = fold (term_char (color_attr bg fg)) res (screen_of s) \<and> upd_within (work_bytes po arr) s u \<and> vga_frame u t"
proof -
  from printk_text_spec [OF assms(1,3-5)] obtain u where
    u: "printk_text po arr fmt_p args s = Inr ((), u)" "cstr u arr res" "upd_within (work_bytes po arr) s u" by blast
  note k = upd_keeps_screen [OF u(3)]
  have "vga_ok u" using assms(2) k(1) by simp
  from kputs_loop_spec [OF u(2) this, of bg fg] obtain t where
    t: "kputs_loop bg fg arr u = Some (Inr ((), t))" "vga_ok t" "vga_frame u t"
      "screen_of t = fold (term_char (color_attr bg fg)) res (screen_of u)" by blast
  then show ?thesis using u(1,3) k(2) by (intro exI [of _ u] exI [of _ t]) (simp add: cseq_def cbind_def kputs_color_def)
qed

text \<open>A format that is one conversion.\<close>

lemma printk_one:
  fixes s :: "'z vga_machine_scheme"
  assumes "printk_ok po (printk_arry po) s" "vga_ok s" "outside_text po (printk_arry po) s lit [37, k]"
    and "converts k" "good_arg po (printk_arry po) s str k a" "length (arg_text str k a) \<le> 99"
  shows "\<exists>u t. printk po lit [a] s = Inr ((), t) \<and> vga_ok t \<and>
    screen_of t = fold (term_char (color_attr black white)) (arg_text str k a) (screen_of s) \<and>
    upd_within (work_bytes po (printk_arry po)) s u \<and> vga_frame u t"
proof -
  have "converted [37, k] [a] = [(k, a)]" using assms(4) by (simp add: converted.simps [of "[37, k]"] converted.simps [of "[]"])
  then have g: "\<forall>(k, a) \<in> set (converted [37, k] [a]). good_arg po (printk_arry po) s str k a" using assms(5) by simp
  have "render (arg_text str) [] [37, k] [a] = Some (arg_text str k a)"
    using assms(4,6) by (simp add: render.simps [of _ _ "[37, k]"] render.simps [of _ _ "[]"])
  from printk_on [OF assms(1-3) this g, of black white] show ?thesis by (simp add: printk_def kputs_def)
qed

lemma decimal_length: "length (rev (digits 10 (unat (num :: u32)))) \<le> 99"
proof -
  have "unat num < 10 ^ Suc 9" using unat_u32_less [of num] by simp
  then show ?thesis using digits_length [of 10 "unat num" 9] by simp
qed

subsection \<open>Properties\<close>

text \<open>
  C18: \<open>printk\<close> shows on the terminal exactly the text the format stands for: the characters of
  the format with every \<open>%s\<close>, \<open>%d\<close>, \<open>%H\<close> and \<open>%h\<close> replaced by its argument, in white on
  black, and \<open>printk_color\<close> in the given colours; a replaced text is not expanded again. They
  always return and write nothing but their own buffers and the screen, provided that the
  text with the rest of the format never exceeds the 99 characters of the static array.
\<close>

theorem printk_correct:
  fixes s :: "'z vga_machine_scheme"
  assumes "printk_ok po (if colored then color_arry po else printk_arry po) s" "vga_ok s"
    and "outside_text po (if colored then color_arry po else printk_arry po) s fmt_p fmt"
    and "render (arg_text str) [] fmt args = Some res"
    and "\<forall>(k, a) \<in> set (converted fmt args). good_arg po (if colored then color_arry po else printk_arry po) s str k a"
  shows "\<exists>u t. (if colored then printk_color po fmt_p bg fg args else printk po fmt_p args) s = Inr ((), t) \<and> vga_ok t \<and>
    screen_of t = fold (term_char (if colored then color_attr bg fg else color_attr black white)) res (screen_of s) \<and>
    upd_within (work_bytes po (if colored then color_arry po else printk_arry po)) s u \<and> vga_frame u t"
proof (cases colored)
  case True
  with printk_on [of po "color_arry po" s, of fmt_p fmt str args res bg fg] assms show ?thesis by (simp add: printk_color_def)
next
  case False
  with printk_on [of po "printk_arry po" s, of fmt_p fmt str args res black white] assms show ?thesis by (simp add: printk_def kputs_def)
qed

text \<open>The boot machine with the literals of the kernel in memory.\<close>

definition boot_printk :: printk_objs where
  "boot_printk = \<lparr>printk_arry = 0xc0011000, color_arry = 0xc0011080, insert_m = 0xc0011100, strings = boot_objs,
     lit_percent_s = 0xc0010110, lit_percent_d = 0xc0010118, lit_version = 0xc0010130, lit_starting = 0xc0010180\<rparr>"

definition boot_literals :: "u8 list" where
  "boot_literals = (48 # 120 # replicate 8 48 @ [0]) @ replicate 21 0 @ (replicate 8 48 @ [0]) @ replicate 24 0 @ replicate 79 0 @
     [37, 115, 0, 0, 0, 0, 0, 0, 37, 100, 0, 0, 0, 0, 0, 0, 79, 75, 0]"

lemma low_span: "a \<in> span 0xc0010060 32 \<or> a \<in> span 0xc0010000 11 \<or> a \<in> span 0xc0010020 9 \<or> a \<in> span 0xc0010040 9 \<Longrightarrow> unat a < 0xc0010080"
  using span_bounds [of "0xc0010060" 32 a] span_bounds [of "0xc0010000" 11 a] span_bounds [of "0xc0010020" 9 a] span_bounds [of "0xc0010040" 9 a]
  by (elim disjE) simp_all

lemma high_span: "a \<in> span 0xc0011000 100 \<or> a \<in> span 0xc0011080 100 \<or> a \<in> span 0xc0011100 100 \<Longrightarrow> 0xc0011000 \<le> unat a"
  using span_bounds [of "0xc0011000" 100 a] span_bounds [of "0xc0011080" 100 a] span_bounds [of "0xc0011100" 100 a]
  by (elim disjE) simp_all

lemma boot_work_bytes:
  assumes "a \<in> work_bytes boot_printk arr" "arr = 0xc0011000 \<or> arr = 0xc0011080"
  shows "unat a < 0xc0010080 \<or> 0xc0011000 \<le> unat a"
proof -
  have "a \<in> span arr 100 \<or> a \<in> span 0xc0011100 100 \<or> a \<in> span 0xc0010060 32 \<or> a \<in> span 0xc0010000 11 \<or> a \<in> span 0xc0010020 9 \<or> a \<in> span 0xc0010040 9"
    using assms(1) unfolding work_bytes_def hex_bytes_def boot_printk_def boot_objs_def printk_objs.simps string_objs.simps Un_iff by blast
  then show ?thesis using assms(2) low_span [of a] high_span [of a] by blast
qed

lemma boot_outside:
  assumes "cstr s p cs" "0xc0010080 \<le> unat p" "unat p + Suc (length cs) \<le> 0xc0011000" "arr = 0xc0011000 \<or> arr = 0xc0011080"
  shows "outside_text boot_printk arr s p cs"
proof -
  have "a \<notin> work_bytes boot_printk arr" if a: "a \<in> span p (Suc (length cs))" for a
  proof
    assume "a \<in> work_bytes boot_printk arr"
    from boot_work_bytes [OF this assms(4)] span_bounds [OF _ a] assms(2,3) show False by (elim disjE) simp_all
  qed
  then show ?thesis using assms(1) by (auto simp: outside_text_def)
qed

lemma blk_part: "blk s p bs \<Longrightarrow> i \<le> length bs \<Longrightarrow> blk s (p + of_nat i) (take n (drop i bs))"
  by (metis append_take_drop_id blk_append length_take min.absorb2)

lemma boot_literals_length: "length boot_literals = 163"
  by (simp add: boot_literals_def)

lemma boot_printk_any:
  assumes s0: "blk s0 0xc0010080 boot_literals" and rm0: "\<And>p n. 0xc0000000 \<le> p \<Longrightarrow> unat p + n \<le> 0xc0100000 \<Longrightarrow> room s0 p n"
  shows "printk_ok boot_printk 0xc0011000 (with_screen s0) \<and> outside_text boot_printk 0xc0011000 (with_screen s0) 0xc0010110 [37, 115] \<and>
     outside_text boot_printk 0xc0011000 (with_screen s0) 0xc0010118 [37, 100] \<and> outside_text boot_printk 0xc0011000 (with_screen s0) 0xc0010120 [79, 75]"
proof -
  note len = boot_literals_length
  let ?s = "with_screen s0"
  have rm: "room ?s p n" if "0xc0000000 \<le> p" "unat p + n \<le> 0xc0100000" for p n
    using rm0 [OF that] by (simp add: room_def with_screen_mem)
  have t: "cstr s0 p cs" if "p = 0xc0010080 + of_nat i" "take n (drop i boot_literals) = cs @ [0]" "0 \<notin> set cs" "i \<le> 163" for i n p cs
    using blk_part [OF s0, of i n] that len by (simp add: cstr_def)
  have parts: "take 11 (drop 0 boot_literals) = (48 # 120 # replicate 8 48) @ [0]" "take 9 (drop 32 boot_literals) = replicate 8 48 @ [0]"
    "take 1 (drop 64 boot_literals) = [] @ [0]" "take 3 (drop 144 boot_literals) = [37, 115] @ [0]"
    "take 3 (drop 152 boot_literals) = [37, 100] @ [0]" "take 3 (drop 160 boot_literals) = [79, 75] @ [0]"
    by code_simp+
  have lits: "cstr ?s 0xc0010080 (48 # 120 # replicate 8 48)" "cstr ?s 0xc00100a0 (replicate 8 48)" "cstr ?s 0xc00100c0 []"
    "cstr ?s 0xc0010110 [37, 115]" "cstr ?s 0xc0010118 [37, 100]" "cstr ?s 0xc0010120 [79, 75]"
    unfolding with_screen_cstr
    using t [OF _ parts(1)] t [OF _ parts(2)] t [OF _ parts(3)] t [OF _ parts(4)] t [OF _ parts(5)] t [OF _ parts(6)] by simp_all
  note out = boot_outside [where arr = "0xc0011000", OF _ _ _ disjI1 [OF refl]]
  have o: "outside_text boot_printk 0xc0011000 ?s 0xc0010080 (48 # 120 # replicate 8 48)" "outside_text boot_printk 0xc0011000 ?s 0xc00100a0 (replicate 8 48)"
    "outside_text boot_printk 0xc0011000 ?s 0xc00100c0 []" "outside_text boot_printk 0xc0011000 ?s 0xc0010110 [37, 115]"
    "outside_text boot_printk 0xc0011000 ?s 0xc0010118 [37, 100]" "outside_text boot_printk 0xc0011000 ?s 0xc0010120 [79, 75]"
    using out [OF lits(1)] out [OF lits(2)] out [OF lits(3)] out [OF lits(4)] out [OF lits(5)] out [OF lits(6)] by simp_all
  have sep: "span (0xc0011000 :: addr) 100 \<inter> span 0xc0011100 100 = {}" by (rule span_sep; simp)
  have apart: "(span (0xc0011000 :: addr) 100 \<union> span 0xc0011100 100) \<inter> (span 0xc0010060 32 \<union> hex_bytes boot_objs) = {}"
    (is "?A \<inter> ?B = {}")
  proof -
    have False if "a \<in> ?A" "a \<in> ?B" for a
    proof -
      have "0xc0011000 \<le> unat a" using that(1) high_span by blast
      moreover have "unat a < 0xc0010080" using that(2) low_span unfolding hex_bytes_def boot_objs_def string_objs.simps by blast
      ultimately show False by simp
    qed
    then show ?thesis by blast
  qed
  have h3: "span (0xc0010000 :: addr) 11 \<inter> span 0xc0010020 9 = {}" "span (0xc0010000 :: addr) 11 \<inter> span 0xc0010040 9 = {}"
    "span (0xc0010020 :: addr) 9 \<inter> span 0xc0010040 9 = {}" by (rule span_sep; simp)+
  have le: "0xc00100c0 \<notin> work_bytes boot_printk 0xc0011000" using o(3) by (simp add: outside_text_def)
  have "hex_objs boot_objs ?s"
    using rm h3 lits(3) le
    by (simp add: hex_objs_def boot_objs_def work_bytes_def hex_bytes_def boot_printk_def del: room_Suc span.simps cstr_Nil)
  then have "printk_ok boot_printk 0xc0011000 ?s"
    using o(1,2) sep apart le rm
    by (simp add: printk_ok_def boot_printk_def outside_text_def boot_objs_def del: room_Suc span.simps cstr_Nil cstr_Cons)
  then show ?thesis using o(4-6) by simp
qed

lemma boot_printk_ok:
  "\<exists>s :: vga_machine. vga_ok s \<and> printk_ok boot_printk 0xc0011000 s \<and> outside_text boot_printk 0xc0011000 s 0xc0010110 [37, 115] \<and>
     outside_text boot_printk 0xc0011000 s 0xc0010118 [37, 100] \<and> outside_text boot_printk 0xc0011000 s 0xc0010120 [79, 75]"
proof -
  have "room boot_machine 0xc0010080 (length boot_literals)" by (rule boot_room) (simp_all add: boot_literals_length)
  then obtain s0 where s0: "blk s0 0xc0010080 boot_literals" "upd_within (span 0xc0010080 (length boot_literals)) boot_machine s0"
    using put_blk by blast
  have "room s0 p n" if "0xc0000000 \<le> p" "unat p + n \<le> 0xc0100000" for p n
    using boot_room [OF that] upd_within_room [OF s0(2), of p n] by simp
  from boot_printk_any [OF s0(1) this] with_screen_ok show ?thesis by blast
qed

theorem printk_correct_witness:
  "\<exists>(s :: vga_machine) t. printk boot_printk 0xc0010118 [42] s = Inr ((), t) \<and>
     screen_of t = fold (term_char 0x0F) [52, 50] (screen_of s)"
proof -
  from boot_printk_ok obtain s :: vga_machine where
    s: "vga_ok s" "printk_ok boot_printk 0xc0011000 s" "outside_text boot_printk 0xc0011000 s 0xc0010118 [37, 100]" by blast
  have cv: "converted [37, 100] [42] = [(100, 42)]"
    by (simp add: converted.simps [of "[37, 100]"] converted.simps [of "[]"] converts_def)
  have dg: "digits 10 42 = [50, 52]" by code_simp
  have rd: "render (arg_text (\<lambda>_. [])) [] [37, 100] [42] = Some [52, 50]"
    by (simp add: render.simps [of _ _ "[37, 100]"] render.simps [of _ _ "[]"] converts_def arg_text_def dg)
  have a: "(if False then color_arry boot_printk else printk_arry boot_printk) = 0xc0011000" by (simp add: boot_printk_def)
  have "\<forall>(k, a) \<in> set (converted [37, 100] [42]). good_arg boot_printk 0xc0011000 s (\<lambda>_. []) k a" by (simp add: cv good_arg_def)
  from printk_correct [of boot_printk False s, unfolded a, OF s(2,1,3) rd this, of black white] show ?thesis by (auto simp: color_attr_def)
qed

text \<open>
  \<open>put_str\<close> prints the string it is given as it is, percent signs included, and \<open>put_int\<close> the
  decimal digits of its argument, when the string has at most 99 characters.
\<close>

theorem put_str_correct:
  fixes s :: "'z vga_machine_scheme"
  assumes "printk_ok po (printk_arry po) s" "vga_ok s"
    and "outside_text po (printk_arry po) s (lit_percent_s po) [37, 115]" "outside_text po (printk_arry po) s (lit_percent_d po) [37, 100]"
    and "outside_text po (printk_arry po) s msg cs" "length cs \<le> 99"
  shows "(\<exists>t. put_str po msg s = Inr ((), t) \<and> vga_ok t \<and> screen_of t = fold (term_char (color_attr black white)) cs (screen_of s)) \<and>
    (\<exists>t. put_int po num s = Inr ((), t) \<and> vga_ok t \<and>
      screen_of t = fold (term_char (color_attr black white)) (rev (digits 10 (unat num))) (screen_of s))"
proof
  let ?arr = "printk_arry po" and ?str = "\<lambda>_. cs"
  have s: "converts 115" "arg_text ?str 115 msg = cs" "good_arg po ?arr s ?str 115 msg"
    using assms(5) by (simp_all add: converts_def arg_text_def good_arg_def)
  from printk_one [OF assms(1-3) s(1,3)] s(2) assms(6)
  show "\<exists>t. put_str po msg s = Inr ((), t) \<and> vga_ok t \<and> screen_of t = fold (term_char (color_attr black white)) cs (screen_of s)"
    by (auto simp: put_str_def)
  have d: "converts 100" "arg_text ?str 100 num = rev (digits 10 (unat num))" "good_arg po ?arr s ?str 100 num"
    by (simp_all add: converts_def arg_text_def good_arg_def)
  from printk_one [OF assms(1,2,4) d(1,3)] d(2) decimal_length [of num]
  show "\<exists>t. put_int po num s = Inr ((), t) \<and> vga_ok t \<and>
      screen_of t = fold (term_char (color_attr black white)) (rev (digits 10 (unat num))) (screen_of s)"
    by (auto simp: put_int_def)
qed

theorem put_str_correct_witness:
  "\<exists>(s :: vga_machine) t. put_str boot_printk 0xc0010120 s = Inr ((), t) \<and>
     screen_of t = fold (term_char (color_attr black white)) [79, 75] (screen_of s)"
proof -
  from boot_printk_ok obtain s :: vga_machine where
    s: "vga_ok s" "printk_ok boot_printk (printk_arry boot_printk) s"
      "outside_text boot_printk (printk_arry boot_printk) s (lit_percent_s boot_printk) [37, 115]"
      "outside_text boot_printk (printk_arry boot_printk) s (lit_percent_d boot_printk) [37, 100]"
      "outside_text boot_printk (printk_arry boot_printk) s 0xc0010120 [79, 75]" by (auto simp: boot_printk_def)
  from put_str_correct [OF s(2,1,3-5), of 0] show ?thesis by auto
qed

end
