(* ===== verification/Console.thy ===== *)
theory Console
  imports Mutex Printk
begin

unbundle bit_operations_syntax

section \<open>The console of the threads (device/console.c)\<close>

text \<open>
  The three output functions of threads, which hold \<open>console_lock\<close> around the call of the
  function of \<open>printk.c\<close>. A caller that has to wait is suspended inside \<open>console_acquire\<close>, and
  what is left of the call runs when it gets the lock. The lemmas show that taking the lock
  prints nothing and touches no text, so that the text of a call is on the screen in one
  piece.
\<close>

subsection \<open>Operations\<close>

definition console_init :: "addr \<Rightarrow> ('z machine_scheme, unit) comp" where
  "console_init console_lock = lock_init console_lock"

definition console_acquire :: "thread_objs \<Rightarrow> u32 \<Rightarrow> addr \<Rightarrow> ('z machine_scheme, suspended) comp" where
  "console_acquire to ra console_lock = lock_acquire to ra console_lock"

definition console_release :: "thread_objs \<Rightarrow> addr \<Rightarrow> ('z machine_scheme, unit) comp" where
  "console_release to console_lock = lock_release to console_lock"

text \<open>What follows \<open>console_acquire\<close>: the output, and the release of the lock.\<close>

definition console_output ::
  "thread_objs \<Rightarrow> addr \<Rightarrow> ('z machine_scheme, unit) comp \<Rightarrow> suspended \<Rightarrow> ('z machine_scheme, suspended) comp" where
  "console_output to console_lock out r =
     (case r of None \<Rightarrow> cseq out (cseq (console_release to console_lock) (ret None)) | Some st \<Rightarrow> ret (Some st))"

definition console_put_str :: "thread_objs \<Rightarrow> u32 \<Rightarrow> printk_objs \<Rightarrow> addr \<Rightarrow> addr \<Rightarrow> ('z vga_machine_scheme, suspended) comp" where
  "console_put_str to ra po console_lock str =
     cbind (console_acquire to ra console_lock) (console_output to console_lock (put_str po str))"

definition console_put_char :: "thread_objs \<Rightarrow> u32 \<Rightarrow> addr \<Rightarrow> u8 \<Rightarrow> ('z machine_scheme, suspended) comp" where
  "console_put_char to ra console_lock char_asci =
     cbind (console_acquire to ra console_lock) (console_output to console_lock (put_char char_asci))"

definition console_put_int :: "thread_objs \<Rightarrow> u32 \<Rightarrow> printk_objs \<Rightarrow> addr \<Rightarrow> u32 \<Rightarrow> ('z vga_machine_scheme, suspended) comp" where
  "console_put_int to ra po console_lock num =
     cbind (console_acquire to ra console_lock) (console_output to console_lock (put_int po num))"

text \<open>The rest of such a call by the thread \<open>cur\<close>, when it runs again after waiting.\<close>

definition console_resume ::
  "thread_objs \<Rightarrow> u32 \<Rightarrow> addr \<Rightarrow> ('z machine_scheme, unit) comp \<Rightarrow> addr \<Rightarrow> intr_status \<times> intr_status \<Rightarrow> ('z machine_scheme, suspended) comp" where
  "console_resume to ra console_lock out cur st =
     cbind (lock_acquire_resume to ra console_lock cur st) (console_output to console_lock out)"

subsection \<open>Computations that print nothing\<close>

definition quiet :: "('z machine_scheme, 'a) comp \<Rightarrow> bool" where
  "quiet m \<longleftrightarrow> (\<forall>s x t. m s = Inr (x, t) \<longrightarrow> console t = console s \<and> machine.more t = machine.more s)"

named_theorems quiet_intros \<open>computations built from quiet ones are quiet\<close>

lemma quietD: "quiet m \<Longrightarrow> m s = Inr (x, t) \<Longrightarrow> console t = console s \<and> machine.more t = machine.more s"
  by (simp add: quiet_def)

lemma quiet_prims [quiet_intros]:
  "quiet (ret x)" "quiet (gets f)" "quiet (assert_or b e)" "quiet (load8 a)" "quiet (load32 a)" "quiet (store8 a v)" "quiet (store32 a w)"
  by (auto simp: quiet_def ret_def gets_def assert_or_def load8_def load32_def store8_def store32_def split: option.splits if_splits)

lemma quiet_registers [quiet_intros]:
  "quiet (modify (\<lambda>s. s\<lparr>eflags := f s\<rparr>))" "quiet (modify (\<lambda>s. s\<lparr>esp := f s\<rparr>))" "quiet (modify (\<lambda>s. s\<lparr>ebp := f s\<rparr>))"
  "quiet (modify (\<lambda>s. s\<lparr>ebx := f s\<rparr>))" "quiet (modify (\<lambda>s. s\<lparr>esi := f s\<rparr>))" "quiet (modify (\<lambda>s. s\<lparr>edi := f s\<rparr>))"
  "quiet (modify (\<lambda>s. s\<lparr>eip := f s\<rparr>))"
  by (auto simp: quiet_def modify_def)

lemma quiet_cbind [quiet_intros]:
  assumes "quiet m" "\<And>x. quiet (f x)"
  shows "quiet (cbind m f)"
  unfolding quiet_def
proof (intro allI impI)
  fix s y t
  assume "cbind m f s = Inr (y, t)"
  then obtain x u where "m s = Inr (x, u)" "f x u = Inr (y, t)" by (auto simp: cbind_Inr_iff)
  then show "console t = console s \<and> machine.more t = machine.more s"
    using quietD [OF assms(1)] quietD [OF assms(2)] by metis
qed

lemma quiet_cseq [quiet_intros]: "quiet m \<Longrightarrow> quiet n \<Longrightarrow> quiet (cseq m n)"
  unfolding cseq_def by (rule quiet_cbind)

lemma quiet_if [quiet_intros]: "(b \<Longrightarrow> quiet m) \<Longrightarrow> (\<not> b \<Longrightarrow> quiet n) \<Longrightarrow> quiet (if b then m else n)"
  by simp

lemma quiet_when [quiet_intros]: "quiet n \<Longrightarrow> quiet (when_do b n)"
  unfolding when_do_def by (intro quiet_intros)

lemma quiet_option [quiet_intros]:
  "quiet m \<Longrightarrow> (\<And>x. quiet (f x)) \<Longrightarrow> quiet (case r of None \<Rightarrow> m | Some x \<Rightarrow> f x)"
  by (cases r) auto

lemma quiet_intr [quiet_intros]:
  "quiet intr_disable" "quiet intr_enable" "quiet (intr_set_status st)" "quiet intr_get_status" "quiet running_thread"
  unfolding intr_disable_def intr_enable_def intr_set_status_def intr_get_status_def running_thread_def sti_def cli_def
  by (intro quiet_intros)+

lemma find_loop_quiet:
  assumes "list_find_loop tn elem e s = Some y"
  shows "\<forall>r t. y = Inr (r, t) \<longrightarrow> console t = console s \<and> machine.more t = machine.more s"
proof (rule list_find_loop.raw_induct [OF _ assms])
  fix loop :: "addr \<Rightarrow> addr \<Rightarrow> addr \<Rightarrow> 'a machine_scheme \<Rightarrow> (fail + (int \<times> 'a machine_scheme)) option" and tn elem e s y
  let ?P = "\<lambda>s y. \<forall>r t. y = Inr (r, t) \<longrightarrow> console t = console s \<and> machine.more t = machine.more s"
  assume IH: "\<And>tn elem e s y. loop tn elem e s = Some y \<Longrightarrow> ?P s y"
    and body: "(if e \<noteq> tn then if e = elem then Some (Inr (1, s))
        else case load32 (next_field e) s of Inl f \<Rightarrow> Some (Inl f) | Inr (e', s') \<Rightarrow> loop tn elem e' s'
      else Some (Inr (0, s))) = Some y"
  have step: "console s' = console s \<and> machine.more s' = machine.more s" if "load32 (next_field e) s = Inr (e', s')" for e' s'
    using quietD [OF quiet_prims(5) that] .
  show "?P s y"
  proof (cases "load32 (next_field e) s")
    case (Inl f)
    then show ?thesis using body by (auto split: if_splits)
  next
    case (Inr es)
    obtain e' s' where es: "es = (e', s')" by (cases es)
    show ?thesis using body IH [of tn elem e' s' y] step [of e' s'] Inr es by (auto split: if_splits)
  qed
qed

lemma quiet_find [quiet_intros]: "quiet (list_find l e :: ('a machine_scheme, int) comp)"
  unfolding list_find_def
proof (intro quiet_intros)
  fix x
  have "console t = console s \<and> machine.more t = machine.more s" if "returning (list_find_loop (list_tail l) e x s) = Inr (r, t)"
    for r and s t :: "'a machine_scheme"
    using that find_loop_quiet [of "list_tail l" e x s] by (cases "list_find_loop (list_tail l) e x s") auto
  then show "quiet (\<lambda>s :: 'a machine_scheme. returning (list_find_loop (list_tail l) e x s))" by (simp add: quiet_def)
qed

lemma quiet_lists [quiet_intros]:
  "quiet (list_insert_before b e)" "quiet (list_remove e)" "quiet (list_empty l)"
  unfolding list_insert_before_def list_remove_def list_empty_def by (intro quiet_intros)+

lemma quiet_lists2 [quiet_intros]: "quiet (list_append l e)" "quiet (list_push l e)" "quiet (list_pop l)"
  unfolding list_append_def list_push_def list_pop_def by (intro quiet_intros)+

lemma quiet_stack [quiet_intros]: "quiet (push32 v)" "quiet pop32"
  unfolding push32_def pop32_def by (intro quiet_intros)+

lemma quiet_switch [quiet_intros]: "quiet (call_switch_to ra cur nxt)"
  unfolding call_switch_to_def switch_to_def by (intro quiet_intros)

lemma quiet_threads [quiet_intros]: "quiet (schedule to ra)" "quiet (thread_unblock to p)" "quiet (thread_block_resume st)"
  unfolding schedule_def thread_unblock_def thread_block_resume_def append_new_def thread_assert_def by (intro quiet_intros)+

lemma quiet_block [quiet_intros]: "quiet (thread_block to ra st)"
  unfolding thread_block_def thread_assert_def by (intro quiet_intros)

lemma quiet_sem [quiet_intros]: "quiet (semaphore_loop to ra p st)" "quiet (semaphore_up to p)"
  unfolding semaphore_loop_def semaphore_up_def sync_assert_def by (intro quiet_intros)+

lemma quiet_down [quiet_intros]: "quiet (semaphore_down to ra p)" "quiet (semaphore_down_resume to ra p x)" "quiet (lock_take l cur)"
  unfolding semaphore_down_def semaphore_down_resume_def lock_take_def sync_assert_def by (intro quiet_intros)+

lemma quiet_lock [quiet_intros]:
  "quiet (lock_acquire to ra l)" "quiet (lock_acquire_resume to ra l cur x)" "quiet (lock_release to l)"
  unfolding lock_acquire_def lock_acquire_resume_def lock_release_def sync_assert_def by (intro quiet_intros)+

subsection \<open>The relations see memory and the stack pointer only\<close>

lemma same_rel:
  fixes s :: "'a machine_scheme" and t :: "'b machine_scheme"
  assumes "pmem t = pmem s" "cr3 t = cr3 s" "esp t = esp s"
  shows "sched_rel to ps t v = sched_rel to ps s v" "lock_ok t to ps l = lock_ok s to ps l" "sem_ok t to ps p = sem_ok s to ps p"
    "lock_rel to ps l t L = lock_rel to ps l s L" "esp_ok t = esp_ok s"
proof -
  note m = mem_indep [of t s, OF assms(1,2)]
  have k: "klist t l xs = klist s l xs" "task t = task s" "tasks_ok t to ks = tasks_ok s to ks" "saved_ok t = saved_ok s" "status t = status s"
    "saved t = saved s" "on_stack t = on_stack s" for l xs ks
    by (simp_all add: klist_def task_def tasks_ok_def saved_ok_def status_def saved_def on_stack_def m assms(3) fun_eq_iff)
  show r: "sched_rel to ps t v = sched_rel to ps s v" for v by (simp add: sched_rel_def sched_inv_def k)
  show o: "lock_ok t to ps l = lock_ok s to ps l" for l by (simp add: lock_ok_def m)
  show e: "sem_ok t to ps p = sem_ok s to ps p" for p by (simp add: sem_ok_def m)
  show "lock_rel to ps l t L = lock_rel to ps l s L" by (simp add: lock_rel_def sem_rel_def r o e k m)
  show "esp_ok t = esp_ok s" by (simp add: esp_ok_def assms(3) fun_eq_iff)
qed

lemma same_text:
  fixes s :: "'a machine_scheme" and t :: "'b machine_scheme"
  assumes "pmem t = pmem s" "cr3 t = cr3 s"
  shows "printk_ok po arr t = printk_ok po arr s" "outside_text po arr t p cs = outside_text po arr s p cs"
proof -
  note m = mem_indep [of t s, OF assms]
  have b: "blk t p bs = blk s p bs" for p bs by (induction bs arbitrary: p) (simp_all add: m)
  have c: "cstr t p cs = cstr s p cs" "room t p n = room s p n" for p cs n by (simp_all add: cstr_def b room_def m)
  then show "printk_ok po arr t = printk_ok po arr s" "outside_text po arr t p cs = outside_text po arr s p cs"
    by (simp_all only: printk_ok_def hex_objs_def outside_text_def)
qed

text \<open>The strings that an output of \<open>msg\<close> reads, and where they and the buffers of \<open>printk.c\<close> must not be.\<close>

definition text_bytes :: "printk_objs \<Rightarrow> addr \<Rightarrow> u8 list \<Rightarrow> addr set" where
  "text_bytes po msg cs = span (lit_empty (strings po)) 1 \<union> span (lit_0x00000000 (strings po)) 11 \<union> span (lit_00000000 (strings po)) 9 \<union>
     span (lit_percent_s po) 3 \<union> span (lit_percent_d po) 3 \<union> span msg (Suc (length cs))"

definition text_ok :: "thread_objs \<Rightarrow> addr list \<Rightarrow> addr \<Rightarrow> printk_objs \<Rightarrow> 'z machine_scheme \<Rightarrow> addr \<Rightarrow> u8 list \<Rightarrow> bool" where
  "text_ok to ps lk po s msg cs \<longleftrightarrow> printk_ok po (printk_arry po) s \<and>
     outside_text po (printk_arry po) s (lit_percent_s po) [37, 115] \<and> outside_text po (printk_arry po) s (lit_percent_d po) [37, 100] \<and>
     outside_text po (printk_arry po) s msg cs \<and> length cs \<le> 99 \<and> text_bytes po msg cs \<inter> lock_bytes lk = {} \<and>
     work_bytes po (printk_arry po) \<inter> (thread_bytes to ps \<union> lock_bytes lk) = {}"

lemma text_kept:
  assumes u: "upd_within (lock_bytes lk) s t" and k: "text_ok to ps lk po s msg cs"
  shows "text_ok to ps lk po t msg cs"
proof -
  note c = upd_within_cstr [OF u] and r = upd_within_room [OF u]
  have d: "text_bytes po msg cs \<inter> lock_bytes lk = {}" and ok: "printk_ok po (printk_arry po) s"
    and o: "outside_text po (printk_arry po) s (lit_percent_s po) [37, 115]" "outside_text po (printk_arry po) s (lit_percent_d po) [37, 100]"
      "outside_text po (printk_arry po) s msg cs"
    using k by (simp_all add: text_ok_def)
  have t: "outside_text po (printk_arry po) t p xs" if "outside_text po (printk_arry po) s p xs" "span p (Suc (length xs)) \<subseteq> text_bytes po msg cs" for p xs
  proof -
    have "span p (Suc (length xs)) \<inter> lock_bytes lk = {}" using that(2) d by blast
    then show ?thesis using that(1) c by (simp add: outside_text_def)
  qed
  have len: "Suc (length [37 :: u8, 115]) = 3" "Suc (length [37 :: u8, 100]) = 3" "Suc (length (48 # 120 # replicate 8 (48 :: u8))) = 11"
    "Suc (length (replicate 8 (48 :: u8))) = 9" "Suc (length ([] :: u8 list)) = 1" by simp_all
  have "outside_text po (printk_arry po) t (lit_percent_s po) [37, 115]"
    by (rule t [OF o(1)]) (unfold len text_bytes_def, blast)
  moreover have "outside_text po (printk_arry po) t (lit_percent_d po) [37, 100]"
    by (rule t [OF o(2)]) (unfold len text_bytes_def, blast)
  moreover have "outside_text po (printk_arry po) t msg cs"
    by (rule t [OF o(3)]) (unfold text_bytes_def, blast)
  moreover have c1: "cstr t (lit_0x00000000 (strings po)) (48 # 120 # replicate 8 48)"
    by (rule c) (use d ok in \<open>unfold len text_bytes_def printk_ok_def, blast+\<close>)
  moreover have c2: "cstr t (lit_00000000 (strings po)) (replicate 8 48)"
    by (rule c) (use d ok in \<open>unfold len text_bytes_def printk_ok_def, blast+\<close>)
  moreover have "cstr t (lit_empty (strings po)) []"
    by (rule c) (use d ok in \<open>unfold len text_bytes_def printk_ok_def hex_objs_def, blast+\<close>)
  then have "printk_ok po (printk_arry po) t"
    using c1 c2 ok unfolding printk_ok_def hex_objs_def r by (elim conjE) (intro conjI; assumption)
  ultimately show ?thesis using k unfolding text_ok_def by (elim conjE) (intro conjI; assumption)
qed

subsection \<open>Taking the lock, printing, giving it back\<close>

lemma with_if_poke8: "with_if st (poke8 a v s) = poke8 a v (with_if st s)"
proof -
  have "translate (with_if st s) = translate s" by (simp add: with_if_def)
  then show ?thesis by (simp add: with_if_def poke8_def split: option.split)
qed

lemma take_writes:
  assumes k: "kcell s (lock_holder lk)" "kcell s (holder_repeat_num lk)" and run: "lock_take lk cur s = Inr (x, t)"
  shows "t = poke32 (holder_repeat_num lk) 1 (poke32 (lock_holder lk) cur s)"
  using run k
  by (auto simp: lock_take_def cseq_def cbind_def store32_kcell load32_kcell kcell_poke32 sync_assert_def assert_or_def split: if_splits)

text \<open>A thread that enters a free lock, for the first time or after waiting, writes the lock and nothing else.\<close>

lemma free_lock:
  assumes r: "lock_rel to ps lk s L" and i: "lock_inv L" and c: "sem_count (lk_sem L) = 1"
    and run: "(if lk_pc L (lk_running L) = Outside then lock_acquire to ra lk s else lock_acquire_resume to ra lk (lk_running L) (old, INTR_OFF) s) = Inr (x, t)"
  shows "upd_within (lock_bytes lk) (s\<lparr>eflags := eflags t\<rparr>) t" "peek32 t (holder_repeat_num lk) = 1" "esp t = esp s"
proof -
  let ?psem = "lock_semaphore lk"
  have sr: "sem_rel to ps ?psem s (lk_sched L) (lk_sem L)" using r by (simp add: lock_rel_def)
  note lp = loop_take [OF sr c, of ra] and f = lock_fields [OF r] and hd = inv_asserts(2) [OF i]
  have dn: "semaphore_down to ra ?psem s = Inr (None, with_if (intr_status_of (eflags s)) (poke8 ?psem 0 s))"
    using lp by (simp add: semaphore_down_def cbind_def intr_disable_eq)
  have rs: "semaphore_down_resume to ra ?psem (old, INTR_OFF) s = Inr (None, with_if old (poke8 ?psem 0 s))"
    using lp by (simp add: semaphore_down_resume_def thread_block_resume_def cbind_def cseq_def intr_set_status_def intr_disable_eq ret_def)
  obtain st where st: "cseq (lock_take lk (lk_running L)) (ret None) (with_if st (poke8 ?psem 0 s)) = Inr (x, t)"
  proof (cases "lk_pc L (lk_running L) = Outside")
    case True
    then have "cseq (lock_take lk (lk_running L)) (ret None) (with_if (intr_status_of (eflags s)) (poke8 ?psem 0 s)) = Inr (x, t)"
      using run dn lock_running [OF r] f(3,5) hd by (simp add: lock_acquire_def cbind_def load32_kcell)
    then show ?thesis by (rule that)
  next
    case False
    then have "cseq (lock_take lk (lk_running L)) (ret None) (with_if old (poke8 ?psem 0 s)) = Inr (x, t)"
      using run rs by (simp add: lock_acquire_resume_def cbind_def)
    then show ?thesis by (rule that)
  qed
  define u where "u = with_if st s"
  have mem: "kaddr u = kaddr s" "kcell u = kcell s" by (simp_all add: u_def with_if_def)
  note ps = sem_rel_parts [OF sr]
  have kc: "kcell (poke8 ?psem 0 u) = kcell u" "kcell (poke32 (lock_holder lk) v (poke8 ?psem 0 u)) = kcell u" for v
    using ps(6) f(3) by (simp_all add: kcell_def kaddr_poke8 kaddr_poke32 mem fun_eq_iff)
  have t: "t = poke32 (holder_repeat_num lk) 1 (poke32 (lock_holder lk) (lk_running L) (poke8 ?psem 0 u))"
    using st f(3,4) take_writes [of "poke8 ?psem 0 u" lk "lk_running L"] kc mem
    by (auto simp: with_if_poke8 u_def [symmetric] cseq_def cbind_def ret_def split: sum.splits)
  have sub: "{?psem} \<subseteq> lock_bytes lk" "bytes4 (lock_holder lk) \<subseteq> lock_bytes lk" "bytes4 (holder_repeat_num lk) \<subseteq> lock_bytes lk"
    by (auto simp: lock_bytes_def sem_cells_def bytes4_def)
  have "upd_within (lock_bytes lk) u (poke8 ?psem 0 u)" by (rule upd_within_poke8) (use ps(6) mem sub in auto)
  also have "upd_within (lock_bytes lk) \<dots> (poke32 (lock_holder lk) (lk_running L) (poke8 ?psem 0 u))"
    by (rule upd_within_poke32) (use f(3) kc mem sub in auto)
  also have "upd_within (lock_bytes lk) \<dots> t"
    unfolding t by (rule upd_within_poke32) (use f(4) kc mem sub in auto)
  finally have w: "upd_within (lock_bytes lk) u t" .
  then obtain m where m: "t = u\<lparr>pmem := m\<rparr>" by (auto simp: upd_within_def tables_same_def)
  then have "u = s\<lparr>eflags := eflags t\<rparr>" by (simp add: u_def with_if_def)
  then show "upd_within (lock_bytes lk) (s\<lparr>eflags := eflags t\<rparr>) t" using w by simp
  show "peek32 t (holder_repeat_num lk) = 1" unfolding t using f(4) kc mem by (simp add: peek32_poke32)
  show "esp t = esp s" using m by (simp add: u_def with_if_def)
qed

lemma output_spec:
  assumes r: "lock_rel to ps lk t L" and i: "lock_inv L" and pc: "lk_pc L (lk_running L) = Inside" and n: "peek32 t (holder_repeat_num lk) = 1"
    and out: "out t = Inr ((), u)" "lock_rel to ps lk u L"
  shows "\<exists>w L'. console_output to lk out None t = Inr (None, w) \<and> lock_rel to ps lk w L' \<and> lock_inv L' \<and>
    lk_pc L' = (lk_pc L)(lk_running L := Outside) \<and> lk_holder L' = NULL \<and> console w = console u \<and> machine.more w = machine.more u"
proof -
  have "lk_repeat L = 1" using n lock_fields(6) [OF r] by simp
  with release_refines [OF out(2) i pc] obtain w L' where
    w: "lock_release to lk u = Inr ((), w)" "lock_step\<^sup>*\<^sup>* L L'" "lock_rel to ps lk w L'" "lk_holder L' = NULL" "lk_pc L' = (lk_pc L)(lk_running L := Outside)"
    by auto
  have "console_output to lk out None t = Inr (None, w)"
    using out(1) w(1) by (simp add: console_output_def console_release_def cseq_def cbind_def ret_def)
  then show ?thesis using w lm.steps_inv [OF w(2) i] quietD [OF quiet_lock(3) w(1)] by blast
qed

text \<open>
  What a call of the console does: with the lock free it prints, by \<open>P\<close>, and leaves the lock
  free; otherwise it prints nothing and waits. Either way the lock's invariant holds.
\<close>

definition whole_output ::
  "thread_objs \<Rightarrow> addr list \<Rightarrow> addr \<Rightarrow> lock_view \<Rightarrow> ('z machine_scheme, suspended) comp \<Rightarrow> 'z machine_scheme \<Rightarrow> ('z machine_scheme \<Rightarrow> bool) \<Rightarrow> bool" where
  "whole_output to ps lk L call s P \<longleftrightarrow> (\<exists>x t L'. call s = Inr (x, t) \<and> lock_rel to ps lk t L' \<and> lock_inv L' \<and>
    (if sem_count (lk_sem L) = 1
     then x = None \<and> lk_holder L' = NULL \<and> lk_pc L' = (lk_pc L)(lk_running L := Outside) \<and> P t
     else x \<noteq> None \<and> lk_pc L' = (lk_pc L)(lk_running L := Waiting) \<and> console t = console s \<and> machine.more t = machine.more s))"

lemma whole_output_mono:
  assumes "whole_output to ps lk L call s P" "\<And>t. P t \<Longrightarrow> Q t"
  shows "whole_output to ps lk L call s Q"
  using assms(1) unfolding whole_output_def
  by - (elim exE conjE, intro exI conjI, assumption+, simp split: if_splits add: assms(2))

text \<open>Any output, by a thread that calls the console or gets the lock after waiting.\<close>

lemma console_call:
  assumes r: "lock_rel to ps lk s L" and i: "lock_inv L" and e: "esp_ok s (lk_running L)"
    and pc: "lk_pc L (lk_running L) = Outside \<or> lk_pc L (lk_running L) = Waiting" and d: "sem_count (lk_sem L) = 1 \<or> ready (lk_sched L) \<noteq> []"
    and out: "\<And>t L'. lock_rel to ps lk t L' \<Longrightarrow> esp_ok t (lk_running L') \<Longrightarrow> upd_within (lock_bytes lk) (s\<lparr>eflags := eflags t\<rparr>) t \<Longrightarrow>
      console t = console s \<Longrightarrow> machine.more t = machine.more s \<Longrightarrow> \<exists>u. out t = Inr ((), u) \<and> lock_rel to ps lk u L' \<and> P (console u) (machine.more u)"
  shows "whole_output to ps lk L (if lk_pc L (lk_running L) = Outside then cbind (console_acquire to ra lk) (console_output to lk out)
      else console_resume to ra lk out (lk_running L) (old, INTR_OFF)) s (\<lambda>t. P (console t) (machine.more t))"
proof -
  let ?acq = "if lk_pc L (lk_running L) = Outside then lock_acquire to ra lk s else lock_acquire_resume to ra lk (lk_running L) (old, INTR_OFF) s"
  have call: "(if lk_pc L (lk_running L) = Outside then cbind (console_acquire to ra lk) (console_output to lk out)
      else console_resume to ra lk out (lk_running L) (old, INTR_OFF)) s = (case ?acq of Inl f \<Rightarrow> Inl f | Inr (x, t) \<Rightarrow> console_output to lk out x t)"
    by (simp add: console_acquire_def console_resume_def cbind_def)
  obtain x t L1 where
    t: "?acq = Inr (x, t)" "lock_step\<^sup>*\<^sup>* L L1" "lock_rel to ps lk t L1" "lk_pc L1 = (lk_pc L)(lk_running L := if x = None then Inside else Waiting)"
      "x = None \<longleftrightarrow> sem_count (lk_sem L) = 1"
    using pc acquire_refines [OF r i e _ d, of ra] acquire_resume_refines [OF r i e _ d, of ra old] by (elim disjE) auto
  have i1: "lock_inv L1" by (rule lm.steps_inv [OF t(2) i])
  have q: "console t = console s \<and> machine.more t = machine.more s"
    using t(1) quietD [OF quiet_lock(1), of to ra lk s x t] quietD [OF quiet_lock(2), of to ra lk "lk_running L" "(old, INTR_OFF)" s x t]
    by (auto split: if_splits)
  show ?thesis
  proof (cases "sem_count (lk_sem L) = 1")
    case True
    note fl = free_lock [OF r i True t(1)]
    have x: "x = None" using t(5) True by simp
    have cur: "lk_running L1 = lk_running L"
      using lock_running [OF t(3)] lock_running [OF r] fl(3) by (simp add: running_thread_def gets_def)
    have "esp_ok t (lk_running L1)" using e fl(3) cur by (simp add: esp_ok_def)
    from out [OF t(3) this fl(1)] q obtain u where u: "out t = Inr ((), u)" "lock_rel to ps lk u L1" "P (console u) (machine.more u)" by blast
    have "lk_pc L1 (lk_running L1) = Inside" using t(4) x cur by simp
    from output_spec [where out = out, OF t(3) i1 this fl(2) u(1,2)] obtain w L' where
      w: "console_output to lk out None t = Inr (None, w)" "lock_rel to ps lk w L'" "lock_inv L'" "lk_pc L' = (lk_pc L1)(lk_running L1 := Outside)"
        "lk_holder L' = NULL" "console w = console u" "machine.more w = machine.more u" by blast
    show ?thesis unfolding whole_output_def call
      using t(1,4) x w u(3) True cur by (intro exI [of _ None] exI [of _ w] exI [of _ L']) simp
  next
    case False
    then obtain y where "x = Some y" using t(5) by (cases x) auto
    then show ?thesis unfolding whole_output_def call
      using t(1,3,4) False i1 q by (intro exI [of _ x] exI [of _ t] exI [of _ L1]) (simp add: console_output_def ret_def)
  qed
qed

text \<open>The functions of \<open>printk.c\<close> leave the lock alone.\<close>

lemma text_work:
  assumes r: "lock_rel to ps lk s L" and e: "esp_ok s (lk_running L)" and u: "upd_within B s t" and B: "B \<inter> (thread_bytes to ps \<union> lock_bytes lk) = {}"
  shows "lock_rel to ps lk t L"
proof (rule work_keeps_lock [OF r])
  have sr: "sched_rel to ps s (lk_sched L)" using r by (simp add: lock_rel_def sem_rel_def)
  have cur: "this_thread s = lk_running L" by (rule rel_parts(2) [OF sr])
  from u obtain m where m: "t = s\<lparr>pmem := m\<rparr>" by (auto simp: upd_within_def tables_same_def)
  have i: "lk_running L \<in> set ps" using rel_tasks(2) [OF sr] by simp
  have "bytes4 (status_field (lk_running L)) \<subseteq> page_bytes (lk_running L)"
    using page_cell_bytes [OF rel_parts(3) [OF sr], of 4] by (simp add: status_field_def aligned4_def)
  then have "thread_bytes to (others (this_thread s) ps) \<union> bytes4 (status_field (this_thread s)) \<union> lock_bytes lk \<subseteq> thread_bytes to ps \<union> lock_bytes lk"
    using i unfolding cur thread_bytes_def others_def by auto
  then have "B \<inter> (thread_bytes to (others (this_thread s) ps) \<union> bytes4 (status_field (this_thread s)) \<union> lock_bytes lk) = {}" using B by blast
  moreover have "s\<lparr>eflags := eflags t, esp := esp t, ebp := ebp t, ebx := ebx t, esi := esi t, edi := edi t, eip := eip t,
      console := console t, ports_out := ports_out t\<rparr> = s" by (simp add: m)
  moreover have "on_stack t (this_thread s)"
  proof -
    have "esp t = esp s" by (simp add: m)
    then show ?thesis using e unfolding cur by (simp add: esp_ok_def on_stack_def Let_def word_le_nat_alt)
  qed
  ultimately show "lock_work to ps lk s t" using extends_upd [OF u] unfolding lock_work_def by auto
qed

lemma print_one:
  fixes t :: "'z vga_machine_scheme"
  assumes r: "lock_rel to ps lk t L" and e: "esp_ok t (lk_running L)" and k: "text_ok to ps lk po t msg cs" and v: "vga_ok t"
    and lit: "outside_text po (printk_arry po) t lit [37, k]" "converts k" "good_arg po (printk_arry po) t str k a" "length (arg_text str k a) \<le> 99"
  shows "\<exists>u. printk po lit [a] t = Inr ((), u) \<and> lock_rel to ps lk u L \<and> vga_ok u \<and>
    screen_of u = fold (term_char (color_attr black white)) (arg_text str k a) (screen_of t)"
proof -
  have ok: "printk_ok po (printk_arry po) t" and B: "work_bytes po (printk_arry po) \<inter> (thread_bytes to ps \<union> lock_bytes lk) = {}"
    using k by (simp_all add: text_ok_def)
  from printk_one [OF ok v lit] obtain w u where
    u: "printk po lit [a] t = Inr ((), u)" "vga_ok u" "screen_of u = fold (term_char (color_attr black white)) (arg_text str k a) (screen_of t)"
      "upd_within (work_bytes po (printk_arry po)) t w" "vga_frame w u" by blast
  have "lock_rel to ps lk w L" by (rule text_work [OF r e u(4) B])
  moreover have m: "pmem u = pmem w" "cr3 u = cr3 w" "esp u = esp w" using u(5) unfolding vga_frame_def by (elim exE, simp)+
  ultimately have "lock_rel to ps lk u L" by (simp add: same_rel(4) [OF m])
  with u(1-3) show ?thesis by (intro exI [of _ u]) simp
qed

lemma more_screen:
  fixes t u :: "'z vga_machine_scheme"
  assumes "machine.more t = machine.more u"
  shows "screen_of t = screen_of u" "vga_ok t = vga_ok u"
proof -
  have e: "t = u\<lparr>pmem := pmem t, cr3 := cr3 t, eflags := eflags t, esp := esp t, ebp := ebp t, ebx := ebx t, esi := esi t, edi := edi t,
      eip := eip t, console := console t, ports_out := ports_out t\<rparr>"
    by (rule machine.equality) (simp_all add: assms)
  show "screen_of t = screen_of u" by (subst e) (simp add: screen_of_def)
  show "vga_ok t = vga_ok u" by (subst e) (simp add: vga_ok_def)
qed

lemma text_ok_taken:
  assumes "text_ok to ps lk po s msg cs" "upd_within (lock_bytes lk) (s\<lparr>eflags := e\<rparr>) t"
  shows "text_ok to ps lk po t msg cs"
proof (rule text_kept [OF assms(2)])
  have "pmem (s\<lparr>eflags := e\<rparr>) = pmem s" "cr3 (s\<lparr>eflags := e\<rparr>) = cr3 s" by simp_all
  from same_text [OF this] assms(1) show "text_ok to ps lk po (s\<lparr>eflags := e\<rparr>) msg cs" by (simp add: text_ok_def)
qed

lemma string_call:
  fixes s :: "'z vga_machine_scheme"
  assumes r: "lock_rel to ps lk s L" "lock_inv L" "esp_ok s (lk_running L)"
    "lk_pc L (lk_running L) = Outside \<or> lk_pc L (lk_running L) = Waiting" "sem_count (lk_sem L) = 1 \<or> ready (lk_sched L) \<noteq> []"
    and k: "text_ok to ps lk po s msg cs" and v: "vga_ok s"
    and lit: "\<And>t :: 'z vga_machine_scheme. text_ok to ps lk po t msg cs \<Longrightarrow> outside_text po (printk_arry po) t lit [37, k] \<and> good_arg po (printk_arry po) t str k a"
      "converts k" "length (arg_text str k a) \<le> 99"
  shows "whole_output to ps lk L (if lk_pc L (lk_running L) = Outside then cbind (console_acquire to ra lk) (console_output to lk (printk po lit [a]))
      else console_resume to ra lk (printk po lit [a]) (lk_running L) (old, INTR_OFF)) s
    (\<lambda>t. vga_ok t \<and> screen_of t = fold (term_char (color_attr black white)) (arg_text str k a) (screen_of s))"
proof -
  let ?Q = "\<lambda>t. vga_ok t \<and> screen_of t = fold (term_char (color_attr black white)) (arg_text str k a) (screen_of s)"
  let ?P = "\<lambda>(c :: console_call list) m. \<forall>t. machine.more t = m \<longrightarrow> ?Q t"
  have "whole_output to ps lk L (if lk_pc L (lk_running L) = Outside then cbind (console_acquire to ra lk) (console_output to lk (printk po lit [a]))
      else console_resume to ra lk (printk po lit [a]) (lk_running L) (old, INTR_OFF)) s (\<lambda>t. ?P (console t) (machine.more t))"
  proof (rule console_call [OF r])
    fix t :: "'z vga_machine_scheme" and L'
    assume t: "lock_rel to ps lk t L'" "esp_ok t (lk_running L')" "upd_within (lock_bytes lk) (s\<lparr>eflags := eflags t\<rparr>) t"
      "console t = console s" "machine.more t = machine.more s"
    have kt: "text_ok to ps lk po t msg cs" by (rule text_ok_taken [OF k t(3)])
    have "vga_ok t" "screen_of t = screen_of s" using more_screen [OF t(5)] v by simp_all
    with print_one [OF t(1,2) kt _ conjunct1 [OF lit(1) [OF kt]] lit(2) conjunct2 [OF lit(1) [OF kt]] lit(3)] obtain u where
      u: "printk po lit [a] t = Inr ((), u)" "lock_rel to ps lk u L'" "?Q u" by auto
    moreover have "?P (console u) (machine.more u)" using u(3) more_screen by metis
    ultimately show "\<exists>u. printk po lit [a] t = Inr ((), u) \<and> lock_rel to ps lk u L' \<and> ?P (console u) (machine.more u)" by blast
  qed
  then show ?thesis by (rule whole_output_mono) blast
qed

subsection \<open>Properties\<close>


text \<open>The main thread at boot, with the literals of the kernel in memory, a screen, and a new lock.\<close>

lemma kaddr_kcell: "kaddr s a = kcell s (a AND 0xfffff000)"
proof -
  have "page_of (a AND 0xfffff000) = page_of a" using drop_page_offset [of 0 a] by (simp add: page_of_def)
  moreover have "aligned4 (a AND 0xfffff000)" by (simp add: aligned4_def and.assoc)
  ultimately show ?thesis using kaddr_page [of "a AND 0xfffff000" a s] by (simp add: kcell_def)
qed

lemma boot_text_bytes:
  assumes "a \<in> text_bytes boot_printk 0xc0010120 [79, 75]"
  shows "0xc0010080 \<le> unat a"
proof -
  have l: "Suc (length [79 :: u8, 75]) = 3" by simp
  have "a \<in> span 0xc00100c0 1 \<or> a \<in> span 0xc0010080 11 \<or> a \<in> span 0xc00100a0 9 \<or> a \<in> span 0xc0010110 3 \<or> a \<in> span 0xc0010118 3 \<or>
      a \<in> span 0xc0010120 3"
    using assms unfolding text_bytes_def boot_printk_def boot_objs_def printk_objs.simps string_objs.simps l Un_iff by blast
  then show ?thesis
    using span_bounds [of "0xc00100c0" 1 a] span_bounds [of "0xc0010080" 11 a] span_bounds [of "0xc00100a0" 9 a]
      span_bounds [of "0xc0010110" 3 a] span_bounds [of "0xc0010118" 3 a] span_bounds [of "0xc0010120" 3 a]
    by (elim disjE) simp_all
qed

lemma boot_lock_bytes: "a \<in> lock_bytes 0xc0000e00 \<Longrightarrow> unat a < 0xc0000e1c"
  by (auto simp: lock_bytes_def sem_cells_def list_cells_iff lock_semaphore_def sem_waiters_def lock_holder_def holder_repeat_num_def bytes4_def)

lemma boot_console_apart:
  "text_bytes boot_printk 0xc0010120 [79, 75] \<inter> lock_bytes 0xc0000e00 = {}"
  "work_bytes boot_printk 0xc0011000 \<inter> (thread_bytes boot_threads [0xc009e000] \<union> lock_bytes 0xc0000e00) = {}"
  "span 0xc0010080 163 \<inter> (thread_bytes boot_threads [0xc009e000] \<union> lock_bytes 0xc0000e00) = {}"
proof -
  have t: "unat a < 0xc0000e1c \<or> 0xc009e000 \<le> unat a" if "a \<in> thread_bytes boot_threads [0xc009e000] \<union> lock_bytes 0xc0000e00" for a
    using that boot_thread_bytes [of a] boot_lock_bytes [of a] by auto
  have w: "0xc0010000 \<le> unat a \<and> unat a < 0xc0012000" if "a \<in> work_bytes boot_printk 0xc0011000" for a
  proof -
    have "a \<in> span 0xc0011000 100 \<or> a \<in> span 0xc0011100 100 \<or> a \<in> span 0xc0010060 32 \<or> a \<in> span 0xc0010000 11 \<or> a \<in> span 0xc0010020 9 \<or> a \<in> span 0xc0010040 9"
      using that unfolding work_bytes_def hex_bytes_def boot_printk_def boot_objs_def printk_objs.simps string_objs.simps Un_iff by blast
    then show ?thesis
      using span_bounds [of "0xc0011000" 100 a] span_bounds [of "0xc0011100" 100 a] span_bounds [of "0xc0010060" 32 a]
        span_bounds [of "0xc0010000" 11 a] span_bounds [of "0xc0010020" 9 a] span_bounds [of "0xc0010040" 9 a]
      by (elim disjE) simp_all
  qed
  have l: "0xc0010080 \<le> unat a \<and> unat a < 0xc0012000" if "a \<in> span 0xc0010080 163" for a
    using span_bounds [of "0xc0010080" 163 a] that by simp
  show "text_bytes boot_printk 0xc0010120 [79, 75] \<inter> lock_bytes 0xc0000e00 = {}"
    using boot_text_bytes boot_lock_bytes by fastforce
  show "work_bytes boot_printk 0xc0011000 \<inter> (thread_bytes boot_threads [0xc009e000] \<union> lock_bytes 0xc0000e00) = {}"
    using w t by fastforce
  show "span 0xc0010080 163 \<inter> (thread_bytes boot_threads [0xc009e000] \<union> lock_bytes 0xc0000e00) = {}"
    using l t by fastforce
qed

lemma boot_console:
  "\<exists>(s :: vga_machine) v. lock_rel boot_threads [0xc009e000] 0xc0000e00 s (lock_start v) \<and> lock_inv (lock_start v) \<and> running v = 0xc009e000 \<and>
     esp_ok s 0xc009e000 \<and> text_ok boot_threads [0xc009e000] 0xc0000e00 boot_printk s 0xc0010120 [79, 75] \<and> vga_ok s"
proof -
  let ?to = boot_threads and ?ps = "[0xc009e000 :: addr]" and ?l = "0xc0000e00 :: addr"
  from boot_kernel obtain s :: machine where
    s: "kernel_inv s boot_mem (init_view 0x2000000) ?to 0xc009e000 [] [] [0xc009e000]" "status s 0xc009e000 = status_code TASK_RUNNING"
      "esp s = 0xc009efd0" "kaddr s = kaddr boot_machine" by blast
  let ?v = "\<lparr>running = 0xc009e000, ready = [], blocked = [], contexts = saved s\<rparr>"
  have r: "sched_rel ?to ?ps s ?v" using s(1,2) by (simp add: sched_rel_def kernel_inv_def)
  from lock_init_spec [OF r boot_lock [OF r]] obtain t :: machine where
    t: "lock_rel ?to ?ps ?l t (lock_start ?v)" "lock_inv (lock_start ?v)" "esp t = esp s" "kcell t = kcell s" by blast
  have kt: "kaddr t = kaddr boot_machine" by (rule ext) (simp add: kaddr_kcell [of t] t(4) s(4) [symmetric] kaddr_kcell [of s])
  have rt: "room t p n" if "0xc0000000 \<le> p" "unat p + n \<le> 0xc0100000" for p n
    using boot_room [OF that] by (simp add: room_def kt)
  from put_blk [OF rt, of "0xc0010080" boot_literals] obtain u :: machine where
    u: "blk u 0xc0010080 boot_literals" "upd_within (span 0xc0010080 163) t u" by (auto simp: boot_literals_length)
  have et: "esp_ok t 0xc009e000" using t(3) s(3) by (simp add: esp_ok_def)
  have ru: "lock_rel ?to ?ps ?l u (lock_start ?v)"
    by (rule text_work [OF t(1) _ u(2) boot_console_apart(3)]) (use et in \<open>simp add: lock_start_def\<close>)
  obtain m where "u = t\<lparr>pmem := m\<rparr>" using u(2) by (auto simp: upd_within_def tables_same_def)
  then have eu: "esp_ok u 0xc009e000" using et by (simp add: esp_ok_def)
  have rm: "room u p n" if "0xc0000000 \<le> p" "unat p + n \<le> 0xc0100000" for p n
    using rt [OF that] upd_within_room [OF u(2)] by simp
  have w: "pmem (with_screen u) = pmem u" "cr3 (with_screen u) = cr3 u" "esp (with_screen u) = esp u"
    by (simp_all add: with_screen_def machine.defs)
  have "text_ok ?to ?ps ?l boot_printk (with_screen u) 0xc0010120 [79, 75]"
    using boot_printk_any [OF u(1) rm] boot_console_apart(1,2) by (simp add: text_ok_def) (simp add: boot_printk_def)
  then show ?thesis
    using ru eu t(2) with_screen_ok
    by (intro exI [of _ "with_screen u"] exI [of _ ?v]) (simp add: same_rel(4) [OF w] same_rel(5) [OF w])
qed


end
