(* ===== verification/Init.thy ===== *)
theory Init
  imports Console Keyboard
begin

unbundle bit_operations_syntax

section \<open>Bringing the kernel up (kernel/init.c, kernel/main.c, boot/entry.c)\<close>

text \<open>
  \<open>init_all\<close> runs the initialisation of every component in turn; \<open>main\<close>, which the loader
  jumps to, calls it, prints, turns interrupts on and waits. The other components' theories
  say what each initialisation does to its own data; this one composes them: each of them
  leaves the data of the others alone, so the invariants of all of them hold together when
  interrupts are first allowed.
\<close>

subsection \<open>The code\<close>

text \<open>The addresses the linker chose: the strings and the handlers' code are arguments.\<close>

record kernel_objs =
  at_idt :: idt_objs
  at_mem :: mem_objs
  at_threads :: thread_objs
  at_console_lock :: addr
  at_keyboard :: kbd_objs
  timer_handler :: addr
  keyboard_handler :: addr
  main_name :: addr

definition init_all :: "kernel_objs \<Rightarrow> ('z idt_machine_scheme, unit) comp" where
  "init_all bo =
     cseq (log_console (Printk ''initing_all start...\<newline>'' []))
    (cseq (idt_init (at_idt bo))
    (cseq (timer_init (at_idt bo) (timer_handler bo))
    (cseq (mem_init (at_mem bo))
    (cseq (thread_init (at_threads bo) (main_name bo))
    (cseq (console_init (at_console_lock bo))
    (cseq (keyboard_init (at_idt bo) (at_keyboard bo) (keyboard_handler bo))
          (log_console (Printk ''init_all done.\<newline>'' []))))))))"

text \<open>\<open>main\<close> up to its endless loop, and with it.\<close>

definition main_start :: "kernel_objs \<Rightarrow> ('z idt_machine_scheme, intr_status) comp" where
  "main_start bo =
     cseq (log_console PrintkDebug)
    (cseq (init_all bo)
    (cseq (log_console (Printk ''Toilet OS Start Complete!\<newline>'' []))
    (cseq (log_console (PrintkColor ''Hello!\<newline>'' (color_code blue) (color_code red) []))
    (cseq (log_console (PrintkColor ''Welcome to Toilet OS where every App can shits!\<newline>'' (color_code blue) (color_code red) []))
          intr_enable))))"

definition main :: "kernel_objs \<Rightarrow> ('z idt_machine_scheme, unit) comp" where
  "main bo = cseq (main_start bo) (fail_with Diverge)"

text \<open>
  The two thread functions, which differ in name only: the loop runs until the thread has
  to wait for the console.
\<close>

partial_function (option) k_thread_function_a ::
  "thread_objs \<Rightarrow> u32 \<Rightarrow> printk_objs \<Rightarrow> addr \<Rightarrow> addr \<Rightarrow> 'z vga_machine_scheme \<Rightarrow> (fail + (suspended \<times> 'z vga_machine_scheme)) option" where
  "k_thread_function_a to ra po console_lock para s =
     (case console_put_str to ra po console_lock para s of
        Inl f \<Rightarrow> Some (Inl f)
      | Inr (None, t) \<Rightarrow> k_thread_function_a to ra po console_lock para t
      | Inr (Some st, t) \<Rightarrow> Some (Inr (Some st, t)))"

partial_function (option) k_thread_function_b ::
  "thread_objs \<Rightarrow> u32 \<Rightarrow> printk_objs \<Rightarrow> addr \<Rightarrow> addr \<Rightarrow> 'z vga_machine_scheme \<Rightarrow> (fail + (suspended \<times> 'z vga_machine_scheme)) option" where
  "k_thread_function_b to ra po console_lock para s =
     (case console_put_str to ra po console_lock para s of
        Inl f \<Rightarrow> Some (Inl f)
      | Inr (None, t) \<Rightarrow> k_thread_function_b to ra po console_lock para t
      | Inr (Some st, t) \<Rightarrow> Some (Inr (Some st, t)))"

text \<open>The entry of \<open>boot/entry.c\<close>: nine characters and their colour, then as \<open>main\<close> begins.\<close>

definition entry_text :: "u8 list" where
  "entry_text = [84, 111, 105, 108, 101, 116, 79, 83, 33]"

definition kern_entry_text :: "('z vga_machine_scheme, unit) comp" where
  "kern_entry_text =
     run_all (\<lambda>i. cseq (vga_store (2 * i) (entry_text ! i)) (vga_store (2 * i + 1) (push_bit 4 0 OR (15 AND 0x0F))))
       [0..<length entry_text]"

definition kern_entry :: "printk_objs \<Rightarrow> ('z vga_machine_scheme, unit) comp" where
  "kern_entry po = cseq kern_entry_text (cseq (printkDebug po) (fail_with Diverge))"

subsection \<open>Work elsewhere\<close>

text \<open>
  \<open>works B s t\<close>: from \<open>s\<close> to \<open>t\<close> the kernel data changes in \<open>B\<close> only; the mapping, the stack
  pointer and the flags are as they were; the console, the ports and the rest may differ.
\<close>

definition works :: "addr set \<Rightarrow> 'z machine_scheme \<Rightarrow> 'z machine_scheme \<Rightarrow> bool" where
  "works B s t \<longleftrightarrow> (\<exists>x. pmem x = pmem s \<and> cr3 x = cr3 s \<and> esp x = esp s \<and> eflags x = eflags s \<and> upd_within B x t)"

named_theorems work_keeps \<open>what work elsewhere leaves as it was\<close>

lemma worksI: "upd_within B x t \<Longrightarrow> pmem x = pmem s \<Longrightarrow> cr3 x = cr3 s \<Longrightarrow> esp x = esp s \<Longrightarrow> eflags x = eflags s \<Longrightarrow> works B s t"
  unfolding works_def by blast

lemma works_upd: "upd_within B s t \<Longrightarrow> works B s t"
  by (rule worksI) simp_all

lemma upd_registers:
  assumes "upd_within B s t"
  shows "esp t = esp s" "eflags t = eflags s" "cr3 t = cr3 s" "ports_out t = ports_out s" "console t = console s" "machine.more t = machine.more s"
  using assms by (auto simp: upd_within_def tables_same_def)

lemma works_registers [work_keeps]: "works B s t \<Longrightarrow> esp t = esp s" "works B s t \<Longrightarrow> eflags t = eflags s"
  unfolding works_def using upd_registers by metis+

lemma works_mono: "works B s t \<Longrightarrow> B \<subseteq> C \<Longrightarrow> works C s t"
  unfolding works_def using upd_within_mono by blast

lemma works_trans:
  assumes "works B s t" "works C t u"
  shows "works (B \<union> C) s u"
proof -
  obtain x where x: "pmem x = pmem s" "cr3 x = cr3 s" "esp x = esp s" "eflags x = eflags s" "upd_within B x t"
    using assms(1) unfolding works_def by blast
  obtain y where y: "pmem y = pmem t" "cr3 y = cr3 t" "esp y = esp t" "eflags y = eflags t" "upd_within C y u"
    using assms(2) unfolding works_def by blast
  let ?f = "\<lambda>z. y\<lparr>pmem := pmem z, cr3 := cr3 z\<rparr>"
  have "upd_within B (?f x) (?f t)" by (rule upd_within_map [OF x(5)]) simp_all
  moreover have "?f t = y" using y(1,2) by simp
  ultimately have "upd_within (B \<union> C) (?f x) u" using upd_within_trans2 y(5) by metis
  then show ?thesis using x(1-4) y(3,4) upd_registers [OF x(5)] by (intro worksI [of _ "?f x"]) simp_all
qed

lemma works_map [work_keeps]:
  assumes "works B s t"
  shows "kaddr t = kaddr s" "kcell t = kcell s" "translate t = translate s" "room t p n = room s p n" "wroom t p n = wroom s p n"
proof -
  obtain x where x: "pmem x = pmem s" "cr3 x = cr3 s" "upd_within B x t" using assms unfolding works_def by blast
  note i = mem_indep [of x s, OF x(1,2)] and u = upd_within_kaddr [OF x(3)] upd_within_kcell [OF x(3)]
  show "kaddr t = kaddr s" "kcell t = kcell s" using i u by simp_all
  then show "room t p n = room s p n" "wroom t p n = wroom s p n" by (simp_all add: room_def wroom_def)
  show "translate t = translate s" using x(3) i(1) by (simp add: upd_within_def)
qed

lemma works_data [work_keeps]:
  assumes "works B s t"
  shows "kaddr s a \<Longrightarrow> a \<notin> B \<Longrightarrow> peek8 t a = peek8 s a" "kcell s c \<Longrightarrow> bytes4 c \<inter> B = {} \<Longrightarrow> peek32 t c = peek32 s c"
    "blk s p bs \<Longrightarrow> span p (length bs) \<inter> B = {} \<Longrightarrow> blk t p bs" "cstr s p cs \<Longrightarrow> span p (Suc (length cs)) \<inter> B = {} \<Longrightarrow> cstr t p cs"
    "warr s p ws \<Longrightarrow> wspan p (length ws) \<inter> B = {} \<Longrightarrow> warr t p ws"
proof -
  obtain x where x: "pmem x = pmem s" "cr3 x = cr3 s" "upd_within B x t" using assms unfolding works_def by blast
  note i = mem_indep [of x s, OF x(1,2)]
  show "kaddr s a \<Longrightarrow> a \<notin> B \<Longrightarrow> peek8 t a = peek8 s a" using upd_within_peek8 [OF x(3), of a] i by simp
  show w: "peek32 t c = peek32 s c" if "kcell s c" "bytes4 c \<inter> B = {}" for c using upd_within_peek32 [OF x(3), of c] that i by simp
  have "blk x p bs = blk s p bs" for p bs by (rule same_mem(4)) (simp_all add: x)
  then show b: "blk s p bs \<Longrightarrow> span p (length bs) \<inter> B = {} \<Longrightarrow> blk t p bs" for p bs using upd_within_blk [OF x(3), of p bs] by simp
  show "cstr s p cs \<Longrightarrow> span p (Suc (length cs)) \<inter> B = {} \<Longrightarrow> cstr t p cs" using b [of p "cs @ [0]"] by (simp add: cstr_def)
  show "warr t p ws" if a: "warr s p ws" "wspan p (length ws) \<inter> B = {}"
  proof -
    have "peek32 t (p + of_nat (4 * i)) = ws ! i" if "i < length ws" for i
    proof -
      have "bytes4 (p + of_nat (4 * i)) \<subseteq> wspan p (length ws)" using that unfolding wspan_def by blast
      then have "bytes4 (p + of_nat (4 * i)) \<inter> B = {}" using a(2) by blast
      then show ?thesis using w [of "p + of_nat (4 * i)"] a(1) that by (simp add: warr_def wroom_def)
    qed
    then show ?thesis using a(1) works_map(5) [OF assms] by (simp add: warr_def)
  qed
qed


text \<open>The structures of the components, at whatever bytes they are.\<close>

lemma mapping_same:
  fixes s :: "'a machine_scheme" and t :: "'b machine_scheme"
  assumes "pmem t = pmem s" "cr3 t = cr3 s"
  shows "frame_of t = frame_of s" "pde_of t = pde_of s" "frame_fresh t = frame_fresh s" "paging_ok t = paging_ok s"
proof -
  show f: "frame_of t = frame_of s" by (rule ext) (simp add: frame_of_def pd_entry_addr_def assms Let_def)
  have g: "table_frame t = table_frame s" by (rule ext) (simp add: table_frame_def pd_entry_addr_def assms)
  show p: "pde_of t = pde_of s" by (rule ext) (simp add: pde_of_def pd_entry_addr_def assms)
  show "frame_fresh t = frame_fresh s" by (rule ext) (simp add: frame_fresh_def f g)
  show "paging_ok t = paging_ok s" by (simp add: paging_ok_def p dir_frame_def assms(2))
qed

lemma mem_ready_same:
  fixes s :: "'a machine_scheme" and t :: "'b machine_scheme"
  assumes "pmem t = pmem s" "cr3 t = cr3 s"
  shows "mem_ready t mo n = mem_ready s mo n"
  using mapping_same [OF assms] mem_indep [OF assms] by (simp add: mem_ready_def room_def)

lemma mem_ready_upd:
  assumes "upd_within B s t"
  shows "mem_ready t mo n = mem_ready s mo n"
proof -
  note ts = upd_within_tables [OF assms]
  have "pde_of t (vpage i) = pde_of s (vpage i) \<and> frame_of t (vpage i) = frame_of s (vpage i)"
    if "i < 8 * unat (kernel_bitmap_length n)" for i
  proof -
    have "i < 0x3fb00" using that bitmap_lengths [of n] by simp
    then have "vpage i < 0x100000" using vpage_range [of i] by simp
    then show ?thesis using tables_same_pde [OF ts] tables_same_frame [OF ts] by simp
  qed
  then show ?thesis
    by (auto simp: mem_ready_def upd_within_kcell [OF assms] upd_within_room [OF assms] tables_same_fresh [OF ts] tables_same_paging [OF ts])
qed

lemma works_ok [work_keeps]:
  assumes "works B s t"
  shows "mem_ready t mo n = mem_ready s mo n" "tasks_ok t to ps = tasks_ok s to ps" "esp_ok t = esp_ok s" "on_stack t = on_stack s"
    "intr_off t = intr_off s" "global_cell t to ps c = global_cell s to ps c" "lock_ok t to ps l = lock_ok s to ps l" "sem_ok t to ps p = sem_ok s to ps p"
    "queue_ok t to ps q = queue_ok s to ps q"
proof -
  note k = works_map [OF assms] and e = works_registers [OF assms]
  obtain x where x: "pmem x = pmem s" "cr3 x = cr3 s" "upd_within B x t" using assms unfolding works_def by blast
  show "mem_ready t mo n = mem_ready s mo n" using mem_ready_same [OF x(1,2)] mem_ready_upd [OF x(3)] by simp
  show "tasks_ok t to ps = tasks_ok s to ps" by (simp add: tasks_ok_def task_def k)
  show "esp_ok t = esp_ok s" "on_stack t = on_stack s" "intr_off t = intr_off s"
    by (simp_all add: esp_ok_def on_stack_def intr_off_def e fun_eq_iff)
  show gc: "global_cell t to ps c = global_cell s to ps c" for c by (simp add: global_cell_def k)
  show "lock_ok t to ps l = lock_ok s to ps l" "sem_ok t to ps p = sem_ok s to ps p" by (simp_all add: lock_ok_def sem_ok_def k)
  show "queue_ok t to ps q = queue_ok s to ps q" by (simp add: queue_ok_def gc)
qed

text \<open>The invariants, when the work is outside what they speak of.\<close>

lemma kernel_inv_same:
  assumes "pmem x = pmem s" "cr3 x = cr3 s" "esp x = esp s"
  shows "kernel_inv x mo m to cur rdy bl alls = kernel_inv s mo m to cur rdy bl alls"
proof -
  note i = mem_indep [of x s, OF assms(1,2)]
  have "klist x l xs = klist s l xs" for l xs by (simp add: klist_def dlist_def i)
  moreover have "sched_inv x to cur rdy bl = sched_inv s to cur rdy bl"
    using calculation by (simp add: sched_inv_def tasks_ok_def task_def saved_ok_def status_def on_stack_def i assms(3))
  ultimately show ?thesis using mem_inv_indep(1) [OF assms(1,2)] by (simp add: kernel_inv_def)
qed

lemma works_kernel [work_keeps]:
  assumes "works B s t" "kernel_inv s mo m to cur rdy bl alls" "B \<inter> mem_bytes mo m = {}" "B \<inter> thread_bytes to (cur # rdy @ bl) = {}"
  shows "kernel_inv t mo m to cur rdy bl alls"
proof -
  let ?ps = "cur # rdy @ bl"
  obtain x where x: "pmem x = pmem s" "cr3 x = cr3 s" "esp x = esp s" "upd_within B x t" using assms(1) unfolding works_def by blast
  have k: "kernel_inv x mo m to cur rdy bl alls" using assms(2) kernel_inv_same [OF x(1-3)] by simp
  then have mi: "mem_inv x mo m" and si: "sched_inv x to cur rdy bl" and al: "klist x (thread_all_list to) (map all_list_tag alls)" "set alls \<subseteq> set ?ps"
    and tk: "tasks_ok x to ?ps" by (simp_all add: kernel_inv_def sched_inv_def)
  have "mem_inv t mo m"
    using mi pools_hold_upd [OF _ x(4)] pools_mapped_upd [OF upd_within_tables [OF x(4)]] assms(3) by (simp add: mem_inv_def mem_bytes_def)
  moreover have "sched_inv t to cur rdy bl" by (rule sched_inv_extends(1) [OF extends_upd [OF x(4)] si assms(4)])
  moreover have "klist t (thread_all_list to) (map all_list_tag alls)"
  proof (rule klist_frame [OF x(4) al(1)])
    have "list_bytes (thread_all_list to) (map all_list_tag alls) \<subseteq> thread_bytes to ?ps"
      unfolding tags_eq by (rule tag_bytes [OF tk al(2) global_heads(2)]) simp_all
    then show "B \<inter> list_bytes (thread_all_list to) (map all_list_tag alls) = {}" using assms(4) by blast
  qed
  ultimately show ?thesis using k by (simp add: kernel_inv_def)
qed

lemma works_lock [work_keeps]:
  assumes "works B s t" "lock_rel to ps lk s L" "esp_ok s (lk_running L)" "B \<inter> (thread_bytes to ps \<union> lock_bytes lk) = {}"
  shows "lock_rel to ps lk t L"
proof -
  obtain x where x: "pmem x = pmem s" "cr3 x = cr3 s" "esp x = esp s" "upd_within B x t" using assms(1) unfolding works_def by blast
  show ?thesis by (rule text_work [OF _ _ x(4) assms(4)]) (use assms(2,3) same_rel(4,5) [OF x(1-3)] in simp_all)
qed


subsection \<open>The steps of the initialisation\<close>

lemma upd_idtr: "upd_within B s t \<Longrightarrow> idtr_limit t = idtr_limit s \<and> idtr_base t = idtr_base s"
  by (auto simp: upd_within_def tables_same_def)

text \<open>The ports that \<open>init_all\<close> writes: the two interrupt controllers, then the timer.\<close>

definition init_ports :: "(u16 \<times> u8) list" where
  "init_ports = pic_bytes @ [(0x43, 0x34), (0x40, 0xa9), (0x40, 0)]"

lemma gate_length [simp]: "length (gate_bytes w) = 8"
  by (simp add: gate_bytes_def)

lemma devices_run:
  assumes ok: "idt_ok s io fs"
  shows "\<exists>t. cseq (idt_init io) (timer_init io h) s = Inr ((), t) \<and> (\<forall>i < 48. blk t (idt io + of_nat (8 * i)) (gate_bytes (fs ! i))) \<and>
    warr t (idt_table io) ((replicate 48 (general_handler io))[32 := h]) \<and> warr t (intr_name io) (exception_names io) \<and>
    idtr_limit t = 383 \<and> ports_out t = ports_out s @ init_ports \<and> works (idt_area io) s t"
proof -
  from idt_init_spec [OF ok] obtain u where
    u: "idt_init io s = Inr ((), u)" "\<forall>i < 48. blk u (idt io + of_nat (8 * i)) (gate_bytes (fs ! i))"
      "warr u (idt_table io) (replicate 48 (general_handler io))" "warr u (intr_name io) (exception_names io)"
      "idtr_limit u = 383" "ports_out u = ports_out s @ pic_bytes"
      "upd_within (idt_area io) (s\<lparr>console := console u, ports_out := ports_out u, idtr_limit := 383, idtr_base := idt io AND 0xFFFF\<rparr>) u" by blast
  have wu: "works (idt_area io) s u" by (rule worksI [OF u(7)]) simp_all
  from timer_init_ports [OF u(3), of h] obtain t where
    t: "timer_init io h u = Inr ((), t)" "ports_out t = ports_out u @ [(0x43, 0x34), (0x40, 0xa9), (0x40, 0)]"
      "warr t (idt_table io) ((replicate 48 (general_handler io))[32 := h])"
      "upd_within (wspan (idt_table io) 48) (u\<lparr>console := console t, ports_out := ports_out t\<rparr>) t" by auto
  have wt: "works (wspan (idt_table io) 48) u t" by (rule worksI [OF t(4)]) simp_all
  have dj: "span (idt io + of_nat (8 * i)) 8 \<inter> wspan (idt_table io) 48 = {}" if "i < 48" for i
  proof -
    have "span (idt io + of_nat (8 * i)) 8 \<subseteq> span (idt io) 384" by (rule span_shift) (use that in simp)
    then show ?thesis using ok unfolding idt_ok_def by blast
  qed
  have "blk t (idt io + of_nat (8 * i)) (gate_bytes (fs ! i))" if i: "i < 48" for i
    by (rule works_data(3) [OF wt u(2) [rule_format, OF i]]) (simp only: gate_length dj [OF i])
  moreover have "wspan (intr_name io) (length (exception_names io)) \<inter> wspan (idt_table io) 48 = {}"
    using ok by (auto simp: idt_ok_def exception_names_def)
  then have "warr t (intr_name io) (exception_names io)" using works_data(5) [OF wt u(4)] by simp
  moreover have "idtr_limit t = 383" using upd_idtr [OF t(4)] u(5) by simp
  moreover have "works (idt_area io) s t"
    using works_trans [OF wu wt] by (rule works_mono) (auto simp: idt_area_def)
  ultimately show ?thesis using u(1,6) t(1-3) by (intro exI [of _ t]) (simp add: cseq_def cbind_def init_ports_def)
qed

lemma init_mem_bytes: "mem_bytes mo (init_view n) \<subseteq> mem_init_bytes mo n"
proof -
  let ?k = "unat (kernel_bitmap_length n)" and ?u = "unat (user_bitmap_length n)"
  have "pool_cells mo \<subseteq> \<Union> (bytes4 ` set (mem_cells mo))" by (auto simp: pool_cells_def mem_cells_def)
  moreover have "kspan (init_view n) \<subseteq> span MEM_BITMAP_BASE (bitmap_bytes n)"
    unfolding kspan_def init_view_def Let_def by (simp add: span_mono bitmap_bytes_def)
  moreover have "vspan (init_view n) = span (MEM_BITMAP_BASE + of_nat (?k + ?u)) ?k"
    by (simp add: vspan_def init_view_def Let_def add.assoc)
  then have "vspan (init_view n) \<subseteq> span MEM_BITMAP_BASE (bitmap_bytes n)"
    using span_shift [of "?k + ?u" ?k "bitmap_bytes n" MEM_BITMAP_BASE] by (simp add: bitmap_bytes_def)
  ultimately show ?thesis unfolding mem_bytes_def mem_init_bytes_def by blast
qed

lemma core_run:
  fixes s :: "'z idt_machine_scheme"
  assumes m: "kcell s 0xc0000b00" "translate s 0xb00 = translate s 0xc0000b00" "peek32 s 0xc0000b00 = n" "mem_ready s mo n"
    and tk: "tasks_ok s to [cur]" "on_stack s cur" and name: "cstr s nm cs" "length cs \<le> 15"
    and d: "span nm (Suc (length cs)) \<inter> (mem_init_bytes mo n \<union> thread_bytes to [cur]) = {}" "mem_init_bytes mo n \<inter> thread_bytes to [cur] = {}"
  shows "\<exists>t. cseq (mem_init mo) (thread_init to nm) s = Inr ((), t) \<and> kernel_inv t mo (init_view n) to cur [] [] [cur] \<and>
    status t cur = status_code TASK_RUNNING \<and> ports_out t = ports_out s \<and> idtr_limit t = idtr_limit s \<and>
    works (mem_init_bytes mo n \<union> thread_bytes to [cur]) s t"
proof -
  obtain p where p: "translate s 0xb00 = Some p" using m(1,2) by (auto simp: kcell_def elim: kaddr_translate)
  have pk: "peek32 s 0xb00 = n" using m(2,3) by (simp add: peek32_def)
  from mem_init_spec [OF p pk m(4)] obtain u c where
    u: "mem_init mo s = Inr ((), u)" "mem_inv u mo (init_view n)" "upd_within (mem_init_bytes mo n) (s\<lparr>console := console s @ c\<rparr>) u" by blast
  have wu: "works (mem_init_bytes mo n) s u" by (rule worksI [OF u(3)]) simp_all
  have "tasks_ok u to [cur]" "on_stack u cur" using tk works_ok [OF wu] by simp_all
  moreover have "cstr u nm cs" by (rule works_data(4) [OF wu name(1)]) (use d(1) in blast)
  moreover have "span nm (Suc (length cs)) \<inter> thread_bytes to [cur] = {}" using d(1) by blast
  moreover have "mem_bytes mo (init_view n) \<inter> thread_bytes to [cur] = {}" using d(2) init_mem_bytes [of mo n] by blast
  ultimately obtain t x where
    t: "thread_init to nm u = Inr ((), t)" "kernel_inv t mo (init_view n) to cur [] [] [cur]" "pcb t cur cs (status_code TASK_RUNNING) 31"
      "upd_within (thread_bytes to [cur]) (u\<lparr>console := x\<rparr>) t"
    using thread_init_spec [OF u(2) _ _ _ name(2)] by blast
  have "works (thread_bytes to [cur]) u t" by (rule worksI [OF t(4)]) simp_all
  then have "works (mem_init_bytes mo n \<union> thread_bytes to [cur]) s t" by (rule works_trans [OF wu])
  moreover have "ports_out t = ports_out s" "idtr_limit t = idtr_limit s"
    using upd_registers(4) [OF t(4)] upd_registers(4) [OF u(3)] upd_idtr [OF t(4)] upd_idtr [OF u(3)] by simp_all
  moreover have "status t cur = status_code TASK_RUNNING" using t(3) by (simp add: pcb_def)
  ultimately show ?thesis using u(1) t(1,2) by (intro exI [of _ t]) (simp add: cseq_def cbind_def)
qed


text \<open>The bytes of the queue's ring and indices.\<close>

definition ring_bytes :: "addr \<Rightarrow> addr set" where
  "ring_bytes q = \<Union> (bytes4 ` ring_cells q)"

text \<open>A cell of the handlers' table is a global variable of the kernel, apart from the scheduler's.\<close>

lemma table_cell:
  assumes w: "warr s p ws" "k < length ws" and tk: "tasks_ok s to [cur]" and d: "wspan p (length ws) \<inter> thread_bytes to [cur] = {}"
  shows "global_cell s to [cur] (p + of_nat (4 * k))"
proof -
  let ?c = "p + of_nat (4 * k)"
  have k: "kcell s ?c" using w by (simp add: warr_def wroom_def)
  have "bytes4 ?c \<subseteq> wspan p (length ws)" using w(2) unfolding wspan_def by blast
  moreover have c: "?c \<in> bytes4 ?c" by (simp add: in_bytes4)
  ultimately have n: "?c \<notin> thread_bytes to [cur]" using d by blast
  then have "?c \<notin> sched_globals to" using c unfolding thread_bytes_def by blast
  moreover have "task s cur" using tk by (simp add: tasks_ok_def)
  then have "page_of ?c \<noteq> page_of cur" using n page_bytes_iff [OF task_page] by (auto simp: thread_bytes_def)
  ultimately show ?thesis using k by (simp add: global_cell_def)
qed

text \<open>The table after one of its cells has been set.\<close>

lemma table_set:
  assumes w: "warr s p ws" "k < length ws" and u: "works B s t" "B \<inter> wspan p (length ws) \<subseteq> bytes4 (p + of_nat (4 * k))"
    and v: "peek32 t (p + of_nat (4 * k)) = x"
  shows "warr t p (ws[k := x])"
proof -
  have r: "wroom s p (length ws)" and n: "length ws \<le> 2 ^ 16" using w(1) by (simp_all add: warr_def wroom_def)
  have "peek32 t (p + of_nat (4 * i)) = ws[k := x] ! i" if i: "i < length ws" for i
  proof (cases "i = k")
    case False
    have kc: "kcell s (p + of_nat (4 * i))" "kcell s (p + of_nat (4 * k))" using r i w(2) by (simp_all add: wroom_def)
    have ne: "p + of_nat (4 * i) \<noteq> p + of_nat (4 * k)" using index_inj [of i k p] False i w(2) n by auto
    have "bytes4 (p + of_nat (4 * i)) \<inter> bytes4 (p + of_nat (4 * k)) = {}" by (rule bytes4_disjoint [OF _ _ ne]) (use kc in \<open>simp_all add: kcell_def\<close>)
    moreover have "bytes4 (p + of_nat (4 * i)) \<subseteq> wspan p (length ws)" using i unfolding wspan_def by blast
    ultimately have "bytes4 (p + of_nat (4 * i)) \<inter> B = {}" using u(2) by blast
    then show ?thesis using works_data(2) [OF u(1) kc(1)] w(1) i False by (simp add: warr_def)
  qed (use v i in simp)
  then show ?thesis using r works_map(5) [OF u(1)] by (simp add: warr_def)
qed

lemma io_run:
  fixes s :: "'z idt_machine_scheme"
  assumes k: "kernel_inv s mo m to cur [] [] [cur]" "status s cur = status_code TASK_RUNNING" and e: "esp_ok s cur" "intr_off s"
    and l: "lock_ok s to [cur] lk" "sem_ok s to [cur] (lock_semaphore lk)" "queue_ok s to [cur] (keyboard_buffer ko)"
    and w: "warr s (idt_table io) hs" "length hs = 48"
    and d: "wspan (idt_table io) 48 \<inter> (thread_bytes to [cur] \<union> lock_bytes lk \<union> ring_bytes (keyboard_buffer ko)) = {}"
      "lock_bytes lk \<inter> ring_bytes (keyboard_buffer ko) = {}" "ring_bytes (keyboard_buffer ko) \<inter> thread_bytes to [cur] = {}"
  shows "\<exists>t. cseq (console_init lk) (keyboard_init io ko h) s = Inr ((), t) \<and>
    lock_rel to [cur] lk t (lock_start \<lparr>running = cur, ready = [], blocked = [], contexts = ctx\<rparr>) \<and>
    queue_rel to [cur] (keyboard_buffer ko) t \<lparr>running = cur, ready = [], blocked = [], contexts = ctx\<rparr> \<lparr>chars = [], producer = NULL, consumer = NULL\<rparr> \<and>
    warr t (idt_table io) (hs[33 := h]) \<and> ports_out t = ports_out s \<and> idtr_limit t = idtr_limit s \<and>
    works (lock_bytes lk \<union> (ring_bytes (keyboard_buffer ko) \<union> bytes4 (idt_table io + 132))) s t"
proof -
  let ?v = "\<lparr>running = cur, ready = [], blocked = [], contexts = ctx\<rparr>" and ?q = "keyboard_buffer ko" and ?c = "idt_table io + 132"
  have r: "sched_rel to [cur] s ?v" using k by (simp add: sched_rel_def kernel_inv_def)
  from lock_init_spec [OF r l(1,2)] obtain u where
    u: "lock_init lk s = Inr ((), u)" "lock_rel to [cur] lk u (lock_start ?v)" "upd_within (lock_bytes lk) s u" by blast
  note wu = works_upd [OF u(3)]
  have ru: "sched_rel to [cur] u ?v" using u(2) by (simp add: lock_rel_def sem_rel_def lock_start_def)
  have tk: "tasks_ok u to [cur]" using rel_parts(1) [OF ru] by (simp add: sched_inv_def)
  have dl: "wspan (idt_table io) 48 \<inter> lock_bytes lk = {}" "wspan (idt_table io) (length hs) \<inter> thread_bytes to [cur] = {}" using d(1) w(2) by auto
  have hu: "warr u (idt_table io) hs" by (rule works_data(5) [OF wu w(1)]) (use dl(1) w(2) in simp)
  have gc: "global_cell u to [cur] ?c" using table_cell [OF hu _ tk dl(2), of 33] w(2) by simp
  have sub: "bytes4 ?c \<subseteq> wspan (idt_table io) 48" unfolding wspan_def by (rule subset_trans [OF _ UN_upper [of 33]]) simp_all
  have nr: "?c \<notin> ring_cells ?q"
  proof
    assume "?c \<in> ring_cells ?q"
    then have "bytes4 ?c \<subseteq> ring_bytes ?q" unfolding ring_bytes_def by blast
    moreover have "?c \<in> bytes4 ?c" by (simp add: in_bytes4)
    ultimately show False using sub d(1) by blast
  qed
  have "queue_ok u to [cur] ?q" "intr_off u" using works_ok [OF wu] l(3) e(2) by simp_all
  from keyboard_init_spec [OF ru this gc nr, of h] obtain t where
    t: "keyboard_init io ko h u = Inr ((), t)" "peek32 t ?c = h" "queue_rel to [cur] ?q t ?v \<lparr>chars = [], producer = NULL, consumer = NULL\<rparr>"
      "upd_within (ring_bytes ?q \<union> bytes4 ?c) (u\<lparr>console := console t\<rparr>) t" unfolding ring_bytes_def by blast
  have wt: "works (ring_bytes ?q \<union> bytes4 ?c) u t" by (rule worksI [OF t(4)]) simp_all
  have sb: "(ring_bytes ?q \<union> bytes4 ?c) \<inter> wspan (idt_table io) (length hs) \<subseteq> bytes4 (idt_table io + of_nat (4 * 33))" using d(1) w(2) by auto
  have "warr t (idt_table io) (hs[33 := h])" by (rule table_set [OF hu _ wt sb]) (use t(2) w(2) in simp_all)
  moreover have "lock_rel to [cur] lk t (lock_start ?v)"
    by (rule works_lock [OF wt u(2)]) (use e(1) works_ok(3) [OF wu] d sub dl in \<open>auto simp: lock_start_def\<close>)
  moreover have "ports_out t = ports_out s" "idtr_limit t = idtr_limit s"
    using upd_registers(4) [OF t(4)] upd_registers(4) [OF u(3)] upd_idtr [OF t(4)] upd_idtr [OF u(3)] by simp_all
  ultimately show ?thesis
    using u(1) t(1,3) works_trans [OF wu wt] by (intro exI [of _ t]) (simp add: cseq_def cbind_def console_init_def)
qed


subsection \<open>The whole initialisation\<close>

fun pairwise_apart :: "'a set list \<Rightarrow> bool" where
  "pairwise_apart [] = True"
| "pairwise_apart (A # As) = ((\<forall>B \<in> set As. A \<inter> B = {}) \<and> pairwise_apart As)"

definition init_areas :: "kernel_objs \<Rightarrow> u32 \<Rightarrow> addr \<Rightarrow> addr set list" where
  "init_areas bo n cur = [idt_area (at_idt bo), mem_init_bytes (at_mem bo) n, thread_bytes (at_threads bo) [cur],
     lock_bytes (at_console_lock bo), ring_bytes (keyboard_buffer (at_keyboard bo))]"

text \<open>
  The machine that \<open>main\<close> starts on: \<open>n\<close> bytes of memory as the loader counted them, the stack
  in the page \<open>cur\<close>, interrupts off, \<open>cs\<close> the name of the main thread and \<open>fs\<close> the entries of
  the interrupt vectors; the globals of the components lie apart.
\<close>

definition init_ready :: "kernel_objs \<Rightarrow> addr list \<Rightarrow> u32 \<Rightarrow> addr \<Rightarrow> u8 list \<Rightarrow> 'z machine_scheme \<Rightarrow> bool" where
  "init_ready bo fs n cur cs s \<longleftrightarrow> idt_ok s (at_idt bo) fs \<and> mem_ready s (at_mem bo) n \<and> tasks_ok s (at_threads bo) [cur] \<and>
     lock_ok s (at_threads bo) [cur] (at_console_lock bo) \<and> sem_ok s (at_threads bo) [cur] (lock_semaphore (at_console_lock bo)) \<and>
     queue_ok s (at_threads bo) [cur] (keyboard_buffer (at_keyboard bo)) \<and>
     kcell s 0xc0000b00 \<and> translate s 0xb00 = translate s 0xc0000b00 \<and> peek32 s 0xc0000b00 = n \<and> bytes4 0xc0000b00 \<inter> idt_area (at_idt bo) = {} \<and>
     esp_ok s cur \<and> intr_off s \<and> cstr s (main_name bo) cs \<and> length cs \<le> 15 \<and>
     (\<forall>A \<in> set (take 3 (init_areas bo n cur)). span (main_name bo) (Suc (length cs)) \<inter> A = {}) \<and> pairwise_apart (init_areas bo n cur)"

text \<open>What then holds of all components together, whether interrupts are on or off.\<close>

definition booted :: "kernel_objs \<Rightarrow> addr list \<Rightarrow> u32 \<Rightarrow> addr \<Rightarrow> sched_view \<Rightarrow> 'z idt_machine_scheme \<Rightarrow> bool" where
  "booted bo fs n cur v t \<longleftrightarrow>
     kernel_inv t (at_mem bo) (init_view n) (at_threads bo) cur [] [] [cur] \<and> sched_rel (at_threads bo) [cur] t v \<and>
     lock_rel (at_threads bo) [cur] (at_console_lock bo) t (lock_start v) \<and>
     ring t (keyboard_buffer (at_keyboard bo)) [] \<and>
     (\<forall>i < 48. blk t (idt (at_idt bo) + of_nat (8 * i)) (gate_bytes (fs ! i))) \<and>
     warr t (idt_table (at_idt bo)) ((replicate 48 (general_handler (at_idt bo)))[32 := timer_handler bo, 33 := keyboard_handler bo]) \<and>
     idtr_limit t = 383"

lemma esp_on_stack: "esp_ok s p \<Longrightarrow> on_stack s p"
  by (simp add: esp_ok_def on_stack_def Let_def word_le_nat_alt)

lemma init_areas_apart:
  assumes "init_ready bo fs n cur cs s"
  shows "idt_area (at_idt bo) \<inter> (mem_init_bytes (at_mem bo) n \<union> thread_bytes (at_threads bo) [cur]) = {}"
    "(idt_area (at_idt bo) \<union> (mem_init_bytes (at_mem bo) n \<union> thread_bytes (at_threads bo) [cur])) \<inter>
      (lock_bytes (at_console_lock bo) \<union> ring_bytes (keyboard_buffer (at_keyboard bo))) = {}"
    "mem_init_bytes (at_mem bo) n \<inter> thread_bytes (at_threads bo) [cur] = {}" "lock_bytes (at_console_lock bo) \<inter> ring_bytes (keyboard_buffer (at_keyboard bo)) = {}"
    "span (main_name bo) (Suc (length cs)) \<inter> idt_area (at_idt bo) = {}"
    "span (main_name bo) (Suc (length cs)) \<inter> (mem_init_bytes (at_mem bo) n \<union> thread_bytes (at_threads bo) [cur]) = {}"
    "span (idt (at_idt bo)) 384 \<inter> wspan (idt_table (at_idt bo)) 48 = {}"
  using assms by (auto simp: init_ready_def init_areas_def idt_ok_def)

lemma idt_sub: "wspan (idt_table io) 48 \<subseteq> idt_area io" "i < 48 \<Longrightarrow> span (idt io + of_nat (8 * i)) 8 \<subseteq> idt_area io"
  using span_shift [of "8 * i" 8 384 "idt io"] by (auto simp: idt_area_def)

text \<open>From \<open>idt_init\<close> to \<open>thread_init\<close>.\<close>

lemma init_core:
  fixes s :: "'z idt_machine_scheme"
  assumes ok: "init_ready bo fs n cur cs s"
  shows "\<exists>t. cseq (log_console (Printk m [])) (cseq (cseq (idt_init (at_idt bo)) (timer_init (at_idt bo) (timer_handler bo)))
      (cseq (mem_init (at_mem bo)) (thread_init (at_threads bo) (main_name bo)))) s = Inr ((), t) \<and>
    kernel_inv t (at_mem bo) (init_view n) (at_threads bo) cur [] [] [cur] \<and> status t cur = status_code TASK_RUNNING \<and>
    (\<forall>i < 48. blk t (idt (at_idt bo) + of_nat (8 * i)) (gate_bytes (fs ! i))) \<and>
    warr t (idt_table (at_idt bo)) ((replicate 48 (general_handler (at_idt bo)))[32 := timer_handler bo]) \<and>
    ports_out t = ports_out s @ init_ports \<and> idtr_limit t = 383 \<and>
    works (idt_area (at_idt bo) \<union> (mem_init_bytes (at_mem bo) n \<union> thread_bytes (at_threads bo) [cur])) s t"
proof -
  let ?io = "at_idt bo" and ?mo = "at_mem bo" and ?to = "at_threads bo"
  let ?I = "idt_area ?io" and ?M = "mem_init_bytes ?mo n" and ?T = "thread_bytes ?to [cur]"
  note o = ok [unfolded init_ready_def] and ap = init_areas_apart [OF ok]
  define s0 where "s0 = s\<lparr>console := console s @ [Printk m []]\<rparr>"
  have w0: "works {} s s0" by (rule worksI [OF upd_within_refl]) (simp_all add: s0_def)
  have "idt_ok s ?io fs" using o by blast
  then have "idt_ok s0 ?io fs" unfolding idt_ok_def using works_map [OF w0] works_data(5) [OF w0] by simp
  from devices_run [OF this] obtain t1 where
    t1: "cseq (idt_init ?io) (timer_init ?io (timer_handler bo)) s0 = Inr ((), t1)" "\<forall>i < 48. blk t1 (idt ?io + of_nat (8 * i)) (gate_bytes (fs ! i))"
      "warr t1 (idt_table ?io) ((replicate 48 (general_handler ?io))[32 := timer_handler bo])" "idtr_limit t1 = 383" "ports_out t1 = ports_out s0 @ init_ports"
      "works ?I s0 t1" by blast
  have w1: "works ?I s t1" using works_trans [OF w0 t1(6)] by simp
  have c1: "kcell t1 0xc0000b00" "translate t1 0xb00 = translate t1 0xc0000b00" "mem_ready t1 ?mo n" "tasks_ok t1 ?to [cur]" "on_stack t1 cur" "length cs \<le> 15"
    using o esp_on_stack [of s cur] by (simp_all only: works_map [OF w1] works_ok [OF w1])
  have n1: "peek32 t1 0xc0000b00 = n" using works_data(2) [OF w1, of "0xc0000b00"] o by simp
  have s1: "cstr t1 (main_name bo) cs" by (rule works_data(4) [OF w1 _ ap(5)]) (use o in blast)
  from core_run [OF c1(1,2) n1 c1(3-5) s1 c1(6) ap(6) ap(3)] obtain t2 where
    t2: "cseq (mem_init ?mo) (thread_init ?to (main_name bo)) t1 = Inr ((), t2)" "kernel_inv t2 ?mo (init_view n) ?to cur [] [] [cur]"
      "status t2 cur = status_code TASK_RUNNING" "ports_out t2 = ports_out t1" "idtr_limit t2 = idtr_limit t1" "works (?M \<union> ?T) t1 t2"
    by blast
  have w2: "works (?I \<union> (?M \<union> ?T)) s t2" by (rule works_trans [OF w1 t2(6)])
  have "blk t2 (idt ?io + of_nat (8 * i)) (gate_bytes (fs ! i))" if i: "i < 48" for i
    by (rule works_data(3) [OF t2(6) t1(2) [rule_format, OF i]]) (use idt_sub(2) [OF i, of ?io] ap(1) in \<open>simp only: gate_length, blast\<close>)
  moreover have "warr t2 (idt_table ?io) ((replicate 48 (general_handler ?io))[32 := timer_handler bo])"
    by (rule works_data(5) [OF t2(6) t1(3)]) (use idt_sub(1) [of ?io] ap(1) in \<open>simp, blast\<close>)
  ultimately show ?thesis
    using t1(1,4,5) t2(1-5) w2 by (intro exI [of _ t2]) (simp add: cseq_def cbind_def log_console_def s0_def)
qed

lemma booted_same:
  fixes s t :: "'z idt_machine_scheme"
  assumes "pmem t = pmem s" "cr3 t = cr3 s" "esp t = esp s" "idtr_limit t = idtr_limit s"
  shows "booted bo fs n cur v t = booted bo fs n cur v s"
proof -
  have "ring t q xs = ring s q xs" for q xs by (simp add: ring_def mem_indep [OF assms(1,2)])
  then show ?thesis
    by (simp add: booted_def kernel_inv_same [OF assms(1-3)] same_rel [OF assms(1-3)] same_mem [OF assms(1,2)] assms(4))
qed

lemma queue_same:
  fixes s t :: "'z machine_scheme"
  assumes "pmem t = pmem s" "cr3 t = cr3 s" "esp t = esp s" "eflags t = eflags s"
  shows "queue_rel to ps q t v w = queue_rel to ps q s v w"
proof -
  have "queue_ok t to ps q = queue_ok s to ps q" "ring t q xs = ring s q xs" for xs
    by (simp_all add: queue_ok_def global_cell_def ring_def mem_indep [OF assms(1,2)])
  then show ?thesis by (simp add: queue_rel_def same_rel [OF assms(1-3)] mem_indep [OF assms(1,2)] intr_off_def assms(4))
qed

lemma init_all_spec:
  fixes s :: "'z idt_machine_scheme"
  assumes ok: "init_ready bo fs n cur cs s" and v: "v = \<lparr>running = cur, ready = [], blocked = [], contexts = ctx\<rparr>"
  shows "\<exists>t. init_all bo s = Inr ((), t) \<and> booted bo fs n cur v t \<and> ports_out t = ports_out s @ init_ports \<and> eflags t = eflags s \<and> esp t = esp s \<and>
    queue_rel (at_threads bo) [cur] (keyboard_buffer (at_keyboard bo)) t v \<lparr>chars = [], producer = NULL, consumer = NULL\<rparr>"
proof -
  let ?io = "at_idt bo" and ?to = "at_threads bo" and ?lk = "at_console_lock bo" and ?ko = "at_keyboard bo" and ?msg = "''initing_all start...\<newline>''"
  let ?I = "idt_area ?io" and ?M = "mem_init_bytes (at_mem bo) n" and ?T = "thread_bytes ?to [cur]" and ?L = "lock_bytes ?lk" and ?R = "ring_bytes (keyboard_buffer ?ko)"
  note o = ok [unfolded init_ready_def] and ap = init_areas_apart [OF ok]
  from init_core [OF ok, of ?msg] obtain t2 where
    t2: "cseq (log_console (Printk ?msg [])) (cseq (cseq (idt_init ?io) (timer_init ?io (timer_handler bo))) (cseq (mem_init (at_mem bo)) (thread_init ?to (main_name bo)))) s = Inr ((), t2)"
      "kernel_inv t2 (at_mem bo) (init_view n) ?to cur [] [] [cur]" "status t2 cur = status_code TASK_RUNNING"
      "\<forall>i < 48. blk t2 (idt ?io + of_nat (8 * i)) (gate_bytes (fs ! i))"
      "warr t2 (idt_table ?io) ((replicate 48 (general_handler ?io))[32 := timer_handler bo])"
      "ports_out t2 = ports_out s @ init_ports" "idtr_limit t2 = 383" "works (?I \<union> (?M \<union> ?T)) s t2" by blast
  have c2: "esp_ok t2 cur" "intr_off t2" "lock_ok t2 ?to [cur] ?lk" "sem_ok t2 ?to [cur] (lock_semaphore ?lk)" "queue_ok t2 ?to [cur] (keyboard_buffer ?ko)"
    using o by (simp_all only: works_ok [OF t2(8)])
  have d: "wspan (idt_table ?io) 48 \<inter> (?T \<union> ?L \<union> ?R) = {}" "?R \<inter> ?T = {}" using idt_sub(1) [of ?io] ap by blast+
  from io_run [OF t2(2,3) c2 t2(5) _ d(1) ap(4) d(2), of "keyboard_handler bo" ctx] obtain t3 where
    t3: "cseq (console_init ?lk) (keyboard_init ?io ?ko (keyboard_handler bo)) t2 = Inr ((), t3)"
      "lock_rel ?to [cur] ?lk t3 (lock_start v)" "queue_rel ?to [cur] (keyboard_buffer ?ko) t3 v \<lparr>chars = [], producer = NULL, consumer = NULL\<rparr>"
      "warr t3 (idt_table ?io) ((replicate 48 (general_handler ?io))[32 := timer_handler bo, 33 := keyboard_handler bo])"
      "ports_out t3 = ports_out t2" "idtr_limit t3 = idtr_limit t2" "works (?L \<union> (?R \<union> bytes4 (idt_table ?io + 132))) t2 t3"
    unfolding v by auto
  let ?B = "?L \<union> (?R \<union> bytes4 (idt_table ?io + 132))"
  have h: "bytes4 (idt_table ?io + 132) \<subseteq> wspan (idt_table ?io) 48" unfolding wspan_def by (rule subset_trans [OF _ UN_upper [of 33]]) simp_all
  have "kernel_inv t3 (at_mem bo) (init_view n) ?to cur [] [] [cur]"
    by (rule works_kernel [OF t3(7) t2(2)]) (use h idt_sub(1) [of ?io] ap init_mem_bytes [of "at_mem bo" n] in \<open>simp_all only: append_Nil, blast+\<close>)
  moreover have "blk t3 (idt ?io + of_nat (8 * i)) (gate_bytes (fs ! i))" if i: "i < 48" for i
  proof (rule works_data(3) [OF t3(7) t2(4) [rule_format, OF i]])
    have "span (idt ?io + of_nat (8 * i)) 8 \<subseteq> span (idt ?io) 384" by (rule span_shift) (use i in simp)
    then have "span (idt ?io + of_nat (8 * i)) 8 \<inter> wspan (idt_table ?io) 48 = {}" using ap(7) by blast
    then show "span (idt ?io + of_nat (8 * i)) (length (gate_bytes (fs ! i))) \<inter> ?B = {}"
      using h idt_sub(2) [OF i, of ?io] ap(2) by (simp only: gate_length) blast
  qed
  ultimately have b: "booted bo fs n cur v t3"
    using t2(7) t3(2-4,6) by (simp add: booted_def queue_rel_def)
  let ?t = "t3\<lparr>console := console t3 @ [Printk ''init_all done.\<newline>'' []]\<rparr>"
  have "init_all bo s = Inr ((), ?t)"
    using t2(1) t3(1) by (simp add: init_all_def cseq_assoc [symmetric]) (simp add: cseq_def cbind_def log_console_def)
  moreover have "booted bo fs n cur v ?t" using b booted_same [of ?t t3] by simp
  moreover have "queue_rel ?to [cur] (keyboard_buffer ?ko) ?t v \<lparr>chars = [], producer = NULL, consumer = NULL\<rparr>"
    using t3(3) queue_same [of ?t t3] by simp
  ultimately show ?thesis
    using t2(6) t3(5) works_registers [OF t2(8)] works_registers [OF t3(7)] by (intro exI [of _ ?t]) simp
qed


lemma init_ready_log:
  assumes "init_ready bo fs n cur cs s"
  shows "init_ready bo fs n cur cs (s\<lparr>console := x\<rparr>)"
proof -
  let ?t = "s\<lparr>console := x\<rparr>"
  have w: "works {} s ?t" by (rule worksI [OF upd_within_refl]) simp_all
  have "idt_ok s (at_idt bo) fs" "cstr s (main_name bo) cs" "kcell s 0xc0000b00" using assms by (simp_all add: init_ready_def)
  then have "idt_ok ?t (at_idt bo) fs" "cstr ?t (main_name bo) cs" "peek32 ?t 0xc0000b00 = peek32 s 0xc0000b00"
    using works_map [OF w] works_data [OF w] by (simp_all add: idt_ok_def)
  then show ?thesis using assms unfolding init_ready_def works_ok [OF w] works_map [OF w] by (elim conjE) (intro conjI; simp)
qed

lemma intr_enabled: "intr_off s \<Longrightarrow> intr_enable s = Inr (INTR_OFF, s\<lparr>eflags := eflags s OR EFLAGS_IF\<rparr>) \<and> \<not> intr_off (s\<lparr>eflags := eflags s OR EFLAGS_IF\<rparr>)"
proof -
  assume "intr_off s"
  moreover have "EFLAGS_IF AND (e OR EFLAGS_IF) = EFLAGS_IF" for e :: u32 by (rule bit_word_eqI) (auto simp: bit_simps)
  ultimately show ?thesis
    by (simp add: intr_enable_def intr_get_status_def intr_off_def intr_status_of_def sti_def cbind_def cseq_def gets_def modify_def ret_def EFLAGS_IF_def)
qed

subsection \<open>The entry of \<open>boot/entry.c\<close>\<close>

text \<open>
  The nine characters are at the top of the screen, white on black, and the first thing that
  \<open>printkDebug\<close> does then is to erase them.
\<close>

lemma entry_text_shown:
  fixes s :: "'z vga_machine_scheme"
  assumes "length (video_memory s) = 4000"
  shows "\<exists>t u. kern_entry_text s = Inr ((), t) \<and> take 9 (scr_cells (screen_of t)) = map (\<lambda>c. (c, color_attr black white)) entry_text \<and>
    clear_screen t = Inr ((), u) \<and> screen_of u = \<lparr>scr_cells = replicate 2000 blank, scr_pos = 0\<rparr>"
proof -
  have st: "vga_store i v s = Inr ((), s\<lparr>video_memory := (video_memory s)[i := v]\<rparr>)" if "i < 4000" "length (video_memory s) = 4000"
    for i v and s :: "'z vga_machine_scheme" using that by (simp add: vga_store_def)
  have r: "[0..<9] = [0, 1, 2, 3, 4, 5, 6, 7, 8]" and q: "[0..<18] = [0, 1, 2, 3, 4, 5, 6, 7, 8, 9, 10, 11, 12, 13, 14, 15, 16, 17]"
    by (simp_all add: upt_rec)
  obtain t where t: "kern_entry_text s = Inr ((), t)" "length (video_memory t) = 4000" "map (\<lambda>k. video_memory t ! k) [0..<18] =
      [84, 15, 111, 15, 105, 15, 108, 15, 101, 15, 116, 15, 79, 15, 83, 15, 33, 15]"
    using assms by (simp add: kern_entry_text_def entry_text_def r st cseq_def cbind_def run_all.simps ret_def q nth_list_update)
  have "take 9 (scr_cells (screen_of t)) = map (\<lambda>k. (video_memory t ! (2 * k), video_memory t ! (2 * k + 1))) [0..<9]"
    by (simp add: screen_of_def cells_of_def take_map)
  also have "\<dots> = map (\<lambda>c. (c, color_attr black white)) entry_text"
    using t(3) by (simp add: r q entry_text_def color_attr_def)
  finally show ?thesis using t(1) clear_screen_spec [OF t(2)] by blast
qed

subsection \<open>The thread functions\<close>

text \<open>
  A turn of the loop: with the console free the argument is printed whole and the loop goes
  round again; with the console taken the thread waits, and nothing has been printed.
\<close>

lemma thread_function_turn:
  fixes s :: "'z vga_machine_scheme"
  assumes "lock_rel to ps lk s L" "lock_inv L" "esp_ok s (lk_running L)" "lk_pc L (lk_running L) = Outside"
    and "sem_count (lk_sem L) = 1 \<or> ready (lk_sched L) \<noteq> []" "text_ok to ps lk po s para cs" "vga_ok s"
  shows "if sem_count (lk_sem L) = 1
    then \<exists>t. k_thread_function_a to ra po lk para s = k_thread_function_a to ra po lk para t \<and>
      k_thread_function_b to ra po lk para s = k_thread_function_b to ra po lk para t \<and>
      screen_of t = fold (term_char (color_attr black white)) cs (screen_of s)
    else \<exists>st t. k_thread_function_a to ra po lk para s = Some (Inr (Some st, t)) \<and>
      k_thread_function_b to ra po lk para s = Some (Inr (Some st, t)) \<and> machine.more t = machine.more s"
proof -
  let ?P = "\<lambda>t. vga_ok t \<and> screen_of t = fold (term_char (color_attr black white)) cs (screen_of s)"
  have "whole_output to ps lk L (console_put_str to ra po lk para) s ?P"
    using string_call [OF assms(1-3) disjI1 [OF assms(4)] assms(5-7), of "lit_percent_s po" 115 "\<lambda>_. cs" para ra INTR_OFF] assms(4,6)
    by (simp add: console_put_str_def put_str_def text_ok_def good_arg_def outside_text_def converts_def arg_text_def)
  then have "\<exists>x t. console_put_str to ra po lk para s = Inr (x, t) \<and> (if sem_count (lk_sem L) = 1 then x = None \<and> ?P t else x \<noteq> None \<and> machine.more t = machine.more s)"
    unfolding whole_output_def by - (elim exE conjE, intro exI conjI, assumption, simp split: if_splits)
  then obtain x t where
    t: "console_put_str to ra po lk para s = Inr (x, t)" "if sem_count (lk_sem L) = 1 then x = None \<and> ?P t else x \<noteq> None \<and> machine.more t = machine.more s"
    by blast
  show ?thesis
  proof (cases "sem_count (lk_sem L) = 1")
    case True
    then show ?thesis using t by (subst k_thread_function_a.simps, subst k_thread_function_b.simps) auto
  next
    case False
    then obtain st where "x = Some st" using t(2) by auto
    then show ?thesis using t False by (subst k_thread_function_a.simps, subst k_thread_function_b.simps) simp
  qed
qed

subsection \<open>The machine at boot\<close>

definition boot_kernel_objs :: kernel_objs where
  "boot_kernel_objs = \<lparr>at_idt = boot_idt, at_mem = boot_mem, at_threads = boot_threads, at_console_lock = 0xc0000e00, at_keyboard = boot_kbd,
     timer_handler = 0xc0004000, keyboard_handler = 0xc0004100, main_name = 0xc0000d00\<rparr>"

lemma boot_init_bytes:
  "a \<in> idt_area boot_idt \<Longrightarrow> 0xc0020000 \<le> unat a \<and> unat a < 0xc0020400"
  "a \<in> mem_init_bytes boot_mem 0x2000000 \<Longrightarrow> 0xc0010000 \<le> unat a \<and> unat a < 0xc0010100 \<or> 0xc009a000 \<le> unat a \<and> unat a < 0xc009b000"
  "a \<in> lock_bytes 0xc0000e00 \<Longrightarrow> 0xc0000e00 \<le> unat a \<and> unat a < 0xc0000e1c"
  "a \<in> ring_bytes 0xc0000f00 \<Longrightarrow> 0xc0000f00 \<le> unat a \<and> unat a < 0xc0000f54"
proof -
  show "0xc0020000 \<le> unat a \<and> unat a < 0xc0020400" if "a \<in> idt_area boot_idt"
    using that span_bounds [of "0xc0020000" 384 a] span_bounds [of "0xc0020200" 192 a] span_bounds [of "0xc0020300" 192 a]
      wspan_span [of "0xc0020200" 48] wspan_span [of "0xc0020300" 48]
    by (auto simp: idt_area_def boot_idt_def)
  have c: "unat c \<le> unat a \<and> unat a < unat c + 4" if "a \<in> bytes4 c" "unat c + 4 \<le> 2 ^ 32" for c
    using span_bounds [OF that(2), of a] that(1) by (simp add: bytes4_span)
  have b: "bitmap_bytes 0x2000000 = 1440" by (simp add: bitmap_bytes_def boot_32mb)
  show "0xc0010000 \<le> unat a \<and> unat a < 0xc0010100 \<or> 0xc009a000 \<le> unat a \<and> unat a < 0xc009b000" if m: "a \<in> mem_init_bytes boot_mem 0x2000000"
  proof (cases "a \<in> span MEM_BITMAP_BASE 1440")
    case True
    then show ?thesis using span_bounds [of MEM_BITMAP_BASE 1440 a] by (simp add: MEM_BITMAP_BASE_def)
  next
    case False
    then obtain d where d: "d \<in> set (mem_cells boot_mem)" "a \<in> bytes4 d" using m unfolding mem_init_bytes_def b by blast
    then have "0xc0010000 \<le> unat d \<and> unat d + 4 \<le> 0xc0010100"
      by (auto simp: mem_cells_def boot_mem_def bits_field_def phy_addr_start_def pool_size_def vaddr_start_def)
    then show ?thesis using c [OF d(2)] by auto
  qed
  show "0xc0000e00 \<le> unat a \<and> unat a < 0xc0000e1c" if "a \<in> lock_bytes 0xc0000e00"
    using that by (auto simp: lock_bytes_def sem_cells_def list_cells_iff lock_semaphore_def sem_waiters_def lock_holder_def holder_repeat_num_def bytes4_def)
  show "0xc0000f00 \<le> unat a \<and> unat a < 0xc0000f54" if r: "a \<in> ring_bytes 0xc0000f00"
  proof -
    obtain i where i: "i < 21" "a \<in> bytes4 (0xc0000f00 + of_nat (4 * i))" using r by (auto simp: ring_bytes_def ring_cells_def)
    have "unat (0xc0000f00 + of_nat (4 * i) :: u32) = 0xc0000f00 + 4 * i" using i(1) by (simp add: unat_word_ariths unat_of_nat)
    then show ?thesis using c [OF i(2)] i(1) by simp
  qed
qed

lemma boot_areas_apart: "pairwise_apart (init_areas boot_kernel_objs 0x2000000 0xc009e000)"
  "\<forall>A \<in> set (take 3 (init_areas boot_kernel_objs 0x2000000 0xc009e000)). span 0xc0000d00 (Suc (length [])) \<inter> A = {}"
proof -
  note b = boot_init_bytes boot_thread_bytes
  let ?I = "idt_area boot_idt" and ?M = "mem_init_bytes boot_mem 0x2000000" and ?T = "thread_bytes boot_threads [0xc009e000]"
    and ?L = "lock_bytes 0xc0000e00" and ?R = "ring_bytes 0xc0000f00"
  have "?I \<inter> ?M = {}" "?I \<inter> ?T = {}" "?I \<inter> ?L = {}" "?I \<inter> ?R = {}" "?M \<inter> ?T = {}" "?M \<inter> ?L = {}" "?M \<inter> ?R = {}" "?T \<inter> ?L = {}" "?T \<inter> ?R = {}" "?L \<inter> ?R = {}"
    using b by fastforce+
  then show "pairwise_apart (init_areas boot_kernel_objs 0x2000000 0xc009e000)"
    by (simp add: init_areas_def boot_kernel_objs_def boot_kbd_def)
  have "0xc0000d00 \<notin> ?I" "0xc0000d00 \<notin> ?M" "0xc0000d00 \<notin> ?T" using b [of "0xc0000d00"] by auto
  then show "\<forall>A \<in> set (take 3 (init_areas boot_kernel_objs 0x2000000 0xc009e000)). span 0xc0000d00 (Suc (length [])) \<inter> A = {}"
    by (simp add: init_areas_def boot_kernel_objs_def)
qed

lemma boot_init_ready: "\<exists>(s :: idt_machine) fs. init_ready boot_kernel_objs fs 0x2000000 0xc009e000 [] s"
proof -
  let ?m = "boot_mem_machine\<lparr>esp := 0xc009efd0\<rparr>"
  define s where "s = with_idtr ?m"
  have m: "pmem s = pmem boot_mem_machine" "cr3 s = cr3 boot_mem_machine" and e: "esp s = 0xc009efd0" "eflags s = eflags boot_mem_machine"
    by (simp_all add: s_def with_idtr_def with_screen_def machine.defs vga_machine.defs)
  note i = mem_indep [OF m]
  have ka: "kaddr s = kaddr boot_machine" and kc: "kcell s = kcell boot_machine"
    using i upd_within_kaddr [OF boot_mem_upd] upd_within_kcell [OF boot_mem_upd] by simp_all
  let ?fs = "map (\<lambda>i. peek32 s (0xc0020400 + of_nat (4 * i))) [0..<48]"
  have "wroom s 0xc0020400 48" "room s p n = room (with_idtr boot_machine) p n" "wroom s p n = wroom (with_idtr boot_machine) p n" for p n
    using boot_idt_ok by (simp_all add: idt_ok_def warr_def wroom_def room_def kc ka with_idtr_mem boot_idt_def)
  then have idt: "idt_ok s boot_idt ?fs"
    using boot_idt_ok warr_ex [of s "0xc0020400" 48] by (simp add: idt_ok_def boot_idt_def)
  have tk: "tasks_ok s boot_threads [0xc009e000]" by (rule boot_tasks [OF ka])
  then have g: "kcell s 0xc0000c00" "\<forall>p \<in> set [0xc009e000]. page_of 0xc0000c00 \<noteq> page_of p" by (simp_all add: tasks_ok_def boot_globals)
  have mr: "mem_ready s boot_mem 0x2000000" using boot_mem_ready mem_ready_same [OF m] by simp
  have "kcell s 0xc0000b00" using boot_total_cell kc by simp
  moreover have tr: "translate s 0xb00 = translate s 0xc0000b00"
  proof -
    have "translate boot_machine 0xc0000b00 = Some 0xb00" using boot_page(1) [of "0xc0000"] by (simp add: translate_def phys_addr_def)
    then show ?thesis using boot_total(1) i(1) boot_mem_upd by (simp add: upd_within_def)
  qed
  moreover have "peek32 s 0xc0000b00 = 0x2000000" using boot_total(2) tr i(1,5) by (simp add: peek32_def)
  moreover have "bytes4 0xc0000b00 \<inter> idt_area boot_idt = {}" using boot_init_bytes(1) by (fastforce simp: bytes4_def)
  moreover have "esp_ok s 0xc009e000" "intr_off s"
    using e upd_registers(2) [OF boot_mem_upd] by (simp_all add: esp_ok_def intr_off_def EFLAGS_IF_def aligned4_def boot_machine_def)
  moreover have "cstr s 0xc0000d00 []" by (simp only: mem_inv_indep(2) [OF m] boot_mem_name)
  ultimately have "init_ready boot_kernel_objs ?fs 0x2000000 0xc009e000 [] s"
    unfolding init_ready_def using idt mr tk boot_lock_cells [OF g] boot_queue_cells [OF g] boot_areas_apart
    by (simp add: boot_kernel_objs_def boot_kbd_def)
  then show ?thesis by blast
qed

subsection \<open>Properties\<close>

text \<open>
  C1: \<open>main\<close> brings the whole kernel up. From the machine the loader leaves, it reaches its
  endless loop with interrupts on, and there the invariants of all the components hold together:
  the page allocator's with both bitmaps clear, the scheduler's with the main thread running
  and no other, the console lock free, the keyboard's queue empty, all 48 gates as written, the
  timer's and the keyboard's handlers in the table and the general one in every other place.
\<close>

theorem main_correct:
  fixes s :: "'z idt_machine_scheme"
  assumes "init_ready bo fs n cur cs s"
  shows "\<exists>t. main_start bo s = Inr (INTR_OFF, t) \<and> booted bo fs n cur \<lparr>running = cur, ready = [], blocked = [], contexts = ctx\<rparr> t \<and>
    \<not> intr_off t \<and> esp t = esp s \<and> ports_out t = ports_out s @ init_ports \<and> main bo s = Inl Diverge"
proof -
  let ?v = "\<lparr>running = cur, ready = [], blocked = [], contexts = ctx\<rparr>" and ?s = "s\<lparr>console := console s @ [PrintkDebug]\<rparr>"
  from init_all_spec [OF init_ready_log [OF assms, of "console s @ [PrintkDebug]"] refl, of ctx] obtain u where
    u: "init_all bo ?s = Inr ((), u)" "booted bo fs n cur ?v u" "ports_out u = ports_out s @ init_ports" "esp u = esp s" "eflags u = eflags s" by auto
  define t0 where "t0 = u\<lparr>console := console u @ [Printk ''Toilet OS Start Complete!\<newline>'' [],
    PrintkColor ''Hello!\<newline>'' (color_code blue) (color_code red) [],
    PrintkColor ''Welcome to Toilet OS where every App can shits!\<newline>'' (color_code blue) (color_code red) []]\<rparr>"
  let ?t = "t0\<lparr>eflags := eflags t0 OR EFLAGS_IF\<rparr>"
  have off: "intr_off t0" using u(5) assms by (simp add: t0_def intr_off_def init_ready_def)
  have run: "main_start bo s = Inr (INTR_OFF, ?t)"
    using u(1) intr_enabled [OF off] by (simp add: main_start_def cseq_def cbind_def log_console_def t0_def)
  moreover have "booted bo fs n cur ?v ?t" using u(2) booted_same [of ?t u] by (simp add: t0_def)
  moreover have "main bo s = Inl Diverge" using run by (simp add: main_def cseq_def cbind_def fail_with_def)
  ultimately show ?thesis using u(3,4) intr_enabled [OF off] by (intro exI [of _ ?t]) (simp add: t0_def)
qed


theorem main_correct_witness:
  "\<exists>(s :: idt_machine) t. main_start boot_kernel_objs s = Inr (INTR_OFF, t) \<and> \<not> intr_off t \<and>
     peek32 t (idt_table boot_idt + 132) = 0xc0004100 \<and> main boot_kernel_objs s = Inl Diverge"
proof -
  from boot_init_ready obtain s :: idt_machine and fs where s: "init_ready boot_kernel_objs fs 0x2000000 0xc009e000 [] s" by blast
  from main_correct [OF s] obtain t where
    t: "main_start boot_kernel_objs s = Inr (INTR_OFF, t)" "\<not> intr_off t" "main boot_kernel_objs s = Inl Diverge"
      "warr t (idt_table boot_idt) ((replicate 48 (general_handler boot_idt))[32 := 0xc0004000, 33 := 0xc0004100])"
    by (auto simp: booted_def boot_kernel_objs_def)
  have "peek32 t (idt_table boot_idt + of_nat (4 * 33)) = ((replicate 48 (general_handler boot_idt))[32 := 0xc0004000, 33 := 0xc0004100]) ! 33"
    using t(4) unfolding warr_def by (elim conjE allE [of _ 33]) simp
  then have "peek32 t (idt_table boot_idt + 132) = 0xc0004100" by simp
  then show ?thesis using t(1-3) by blast
qed

end
