(* ===== verification/Spec2Isabelle.thy ===== *)
theory Spec2Isabelle
  imports Prelude Machine Interrupt Boot KList CString Bitmap Paging KSpace Memory MemInit Thread ThreadStart Scheduling Sync Lock Mutex Vga PrintAsm Idt PortIO Timer IOQueue Keyboard Printk Console Init
begin

text \<open>
  A model of the ToiletOS kernel, a small 32-bit kernel for the i386 in C with a little assembly
  code, and what is proved of it.

  The program and its parts. The boot sector (src/mbr/mbr.S) reads the loader, the loader
  (src/mbr/loader.S) asks the BIOS for the size of memory, builds the first page tables, loads the
  kernel at 0xc0001500 and jumps to \<open>main\<close> (src/kernel/main.c). \<open>main\<close> calls \<open>init_all\<close> (src/kernel/init.c), which
  initialises in turn the interrupt table and the two interrupt controllers (kernel/interrupt.c),
  the timer (device/timer.c), the memory manager (kernel/memory.c, on the bitmaps of
  kernel/bitmap.c), the threads (kernel/thread/thread.c with kernel/switch.S, on the lists of
  include/kernel/list.c), the console with its lock (device/console.c, on kernel/thread/sync.c) and
  the keyboard (device/keyboard.c, on the queue of device/ioqueue.c); then it turns
  interrupts on. From there everything happens in interrupts: a clock tick may switch to
  another thread, a key is decoded, printed and queued. Output goes through libs/printk.c to
  libs/vga_basic.c, single characters through kernel/print.S; libs/string.c is used throughout.

  The machine and the shape of the model. Theory Machine has one record of the machine: physical
  memory, CR3, the flags, the registers that switch.S saves, a log of the bytes sent to
  ports and a log of the output calls of the components above printk.c. A C function is a
  computation \<open>('s, 'a) comp\<close>, a function from a machine to a result with a new machine or to a failure;
  its arguments are the C arguments, pointers are 32-bit words, and every access to memory is
  a walk through the page tables in memory. Structures are not records of the model but bytes in
  memory at the offsets the compiler gives them, so that aliasing is what it is in C (a queue whose
  lock lies over its other fields is one of the findings). The addresses of global variables and of string
  literals are chosen by the linker: they are arguments, collected in records such as
  \<open>thread_objs\<close>, \<open>mem_objs\<close>, \<open>idt_objs\<close> and \<open>kbd_objs\<close>. Integers have their C width and wrap as the C code
  does; signed overflow, which C leaves undefined, is a failure. The failures are \<open>Panic\<close> (an ASSERT,
  with file, line, function and condition), \<open>Page_Fault\<close>, \<open>Misaligned\<close>, \<open>Out_Of_Bounds\<close>,
  \<open>Signed_Overflow\<close>, \<open>Divide_Error\<close> and \<open>Diverge\<close>. Devices that extend the machine (video memory with
  its cursor, the register of the interrupt table) extend the record, and all other computations are
  polymorphic in the extension. A computation that switches threads ends in the machine of the other
  thread; what the source does after the call, when the thread runs again, is a computation
  of its own with the suffix \<open>resume\<close>.

  Theories, the code they model, and what their lemmas show.

  \<^item> Prelude: integer types, failures, computations and their sequencing, words and alignment.
  \<^item> Machine, Boot, Paging, KSpace: the machine; the page tables of setup\_page in loader.S; page tables that
    map themselves; states with more pages mapped. The relations \<open>upd_within\<close> (only bytes of a set
    changed), \<open>extends_within\<close> (and pages added) and \<open>works\<close> (in Init) are the frames of all
    later proofs.
  \<^item> Interrupt: \<open>intr_enable\<close>, \<open>intr_disable\<close>, \<open>intr_set_status\<close>, \<open>intr_get_status\<close> of kernel/interrupt.c.
  \<^item> KList: include/kernel/list.c. \<open>klist\<close> relates a list in memory to its nodes; each operation is that of a HOL
    list, and together they are a queue.
  \<^item> CString: libs/string.c. \<open>blk\<close>, \<open>cstr\<close>, \<open>room\<close> describe bytes, strings and writable space; what each function
    computes and where it writes, the conversion of numbers and its inverse.
  \<^item> Bitmap: kernel/bitmap.c. The scans return the first free bit or run; where they do not is
    proved as well.
  \<^item> Memory, MemInit: kernel/memory.c. \<open>mem_inv\<close> is the invariant of the two pools and their mapping; allocation
    keeps it and returns fresh, zeroed, disjoint pages, and its errors are the ones stated.
  \<^item> Thread, ThreadStart, Scheduling: kernel/thread/thread.c and kernel/switch.S. \<open>sched_inv\<close> says that the ready queue
    holds threads with a saved context; \<open>kernel_inv\<close> adds the allocator. An abstract scheduler (\<open>sched_spec\<close>:
    who runs, who waits, with which context) is refined by every execution of work, preemption, blocking and
    unblocking, which gives the round trip of contexts and the bounds on waiting.
  \<^item> Sync, Lock, Mutex: kernel/thread/sync.c. Semaphores refine \<open>down_spec\<close> and \<open>up_spec\<close>; a lock shared by threads in any
    interleaving is the inductive state machine \<open>lock_step\<close>, whose invariant gives mutual exclusion,
    that no wake-up is lost and that no ASSERT fails; runs of the machine are runs of it.
  \<^item> Vga, PrintAsm: libs/vga_basic.c, libs/port.c and kernel/print.S. Both screen drivers implement a terminal
    (\<open>term_char\<close>, \<open>term_aput\<close>) over 2000 cells and a position, each with its own idea of the cursor.
  \<^item> Idt, PortIO: the rest of kernel/interrupt.c, kernel/debug.c, include/io.h. The gates decode to the entries of
    the vectors, the table holds the handlers, unexpected interrupts stop the kernel; block transfers.
  \<^item> Timer: device/timer.c. A thread keeps the processor for exactly as many ticks as its slice has.
  \<^item> IOQueue, Keyboard: device/ioqueue.c, device/keyboard.c. The queue refines a bounded first-in first-out queue as long as
    nobody waits, and it is proved that the first reader waits for ever; the handler refines an abstract
    keyboard (\<open>key_spec\<close>, \<open>kbd_spec\<close>).
  \<^item> Printk, Console: libs/printk.c, device/console.c. \<open>printk\<close> shows the text that its format stands for (\<open>render\<close>); a call
    through the console prints its text in one piece or waits.
  \<^item> Init: kernel/init.c, kernel/main.c, boot/entry.c. All initialisations composed: when \<open>main\<close> turns interrupts on,
    the invariants of all components hold together.

  Interfaces are locales, each interpreted on the model's definitions in the theory that
  provides them: the store of memory cells, the queue of nodes, the allocator whose pages stay
  apart, the invariant of a step relation. The properties are numbered; each stands after the text that says
  what it means, and its witness, where it has premises, applies it on the machine at boot.

  Bounds. Loops that follow a counter recurse on it; loops that follow the data (strings, lists,
  the expansion of a format) are partial functions into \<open>option\<close>, and that they return is part of
  what is proved. There is no fuel. The witnesses run on a machine with 32 MB of memory
  and the globals below 0xc0100000; the theorems hold for every layout their premises admit, up to
  the limits they name (formats and texts of \<open>printk\<close> below 100 characters, at most 63 characters in a queue, names of
  at most 15 characters).

  Not modelled, and why. The boot sector, the rest of the loader and the multiboot header are real-mode or
  start-up code outside the kernel's C program. The entry code of the interrupts (kernel/kernel.S)
  saves segment registers and the processor's interrupt frame, which the machine does not have: handlers are
  computations that start with interrupts off on the stack of the interrupted thread. How the compiler uses
  the stack inside a function is not modelled, nor when an interrupt arrives: interleavings are quantified over. The calls of
  printk.c by other components are entries of a log (what printk.c then does is in
  Printk); the values devices present at ports are parameters; that the timer interrupts as it
  is programmed, and what the controllers do with their masks, is the devices' part. Header files
  hold prototypes and constants; build files and emulator settings have no behaviour.
\<close>

end
